(* ===== verification/Prelude.thy ===== *)
theory Prelude
  imports Main "HOL-Library.Word"
begin

text \<open>
  Shared ground of the development: bytes and byte strings (\<open>DBusString\<close> contents), the
  allocation oracle that stands for \<open>malloc\<close>, generic list facts, and the locale of
  deterministic machines whose invariant lemma every component with state uses.
\<close>

section \<open>Bytes and strings\<close>

type_synonym byte = "8 word"

text \<open>A C string literal as the bytes of a \<open>DBusString\<close>.\<close>

definition ascii :: "string \<Rightarrow> byte list" where
  "ascii s = map of_char s"

lemma ascii_Nil [simp]: "ascii [] = []"
  by (simp add: ascii_def)

lemma ascii_Cons [simp]: "ascii (c # s) = of_char c # ascii s"
  by (simp add: ascii_def)

text \<open>
  Reading a C string at an index: every \<open>DBusString\<close> keeps a nul byte after its last byte.
\<close>

definition str_byte :: "byte list \<Rightarrow> nat \<Rightarrow> byte" where
  "str_byte s i = (if i < length s then s ! i else 0)"

lemma str_byte_0 [simp]: "str_byte (c # s) 0 = c" "str_byte [] 0 = 0"
  by (simp_all add: str_byte_def)

section \<open>Allocation\<close>

text \<open>
  Every call that may run out of memory consumes one answer of an oracle: the head of a list of
  booleans, \<open>True\<close> for success; when the list is used up every further allocation succeeds. A
  theorem for all oracles covers every pattern of allocation failures.
\<close>

type_synonym mem_oracle = "bool list"

fun alloc :: "mem_oracle \<Rightarrow> bool \<times> mem_oracle" where
  "alloc [] = (True, [])"
| "alloc (b # bs) = (b, bs)"

definition never_fails :: "mem_oracle \<Rightarrow> bool" where
  "never_fails orc \<longleftrightarrow> False \<notin> set orc"

lemma alloc_never_fails:
  "never_fails orc \<Longrightarrow> alloc orc = (ok, orc') \<Longrightarrow> ok \<and> never_fails orc'"
  by (cases orc) (auto simp: never_fails_def)

lemma never_fails_Nil [simp]: "never_fails []"
  by (simp add: never_fails_def)

section \<open>Collections of facts\<close>

named_theorems char_class "definitions of the character classes of the validators"

section \<open>Deterministic machines\<close>

text \<open>
  A component that reacts to events: an initial state, a step function and a predicate every
  step keeps. The conclusion is about whole runs.
\<close>

fun run :: "('s \<Rightarrow> 'e \<Rightarrow> 's) \<Rightarrow> 's \<Rightarrow> 'e list \<Rightarrow> 's" where
  "run step s [] = s"
| "run step s (e # es) = run step (step s e) es"

lemma run_append: "run step s (es @ fs) = run step (run step s es) fs"
  by (induction es arbitrary: s) simp_all

locale machine =
  fixes init :: "'s" and step :: "'s \<Rightarrow> 'e \<Rightarrow> 's" and inv :: "'s \<Rightarrow> bool"
  assumes init_inv: "inv init"
    and step_inv: "inv s \<Longrightarrow> inv (step s e)"
begin

lemma run_inv: "inv s \<Longrightarrow> inv (run step s es)"
  by (induction es arbitrary: s) (simp_all add: step_inv)

lemma reachable_inv: "inv (run step init es)"
  by (rule run_inv) (rule init_inv)

end

section \<open>Data taken in pieces\<close>

text \<open>
  A consumer that is fed a message in pieces and finished: what the state owes to the message so far
  is a relation, kept by every feed and sufficient at the end.
\<close>

locale incremental =
  fixes fed :: "'s \<Rightarrow> 'a list \<Rightarrow> bool" and feed :: "'s \<Rightarrow> 'a list \<Rightarrow> 's" and finish :: "'s \<Rightarrow> 'b"
    and whole :: "'a list \<Rightarrow> 'b" and ok :: "'a list \<Rightarrow> bool"
  assumes feed: "fed s m \<Longrightarrow> ok b \<Longrightarrow> fed (feed s b) (m @ b)"
    and finish: "fed s m \<Longrightarrow> finish s = whole m"
begin

lemma feed_pieces: "fed s m \<Longrightarrow> list_all ok bs \<Longrightarrow> fed (foldl feed s bs) (m @ concat bs)"
proof (induction bs arbitrary: s m)
  case (Cons b bs)
  then show ?case using Cons.IH[OF feed[of s m b]] by simp
qed simp

lemma finish_pieces: "fed s m \<Longrightarrow> list_all ok bs \<Longrightarrow> finish (foldl feed s bs) = whole (m @ concat bs)"
  by (rule finish) (rule feed_pieces)

lemma pieces_irrelevant:
  "fed s m \<Longrightarrow> list_all ok bs \<Longrightarrow> list_all ok bs' \<Longrightarrow> concat bs = concat bs' \<Longrightarrow>
   finish (foldl feed s bs) = finish (foldl feed s bs')"
  by (simp add: finish_pieces)

end

section \<open>Lists\<close>

lemma takeWhile_dropWhile_set: "x \<in> set xs \<Longrightarrow> x \<in> set (takeWhile P xs) \<or> x \<in> set (dropWhile P xs)"
  by (metis Un_iff set_append takeWhile_dropWhile_id)

text \<open>The last occurrence of a value removed.\<close>

definition remove_last :: "'a \<Rightarrow> 'a list \<Rightarrow> 'a list" where
  "remove_last x xs = rev (remove1 x (rev xs))"

lemma remove_last_append [simp]: "remove_last x (xs @ [x]) = xs"
  by (simp add: remove_last_def)

lemma remove_last_split:
  "x \<notin> set bs \<Longrightarrow> remove_last x (as @ x # bs) = as @ bs"
  by (simp add: remove_last_def remove1_append)

lemma remove_last_absent: "x \<notin> set xs \<Longrightarrow> remove_last x xs = xs"
  by (simp add: remove_last_def remove1_idem)

end
