(* ===== verification/Protocol.thy ===== *)
theory Protocol
  imports Prelude
begin

text \<open>
  The constants of \<open>dbus/dbus-protocol.h\<close>, the result type of the validators
  (\<open>dbus/dbus-marshal-validate.h\<close>) and the classification of type codes:
  \<open>dbus_type_is_container\<close>, \<open>dbus_type_is_basic\<close>, \<open>dbus_type_is_fixed\<close> of
  \<open>dbus/dbus-signature.c\<close>, \<open>_dbus_type_is_valid\<close>, \<open>_dbus_type_get_alignment\<close> and
  \<open>_dbus_first_type_in_signature\<close> of \<open>dbus/dbus-marshal-basic.c\<close>.
\<close>

section \<open>Type codes\<close>

abbreviation DBUS_TYPE_INVALID :: byte where "DBUS_TYPE_INVALID \<equiv> 0"
abbreviation DBUS_TYPE_BYTE :: byte where "DBUS_TYPE_BYTE \<equiv> 121"
abbreviation DBUS_TYPE_BOOLEAN :: byte where "DBUS_TYPE_BOOLEAN \<equiv> 98"
abbreviation DBUS_TYPE_INT16 :: byte where "DBUS_TYPE_INT16 \<equiv> 110"
abbreviation DBUS_TYPE_UINT16 :: byte where "DBUS_TYPE_UINT16 \<equiv> 113"
abbreviation DBUS_TYPE_INT32 :: byte where "DBUS_TYPE_INT32 \<equiv> 105"
abbreviation DBUS_TYPE_UINT32 :: byte where "DBUS_TYPE_UINT32 \<equiv> 117"
abbreviation DBUS_TYPE_INT64 :: byte where "DBUS_TYPE_INT64 \<equiv> 120"
abbreviation DBUS_TYPE_UINT64 :: byte where "DBUS_TYPE_UINT64 \<equiv> 116"
abbreviation DBUS_TYPE_DOUBLE :: byte where "DBUS_TYPE_DOUBLE \<equiv> 100"
abbreviation DBUS_TYPE_STRING :: byte where "DBUS_TYPE_STRING \<equiv> 115"
abbreviation DBUS_TYPE_OBJECT_PATH :: byte where "DBUS_TYPE_OBJECT_PATH \<equiv> 111"
abbreviation DBUS_TYPE_SIGNATURE :: byte where "DBUS_TYPE_SIGNATURE \<equiv> 103"
abbreviation DBUS_TYPE_ARRAY :: byte where "DBUS_TYPE_ARRAY \<equiv> 97"
abbreviation DBUS_TYPE_VARIANT :: byte where "DBUS_TYPE_VARIANT \<equiv> 118"
abbreviation DBUS_TYPE_STRUCT :: byte where "DBUS_TYPE_STRUCT \<equiv> 114"
abbreviation DBUS_TYPE_DICT_ENTRY :: byte where "DBUS_TYPE_DICT_ENTRY \<equiv> 101"
abbreviation DBUS_STRUCT_BEGIN_CHAR :: byte where "DBUS_STRUCT_BEGIN_CHAR \<equiv> 40"
abbreviation DBUS_STRUCT_END_CHAR :: byte where "DBUS_STRUCT_END_CHAR \<equiv> 41"
abbreviation DBUS_DICT_ENTRY_BEGIN_CHAR :: byte where "DBUS_DICT_ENTRY_BEGIN_CHAR \<equiv> 123"
abbreviation DBUS_DICT_ENTRY_END_CHAR :: byte where "DBUS_DICT_ENTRY_END_CHAR \<equiv> 125"

lemma type_codes_ascii:
  "ascii ''ybnqiuxtdsogavre(){}'' =
   [DBUS_TYPE_BYTE, DBUS_TYPE_BOOLEAN, DBUS_TYPE_INT16, DBUS_TYPE_UINT16, DBUS_TYPE_INT32,
    DBUS_TYPE_UINT32, DBUS_TYPE_INT64, DBUS_TYPE_UINT64, DBUS_TYPE_DOUBLE, DBUS_TYPE_STRING,
    DBUS_TYPE_OBJECT_PATH, DBUS_TYPE_SIGNATURE, DBUS_TYPE_ARRAY, DBUS_TYPE_VARIANT,
    DBUS_TYPE_STRUCT, DBUS_TYPE_DICT_ENTRY, DBUS_STRUCT_BEGIN_CHAR, DBUS_STRUCT_END_CHAR,
    DBUS_DICT_ENTRY_BEGIN_CHAR, DBUS_DICT_ENTRY_END_CHAR]"
  by simp

abbreviation DBUS_MAXIMUM_NAME_LENGTH :: nat where "DBUS_MAXIMUM_NAME_LENGTH \<equiv> 255"
abbreviation DBUS_MAXIMUM_SIGNATURE_LENGTH :: nat where "DBUS_MAXIMUM_SIGNATURE_LENGTH \<equiv> 255"
abbreviation DBUS_MAXIMUM_TYPE_RECURSION_DEPTH :: nat where
  "DBUS_MAXIMUM_TYPE_RECURSION_DEPTH \<equiv> 32"

text \<open>The verdicts of \<open>DBusValidity\<close> that the modelled validators return.\<close>

datatype DBusValidity =
    DBUS_VALIDITY_UNKNOWN_OOM_ERROR
  | DBUS_VALID
  | DBUS_INVALID_UNKNOWN_TYPECODE
  | DBUS_INVALID_MISSING_ARRAY_ELEMENT_TYPE
  | DBUS_INVALID_SIGNATURE_TOO_LONG
  | DBUS_INVALID_EXCEEDED_MAXIMUM_ARRAY_RECURSION
  | DBUS_INVALID_EXCEEDED_MAXIMUM_STRUCT_RECURSION
  | DBUS_INVALID_STRUCT_ENDED_BUT_NOT_STARTED
  | DBUS_INVALID_STRUCT_STARTED_BUT_NOT_ENDED
  | DBUS_INVALID_STRUCT_HAS_NO_FIELDS
  | DBUS_INVALID_EXCEEDED_MAXIMUM_DICT_ENTRY_RECURSION
  | DBUS_INVALID_DICT_ENTRY_ENDED_BUT_NOT_STARTED
  | DBUS_INVALID_DICT_ENTRY_STARTED_BUT_NOT_ENDED
  | DBUS_INVALID_DICT_ENTRY_HAS_NO_FIELDS
  | DBUS_INVALID_DICT_ENTRY_HAS_ONLY_ONE_FIELD
  | DBUS_INVALID_DICT_ENTRY_HAS_TOO_MANY_FIELDS
  | DBUS_INVALID_DICT_ENTRY_NOT_INSIDE_ARRAY
  | DBUS_INVALID_DICT_KEY_MUST_BE_BASIC_TYPE
  | DBUS_INVALID_NOT_ENOUGH_DATA
  | DBUS_INVALID_ALIGNMENT_PADDING_NOT_NUL
  | DBUS_INVALID_BOOLEAN_NOT_ZERO_OR_ONE
  | DBUS_INVALID_LENGTH_OUT_OF_BOUNDS
  | DBUS_INVALID_BAD_PATH
  | DBUS_INVALID_BAD_UTF8_IN_STRING
  | DBUS_INVALID_ARRAY_LENGTH_EXCEEDS_MAXIMUM
  | DBUS_INVALID_ARRAY_LENGTH_INCORRECT
  | DBUS_INVALID_STRING_MISSING_NUL
  | DBUS_INVALID_SIGNATURE_LENGTH_OUT_OF_BOUNDS
  | DBUS_INVALID_SIGNATURE_MISSING_NUL
  | DBUS_INVALID_VARIANT_SIGNATURE_LENGTH_OUT_OF_BOUNDS
  | DBUS_INVALID_VARIANT_SIGNATURE_BAD
  | DBUS_INVALID_VARIANT_SIGNATURE_MISSING_NUL
  | DBUS_INVALID_VARIANT_SIGNATURE_EMPTY
  | DBUS_INVALID_VARIANT_SIGNATURE_SPECIFIES_MULTIPLE_VALUES
  | DBUS_INVALID_TOO_MUCH_DATA
  | DBUS_INVALID_BAD_BYTE_ORDER
  | DBUS_INVALID_BAD_PROTOCOL_VERSION
  | DBUS_INVALID_BAD_MESSAGE_TYPE
  | DBUS_INVALID_BAD_SERIAL
  | DBUS_INVALID_INSANE_FIELDS_ARRAY_LENGTH
  | DBUS_INVALID_INSANE_BODY_LENGTH
  | DBUS_INVALID_MESSAGE_TOO_LONG
  | DBUS_INVALID_HEADER_FIELD_CODE
  | DBUS_INVALID_HEADER_FIELD_HAS_WRONG_TYPE
  | DBUS_INVALID_USES_LOCAL_INTERFACE
  | DBUS_INVALID_USES_LOCAL_PATH
  | DBUS_INVALID_HEADER_FIELD_APPEARS_TWICE
  | DBUS_INVALID_BAD_DESTINATION
  | DBUS_INVALID_BAD_INTERFACE
  | DBUS_INVALID_BAD_MEMBER
  | DBUS_INVALID_BAD_ERROR_NAME
  | DBUS_INVALID_BAD_SENDER
  | DBUS_INVALID_MISSING_PATH
  | DBUS_INVALID_MISSING_INTERFACE
  | DBUS_INVALID_MISSING_MEMBER
  | DBUS_INVALID_MISSING_ERROR_NAME
  | DBUS_INVALID_MISSING_REPLY_SERIAL

section \<open>Classes of type codes\<close>

text \<open>\<open>_dbus_type_is_valid\<close>: the cases of its switch.\<close>

definition dbus_type_is_valid :: "byte \<Rightarrow> bool" where
  "dbus_type_is_valid typecode \<longleftrightarrow>
     typecode = DBUS_TYPE_BYTE \<or> typecode = DBUS_TYPE_BOOLEAN \<or> typecode = DBUS_TYPE_INT16 \<or>
     typecode = DBUS_TYPE_UINT16 \<or> typecode = DBUS_TYPE_INT32 \<or> typecode = DBUS_TYPE_UINT32 \<or>
     typecode = DBUS_TYPE_INT64 \<or> typecode = DBUS_TYPE_UINT64 \<or> typecode = DBUS_TYPE_DOUBLE \<or>
     typecode = DBUS_TYPE_STRING \<or> typecode = DBUS_TYPE_OBJECT_PATH \<or>
     typecode = DBUS_TYPE_SIGNATURE \<or> typecode = DBUS_TYPE_ARRAY \<or>
     typecode = DBUS_TYPE_STRUCT \<or> typecode = DBUS_TYPE_DICT_ENTRY \<or>
     typecode = DBUS_TYPE_VARIANT"

definition TYPE_IS_CONTAINER :: "byte \<Rightarrow> bool" where
  "TYPE_IS_CONTAINER typecode \<longleftrightarrow>
     typecode = DBUS_TYPE_STRUCT \<or> typecode = DBUS_TYPE_DICT_ENTRY \<or>
     typecode = DBUS_TYPE_VARIANT \<or> typecode = DBUS_TYPE_ARRAY"

text \<open>
  The public predicates first check their argument (\<open>_dbus_return_val_if_fail\<close>) and answer
  \<open>FALSE\<close> outside the known codes.
\<close>

definition dbus_type_is_container :: "byte \<Rightarrow> bool" where
  "dbus_type_is_container typecode =
     (if \<not> (dbus_type_is_valid typecode \<or> typecode = DBUS_TYPE_INVALID) then False
      else TYPE_IS_CONTAINER typecode)"

definition dbus_type_is_basic :: "byte \<Rightarrow> bool" where
  "dbus_type_is_basic typecode =
     (if \<not> (dbus_type_is_valid typecode \<or> typecode = DBUS_TYPE_INVALID) then False
      else \<not> (typecode = DBUS_TYPE_INVALID \<or> TYPE_IS_CONTAINER typecode))"

definition dbus_type_is_fixed :: "byte \<Rightarrow> bool" where
  "dbus_type_is_fixed typecode =
     (if \<not> (dbus_type_is_valid typecode \<or> typecode = DBUS_TYPE_INVALID) then False
      else typecode = DBUS_TYPE_BYTE \<or> typecode = DBUS_TYPE_BOOLEAN \<or>
        typecode = DBUS_TYPE_INT16 \<or> typecode = DBUS_TYPE_UINT16 \<or>
        typecode = DBUS_TYPE_INT32 \<or> typecode = DBUS_TYPE_UINT32 \<or>
        typecode = DBUS_TYPE_INT64 \<or> typecode = DBUS_TYPE_UINT64 \<or>
        typecode = DBUS_TYPE_DOUBLE)"

definition dbus_type_get_alignment :: "byte \<Rightarrow> nat" where
  "dbus_type_get_alignment typecode =
     (if typecode = DBUS_TYPE_BYTE \<or> typecode = DBUS_TYPE_VARIANT \<or>
         typecode = DBUS_TYPE_SIGNATURE then 1
      else if typecode = DBUS_TYPE_INT16 \<or> typecode = DBUS_TYPE_UINT16 then 2
      else if typecode = DBUS_TYPE_BOOLEAN \<or> typecode = DBUS_TYPE_INT32 \<or>
         typecode = DBUS_TYPE_UINT32 \<or> typecode = DBUS_TYPE_STRING \<or>
         typecode = DBUS_TYPE_OBJECT_PATH \<or> typecode = DBUS_TYPE_ARRAY then 4
      else if typecode = DBUS_TYPE_INT64 \<or> typecode = DBUS_TYPE_UINT64 \<or>
         typecode = DBUS_TYPE_DOUBLE \<or> typecode = DBUS_TYPE_STRUCT \<or>
         typecode = DBUS_TYPE_DICT_ENTRY then 8
      else 0)"

text \<open>The assertions that \<open>t\<close> is no closing character are left to the callers' theorems.\<close>

definition map_type_char_to_type :: "byte \<Rightarrow> byte" where
  "map_type_char_to_type t =
     (if t = DBUS_STRUCT_BEGIN_CHAR then DBUS_TYPE_STRUCT
      else if t = DBUS_DICT_ENTRY_BEGIN_CHAR then DBUS_TYPE_DICT_ENTRY
      else t)"

definition dbus_first_type_in_signature :: "byte list \<Rightarrow> nat \<Rightarrow> byte" where
  "dbus_first_type_in_signature str pos = map_type_char_to_type (str_byte str pos)"


definition basic_codes :: "byte list" where
  "basic_codes = ascii ''ybnqiuxtdsog''"

lemma basic_cases:
  "dbus_type_is_basic c \<longleftrightarrow>
     c = DBUS_TYPE_BYTE \<or> c = DBUS_TYPE_BOOLEAN \<or> c = DBUS_TYPE_INT16 \<or>
     c = DBUS_TYPE_UINT16 \<or> c = DBUS_TYPE_INT32 \<or> c = DBUS_TYPE_UINT32 \<or>
     c = DBUS_TYPE_INT64 \<or> c = DBUS_TYPE_UINT64 \<or> c = DBUS_TYPE_DOUBLE \<or>
     c = DBUS_TYPE_STRING \<or> c = DBUS_TYPE_OBJECT_PATH \<or> c = DBUS_TYPE_SIGNATURE"
  (is "?L \<longleftrightarrow> ?R")
proof
  assume ?L then show ?R
    by (simp add: dbus_type_is_basic_def dbus_type_is_valid_def TYPE_IS_CONTAINER_def
        split: if_splits)
next
  assume ?R then show ?L
    by (elim disjE; simp add: dbus_type_is_basic_def dbus_type_is_valid_def TYPE_IS_CONTAINER_def)
qed

lemma basic_codes_iff: "dbus_type_is_basic c \<longleftrightarrow> c \<in> set basic_codes"
  by (simp add: basic_cases basic_codes_def)

lemma basic_ascii: "\<forall>c \<in> set (ascii ''ybnqiuxtdsog''). dbus_type_is_basic c"
  by (simp add: basic_cases)

text \<open>
  The valid codes are partitioned into basic types and containers, every fixed type is basic, and
  every valid code has an alignment.
\<close>

lemma basic_xor_container:
  "dbus_type_is_valid c \<Longrightarrow> dbus_type_is_basic c \<noteq> dbus_type_is_container c"
  unfolding dbus_type_is_valid_def
  by (elim disjE; simp add: basic_cases dbus_type_is_container_def TYPE_IS_CONTAINER_def
      dbus_type_is_valid_def)

lemma fixed_is_basic: "dbus_type_is_fixed c \<Longrightarrow> dbus_type_is_basic c"
  unfolding dbus_type_is_fixed_def basic_cases by (simp split: if_splits; elim disjE; simp)

lemma alignment_values: "dbus_type_is_valid c \<Longrightarrow> dbus_type_get_alignment c \<in> {1, 2, 4, 8}"
  unfolding dbus_type_is_valid_def by (elim disjE; simp add: dbus_type_get_alignment_def)

end
