(* ===== verification/Signature.thy ===== *)
theory Signature
  imports Protocol
begin

text \<open>
  The signature validator \<open>_dbus_validate_signature_with_reason\<close> of
  \<open>dbus/dbus-marshal-validate.c\<close>: its state, one iteration of its loop, its final checks; the
  grammar of signatures as a datatype with its printer; the validator accepts every printed list of
  types within the limits, and what it accepts without dict entries is such a list.
\<close>

section \<open>The validator\<close>

text \<open>
  The local variables of the C function. The element-count stack is a \<open>DBusList\<close> used from its
  end: here its last element is the head. Popping an empty \<open>DBusList\<close> gives \<open>NULL\<close>,
  that is 0.
\<close>

record sig_state =
  sv_last :: byte
  struct_depth :: nat
  array_depth :: nat
  dict_entry_depth :: nat
  element_count_stack :: "nat list"
  sv_mem :: mem_oracle

fun pop_last :: "nat list \<Rightarrow> nat \<times> nat list" where
  "pop_last [] = (0, [])"
| "pop_last (n # ns) = (n, ns)"

definition push_count :: "nat \<Rightarrow> sig_state \<Rightarrow> DBusValidity + sig_state" where
  "push_count n st =
     (case alloc (sv_mem st) of (ok, m) \<Rightarrow>
        if ok then Inr (st\<lparr>element_count_stack := n # element_count_stack st, sv_mem := m\<rparr>)
        else Inl DBUS_VALIDITY_UNKNOWN_OOM_ERROR)"

definition plain_code :: "byte \<Rightarrow> bool" where
  "plain_code p \<longleftrightarrow>
     p = DBUS_TYPE_BYTE \<or> p = DBUS_TYPE_BOOLEAN \<or> p = DBUS_TYPE_INT16 \<or> p = DBUS_TYPE_UINT16 \<or>
     p = DBUS_TYPE_INT32 \<or> p = DBUS_TYPE_UINT32 \<or> p = DBUS_TYPE_INT64 \<or> p = DBUS_TYPE_UINT64 \<or>
     p = DBUS_TYPE_DOUBLE \<or> p = DBUS_TYPE_STRING \<or> p = DBUS_TYPE_OBJECT_PATH \<or>
     p = DBUS_TYPE_SIGNATURE \<or> p = DBUS_TYPE_VARIANT"

text \<open>The \<open>switch (*p)\<close> at the head of the loop body.\<close>

definition sig_switch :: "byte \<Rightarrow> sig_state \<Rightarrow> DBusValidity + sig_state" where
  "sig_switch p st =
     (if plain_code p then Inr st
      else if p = DBUS_TYPE_ARRAY then
        let st = st\<lparr>array_depth := array_depth st + 1\<rparr> in
        if array_depth st > DBUS_MAXIMUM_TYPE_RECURSION_DEPTH
        then Inl DBUS_INVALID_EXCEEDED_MAXIMUM_ARRAY_RECURSION
        else Inr st
      else if p = DBUS_STRUCT_BEGIN_CHAR then
        let st = st\<lparr>struct_depth := struct_depth st + 1\<rparr> in
        if struct_depth st > DBUS_MAXIMUM_TYPE_RECURSION_DEPTH
        then Inl DBUS_INVALID_EXCEEDED_MAXIMUM_STRUCT_RECURSION
        else push_count 0 st
      else if p = DBUS_STRUCT_END_CHAR then
        if struct_depth st = 0 then Inl DBUS_INVALID_STRUCT_ENDED_BUT_NOT_STARTED
        else if sv_last st = DBUS_STRUCT_BEGIN_CHAR then Inl DBUS_INVALID_STRUCT_HAS_NO_FIELDS
        else Inr (st\<lparr>element_count_stack := snd (pop_last (element_count_stack st)),
                     struct_depth := struct_depth st - 1\<rparr>)
      else if p = DBUS_DICT_ENTRY_BEGIN_CHAR then
        if sv_last st \<noteq> DBUS_TYPE_ARRAY then Inl DBUS_INVALID_DICT_ENTRY_NOT_INSIDE_ARRAY
        else
          let st = st\<lparr>dict_entry_depth := dict_entry_depth st + 1\<rparr> in
          if dict_entry_depth st > DBUS_MAXIMUM_TYPE_RECURSION_DEPTH
          then Inl DBUS_INVALID_EXCEEDED_MAXIMUM_DICT_ENTRY_RECURSION
          else push_count 0 st
      else if p = DBUS_DICT_ENTRY_END_CHAR then
        if dict_entry_depth st = 0 then Inl DBUS_INVALID_DICT_ENTRY_ENDED_BUT_NOT_STARTED
        else
          let st = st\<lparr>dict_entry_depth := dict_entry_depth st - 1\<rparr>;
              (element_count, stack) = pop_last (element_count_stack st);
              st = st\<lparr>element_count_stack := stack\<rparr>
          in if element_count \<noteq> 2 then
               (if element_count = 0 then Inl DBUS_INVALID_DICT_ENTRY_HAS_NO_FIELDS
                else if element_count = 1 then Inl DBUS_INVALID_DICT_ENTRY_HAS_ONLY_ONE_FIELD
                else Inl DBUS_INVALID_DICT_ENTRY_HAS_TOO_MANY_FIELDS)
             else Inr st
      else Inl DBUS_INVALID_UNKNOWN_TYPECODE)"

text \<open>The element of the enclosing container is counted.\<close>

definition sig_count :: "byte \<Rightarrow> sig_state \<Rightarrow> DBusValidity + sig_state" where
  "sig_count p st =
     (if p \<noteq> DBUS_TYPE_ARRAY \<and> p \<noteq> DBUS_DICT_ENTRY_BEGIN_CHAR \<and> p \<noteq> DBUS_STRUCT_BEGIN_CHAR then
        let (element_count, stack) = pop_last (element_count_stack st);
            st = st\<lparr>element_count_stack := stack\<rparr>
        in push_count (element_count + 1) st
      else Inr st)"

text \<open>
  The checks after the switch. \<open>p1\<close> is the byte after \<open>p\<close>, which the code reads even when
  it is the one at \<open>end\<close>.
\<close>

definition sig_checks :: "byte \<Rightarrow> byte \<Rightarrow> sig_state \<Rightarrow> DBusValidity + sig_state" where
  "sig_checks p p1 st =
     (if array_depth st > 0 \<and> p = DBUS_TYPE_ARRAY \<and>
         (p1 = DBUS_STRUCT_END_CHAR \<or> p1 = DBUS_DICT_ENTRY_END_CHAR)
      then Inl DBUS_INVALID_MISSING_ARRAY_ELEMENT_TYPE
      else
        let st = (if array_depth st > 0 \<and> p \<noteq> DBUS_TYPE_ARRAY then st\<lparr>array_depth := 0\<rparr> else st)
        in if sv_last st = DBUS_DICT_ENTRY_BEGIN_CHAR \<and> dbus_type_is_valid p \<and>
              \<not> dbus_type_is_basic p
           then Inl DBUS_INVALID_DICT_KEY_MUST_BE_BASIC_TYPE
           else Inr (st\<lparr>sv_last := p\<rparr>))"

definition sig_step :: "byte \<Rightarrow> byte \<Rightarrow> sig_state \<Rightarrow> DBusValidity + sig_state" where
  "sig_step p p1 st =
     (case sig_switch p st of Inl e \<Rightarrow> Inl e
      | Inr st \<Rightarrow> (case sig_count p st of Inl e \<Rightarrow> Inl e | Inr st \<Rightarrow> sig_checks p p1 st))"

text \<open>
  \<open>while (p != end)\<close>: the list holds the bytes from \<open>p\<close> to \<open>end\<close>, \<open>after\<close> is
  the byte at \<open>end\<close>.
\<close>

fun sig_loop :: "byte \<Rightarrow> byte list \<Rightarrow> sig_state \<Rightarrow> DBusValidity + sig_state" where
  "sig_loop after [] st = Inr st"
| "sig_loop after (p # rest) st =
     (case sig_step p (case rest of [] \<Rightarrow> after | p1 # _ \<Rightarrow> p1) st of
        Inl e \<Rightarrow> Inl e
      | Inr st \<Rightarrow> sig_loop after rest st)"

definition sig_finish :: "sig_state \<Rightarrow> DBusValidity" where
  "sig_finish st =
     (if array_depth st > 0 then DBUS_INVALID_MISSING_ARRAY_ELEMENT_TYPE
      else if struct_depth st > 0 then DBUS_INVALID_STRUCT_STARTED_BUT_NOT_ENDED
      else if dict_entry_depth st > 0 then DBUS_INVALID_DICT_ENTRY_STARTED_BUT_NOT_ENDED
      else DBUS_VALID)"

definition sig_init :: "mem_oracle \<Rightarrow> sig_state" where
  "sig_init m = \<lparr>sv_last = DBUS_TYPE_INVALID, struct_depth = 0, array_depth = 0,
     dict_entry_depth = 0, element_count_stack = [], sv_mem = m\<rparr>"

definition dbus_validate_signature_with_reason ::
  "byte list \<Rightarrow> nat \<Rightarrow> nat \<Rightarrow> mem_oracle \<Rightarrow> DBusValidity" where
  "dbus_validate_signature_with_reason type_str type_pos len m =
     (case push_count 0 (sig_init m) of
        Inl e \<Rightarrow> e
      | Inr st \<Rightarrow>
          if len > DBUS_MAXIMUM_SIGNATURE_LENGTH then DBUS_INVALID_SIGNATURE_TOO_LONG
          else (case sig_loop (str_byte type_str (type_pos + len))
                       (take len (drop type_pos type_str)) st of
                  Inl e \<Rightarrow> e
                | Inr st \<Rightarrow> sig_finish st))"

definition dbus_validate_signature :: "byte list \<Rightarrow> nat \<Rightarrow> nat \<Rightarrow> mem_oracle \<Rightarrow> bool" where
  "dbus_validate_signature str start len m =
     (if len > length str - start then False
      else dbus_validate_signature_with_reason str start len m = DBUS_VALID)"

text \<open>Validity of a whole string when memory is available.\<close>

abbreviation valid_sig :: "byte list \<Rightarrow> bool" where
  "valid_sig s \<equiv> dbus_validate_signature s 0 (length s) []"

section \<open>The grammar of signatures\<close>

text \<open>
  The types a signature names. A dict entry only occurs as an element type of an array, so
  \<open>Dict k t\<close> is the array of entries printed \<open>a{kt}\<close>.
\<close>

datatype dtype =
    Basic byte
  | Variant
  | Array dtype
  | Dict byte dtype
  | Struct "dtype list"

fun sig_of :: "dtype \<Rightarrow> byte list" and sigs_of :: "dtype list \<Rightarrow> byte list" where
  "sig_of (Basic c) = [c]"
| "sig_of Variant = [DBUS_TYPE_VARIANT]"
| "sig_of (Array t) = DBUS_TYPE_ARRAY # sig_of t"
| "sig_of (Dict k t) =
     DBUS_TYPE_ARRAY # DBUS_DICT_ENTRY_BEGIN_CHAR # k # sig_of t @ [DBUS_DICT_ENTRY_END_CHAR]"
| "sig_of (Struct ts) = DBUS_STRUCT_BEGIN_CHAR # sigs_of ts @ [DBUS_STRUCT_END_CHAR]"
| "sigs_of [] = []"
| "sigs_of (t # ts) = sig_of t @ sigs_of ts"

text \<open>
  The limits of the protocol: below \<open>sd\<close> open structs, \<open>dd\<close> open dict entries and
  directly after \<open>ad\<close> array prefixes, no count passes
  \<open>DBUS_MAXIMUM_TYPE_RECURSION_DEPTH\<close>; dict keys are basic; structs have a field.
\<close>

fun within :: "nat \<Rightarrow> nat \<Rightarrow> nat \<Rightarrow> dtype \<Rightarrow> bool"
  and withins :: "nat \<Rightarrow> nat \<Rightarrow> dtype list \<Rightarrow> bool" where
  "within sd dd ad (Basic c) \<longleftrightarrow> dbus_type_is_basic c"
| "within sd dd ad Variant \<longleftrightarrow> True"
| "within sd dd ad (Array t) \<longleftrightarrow>
     ad < DBUS_MAXIMUM_TYPE_RECURSION_DEPTH \<and> within sd dd (ad + 1) t"
| "within sd dd ad (Dict k t) \<longleftrightarrow>
     ad < DBUS_MAXIMUM_TYPE_RECURSION_DEPTH \<and> dd < DBUS_MAXIMUM_TYPE_RECURSION_DEPTH \<and>
     dbus_type_is_basic k \<and> within sd (dd + 1) 0 t"
| "within sd dd ad (Struct ts) \<longleftrightarrow>
     sd < DBUS_MAXIMUM_TYPE_RECURSION_DEPTH \<and> ts \<noteq> [] \<and> withins (sd + 1) dd ts"
| "withins sd dd [] \<longleftrightarrow> True"
| "withins sd dd (t # ts) \<longleftrightarrow> within sd dd 0 t \<and> withins sd dd ts"

section \<open>The validator accepts printed types\<close>

lemma plain_code_iff: "plain_code c \<longleftrightarrow> dbus_type_is_basic c \<or> c = DBUS_TYPE_VARIANT"
  by (auto simp: plain_code_def basic_cases)

lemma plain_not_bracket: "plain_code c \<Longrightarrow> c \<noteq> DBUS_TYPE_ARRAY \<and> c \<noteq> DBUS_STRUCT_BEGIN_CHAR
    \<and> c \<noteq> DBUS_STRUCT_END_CHAR \<and> c \<noteq> DBUS_DICT_ENTRY_BEGIN_CHAR \<and> c \<noteq> DBUS_DICT_ENTRY_END_CHAR
    \<and> c \<noteq> DBUS_TYPE_INVALID"
  unfolding plain_code_def by (elim disjE; simp)

lemma push_count_ok: "sv_mem st = [] \<Longrightarrow> push_count n st = Inr (st\<lparr>element_count_stack := n # element_count_stack st\<rparr>)"
  by (simp add: push_count_def)

lemma step_plain:
  assumes "plain_code c" "sv_mem st = []" "element_count_stack st = n # ns"
    and "sv_last st = DBUS_DICT_ENTRY_BEGIN_CHAR \<Longrightarrow> dbus_type_is_basic c"
  shows "sig_step c p1 st = Inr (st\<lparr>sv_last := c, array_depth := 0,
           element_count_stack := Suc n # ns\<rparr>)"
  using assms plain_not_bracket[OF assms(1)]
  by (auto simp: sig_step_def sig_switch_def sig_count_def sig_checks_def push_count_ok)

lemma step_array:
  assumes "sv_mem st = []" "array_depth st < 32" "p1 \<noteq> DBUS_STRUCT_END_CHAR" 
    "p1 \<noteq> DBUS_DICT_ENTRY_END_CHAR" "sv_last st \<noteq> DBUS_DICT_ENTRY_BEGIN_CHAR"
  shows "sig_step DBUS_TYPE_ARRAY p1 st =
    Inr (st\<lparr>sv_last := DBUS_TYPE_ARRAY, array_depth := array_depth st + 1\<rparr>)"
  using assms
  by (simp add: sig_step_def sig_switch_def plain_code_def sig_count_def sig_checks_def Let_def)

lemma step_open:
  assumes "sv_mem st = []" "struct_depth st < 32"
  shows "sig_step DBUS_STRUCT_BEGIN_CHAR p1 st =
    Inr (st\<lparr>sv_last := DBUS_STRUCT_BEGIN_CHAR, array_depth := 0, struct_depth := struct_depth st + 1,
            element_count_stack := 0 # element_count_stack st\<rparr>)"
  using assms
  by (simp add: sig_step_def sig_switch_def plain_code_def sig_count_def sig_checks_def Let_def
      push_count_ok dbus_type_is_valid_def)

lemma step_close:
  assumes "sv_mem st = []" "struct_depth st > 0" "sv_last st \<noteq> DBUS_STRUCT_BEGIN_CHAR"
    "element_count_stack st = k # n # ns"
  shows "sig_step DBUS_STRUCT_END_CHAR p1 st =
    Inr (st\<lparr>sv_last := DBUS_STRUCT_END_CHAR, array_depth := 0, struct_depth := struct_depth st - 1,
            element_count_stack := Suc n # ns\<rparr>)"
  using assms
  by (simp add: sig_step_def sig_switch_def plain_code_def sig_count_def sig_checks_def Let_def
      push_count_ok dbus_type_is_valid_def)

lemma step_dict_open:
  assumes "sv_mem st = []" "dict_entry_depth st < 32" "sv_last st = DBUS_TYPE_ARRAY"
  shows "sig_step DBUS_DICT_ENTRY_BEGIN_CHAR p1 st =
    Inr (st\<lparr>sv_last := DBUS_DICT_ENTRY_BEGIN_CHAR, array_depth := 0,
            dict_entry_depth := dict_entry_depth st + 1,
            element_count_stack := 0 # element_count_stack st\<rparr>)"
  using assms
  by (simp add: sig_step_def sig_switch_def plain_code_def sig_count_def sig_checks_def Let_def
      push_count_ok dbus_type_is_valid_def)

lemma step_dict_close:
  assumes "sv_mem st = []" "dict_entry_depth st > 0" "element_count_stack st = 2 # n # ns"
  shows "sig_step DBUS_DICT_ENTRY_END_CHAR p1 st =
    Inr (st\<lparr>sv_last := DBUS_DICT_ENTRY_END_CHAR, array_depth := 0, 
            dict_entry_depth := dict_entry_depth st - 1,
            element_count_stack := Suc n # ns\<rparr>)"
  using assms
  by (simp add: sig_step_def sig_switch_def plain_code_def sig_count_def sig_checks_def Let_def
      push_count_ok dbus_type_is_valid_def)

lemmas sig_steps = step_plain step_array step_open step_close step_dict_open step_dict_close

lemma sig_of_first:
  "within sd dd ad t \<Longrightarrow> \<exists>c cs. sig_of t = c # cs \<and> c \<noteq> DBUS_STRUCT_END_CHAR \<and>
     c \<noteq> DBUS_DICT_ENTRY_END_CHAR"
  by (cases t) (auto simp: basic_cases)

definition open_char :: "byte \<Rightarrow> bool" where
  "open_char c \<longleftrightarrow> c = DBUS_STRUCT_BEGIN_CHAR \<or> c = DBUS_DICT_ENTRY_BEGIN_CHAR \<or> c = DBUS_TYPE_ARRAY"

lemma sig_of_last: "within sd dd ad t \<Longrightarrow> \<not> open_char (last (sig_of t))"
proof (induction t arbitrary: sd dd ad)
  case (Basic c)
  then show ?case by (auto simp: open_char_def basic_cases)
next
  case (Array t)
  then show ?case using sig_of_first[of sd dd "ad + 1" t] by auto
qed (auto simp: open_char_def)

lemma sigs_of_last:
  "withins sd dd ts \<Longrightarrow> ts \<noteq> [] \<Longrightarrow> sigs_of ts \<noteq> [] \<and> \<not> open_char (last (sigs_of ts))"
proof (induction ts)
  case (Cons t ts)
  then show ?case using sig_of_first[of sd dd 0 t] sig_of_last[of sd dd 0 t]
    by (cases "ts = []") auto
qed simp

lemma sig_loop_types:
  shows "within sd dd ad t \<Longrightarrow> sd = struct_depth st \<Longrightarrow> dd = dict_entry_depth st \<Longrightarrow>
      ad = array_depth st \<Longrightarrow> sv_mem st = [] \<Longrightarrow> element_count_stack st = n # ns \<Longrightarrow>
      sv_last st \<noteq> DBUS_DICT_ENTRY_BEGIN_CHAR \<Longrightarrow>
      sig_loop after (sig_of t @ rest) st =
      sig_loop after rest (st\<lparr>sv_last := last (sig_of t), array_depth := 0,
                              element_count_stack := Suc n # ns\<rparr>)"
    and "withins sd dd ts \<Longrightarrow> sd = struct_depth st \<Longrightarrow> dd = dict_entry_depth st \<Longrightarrow>
      array_depth st = 0 \<Longrightarrow> sv_mem st = [] \<Longrightarrow> element_count_stack st = n # ns \<Longrightarrow>
      sv_last st \<noteq> DBUS_DICT_ENTRY_BEGIN_CHAR \<Longrightarrow>
      sig_loop after (sigs_of ts @ rest) st =
      sig_loop after rest (st\<lparr>sv_last := (if ts = [] then sv_last st else last (sigs_of ts)),
                              element_count_stack := (n + length ts) # ns\<rparr>)"
proof (induction sd dd ad t and sd dd ts arbitrary: st n ns rest and st n ns rest
    rule: within_withins.induct)
  case (1 sd dd ad c)
  then show ?case by (simp add: step_plain plain_code_iff)
next
  case (2 sd dd ad)
  then show ?case by (simp add: step_plain plain_code_iff)
next
  case (3 sd dd ad t)
  obtain c cs where c: "sig_of t = c # cs" "c \<noteq> DBUS_STRUCT_END_CHAR" "c \<noteq> DBUS_DICT_ENTRY_END_CHAR"
    using 3(2) sig_of_first[of sd dd "ad + 1" t] by auto
  let ?st = "st\<lparr>sv_last := DBUS_TYPE_ARRAY, array_depth := array_depth st + 1\<rparr>"
  have "sig_loop after (sig_of (Array t) @ rest) st = sig_loop after (sig_of t @ rest) ?st"
    using 3 c by (simp add: step_array)
  also have "\<dots> = sig_loop after rest (?st\<lparr>sv_last := last (sig_of t), array_depth := 0,
                              element_count_stack := Suc n # ns\<rparr>)"
    using 3 by (intro "3.IH") auto
  finally show ?case using c by simp
next
  case (4 sd dd ad k t)
  let ?st = "st\<lparr>sv_last := k, array_depth := 0, 
            dict_entry_depth := dict_entry_depth st + 1,
            element_count_stack := 1 # n # ns\<rparr>"
  have k: "dbus_type_is_basic k" "plain_code k" "k \<noteq> DBUS_DICT_ENTRY_BEGIN_CHAR"
    using 4(2) by (auto simp: plain_code_iff basic_cases)
  have "sig_loop after (sig_of (Dict k t) @ rest) st = 
        sig_loop after (sig_of t @ DBUS_DICT_ENTRY_END_CHAR # rest) ?st"
    using 4 k by (simp add: step_array step_dict_open step_plain)
  also have "\<dots> = sig_loop after (DBUS_DICT_ENTRY_END_CHAR # rest)
       (?st\<lparr>sv_last := last (sig_of t), array_depth := 0, element_count_stack := Suc 1 # n # ns\<rparr>)"
    using 4 k by (intro "4.IH") auto
  also have "\<dots> = sig_loop after rest (st\<lparr>sv_last := DBUS_DICT_ENTRY_END_CHAR, array_depth := 0, 
       element_count_stack := Suc n # ns\<rparr>)"
    using 4 by (simp add: step_dict_close numeral_2_eq_2)
  finally show ?case by simp
next
  case (5 sd dd ad ts)
  let ?st = "st\<lparr>sv_last := DBUS_STRUCT_BEGIN_CHAR, array_depth := 0,
     struct_depth := struct_depth st + 1, element_count_stack := 0 # n # ns\<rparr>"
  have last: "sigs_of ts \<noteq> []" "last (sigs_of ts) \<noteq> DBUS_STRUCT_BEGIN_CHAR"
    using 5(2) sigs_of_last[of "sd + 1" dd ts] by (auto simp: open_char_def)
  have "sig_loop after (sig_of (Struct ts) @ rest) st = 
        sig_loop after (sigs_of ts @ DBUS_STRUCT_END_CHAR # rest) ?st"
    using 5 by (simp add: step_open)
  also have "\<dots> = sig_loop after (DBUS_STRUCT_END_CHAR # rest)
       (?st\<lparr>sv_last := (if ts = [] then sv_last ?st else last (sigs_of ts)),
            element_count_stack := (0 + length ts) # n # ns\<rparr>)"
    using 5 by (intro "5.IH") auto
  also have "\<dots> = sig_loop after rest (st\<lparr>sv_last := DBUS_STRUCT_END_CHAR, array_depth := 0, 
       element_count_stack := Suc n # ns\<rparr>)"
    using 5 last by (simp add: step_close)
  finally show ?case by simp
next
  case (6 sd dd)
  have "st\<lparr>sv_last := sv_last st, element_count_stack := n # ns\<rparr> = st"
    using \<open>element_count_stack st = n # ns\<close> by (cases st) simp
  then show ?case
    by (simp only: sigs_of.simps append_Nil list.size add_0_right if_True simp_thms)
next
  case (7 sd dd t ts)
  let ?st = "st\<lparr>sv_last := last (sig_of t), array_depth := 0, element_count_stack := Suc n # ns\<rparr>"
  have l: "last (sig_of t) \<noteq> DBUS_DICT_ENTRY_BEGIN_CHAR" using sig_of_last[of sd dd 0 t] 7(3)
    by (auto simp: open_char_def)
  have "sig_loop after (sigs_of (t # ts) @ rest) st = sig_loop after (sigs_of ts @ rest) ?st"
    using 7 by simp
  also have "\<dots> = sig_loop after rest (?st\<lparr>sv_last := (if ts = [] then sv_last ?st else last (sigs_of ts)),
                              element_count_stack := (Suc n + length ts) # ns\<rparr>)"
    using 7 l by (intro "7.IH"(2)) auto
  also have "?st\<lparr>sv_last := (if ts = [] then sv_last ?st else last (sigs_of ts)),
      element_count_stack := (Suc n + length ts) # ns\<rparr> =
      st\<lparr>sv_last := (if t # ts = [] then sv_last st else last (sigs_of (t # ts))),
        element_count_stack := (n + length (t # ts)) # ns\<rparr>"
    using \<open>array_depth st = 0\<close> sigs_of_last[of sd dd ts] 7(3) by (cases st) auto
  finally show ?case .
qed

lemma sigs_of_valid:
  assumes ts: "withins 0 0 ts" and len: "length (sigs_of ts) \<le> DBUS_MAXIMUM_SIGNATURE_LENGTH"
  shows "dbus_validate_signature_with_reason (sigs_of ts) 0 (length (sigs_of ts)) [] = DBUS_VALID"
proof -
  let ?st = "(sig_init [])\<lparr>element_count_stack := [0]\<rparr>"
  have "sig_loop 0 (sigs_of ts @ []) ?st = sig_loop 0 [] (?st\<lparr>sv_last :=
          (if ts = [] then sv_last ?st else last (sigs_of ts)), element_count_stack := [0 + length ts]\<rparr>)"
    by (rule sig_loop_types(2)[OF ts]) (simp_all add: sig_init_def)
  then show ?thesis using len
    by (simp add: dbus_validate_signature_with_reason_def push_count_def
        sig_init_def sig_finish_def str_byte_def)
qed

text \<open>
  C33. Completeness of the signature validator: every list of types within the limits on nesting,
  printed in at most \<open>DBUS_MAXIMUM_SIGNATURE_LENGTH\<close> bytes, is accepted.
\<close>

theorem signature_complete:
  assumes ts: "withins 0 0 ts" and len: "length (sigs_of ts) \<le> DBUS_MAXIMUM_SIGNATURE_LENGTH"
  shows "dbus_validate_signature_with_reason (sigs_of ts) 0 (length (sigs_of ts)) [] = DBUS_VALID"
  by (rule sigs_of_valid[OF assms])

theorem signature_complete_witness:
  "dbus_validate_signature_with_reason (ascii ''a{sv}(iai)'') 0
     (length (ascii ''a{sv}(iai)'')) [] = DBUS_VALID"
  using signature_complete[of "[Dict DBUS_TYPE_STRING Variant,
      Struct [Basic DBUS_TYPE_INT32, Array (Basic DBUS_TYPE_INT32)]]"]
  by (simp add: basic_cases)

section \<open>What the validator accepts\<close>

fun arrays :: "nat \<Rightarrow> dtype \<Rightarrow> dtype" where
  "arrays 0 t = t"
| "arrays (Suc k) t = Array (arrays k t)"

lemma sig_of_arrays [simp]: "sig_of (arrays k t) = replicate k DBUS_TYPE_ARRAY @ sig_of t"
  by (induction k) simp_all

lemma within_arrays: "within sd dd (ad + k) t \<Longrightarrow> ad + k \<le> 32 \<Longrightarrow> within sd dd ad (arrays k t)"
proof (induction k arbitrary: ad)
  case (Suc k)
  then show ?case using Suc.IH[of "ad + 1"] by simp
qed simp

lemma sigs_of_append [simp]: "sigs_of (ts @ us) = sigs_of ts @ sigs_of us"
  by (induction ts) simp_all

lemma withins_append [simp]: "withins sd dd (ts @ us) \<longleftrightarrow> withins sd dd ts \<and> withins sd dd us"
  by (induction ts) simp_all

lemma sig_of_not_Nil [simp]: "sig_of t \<noteq> []"
  by (cases t) simp_all

text \<open>A partly read signature: the open structs, each with the types and array prefixes before it.\<close>

type_synonym open_struct = "dtype list \<times> nat"

fun printed :: "open_struct list \<Rightarrow> byte list" where
  "printed [] = []"
| "printed ((ts, k) # fs) =
     printed fs @ sigs_of ts @ replicate k DBUS_TYPE_ARRAY @ [DBUS_STRUCT_BEGIN_CHAR]"

fun frames_ok :: "open_struct list \<Rightarrow> bool" where
  "frames_ok [] \<longleftrightarrow> True"
| "frames_ok ((ts, k) # fs) \<longleftrightarrow> withins (length fs) 0 ts \<and> k \<le> 32 \<and> frames_ok fs"

definition reads :: "open_struct list \<Rightarrow> dtype list \<Rightarrow> nat \<Rightarrow> byte list \<Rightarrow> sig_state \<Rightarrow> bool" where
  "reads fs ts k rest st \<longleftrightarrow>
     frames_ok fs \<and> withins (length fs) 0 ts \<and> k \<le> 32 \<and> length fs \<le> 32 \<and>
     struct_depth st = length fs \<and> array_depth st = k \<and> dict_entry_depth st = 0 \<and>
     sv_last st \<noteq> DBUS_DICT_ENTRY_BEGIN_CHAR \<and>
     (k = 0 \<and> ts = [] \<and> fs \<noteq> [] \<longrightarrow> sv_last st = DBUS_STRUCT_BEGIN_CHAR) \<and>
     (k > 0 \<longrightarrow> (case rest of [] \<Rightarrow> True | c # _ \<Rightarrow> c \<noteq> DBUS_STRUCT_END_CHAR))"

lemma push_count_Inr:
  "push_count n st = Inr st' \<Longrightarrow> sv_last st' = sv_last st \<and> struct_depth st' = struct_depth st \<and>
     array_depth st' = array_depth st \<and> dict_entry_depth st' = dict_entry_depth st"
  by (auto simp: push_count_def split: prod.splits if_splits)

lemma sig_count_Inr:
  "sig_count p st = Inr st' \<Longrightarrow> sv_last st' = sv_last st \<and> struct_depth st' = struct_depth st \<and>
     array_depth st' = array_depth st \<and> dict_entry_depth st' = dict_entry_depth st"
  by (auto simp: sig_count_def split: prod.splits if_splits dest: push_count_Inr)

lemma sig_checks_Inr:
  "sig_checks p p1 st = Inr st' \<Longrightarrow> sv_last st' = p \<and> struct_depth st' = struct_depth st \<and>
     dict_entry_depth st' = dict_entry_depth st \<and>
     array_depth st' = (if p = DBUS_TYPE_ARRAY then array_depth st else 0) \<and>
     (p = DBUS_TYPE_ARRAY \<and> array_depth st > 0 \<longrightarrow> p1 \<noteq> DBUS_STRUCT_END_CHAR)"
  by (auto simp: sig_checks_def Let_def split: if_splits)

lemmas sig_parts = push_count_Inr sig_count_Inr sig_checks_Inr

text \<open>What one accepted byte other than a brace does to the depths.\<close>

lemma sig_step_Inr:
  assumes "sig_step p p1 st = Inr st'" "p \<noteq> DBUS_DICT_ENTRY_BEGIN_CHAR" "dict_entry_depth st = 0"
  shows "sv_last st' = p" "dict_entry_depth st' = dict_entry_depth st"
    and "plain_code p \<or> p = DBUS_TYPE_ARRAY \<or> p = DBUS_STRUCT_BEGIN_CHAR \<or> p = DBUS_STRUCT_END_CHAR"
    and "plain_code p \<Longrightarrow> struct_depth st' = struct_depth st \<and> array_depth st' = 0"
    and "p = DBUS_TYPE_ARRAY \<Longrightarrow> struct_depth st' = struct_depth st \<and>
           array_depth st' = array_depth st + 1 \<and> array_depth st < 32 \<and> p1 \<noteq> DBUS_STRUCT_END_CHAR"
    and "p = DBUS_STRUCT_BEGIN_CHAR \<Longrightarrow> struct_depth st' = struct_depth st + 1 \<and>
           array_depth st' = 0 \<and> struct_depth st < 32"
    and "p = DBUS_STRUCT_END_CHAR \<Longrightarrow> struct_depth st > 0 \<and> struct_depth st' = struct_depth st - 1 \<and>
           array_depth st' = 0 \<and> sv_last st \<noteq> DBUS_STRUCT_BEGIN_CHAR"
proof -
  obtain s1 s2 where s: "sig_switch p st = Inr s1" "sig_count p s1 = Inr s2" "sig_checks p p1 s2 = Inr st'"
    using assms(1) by (auto simp: sig_step_def split: sum.splits)
  have "p \<noteq> DBUS_DICT_ENTRY_END_CHAR"
    using s(1) assms(3) by (auto simp: sig_switch_def plain_code_def)
  note assms = assms this
  note c = sig_count_Inr[OF s(2)] sig_checks_Inr[OF s(3)]
  show "sv_last st' = p" using c by simp
  show "dict_entry_depth st' = dict_entry_depth st" using c s(1) assms(2,4)
    by (auto simp: sig_switch_def Let_def split: if_splits dest: push_count_Inr)
  show "plain_code p \<or> p = DBUS_TYPE_ARRAY \<or> p = DBUS_STRUCT_BEGIN_CHAR \<or> p = DBUS_STRUCT_END_CHAR"
    using s(1) assms(2,4) by (auto simp: sig_switch_def split: if_splits)
  show "plain_code p \<Longrightarrow> struct_depth st' = struct_depth st \<and> array_depth st' = 0"
    using c s(1) plain_not_bracket[of p] by (auto simp: sig_switch_def)
  show "p = DBUS_TYPE_ARRAY \<Longrightarrow> struct_depth st' = struct_depth st \<and>
           array_depth st' = array_depth st + 1 \<and> array_depth st < 32 \<and> p1 \<noteq> DBUS_STRUCT_END_CHAR"
    using c s(1) by (auto simp: sig_switch_def plain_code_def Let_def split: if_splits)
  show "p = DBUS_STRUCT_BEGIN_CHAR \<Longrightarrow> struct_depth st' = struct_depth st + 1 \<and>
           array_depth st' = 0 \<and> struct_depth st < 32"
    using c s(1) by (auto simp: sig_switch_def plain_code_def Let_def split: if_splits dest: push_count_Inr)
  show "p = DBUS_STRUCT_END_CHAR \<Longrightarrow> struct_depth st > 0 \<and> struct_depth st' = struct_depth st - 1 \<and>
           array_depth st' = 0 \<and> sv_last st \<noteq> DBUS_STRUCT_BEGIN_CHAR"
    using c s(1) by (auto simp: sig_switch_def plain_code_def split: if_splits)
qed

lemma reads_step:
  assumes "reads fs ts k (p # rest) st" "p \<noteq> DBUS_DICT_ENTRY_BEGIN_CHAR"
    and "sig_step p (case rest of [] \<Rightarrow> after | p1 # _ \<Rightarrow> p1) st = Inr st'"
  shows "\<exists>fs' ts' k'. reads fs' ts' k' rest st' \<and>
     printed fs' @ sigs_of ts' @ replicate k' DBUS_TYPE_ARRAY =
     printed fs @ sigs_of ts @ replicate k DBUS_TYPE_ARRAY @ [p]"
proof -
  have "dict_entry_depth st = 0" using assms(1) by (simp add: reads_def)
  note st = sig_step_Inr[OF assms(3,2) this]
  consider (plain) "plain_code p" | (arr) "p = DBUS_TYPE_ARRAY" | (opn) "p = DBUS_STRUCT_BEGIN_CHAR"
    | (cls) "p = DBUS_STRUCT_END_CHAR" using st(3) by blast
  then show ?thesis
  proof cases
    case plain
    let ?t = "if p = DBUS_TYPE_VARIANT then Variant else Basic p"
    have "within (length fs) 0 (0 + k) ?t" using plain by (auto simp: plain_code_iff)
    then have w: "within (length fs) 0 0 (arrays k ?t)"
      using assms(1) by (intro within_arrays) (auto simp: reads_def)
    show ?thesis using assms(1) plain st(1,2,4) w plain_not_bracket[OF plain]
      by (intro exI[of _ fs] exI[of _ "ts @ [arrays k ?t]"] exI[of _ 0]) (auto simp: reads_def)
  next
    case arr
    show ?thesis using assms(1) arr st(1,2) st(5)[OF arr]
      by (intro exI[of _ fs] exI[of _ ts] exI[of _ "Suc k"])
        (auto simp: reads_def replicate_append_same split: list.splits)
  next
    case opn
    show ?thesis using assms(1) opn st(1,2) st(6)[OF opn]
      by (intro exI[of _ "(ts, k) # fs"] exI[of _ "[]"] exI[of _ 0]) (auto simp: reads_def)
  next
    case cls
    then obtain us j fs' where fs: "fs = (us, j) # fs'" 
      using st(7)[OF cls] assms(1) by (cases fs) (auto simp: reads_def)
    have k: "k = 0" "ts \<noteq> []" using assms(1) cls st(7)[OF cls] fs by (auto simp: reads_def)
    have "within (length fs') 0 (0 + j) (Struct ts)" using assms(1) fs k by (auto simp: reads_def)
    then have w: "within (length fs') 0 0 (arrays j (Struct ts))"
      using assms(1) fs by (intro within_arrays) (auto simp: reads_def)
    show ?thesis using assms(1) cls st(1,2) st(7)[OF cls] w fs k
      by (intro exI[of _ fs'] exI[of _ "us @ [arrays j (Struct ts)]"] exI[of _ 0]) (auto simp: reads_def)
  qed
qed

lemma reads_loop:
  assumes "sig_loop after s st = Inr st'" "reads fs ts k s st"
    and "DBUS_DICT_ENTRY_BEGIN_CHAR \<notin> set s"
  shows "\<exists>fs' ts' k'. reads fs' ts' k' [] st' \<and>
     printed fs' @ sigs_of ts' @ replicate k' DBUS_TYPE_ARRAY =
     printed fs @ sigs_of ts @ replicate k DBUS_TYPE_ARRAY @ s"
  using assms
proof (induction s arbitrary: st fs ts k)
  case Nil
  then show ?case by auto
next
  case (Cons p s)
  obtain s1 where s1: "sig_step p (case s of [] \<Rightarrow> after | p1 # _ \<Rightarrow> p1) st = Inr s1"
    "sig_loop after s s1 = Inr st'"
    using Cons.prems(1) by (auto split: sum.splits)
  obtain fs1 ts1 k1 where r: "reads fs1 ts1 k1 s s1"
     "printed fs1 @ sigs_of ts1 @ replicate k1 DBUS_TYPE_ARRAY =
      printed fs @ sigs_of ts @ replicate k DBUS_TYPE_ARRAY @ [p]"
    using reads_step[OF Cons.prems(2) _ s1(1)] Cons.prems(3) by auto
  have "printed fs1 @ sigs_of ts1 @ replicate k1 DBUS_TYPE_ARRAY @ s =
      printed fs @ sigs_of ts @ replicate k DBUS_TYPE_ARRAY @ p # s"
    using arg_cong[OF r(2), of "\<lambda>x. x @ s"] by simp
  moreover obtain fs2 ts2 k2 where "reads fs2 ts2 k2 [] st'"
     "printed fs2 @ sigs_of ts2 @ replicate k2 DBUS_TYPE_ARRAY =
      printed fs1 @ sigs_of ts1 @ replicate k1 DBUS_TYPE_ARRAY @ s"
    using Cons.IH[OF s1(2) r(1)] Cons.prems(3) by auto
  ultimately show ?case by metis
qed

lemma push_count_error: "push_count n st = Inl e \<Longrightarrow> e \<noteq> DBUS_VALID"
  by (auto simp: push_count_def split: prod.splits if_splits)

lemma sig_step_error: "sig_step p p1 st = Inl e \<Longrightarrow> e \<noteq> DBUS_VALID"
  by (auto simp: sig_step_def sig_switch_def sig_count_def sig_checks_def Let_def
      split: sum.splits if_splits prod.splits dest: push_count_error)

lemma sig_loop_error: "sig_loop after s st = Inl e \<Longrightarrow> e \<noteq> DBUS_VALID"
  by (induction s arbitrary: st) (auto split: sum.splits dest: sig_step_error)

text \<open>An accepted string went through the whole loop and ended with all containers closed.\<close>

lemma validate_loop:
  assumes "dbus_validate_signature_with_reason s p n m = DBUS_VALID"
  shows "\<exists>st st'. push_count 0 (sig_init m) = Inr st \<and> n \<le> DBUS_MAXIMUM_SIGNATURE_LENGTH \<and>
    sig_loop (str_byte s (p + n)) (take n (drop p s)) st = Inr st' \<and>
    array_depth st' = 0 \<and> struct_depth st' = 0 \<and> dict_entry_depth st' = 0"
  using assms
  by (fastforce simp: dbus_validate_signature_with_reason_def sig_finish_def
      split: sum.splits if_splits dest: push_count_error sig_loop_error)

lemma accepted_is_types:
  assumes "dbus_validate_signature_with_reason s 0 (length s) m = DBUS_VALID"
    and "DBUS_DICT_ENTRY_BEGIN_CHAR \<notin> set s"
  shows "\<exists>ts. s = sigs_of ts \<and> withins 0 0 ts"
proof -
  obtain st st' where st: "push_count 0 (sig_init m) = Inr st"
    "sig_loop 0 s st = Inr st'" "array_depth st' = 0" "struct_depth st' = 0"
    using validate_loop[OF assms(1)] by (auto simp: str_byte_def)
  have "reads [] [] 0 s st"
    using push_count_Inr[OF st(1)] by (simp add: reads_def sig_init_def)
  then obtain fs ts k where "reads fs ts k [] st'"
     "printed fs @ sigs_of ts @ replicate k DBUS_TYPE_ARRAY = s"
    using reads_loop[OF st(2) _ assms(2)] by fastforce
  then show ?thesis using st(3,4) by (auto simp: reads_def)
qed

text \<open>
  C34. Soundness of the signature validator on signatures without dict entries: whatever it accepts,
  under any pattern of allocation failures, is the printed form of a list of types within the
  limits on nesting.
\<close>

theorem signature_sound_without_dicts:
  assumes "dbus_validate_signature_with_reason s 0 (length s) m = DBUS_VALID"
    and "DBUS_DICT_ENTRY_BEGIN_CHAR \<notin> set s"
  shows "\<exists>ts. s = sigs_of ts \<and> withins 0 0 ts"
  by (rule accepted_is_types[OF assms])

theorem signature_sound_without_dicts_witness:
  "\<exists>ts. ascii ''a(is)v'' = sigs_of ts \<and> withins 0 0 ts"
proof -
  have "dbus_validate_signature_with_reason (ascii ''a(is)v'') 0 (length (ascii ''a(is)v'')) []
      = DBUS_VALID"
    by code_simp
  then show ?thesis by (rule signature_sound_without_dicts) simp
qed

section \<open>Running out of memory\<close>

definition with_memory :: "sig_state \<Rightarrow> sig_state" where
  "with_memory st = st\<lparr>sv_mem := []\<rparr>"

lemma with_memory_simps [simp]:
  "sv_last (with_memory st) = sv_last st" "struct_depth (with_memory st) = struct_depth st"
  "array_depth (with_memory st) = array_depth st"
  "dict_entry_depth (with_memory st) = dict_entry_depth st"
  "element_count_stack (with_memory st) = element_count_stack st" "sv_mem (with_memory st) = []"
  by (simp_all add: with_memory_def)

text \<open>
  A result agrees with the result of the same computation with memory: the same verdict, or
  out of memory instead.
\<close>

fun agrees :: "DBusValidity + sig_state \<Rightarrow> DBusValidity + sig_state \<Rightarrow> bool" where
  "agrees (Inl e) r \<longleftrightarrow> e = DBUS_VALIDITY_UNKNOWN_OOM_ERROR \<or> r = Inl e"
| "agrees (Inr st) r \<longleftrightarrow> r = Inr (with_memory st)"

lemma push_count_agrees: "agrees (push_count n st) (push_count n (with_memory st))"
  by (auto simp: push_count_def with_memory_def split: prod.splits)

lemma push_count_agrees': "st' = with_memory st \<Longrightarrow> agrees (push_count n st) (push_count n st')"
  by (simp add: push_count_agrees)

lemma sig_switch_agrees: "agrees (sig_switch p st) (sig_switch p (with_memory st))"
  by (auto simp: sig_switch_def Let_def with_memory_def intro!: push_count_agrees' split: prod.splits)

lemma sig_count_agrees: "agrees (sig_count p st) (sig_count p (with_memory st))"
  by (auto simp: sig_count_def Let_def with_memory_def intro!: push_count_agrees' split: prod.splits)

lemma sig_checks_agrees: "agrees (sig_checks p p1 st) (sig_checks p p1 (with_memory st))"
  by (auto simp: sig_checks_def Let_def with_memory_def)

lemma sig_step_agrees: "agrees (sig_step p p1 st) (sig_step p p1 (with_memory st))"
proof (cases "sig_switch p st")
  case (Inl e)
  then show ?thesis using sig_switch_agrees[of p st] by (auto simp: sig_step_def)
next
  case (Inr s1)
  then have 1: "sig_switch p (with_memory st) = Inr (with_memory s1)"
    using sig_switch_agrees[of p st] by simp
  show ?thesis
  proof (cases "sig_count p s1")
    case (Inl e)
    then show ?thesis using Inr 1 sig_count_agrees[of p s1] by (auto simp: sig_step_def)
  next
    case s2: (Inr s2)
    then have "sig_count p (with_memory s1) = Inr (with_memory s2)"
      using sig_count_agrees[of p s1] by simp
    then show ?thesis using Inr 1 s2 sig_checks_agrees[of p p1 s2] by (simp add: sig_step_def)
  qed
qed

lemma sig_loop_agrees: "agrees (sig_loop after s st) (sig_loop after s (with_memory st))"
proof (induction s arbitrary: st)
  case (Cons p s)
  let ?p1 = "case s of [] \<Rightarrow> after | p1 # _ \<Rightarrow> p1"
  show ?case using sig_step_agrees[of p ?p1 st] Cons.IH
    by (cases "sig_step p ?p1 st") auto
qed simp

lemma signature_memory:
  "dbus_validate_signature_with_reason s p n m = DBUS_VALIDITY_UNKNOWN_OOM_ERROR \<or>
   dbus_validate_signature_with_reason s p n m = dbus_validate_signature_with_reason s p n []"
proof (cases "push_count 0 (sig_init m)")
  case (Inl e)
  then show ?thesis
    by (auto simp: dbus_validate_signature_with_reason_def push_count_def split: prod.splits if_splits)
next
  case (Inr st)
  then have "push_count 0 (sig_init []) = Inr (with_memory st)"
    using push_count_agrees[of 0 "sig_init m"] by (simp add: with_memory_def sig_init_def)
  then show ?thesis
    using Inr sig_loop_agrees[of "str_byte s (p + n)" "take n (drop p s)" st]
    by (cases "sig_loop (str_byte s (p + n)) (take n (drop p s)) st")
      (auto simp: dbus_validate_signature_with_reason_def sig_finish_def)
qed

text \<open>
  C35. Running out of memory never changes the verdict of the signature validator: for every pattern
  of allocation failures it reports either out of memory or exactly what it reports when memory is
  available.
\<close>

theorem signature_oom_transparent:
  "dbus_validate_signature_with_reason s p n m = DBUS_VALIDITY_UNKNOWN_OOM_ERROR \<or>
   dbus_validate_signature_with_reason s p n m = dbus_validate_signature_with_reason s p n []"
  by (rule signature_memory)

section \<open>Where the validator is too permissive\<close>

text \<open>
  A bracket checker for well-formed signatures: brackets nest, and a dict entry starts with a basic
  type. Printed types pass it; the two signatures below do not, yet the validator accepts them.
\<close>

fun nest_ok :: "byte list \<Rightarrow> byte list \<Rightarrow> bool" where
  "nest_ok stk [] \<longleftrightarrow> stk = []"
| "nest_ok stk (c # s) \<longleftrightarrow>
     (if c = DBUS_STRUCT_BEGIN_CHAR then nest_ok (c # stk) s
      else if c = DBUS_DICT_ENTRY_BEGIN_CHAR then
        s \<noteq> [] \<and> dbus_type_is_basic (hd s) \<and> nest_ok (c # stk) s
      else if c = DBUS_STRUCT_END_CHAR then
        stk \<noteq> [] \<and> hd stk = DBUS_STRUCT_BEGIN_CHAR \<and> nest_ok (tl stk) s
      else if c = DBUS_DICT_ENTRY_END_CHAR then
        stk \<noteq> [] \<and> hd stk = DBUS_DICT_ENTRY_BEGIN_CHAR \<and> nest_ok (tl stk) s
      else nest_ok stk s)"

lemma nest_ok_plain: "plain_code c \<Longrightarrow> nest_ok stk (c # s) = nest_ok stk s"
  using plain_not_bracket[of c] by simp

lemma nest_ok_types:
  "within sd dd ad t \<Longrightarrow> nest_ok stk (sig_of t @ rest) = nest_ok stk rest"
  "withins sd dd ts \<Longrightarrow> nest_ok stk (sigs_of ts @ rest) = nest_ok stk rest"
proof (induction sd dd ad t and sd dd ts arbitrary: stk rest and stk rest
    rule: within_withins.induct)
  case (1 sd dd ad c)
  then show ?case using nest_ok_plain[of c] by (simp add: plain_code_iff del: nest_ok.simps)
next
  case (4 sd dd ad k t)
  have k: "dbus_type_is_basic k" "plain_code k" using 4(2) by (simp_all add: plain_code_iff)
  have "nest_ok stk (sig_of (Dict k t) @ rest) =
    nest_ok (DBUS_DICT_ENTRY_BEGIN_CHAR # stk) (k # sig_of t @ DBUS_DICT_ENTRY_END_CHAR # rest)"
    using k by simp
  also have "\<dots> = nest_ok (DBUS_DICT_ENTRY_BEGIN_CHAR # stk) (sig_of t @ DBUS_DICT_ENTRY_END_CHAR # rest)"
    by (rule nest_ok_plain[OF k(2)])
  finally show ?case using 4 by simp
qed simp_all

lemma nest_ok_signature: "withins 0 0 ts \<Longrightarrow> nest_ok [] (sigs_of ts)"
  using nest_ok_types(2)[of 0 0 ts "[]" "[]"] by simp

text \<open>
  The validator does not check that brackets of different kinds nest: it accepts
  \<open>a{s(ss})\<close>, which is not the signature of any list of types.
\<close>

theorem misnested_signature_accepted:
  "dbus_validate_signature_with_reason (ascii ''a{s(ss})'') 0 8 [] = DBUS_VALID \<and>
   (\<nexists>ts. withins 0 0 ts \<and> sigs_of ts = ascii ''a{s(ss})'')"
proof
  show "dbus_validate_signature_with_reason (ascii ''a{s(ss})'') 0 8 [] = DBUS_VALID"
    by code_simp
  have "\<not> nest_ok [] (ascii ''a{s(ss})'')" by simp
  then show "\<nexists>ts. withins 0 0 ts \<and> sigs_of ts = ascii ''a{s(ss})''"
    using nest_ok_signature by fastforce
qed

text \<open>
  The validator lets a struct be the key of a dict entry: its check asks whether the byte
  \<open>(\<close> is a valid type code, which it is not, and so \<open>a{(ss)s}\<close> is accepted.
\<close>

theorem struct_dict_key_accepted:
  "dbus_validate_signature_with_reason (ascii ''a{(ss)s}'') 0 8 [] = DBUS_VALID \<and>
   (\<nexists>ts. withins 0 0 ts \<and> sigs_of ts = ascii ''a{(ss)s}'')"
proof
  show "dbus_validate_signature_with_reason (ascii ''a{(ss)s}'') 0 8 [] = DBUS_VALID"
    by code_simp
  have "\<not> nest_ok [] (ascii ''a{(ss)s}'')" by (simp add: basic_cases)
  then show "\<nexists>ts. withins 0 0 ts \<and> sigs_of ts = ascii ''a{(ss)s}''"
    using nest_ok_signature by fastforce
qed

end
