(* ===== verification/SigIter.thy ===== *)
theory SigIter
  imports Signature
begin

text \<open>
  Walking over signatures: \<open>_dbus_type_signature_next\<close> of
  \<open>dbus/dbus-marshal-recursive.c\<close> and the \<open>DBusSignatureIter\<close> operations of
  \<open>dbus/dbus-signature.c\<close>. On a printed signature one step skips exactly one type.
\<close>

section \<open>Skipping one complete type\<close>

text \<open>
  A position in a signature is the list of bytes from there to the terminating nul (not
  included). The result \<open>None\<close> is a broken contract: an assertion on a closing bracket, or on
  the terminating nul inside a container, or the step past the terminating nul at the end.
\<close>

fun skip_arrays :: "byte list \<Rightarrow> byte list" where
  "skip_arrays [] = []"
| "skip_arrays (p # s) = (if p = DBUS_TYPE_ARRAY then skip_arrays s else p # s)"

fun skip_container :: "byte \<Rightarrow> byte \<Rightarrow> nat \<Rightarrow> byte list \<Rightarrow> byte list option" where
  "skip_container opening closing depth [] = None"
| "skip_container opening closing depth (p # s) =
     (if p = DBUS_TYPE_INVALID then None
      else if p = opening then skip_container opening closing (depth + 1) s
      else if p = closing then
        (if depth - 1 = 0 then Some s else skip_container opening closing (depth - 1) s)
      else skip_container opening closing depth s)"

definition is_closing :: "byte \<Rightarrow> bool" where
  "is_closing p \<longleftrightarrow> p = DBUS_STRUCT_END_CHAR \<or> p = DBUS_DICT_ENTRY_END_CHAR"

definition dbus_type_signature_next :: "byte list \<Rightarrow> byte list option" where
  "dbus_type_signature_next s =
     (if is_closing (str_byte s 0) then None
      else case skip_arrays s of
          [] \<Rightarrow> None
        | p # s' \<Rightarrow>
            if is_closing p then None
            else if p = DBUS_STRUCT_BEGIN_CHAR then
              skip_container DBUS_STRUCT_BEGIN_CHAR DBUS_STRUCT_END_CHAR 1 s'
            else if p = DBUS_DICT_ENTRY_BEGIN_CHAR then
              skip_container DBUS_DICT_ENTRY_BEGIN_CHAR DBUS_DICT_ENTRY_END_CHAR 1 s'
            else Some s')"

lemma skip_container_plain:
  assumes "plain_code c" "(opening, closing) \<in> {(40, 41), (123, 125)}"
  shows "skip_container opening closing d (c # s) = skip_container opening closing d s"
  using assms plain_not_bracket[OF assms(1)] by auto

lemma skip_container_types:
  "within sd dd ad t \<Longrightarrow> (opening, closing) \<in> {(40, 41), (123, 125)} \<Longrightarrow> d > 0 \<Longrightarrow>
     skip_container opening closing d (sig_of t @ rest) = skip_container opening closing d rest"
  "withins sd dd ts \<Longrightarrow> (opening, closing) \<in> {(40, 41), (123, 125)} \<Longrightarrow> d > 0 \<Longrightarrow>
     skip_container opening closing d (sigs_of ts @ rest) = skip_container opening closing d rest"
proof (induction sd dd ad t and sd dd ts arbitrary: d rest and d rest
    rule: within_withins.induct)
  case (1 sd dd ad c)
  then have "plain_code c" by (simp add: plain_code_iff)
  then show ?case using skip_container_plain[OF _ 1(2)] by simp
next
  case (4 sd dd ad k t)
  have k: "plain_code k" using 4(2) by (simp add: plain_code_iff)
  note IH = "4.IH"[OF _ 4(3)] plain_not_bracket[OF k]
  from 4(3) show ?case using 4(2,4) IH by (elim insertE) simp_all
next
  case (5 sd dd ad ts)
  note IH = "5.IH"[OF _ 5(3)]
  from 5(3) show ?case using 5(2,4) IH by (elim insertE) simp_all
next
  case (2 sd dd ad)
  then show ?case using skip_container_plain[OF _ 2(2), of DBUS_TYPE_VARIANT] by (simp add: plain_code_def)
next
  case (3 sd dd ad t)
  note IH = "3.IH"[OF _ 3(3)]
  from 3(3) show ?case using 3(2,4) IH by (elim insertE) simp_all
qed simp_all

lemma skip_arrays_first: "within sd dd ad t \<Longrightarrow>
   \<exists>p s. skip_arrays (sig_of t @ rest) = p # s @ rest \<and> p # s = skip_arrays (sig_of t)"
  by (induction t arbitrary: ad) (auto simp: basic_cases)

lemma signature_next_type:
  assumes "within sd dd ad t"
  shows "dbus_type_signature_next (sig_of t @ rest) = Some rest"
  using assms
proof (induction t arbitrary: ad)
  case (Basic c)
  then have "plain_code c" by (simp add: plain_code_iff)
  then show ?case using plain_not_bracket[of c]
    by (simp add: dbus_type_signature_next_def is_closing_def)
next
  case Variant
  then show ?case by (simp add: dbus_type_signature_next_def is_closing_def)
next
  case (Array t)
  then have "dbus_type_signature_next (sig_of t @ rest) = Some rest" by auto
  then show ?case by (auto simp: dbus_type_signature_next_def is_closing_def split: if_splits)
next
  case (Dict k t)
  then have "plain_code k" "within sd (dd + 1) 0 t" by (auto simp: plain_code_iff)
  then show ?case
    by (simp add: dbus_type_signature_next_def is_closing_def skip_container_plain
        skip_container_types del: skip_container.simps) simp
next
  case (Struct ts)
  then have "withins (sd + 1) dd ts" by auto
  then show ?case
    by (simp add: dbus_type_signature_next_def is_closing_def skip_container_types)
qed

section \<open>Signature iterators\<close>

text \<open>\<open>DBusSignatureRealIter\<close>: the position is the rest of the signature string.\<close>

record sig_iter =
  si_pos :: "byte list"
  si_finished :: bool
  si_in_array :: bool

definition dbus_signature_iter_init :: "byte list \<Rightarrow> sig_iter" where
  "dbus_signature_iter_init signature =
     \<lparr>si_pos = signature, si_finished = False, si_in_array = False\<rparr>"

definition dbus_signature_iter_get_current_type :: "sig_iter \<Rightarrow> byte" where
  "dbus_signature_iter_get_current_type iter = map_type_char_to_type (str_byte (si_pos iter) 0)"

text \<open>
  The substring of the type at the iterator; \<open>_dbus_string_init\<close>,
  \<open>_dbus_string_append_len\<close> and \<open>_dbus_string_steal_data\<close> may each run out of
  memory, and then the result is \<open>NULL\<close>. The outer \<open>None\<close> is a broken contract.
\<close>

definition dbus_signature_iter_get_signature ::
  "sig_iter \<Rightarrow> mem_oracle \<Rightarrow> (byte list option \<times> mem_oracle) option" where
  "dbus_signature_iter_get_signature iter m0 =
     (case alloc m0 of (ok1, m1) \<Rightarrow>
        if \<not> ok1 then Some (None, m1)
        else case dbus_type_signature_next (si_pos iter) of
            None \<Rightarrow> None
          | Some rest \<Rightarrow>
              let pos = length (si_pos iter) - length rest in
              (case alloc m1 of (ok2, m2) \<Rightarrow>
                 if \<not> ok2 then Some (None, m2)
                 else (case alloc m2 of (ok3, m3) \<Rightarrow>
                    Some (if ok3 then Some (take pos (si_pos iter)) else None, m3))))"

definition dbus_signature_iter_get_element_type :: "sig_iter \<Rightarrow> byte" where
  "dbus_signature_iter_get_element_type iter =
     (if dbus_signature_iter_get_current_type iter \<noteq> DBUS_TYPE_ARRAY then DBUS_TYPE_INVALID
      else map_type_char_to_type (str_byte (si_pos iter) 1))"

definition dbus_signature_iter_next :: "sig_iter \<Rightarrow> (bool \<times> sig_iter) option" where
  "dbus_signature_iter_next iter =
     (if si_finished iter then Some (False, iter)
      else if si_in_array iter then Some (False, iter\<lparr>si_finished := True\<rparr>)
      else case dbus_type_signature_next (si_pos iter) of
          None \<Rightarrow> None
        | Some rest \<Rightarrow>
            let iter = iter\<lparr>si_pos := rest\<rparr>; c = str_byte rest 0
            in if c = DBUS_STRUCT_END_CHAR \<or> c = DBUS_DICT_ENTRY_END_CHAR
               then Some (False, iter\<lparr>si_finished := True\<rparr>)
               else Some (c \<noteq> DBUS_TYPE_INVALID, iter))"

text \<open>
  On a current type that is no container the check of the public function returns before the
  subiterator is written: \<open>None\<close>.
\<close>

definition dbus_signature_iter_recurse :: "sig_iter \<Rightarrow> sig_iter option" where
  "dbus_signature_iter_recurse iter =
     (if \<not> dbus_type_is_container (dbus_signature_iter_get_current_type iter) then None
      else
        let sub = iter\<lparr>si_in_array := False, si_pos := tl (si_pos iter)\<rparr>
        in Some (if dbus_signature_iter_get_current_type iter = DBUS_TYPE_ARRAY
                 then sub\<lparr>si_in_array := True\<rparr> else sub))"

text \<open>\<open>error\<close> is reduced to whether it is set, which is the negation of the result.\<close>

definition dbus_signature_validate :: "byte list \<Rightarrow> mem_oracle \<Rightarrow> bool" where
  "dbus_signature_validate signature m = dbus_validate_signature signature 0 (length signature) m"

definition dbus_signature_validate_single :: "byte list \<Rightarrow> mem_oracle \<Rightarrow> bool option" where
  "dbus_signature_validate_single signature m =
     (if \<not> dbus_signature_validate signature m then Some False
      else
        let iter = dbus_signature_iter_init signature
        in if dbus_signature_iter_get_current_type iter = DBUS_TYPE_INVALID then Some False
           else map_option (\<lambda>(more, _). \<not> more) (dbus_signature_iter_next iter))"

section \<open>Iterating over printed types\<close>

fun type_code :: "dtype \<Rightarrow> byte" where
  "type_code (Basic c) = c"
| "type_code Variant = DBUS_TYPE_VARIANT"
| "type_code (Array t) = DBUS_TYPE_ARRAY"
| "type_code (Dict k t) = DBUS_TYPE_ARRAY"
| "type_code (Struct ts) = DBUS_TYPE_STRUCT"

lemma current_type_printed:
  "within sd dd ad t \<Longrightarrow>
   dbus_signature_iter_get_current_type (iter\<lparr>si_pos := sig_of t @ rest\<rparr>) = type_code t"
  by (cases t)
    (auto simp: dbus_signature_iter_get_current_type_def map_type_char_to_type_def basic_cases)

lemma first_byte_printed:
  "within sd dd ad t \<Longrightarrow> str_byte (sig_of t @ rest) 0 \<noteq> DBUS_TYPE_INVALID \<and>
     \<not> is_closing (str_byte (sig_of t @ rest) 0)"
  by (cases t) (auto simp: is_closing_def basic_cases)

text \<open>
  An iterator at a list of types, at the top level of a signature or inside a struct or dict
  entry whose closing bracket follows, sees the first type and moves past exactly that type;
  \<open>dbus_signature_iter_next\<close> answers whether a type remains, and the iterator becomes
  finished exactly at the closing bracket.
\<close>

theorem signature_iter_next_types:
  assumes "withins sd dd (t # ts)" and "rest = [] \<or> is_closing (hd rest)"
    and "\<not> si_finished iter" "\<not> si_in_array iter" "si_pos iter = sigs_of (t # ts) @ rest"
  shows "dbus_signature_iter_get_current_type iter = type_code t \<and>
    dbus_signature_iter_next iter =
         Some (ts \<noteq> [], iter\<lparr>si_pos := sigs_of ts @ rest, si_finished := (ts = [] \<and> rest \<noteq> [])\<rparr>)"
proof (rule conjI)
  have t: "within sd dd 0 t" and ts: "withins sd dd ts" using assms(1) by auto
  show "dbus_signature_iter_get_current_type iter = type_code t"
    using current_type_printed[OF t, of "sigs_of ts @ rest" iter] assms(5) by (cases iter) simp
  have n: "dbus_type_signature_next (si_pos iter) = Some (sigs_of ts @ rest)"
    using signature_next_type[OF t] assms(5) by simp
  show "dbus_signature_iter_next iter =
         Some (ts \<noteq> [], iter\<lparr>si_pos := sigs_of ts @ rest, si_finished := (ts = [] \<and> rest \<noteq> [])\<rparr>)"
  proof (cases ts)
    case Nil
    then show ?thesis using n assms(2-4)
      by (cases iter; cases rest) (auto simp: dbus_signature_iter_next_def is_closing_def Let_def)
  next
    case (Cons u us)
    then have "str_byte (sigs_of ts @ rest) 0 \<noteq> DBUS_TYPE_INVALID"
      "\<not> is_closing (str_byte (sigs_of ts @ rest) 0)"
      using ts first_byte_printed[of sd dd 0 u "sigs_of us @ rest"] by auto
    then show ?thesis using n assms(3,4) Cons
      by (cases iter) (auto simp: dbus_signature_iter_next_def is_closing_def Let_def)
  qed
qed

theorem signature_iter_next_types_witness:
  "dbus_signature_iter_next (dbus_signature_iter_init (ascii ''a{sv}i'')) =
     Some (True, dbus_signature_iter_init (ascii ''i''))"
  using signature_iter_next_types[of 0 0 "Dict DBUS_TYPE_STRING Variant"
      "[Basic DBUS_TYPE_INT32]" "[]" "dbus_signature_iter_init (ascii ''a{sv}i'')"]
  by (simp add: basic_cases dbus_signature_iter_init_def)

text \<open>
  \<open>dbus_signature_validate_single\<close> on the printed form of types within the limits answers
  whether there is exactly one of them.
\<close>

theorem validate_single_counts:
  assumes "withins 0 0 ts" "length (sigs_of ts) \<le> DBUS_MAXIMUM_SIGNATURE_LENGTH"
  shows "dbus_signature_validate_single (sigs_of ts) [] = Some (length ts = 1)"
proof (cases ts)
  case Nil
  then show ?thesis
    by (simp add: dbus_signature_validate_single_def dbus_signature_iter_init_def
        dbus_signature_iter_get_current_type_def map_type_char_to_type_def)
next
  case (Cons t us)
  have t: "within 0 0 0 t" and us: "withins 0 0 us" using assms(1) Cons by auto
  have v: "dbus_signature_validate (sigs_of ts) []"
    using sigs_of_valid[OF assms] by (simp add: dbus_signature_validate_def dbus_validate_signature_def)
  have c: "dbus_signature_iter_get_current_type (dbus_signature_iter_init (sigs_of ts)) = type_code t"
    using current_type_printed[OF t, of "sigs_of us" "dbus_signature_iter_init []"] Cons
    by (simp add: dbus_signature_iter_init_def)
  have "type_code t \<noteq> DBUS_TYPE_INVALID" using t by (cases t) (auto simp: basic_cases)
  moreover have "str_byte (sigs_of us) 0 \<noteq> DBUS_TYPE_INVALID \<and> \<not> is_closing (str_byte (sigs_of us) 0)"
    if "us \<noteq> []" using us that first_byte_printed[of 0 0 0 "hd us" "sigs_of (tl us)"] by (cases us) auto
  ultimately show ?thesis using v c signature_next_type[OF t, of "sigs_of us"] Cons
    by (cases "us = []") (auto simp: dbus_signature_validate_single_def dbus_signature_iter_next_def
        dbus_signature_iter_init_def is_closing_def Let_def)
qed

theorem validate_single_counts_witness:
  "dbus_signature_validate_single (ascii ''a(ii)'') [] = Some True"
  using validate_single_counts[of "[Array (Struct [Basic DBUS_TYPE_INT32, Basic DBUS_TYPE_INT32])]"]
  by (simp add: basic_cases)

text \<open>
  A signature the validator accepts can break the contract of the code that walks over it: on
  \<open>a{s(ss})\<close> the first type ends inside the struct, and the next step starts at a closing
  bracket, where \<open>_dbus_type_signature_next\<close> asserts.
\<close>

theorem accepted_signature_breaks_walk:
  "valid_sig (ascii ''a{s(ss})'') \<and>
   dbus_type_signature_next (ascii ''a{s(ss})'') = Some (ascii '')'') \<and>
   dbus_type_signature_next (ascii '')'') = None"
  by (intro conjI; code_simp)

end
