(* ===== verification/Names.thy ===== *)
theory Names
  imports Protocol
begin

text \<open>
  The validators of names in \<open>dbus/dbus-marshal-validate.c\<close>: object paths, interfaces,
  members, error names and bus names, each with the shape of the strings it accepts.
\<close>

section \<open>Character classes\<close>

definition is_digit_char :: "byte \<Rightarrow> bool" where
  [char_class]: "is_digit_char c \<longleftrightarrow> 48 \<le> c \<and> c \<le> 57"

definition is_alpha_char :: "byte \<Rightarrow> bool" where
  [char_class]: "is_alpha_char c \<longleftrightarrow> (65 \<le> c \<and> c \<le> 90) \<or> (97 \<le> c \<and> c \<le> 122)"

definition VALID_INITIAL_NAME_CHARACTER :: "byte \<Rightarrow> bool" where
  [char_class]: "VALID_INITIAL_NAME_CHARACTER c \<longleftrightarrow> is_alpha_char c \<or> c = 95"

definition VALID_NAME_CHARACTER :: "byte \<Rightarrow> bool" where
  [char_class]: "VALID_NAME_CHARACTER c \<longleftrightarrow> is_digit_char c \<or> is_alpha_char c \<or> c = 95"

definition VALID_INITIAL_BUS_NAME_CHARACTER :: "byte \<Rightarrow> bool" where
  [char_class]: "VALID_INITIAL_BUS_NAME_CHARACTER c \<longleftrightarrow> is_alpha_char c \<or> c = 95 \<or> c = 45"

definition VALID_BUS_NAME_CHARACTER :: "byte \<Rightarrow> bool" where
  [char_class]: "VALID_BUS_NAME_CHARACTER c \<longleftrightarrow> is_digit_char c \<or> is_alpha_char c \<or> c = 95 \<or> c = 45"

abbreviation slash :: byte where "slash \<equiv> 47"
abbreviation dot :: byte where "dot \<equiv> 46"
abbreviation colon :: byte where "colon \<equiv> 58"

section \<open>The validators\<close>

text \<open>
  The bytes checked are those from \<open>str + start\<close>, \<open>len\<close> of them; a loop works on the list of
  bytes from \<open>s\<close> to \<open>end\<close>. In the path loop \<open>d\<close> is the distance
  \<open>s - last_slash\<close>; \<open>None\<close> is \<open>return FALSE\<close>, \<open>Some d\<close> the distance at the end.
\<close>

fun path_loop :: "nat \<Rightarrow> byte list \<Rightarrow> nat option" where
  "path_loop d [] = Some d"
| "path_loop d (c # s) =
     (if c = slash then (if d < 2 then None else path_loop 1 s)
      else if \<not> VALID_NAME_CHARACTER c then None
      else path_loop (d + 1) s)"

definition dbus_validate_path :: "byte list \<Rightarrow> nat \<Rightarrow> nat \<Rightarrow> bool" where
  "dbus_validate_path str start len =
     (if len > length str - start then False
      else if len = 0 then False
      else
        let s = take len (drop start str)
        in if hd s \<noteq> slash then False
           else case path_loop 1 (tl s) of
               None \<Rightarrow> False
             | Some d \<Rightarrow> \<not> (d < 2 \<and> len > 1))"

text \<open>
  The loop the interface validator and both loops of the bus name validator share, with their
  character macros as parameters; the result is whether a dot was seen (\<open>last_dot\<close>).
\<close>

fun dotted_loop :: "(byte \<Rightarrow> bool) \<Rightarrow> (byte \<Rightarrow> bool) \<Rightarrow> bool \<Rightarrow> byte list \<Rightarrow> bool option" where
  "dotted_loop initial other last_dot [] = Some last_dot"
| "dotted_loop initial other last_dot (c # s) =
     (if c = dot then
        (case s of
           [] \<Rightarrow> None
         | c1 # s' \<Rightarrow> if \<not> initial c1 then None else dotted_loop initial other True s')
      else if \<not> other c then None
      else dotted_loop initial other last_dot s)"

definition dbus_validate_interface :: "byte list \<Rightarrow> nat \<Rightarrow> nat \<Rightarrow> bool" where
  "dbus_validate_interface str start len =
     (if len > length str - start then False
      else if len > DBUS_MAXIMUM_NAME_LENGTH then False
      else if len = 0 then False
      else
        let s = take len (drop start str)
        in if hd s = dot then False
           else if \<not> VALID_INITIAL_NAME_CHARACTER (hd s) then False
           else dotted_loop VALID_INITIAL_NAME_CHARACTER VALID_NAME_CHARACTER False (tl s) = Some True)"

fun member_loop :: "byte list \<Rightarrow> bool" where
  "member_loop [] = True"
| "member_loop (c # s) = (if \<not> VALID_NAME_CHARACTER c then False else member_loop s)"

definition dbus_validate_member :: "byte list \<Rightarrow> nat \<Rightarrow> nat \<Rightarrow> bool" where
  "dbus_validate_member str start len =
     (if len > length str - start then False
      else if len > DBUS_MAXIMUM_NAME_LENGTH then False
      else if len = 0 then False
      else
        let s = take len (drop start str)
        in if \<not> VALID_INITIAL_NAME_CHARACTER (hd s) then False else member_loop (tl s))"

definition dbus_validate_error_name :: "byte list \<Rightarrow> nat \<Rightarrow> nat \<Rightarrow> bool" where
  "dbus_validate_error_name str start len = dbus_validate_interface str start len"

definition dbus_validate_bus_name :: "byte list \<Rightarrow> nat \<Rightarrow> nat \<Rightarrow> bool" where
  "dbus_validate_bus_name str start len =
     (if len > length str - start then False
      else if len > DBUS_MAXIMUM_NAME_LENGTH then False
      else if len = 0 then False
      else
        let s = take len (drop start str)
        in if hd s = colon then
             dotted_loop VALID_BUS_NAME_CHARACTER VALID_BUS_NAME_CHARACTER False (tl s) \<noteq> None
           else if hd s = dot then False
           else if \<not> VALID_INITIAL_BUS_NAME_CHARACTER (hd s) then False
           else dotted_loop VALID_INITIAL_BUS_NAME_CHARACTER VALID_BUS_NAME_CHARACTER False (tl s) =
                Some True)"

section \<open>What the validators accept\<close>

text \<open>Elements of a name, and a name with its separators before each further element.\<close>

definition element :: "(byte \<Rightarrow> bool) \<Rightarrow> (byte \<Rightarrow> bool) \<Rightarrow> byte list \<Rightarrow> bool" where
  "element initial other e \<longleftrightarrow> e \<noteq> [] \<and> initial (hd e) \<and> list_all other (tl e)"

definition prefixed :: "byte \<Rightarrow> byte list list \<Rightarrow> byte list" where
  "prefixed c es = concat (map ((#) c) es)"

lemma prefixed_simps [simp]:
  "prefixed c [] = []" "prefixed c (e # es) = c # e @ prefixed c es"
  by (simp_all add: prefixed_def)

lemma element_Cons [simp]: "element i p (c # e) \<longleftrightarrow> i c \<and> list_all p e"
  by (simp add: element_def)

lemma element_Nil [simp]: "\<not> element i p []"
  by (simp add: element_def)

lemma name_chars_no_separator:
  "\<not> VALID_NAME_CHARACTER slash" "\<not> VALID_NAME_CHARACTER dot" "\<not> VALID_BUS_NAME_CHARACTER dot"
  "\<not> VALID_INITIAL_NAME_CHARACTER dot" "\<not> VALID_INITIAL_BUS_NAME_CHARACTER dot"
  "\<not> VALID_INITIAL_BUS_NAME_CHARACTER colon"
  by (simp_all add: char_class)

lemma dotted_loop_chars:
  "\<not> p dot \<Longrightarrow> list_all p e \<Longrightarrow> dotted_loop i p b (e @ s) = dotted_loop i p b s"
  by (induction e) auto

lemma dotted_loop_elements:
  "\<not> p dot \<Longrightarrow> \<forall>e \<in> set es. element i p e \<Longrightarrow>
   dotted_loop i p b (prefixed dot es) = Some (b \<or> es \<noteq> [])"
proof (induction es arbitrary: b)
  case (Cons e es)
  then show ?case by (cases e) (auto simp: dotted_loop_chars)
qed simp

lemma dotted_loop_Some:
  "dotted_loop i p b s = Some b' \<Longrightarrow>
   \<exists>e es. s = e @ prefixed dot es \<and> list_all p e \<and> (\<forall>e \<in> set es. element i p e) \<and>
     b' = (b \<or> es \<noteq> [])"
proof (induction i p b s rule: dotted_loop.induct)
  case (1 i p b)
  then show ?case by (intro exI[of _ "[]"]) simp
next
  case (2 i p b c s)
  show ?case
  proof (cases "c = dot")
    case True
    with 2(3) obtain c1 s' where s: "s = c1 # s'" "i c1" "dotted_loop i p True s' = Some b'"
      by (auto split: list.splits if_splits)
    obtain e es where e: "s' = e @ prefixed dot es" "list_all p e" "\<forall>e \<in> set es. element i p e" "b'"
      using 2(1)[OF True s(1) _ s(3)] s(2) by auto
    show ?thesis using True s e
      by (intro exI[of _ "[]"] exI[of _ "(c1 # e) # es"]) simp
  next
    case False
    with 2(3) have c: "p c" "dotted_loop i p b s = Some b'" by (auto split: if_splits)
    obtain e es where "s = e @ prefixed dot es" "list_all p e" "\<forall>e \<in> set es. element i p e"
        "b' = (b \<or> es \<noteq> [])"
      using 2(2)[OF False _ c(2)] c(1) by auto
    then show ?thesis using c by (intro exI[of _ "c # e"] exI[of _ es]) simp
  qed
qed

lemma dotted_loop_iff:
  assumes "\<not> p dot"
  shows "dotted_loop i p b s = Some b' \<longleftrightarrow>
    (\<exists>e es. s = e @ prefixed dot es \<and> list_all p e \<and> (\<forall>e \<in> set es. element i p e) \<and>
       b' = (b \<or> es \<noteq> []))"
proof
  assume "\<exists>e es. s = e @ prefixed dot es \<and> list_all p e \<and> (\<forall>e \<in> set es. element i p e) \<and>
       b' = (b \<or> es \<noteq> [])"
  then obtain e es where s: "s = e @ prefixed dot es" "list_all p e" "\<forall>e \<in> set es. element i p e"
    "b' = (b \<or> es \<noteq> [])" by blast
  have "dotted_loop i p b s = dotted_loop i p b (prefixed dot es)"
    unfolding s(1) by (rule dotted_loop_chars[where p = p, OF assms s(2)])
  then show "dotted_loop i p b s = Some b'"
    using dotted_loop_elements[where p = p, OF assms s(3)] s(4) by simp
qed (rule dotted_loop_Some)

text \<open>A name of two or more elements: first character initial, then the loop.\<close>

lemma dotted_name_iff:
  assumes "\<not> p dot"
  shows "s \<noteq> [] \<and> i (hd s) \<and> dotted_loop i p False (tl s) = Some True \<longleftrightarrow>
    (\<exists>e es. s = e @ prefixed dot es \<and> es \<noteq> [] \<and> (\<forall>e' \<in> set (e # es). element i p e'))"
proof
  assume l: "s \<noteq> [] \<and> i (hd s) \<and> dotted_loop i p False (tl s) = Some True"
  then obtain e es where "tl s = e @ prefixed dot es" "list_all p e" "\<forall>e \<in> set es. element i p e" "es \<noteq> []"
    by (auto simp: dotted_loop_iff[where p = p, OF assms])
  with l show "\<exists>e es. s = e @ prefixed dot es \<and> es \<noteq> [] \<and> (\<forall>e' \<in> set (e # es). element i p e')"
    by (intro exI[of _ "hd s # e"] exI[of _ es]) (cases s, auto)
next
  assume "\<exists>e es. s = e @ prefixed dot es \<and> es \<noteq> [] \<and> (\<forall>e' \<in> set (e # es). element i p e')"
  then obtain e es where "s = e @ prefixed dot es" "es \<noteq> []" "\<forall>e' \<in> set (e # es). element i p e'"
    by auto
  then show "s \<noteq> [] \<and> i (hd s) \<and> dotted_loop i p False (tl s) = Some True"
    by (cases e) (auto simp: dotted_loop_iff[where p = p, OF assms])
qed

text \<open>
  C36. The interface validator accepts exactly the strings of 1 to \<open>DBUS_MAXIMUM_NAME_LENGTH\<close>
  bytes made of two or more elements separated by dots, each element a letter or underscore followed
  by letters, digits and underscores.
\<close>

theorem validate_interface_iff:
  "dbus_validate_interface s 0 (length s) \<longleftrightarrow>
     length s \<le> DBUS_MAXIMUM_NAME_LENGTH \<and>
     (\<exists>e es. s = e @ prefixed dot es \<and> es \<noteq> [] \<and>
        list_all (element VALID_INITIAL_NAME_CHARACTER VALID_NAME_CHARACTER) (e # es))"
  unfolding list_all_iff dotted_name_iff[where p = VALID_NAME_CHARACTER, OF name_chars_no_separator(2), symmetric]
  using name_chars_no_separator(4) by (auto simp: dbus_validate_interface_def Let_def)

text \<open>
  C37. The bus name validator accepts exactly the strings of 1 to \<open>DBUS_MAXIMUM_NAME_LENGTH\<close>
  bytes that are either well-known names (two or more elements separated by dots, none starting with
  a digit) or a colon followed by any characters of bus names in which every dot is followed by one.
\<close>

theorem validate_bus_name_iff:
  "dbus_validate_bus_name s 0 (length s) \<longleftrightarrow>
     length s \<le> DBUS_MAXIMUM_NAME_LENGTH \<and>
     ((\<exists>e es. s = e @ prefixed dot es \<and> es \<noteq> [] \<and>
         list_all (element VALID_INITIAL_BUS_NAME_CHARACTER VALID_BUS_NAME_CHARACTER) (e # es)) \<or>
      (\<exists>e es. s = colon # e @ prefixed dot es \<and> list_all VALID_BUS_NAME_CHARACTER e \<and>
         list_all (element VALID_BUS_NAME_CHARACTER VALID_BUS_NAME_CHARACTER) es))"
proof -
  note chars = name_chars_no_separator
  have unique: "dotted_loop VALID_BUS_NAME_CHARACTER VALID_BUS_NAME_CHARACTER False t \<noteq> None \<longleftrightarrow>
    (\<exists>e es. t = e @ prefixed dot es \<and> list_all VALID_BUS_NAME_CHARACTER e \<and>
         (\<forall>e' \<in> set es. element VALID_BUS_NAME_CHARACTER VALID_BUS_NAME_CHARACTER e'))" for t
    using dotted_loop_iff[where p = VALID_BUS_NAME_CHARACTER, OF chars(3), of VALID_BUS_NAME_CHARACTER False t] by auto
  have u: "(\<exists>e es. s = colon # e @ prefixed dot es \<and> list_all VALID_BUS_NAME_CHARACTER e \<and>
         (\<forall>e' \<in> set es. element VALID_BUS_NAME_CHARACTER VALID_BUS_NAME_CHARACTER e')) \<longleftrightarrow>
      s \<noteq> [] \<and> hd s = colon \<and>
      dotted_loop VALID_BUS_NAME_CHARACTER VALID_BUS_NAME_CHARACTER False (tl s) \<noteq> None"
    unfolding unique by (cases s) auto
  show ?thesis
    unfolding list_all_iff[of _ "_ # _"] dotted_name_iff[where p = VALID_BUS_NAME_CHARACTER, OF chars(3), symmetric] 
    using u unfolding list_all_iff
    using chars by (auto simp: dbus_validate_bus_name_def Let_def)
qed

text \<open>
  The specification of the protocol demands a dot and two elements of every bus name; the
  validator accepts the one-character name \<open>:\<close> and the unique name \<open>:1\<close>, which have none.
\<close>

theorem unique_name_without_dot_accepted:
  "dbus_validate_bus_name (ascii '':'') 0 1 \<and> dbus_validate_bus_name (ascii '':1'') 0 2"
  by (simp add: dbus_validate_bus_name_def char_class)

lemma path_loop_chars:
  "list_all VALID_NAME_CHARACTER e \<Longrightarrow> path_loop d (e @ s) = path_loop (d + length e) s"
  by (induction e arbitrary: d) (auto simp: name_chars_no_separator)

definition path_element :: "byte list \<Rightarrow> bool" where
  "path_element e \<longleftrightarrow> e \<noteq> [] \<and> list_all VALID_NAME_CHARACTER e"

lemma path_loop_elements:
  "d \<ge> 2 \<Longrightarrow> \<forall>e \<in> set es. path_element e \<Longrightarrow> \<exists>d'\<ge>2. path_loop d (prefixed slash es) = Some d'"
proof (induction es arbitrary: d)
  case (Cons e es)
  then have "\<exists>d'\<ge>2. path_loop (1 + length e) (prefixed slash es) = Some d'"
    by (intro Cons.IH) (auto simp: path_element_def Suc_le_eq)
  with Cons.prems show ?case by (auto simp: path_loop_chars path_element_def)
qed auto

lemma path_loop_Some:
  "path_loop d s = Some d' \<Longrightarrow> d' \<ge> 2 \<Longrightarrow> \<exists>e es. s = e @ prefixed slash es \<and>
     list_all VALID_NAME_CHARACTER e \<and> d + length e \<ge> 2 \<and> (\<forall>e \<in> set es. path_element e)"
proof (induction d s rule: path_loop.induct)
  case (1 d)
  then show ?case by (intro exI[of _ "[]"]) simp
next
  case (2 d c s)
  show ?case
  proof (cases "c = slash")
    case True
    with 2(3) have l: "\<not> d < 2" "path_loop 1 s = Some d'" by (auto split: if_splits)
    obtain e es where "s = e @ prefixed slash es" "list_all VALID_NAME_CHARACTER e"
      "1 + length e \<ge> 2" "\<forall>e \<in> set es. path_element e"
      using 2(1)[OF True l 2(4)] by auto
    then show ?thesis using True l
      by (intro exI[of _ "[]"] exI[of _ "e # es"]) (auto simp: path_element_def)
  next
    case False
    with 2(3) have l: "VALID_NAME_CHARACTER c" "path_loop (d + 1) s = Some d'" by (auto split: if_splits)
    obtain e es where "s = e @ prefixed slash es" "list_all VALID_NAME_CHARACTER e"
      "d + 1 + length e \<ge> 2" "\<forall>e \<in> set es. path_element e"
      using 2(2)[OF False _ l(2) 2(4)] l(1) by auto
    then show ?thesis using l by (intro exI[of _ "c # e"] exI[of _ es]) auto
  qed
qed

text \<open>
  The object path validator accepts exactly the root path \<open>/\<close> and the non-empty sequences
  of elements each preceded by a slash, an element being one or more letters, digits and underscores.
\<close>

theorem validate_path_iff:
  "dbus_validate_path s 0 (length s) \<longleftrightarrow>
     s = [slash] \<or> (\<exists>es. es \<noteq> [] \<and> s = prefixed slash es \<and> list_all path_element es)"
  unfolding list_all_iff
proof
  assume v: "dbus_validate_path s 0 (length s)"
  then obtain t d where s: "s = slash # t" "path_loop 1 t = Some d" "\<not> (d < 2 \<and> length s > 1)"
    by (cases s) (auto simp: dbus_validate_path_def Let_def split: option.splits if_splits)
  show "s = [slash] \<or> (\<exists>es. es \<noteq> [] \<and> s = prefixed slash es \<and> (\<forall>e \<in> set es. path_element e))"
  proof (cases "t = []")
    case False
    with s have "d \<ge> 2" by (cases t) auto
    with s(2) obtain e es where "t = e @ prefixed slash es" "list_all VALID_NAME_CHARACTER e"
      "1 + length e \<ge> 2" "\<forall>e \<in> set es. path_element e"
      using path_loop_Some[of 1 t d] by auto
    then have "s = prefixed slash (e # es)" "\<forall>e' \<in> set (e # es). path_element e'"
      using s(1) by (auto simp: path_element_def)
    then show ?thesis by blast
  qed (use s in simp)
next
  assume "s = [slash] \<or> (\<exists>es. es \<noteq> [] \<and> s = prefixed slash es \<and> (\<forall>e \<in> set es. path_element e))"
  then show "dbus_validate_path s 0 (length s)"
  proof
    assume "\<exists>es. es \<noteq> [] \<and> s = prefixed slash es \<and> (\<forall>e \<in> set es. path_element e)"
    then obtain e es where es: "s = prefixed slash (e # es)" "\<forall>e' \<in> set (e # es). path_element e'"
      by (metis neq_Nil_conv)
    then obtain d where "d \<ge> 2" "path_loop (1 + length e) (prefixed slash es) = Some d"
      using path_loop_elements[of "1 + length e" es] by (auto simp: path_element_def Suc_le_eq)
    then show ?thesis using es
      by (auto simp: dbus_validate_path_def path_loop_chars path_element_def)
  qed (simp add: dbus_validate_path_def)
qed

lemma member_loop_iff: "member_loop s = list_all VALID_NAME_CHARACTER s"
  by (induction s) auto

lemma validate_member_iff:
  "dbus_validate_member s 0 (length s) \<longleftrightarrow> length s \<le> DBUS_MAXIMUM_NAME_LENGTH \<and>
     element VALID_INITIAL_NAME_CHARACTER VALID_NAME_CHARACTER s"
  by (cases s) (auto simp: dbus_validate_member_def member_loop_iff)

end
