(* ===== verification/Registry.thy ===== *)
theory Registry
  imports Prelude
begin

text \<open>
  The data of the name registry of the message bus (\<open>bus/services.c\<close>) as an explicit store:
  service and owner objects live at addresses, with their reference counts; connections are
  addresses as well. The transaction under construction (\<open>bus/connection.c\<close>) is part of the
  state. The read-only operations are here, the updates are in \<open>Services\<close>.
\<close>

section \<open>Objects\<close>

type_synonym conn = nat
type_synonym owner_ref = nat
type_synonym service_ref = nat

text \<open>
  \<open>struct BusOwner\<close> and \<open>struct BusService\<close>. An object whose reference count reached 0 is
  freed; its address is never used again. The owners of a service are a \<open>DBusList\<close> in order,
  the primary owner first.
\<close>

record bus_owner =
  ow_refcount :: int
  ow_service :: service_ref
  ow_conn :: conn
  allow_replacement :: bool
  do_not_queue :: bool

record bus_service =
  sv_refcount :: int
  sv_name :: "byte list"
  sv_owners :: "owner_ref list"

text \<open>
  The signals and notices the registry hands to the bus driver and to the activation component:
  \<open>bus_driver_send_service_owner_changed\<close> (with the unique names of old and new owner),
  \<open>bus_driver_send_service_lost\<close>, \<open>bus_driver_send_service_acquired\<close>,
  \<open>bus_activation_service_created\<close> and
  \<open>bus_activation_send_pending_auto_activation_messages\<close>.
\<close>

datatype notice =
    NameOwnerChanged "byte list" "byte list option" "byte list option"
  | NameLost conn "byte list"
  | NameAcquired conn "byte list"
  | ServiceCreated "byte list"
  | PendingActivation "byte list"
  | Reply conn nat

text \<open>
  A cancel hook with its data: \<open>OwnershipCancelData\<close> or \<open>OwnershipRestoreData\<close> (whose
  preallocated links are not needed as values: they are only allocated so that the hook cannot
  fail).
\<close>

datatype hook =
    CancelOwnership (hook_owner: owner_ref) (hook_service: service_ref)
  | RestoreOwnership (hook_owner: owner_ref) (hook_service: service_ref) (before_owner: "owner_ref option")

text \<open>The registry, the connections' \<open>services_owned\<close> lists the messages of the current
  transaction with its cancel hooks, and those already delivered.\<close>

record bus =
  owner_at :: "owner_ref \<Rightarrow> bus_owner"
  service_at :: "service_ref \<Rightarrow> bus_service"
  next_owner :: owner_ref
  next_service :: service_ref
  service_hash :: "byte list \<Rightarrow> service_ref option"
  services_owned :: "conn \<Rightarrow> service_ref list"
  unique_name :: "conn \<Rightarrow> byte list"
  bus_mem :: mem_oracle
  sent :: "notice list"
  delivered :: "notice list"
  cancel_hooks :: "hook list"

text \<open>
  The registry as \<open>bus_registry_new\<close> leaves it when its allocations succeed (the objects at
  addresses not yet handed out are irrelevant), on a bus without connections.
\<close>

definition empty_bus :: bus where
  "empty_bus = \<lparr>owner_at = \<lambda>_. \<lparr>ow_refcount = 0, ow_service = 0, ow_conn = 0,
       allow_replacement = False, do_not_queue = False\<rparr>,
     service_at = \<lambda>_. \<lparr>sv_refcount = 0, sv_name = [], sv_owners = []\<rparr>,
     next_owner = 0, next_service = 0, service_hash = Map.empty, services_owned = \<lambda>_. [],
     unique_name = \<lambda>_. [], bus_mem = [], sent = [], delivered = [], cancel_hooks = []\<rparr>"

section \<open>Reading\<close>

definition bus_registry_lookup :: "bus \<Rightarrow> byte list \<Rightarrow> service_ref option" where
  "bus_registry_lookup s service_name = service_hash s service_name"

definition owners :: "bus \<Rightarrow> service_ref \<Rightarrow> owner_ref list" where
  "owners s service = sv_owners (service_at s service)"

fun find_owner :: "(owner_ref \<Rightarrow> bus_owner) \<Rightarrow> owner_ref list \<Rightarrow> conn \<Rightarrow> owner_ref option" where
  "find_owner heap [] connection = None"
| "find_owner heap (link # rest) connection =
     (if ow_conn (heap link) = connection then Some link else find_owner heap rest connection)"

definition bus_service_find_owner_link :: "bus \<Rightarrow> service_ref \<Rightarrow> conn \<Rightarrow> owner_ref option" where
  "bus_service_find_owner_link s service connection =
     find_owner (owner_at s) (owners s service) connection"

definition bus_service_has_owner :: "bus \<Rightarrow> service_ref \<Rightarrow> conn \<Rightarrow> bool" where
  "bus_service_has_owner s service connection \<longleftrightarrow>
     bus_service_find_owner_link s service connection \<noteq> None"

definition bus_service_get_primary_owner :: "bus \<Rightarrow> service_ref \<Rightarrow> owner_ref option" where
  "bus_service_get_primary_owner s service =
     (case owners s service of [] \<Rightarrow> None | ow # _ \<Rightarrow> Some ow)"

definition bus_service_get_primary_owners_connection :: "bus \<Rightarrow> service_ref \<Rightarrow> conn option" where
  "bus_service_get_primary_owners_connection s service =
     (case bus_service_get_primary_owner s service of
        Some ow \<Rightarrow> Some (ow_conn (owner_at s ow))
      | None \<Rightarrow> None)"

text \<open>The code asserts that there is an owner.\<close>

definition bus_service_get_allow_replacement :: "bus \<Rightarrow> service_ref \<Rightarrow> bool" where
  "bus_service_get_allow_replacement s service =
     allow_replacement (owner_at s (hd (owners s service)))"

definition bus_connection_get_n_services_owned :: "bus \<Rightarrow> conn \<Rightarrow> nat" where
  "bus_connection_get_n_services_owned s connection = length (services_owned s connection)"

lemma find_owner_Some:
  "find_owner heap os c = Some ow \<Longrightarrow> ow \<in> set os \<and> ow_conn (heap ow) = c"
  by (induction os) (auto split: if_splits)

lemma find_owner_None: "find_owner heap os c = None \<longleftrightarrow> c \<notin> (\<lambda>ow. ow_conn (heap ow)) ` set os"
  by (induction os) auto

lemma has_owner_iff:
  "bus_service_has_owner s sv c \<longleftrightarrow> c \<in> (\<lambda>ow. ow_conn (owner_at s ow)) ` set (owners s sv)"
  using find_owner_None[of "owner_at s" "owners s sv" c]
  by (auto simp: bus_service_has_owner_def bus_service_find_owner_link_def)

end
