(* ===== verification/Policy.thy ===== *)
theory Policy
  imports Registry
begin

text \<open>
  Security policy of the message bus (\<open>bus/policy.c\<close>): rules, the three checks of a client
  policy, the optimiser of a client policy and the check whether a user may connect.
\<close>

section \<open>Rules and messages\<close>

text \<open>
  \<open>struct BusPolicyRule\<close>; the message type 0 is \<open>DBUS_MESSAGE_TYPE_INVALID\<close>, meaning any,
  and \<open>None\<close> is a \<open>NULL\<close> string, meaning any. \<open>DBUS_UID_UNSET\<close> and
  \<open>DBUS_GID_UNSET\<close> are \<open>None\<close>.
\<close>

record send_rule =
  snd_message_type :: nat
  snd_path :: "byte list option"
  snd_interface :: "byte list option"
  snd_member :: "byte list option"
  snd_error :: "byte list option"
  snd_destination :: "byte list option"
  snd_eavesdrop :: bool
  snd_requested_reply :: bool
  snd_log :: bool

record receive_rule =
  rcv_message_type :: nat
  rcv_path :: "byte list option"
  rcv_interface :: "byte list option"
  rcv_member :: "byte list option"
  rcv_error :: "byte list option"
  rcv_origin :: "byte list option"
  rcv_eavesdrop :: bool
  rcv_requested_reply :: bool

datatype rule_body =
    SendRule send_rule
  | ReceiveRule receive_rule
  | OwnRule "byte list option"
  | UserRule "nat option"
  | GroupRule "nat option"

record policy_rule =
  allow :: bool
  body :: rule_body

text \<open>The header fields the checks read; \<open>None\<close> is an absent field, serial 0 is no reply.\<close>

record message =
  msg_type :: nat
  msg_path :: "byte list option"
  msg_interface :: "byte list option"
  msg_member :: "byte list option"
  msg_error_name :: "byte list option"
  msg_destination :: "byte list option"
  msg_sender :: "byte list option"
  msg_reply_serial :: nat

definition DBUS_MESSAGE_TYPE_INVALID :: nat where
  [simp]: "DBUS_MESSAGE_TYPE_INVALID = 0"

section \<open>The conditions under which a rule is skipped\<close>

text \<open>A field the rule names and the message has must be equal.\<close>

definition field_differs :: "byte list option \<Rightarrow> byte list option \<Rightarrow> bool" where
  "field_differs rule_field msg_field \<longleftrightarrow>
     (case rule_field of None \<Rightarrow> False
      | Some r \<Rightarrow> (case msg_field of None \<Rightarrow> False | Some m \<Rightarrow> m \<noteq> r))"

text \<open>The interface is optional in messages: without one an allow rule that names one is skipped.\<close>

definition interface_differs :: "bool \<Rightarrow> byte list option \<Rightarrow> byte list option \<Rightarrow> bool" where
  "interface_differs allows rule_field msg_field \<longleftrightarrow>
     (case rule_field of None \<Rightarrow> False
      | Some r \<Rightarrow> (case msg_field of None \<Rightarrow> allows | Some m \<Rightarrow> m \<noteq> r))"

text \<open>
  The end of a send or receive check: the named destination or origin. Without a connection (the bus
  driver itself) the string of the message is compared, otherwise the connection must own the name.
\<close>

definition peer_differs :: "bus \<Rightarrow> conn option \<Rightarrow> byte list option \<Rightarrow> byte list option \<Rightarrow> bool" where
  "peer_differs registry peer rule_name msg_name \<longleftrightarrow>
     (case rule_name of None \<Rightarrow> False
      | Some name \<Rightarrow>
         (case peer of
            None \<Rightarrow> msg_name \<noteq> Some name
          | Some c \<Rightarrow>
             (case bus_registry_lookup registry name of
                None \<Rightarrow> True
              | Some service \<Rightarrow> \<not> bus_service_has_owner registry service c)))"

definition reply_skips :: "bool \<Rightarrow> bool \<Rightarrow> bool \<Rightarrow> bool \<Rightarrow> message \<Rightarrow> bool" where
  "reply_skips requested_reply allows rule_requested_reply rule_eavesdrop m \<longleftrightarrow>
     msg_reply_serial m \<noteq> 0 \<and>
     ((\<not> requested_reply \<and> allows \<and> rule_requested_reply \<and> \<not> rule_eavesdrop) \<or>
      (requested_reply \<and> \<not> allows \<and> \<not> rule_requested_reply))"

definition send_rule_skipped ::
  "bus \<Rightarrow> bool \<Rightarrow> conn option \<Rightarrow> message \<Rightarrow> bool \<Rightarrow> send_rule \<Rightarrow> bool" where
  "send_rule_skipped registry requested_reply receiver m allows r \<longleftrightarrow>
     (snd_message_type r \<noteq> DBUS_MESSAGE_TYPE_INVALID \<and> msg_type m \<noteq> snd_message_type r) \<or>
     reply_skips requested_reply allows (snd_requested_reply r) (snd_eavesdrop r) m \<or>
     field_differs (snd_path r) (msg_path m) \<or>
     interface_differs allows (snd_interface r) (msg_interface m) \<or>
     field_differs (snd_member r) (msg_member m) \<or>
     field_differs (snd_error r) (msg_error_name m) \<or>
     peer_differs registry receiver (snd_destination r) (msg_destination m)"

definition receive_rule_skipped ::
  "bus \<Rightarrow> bool \<Rightarrow> bool \<Rightarrow> conn option \<Rightarrow> message \<Rightarrow> bool \<Rightarrow> receive_rule \<Rightarrow> bool" where
  "receive_rule_skipped registry requested_reply eavesdropping sender m allows r \<longleftrightarrow>
     (rcv_message_type r \<noteq> DBUS_MESSAGE_TYPE_INVALID \<and> msg_type m \<noteq> rcv_message_type r) \<or>
     (eavesdropping \<and> allows \<and> \<not> rcv_eavesdrop r) \<or>
     (\<not> eavesdropping \<and> \<not> allows \<and> rcv_eavesdrop r) \<or>
     reply_skips requested_reply allows (rcv_requested_reply r) (rcv_eavesdrop r) m \<or>
     field_differs (rcv_path r) (msg_path m) \<or>
     interface_differs allows (rcv_interface r) (msg_interface m) \<or>
     field_differs (rcv_member r) (msg_member m) \<or>
     field_differs (rcv_error r) (msg_error_name m) \<or>
     peer_differs registry sender (rcv_origin r) (msg_sender m)"

section \<open>The checks\<close>

text \<open>
  The loops over the rules: \<open>allowed\<close>, the number of rules used (\<open>toggles\<close>) and, for
  sending, the log flag of the last rule used (\<open>None\<close>: \<open>*log\<close> is not written).
\<close>

fun can_send_loop ::
  "bus \<Rightarrow> bool \<Rightarrow> conn option \<Rightarrow> message \<Rightarrow> policy_rule list \<Rightarrow> bool \<times> nat \<times> bool option \<Rightarrow>
   bool \<times> nat \<times> bool option" where
  "can_send_loop registry requested_reply receiver m [] acc = acc"
| "can_send_loop registry requested_reply receiver m (rule # rules) (allowed, toggles, log) =
     can_send_loop registry requested_reply receiver m rules
       (case body rule of
          SendRule r \<Rightarrow>
            if send_rule_skipped registry requested_reply receiver m (allow rule) r
            then (allowed, toggles, log)
            else (allow rule, toggles + 1, Some (snd_log r))
        | _ \<Rightarrow> (allowed, toggles, log))"

definition bus_client_policy_check_can_send ::
  "policy_rule list \<Rightarrow> bus \<Rightarrow> bool \<Rightarrow> conn option \<Rightarrow> message \<Rightarrow> bool \<times> nat \<times> bool option" where
  "bus_client_policy_check_can_send policy registry requested_reply receiver m =
     can_send_loop registry requested_reply receiver m policy (False, 0, None)"

fun can_receive_loop ::
  "bus \<Rightarrow> bool \<Rightarrow> bool \<Rightarrow> conn option \<Rightarrow> message \<Rightarrow> policy_rule list \<Rightarrow> bool \<times> nat \<Rightarrow> bool \<times> nat" where
  "can_receive_loop registry requested_reply eavesdropping sender m [] acc = acc"
| "can_receive_loop registry requested_reply eavesdropping sender m (rule # rules) (allowed, toggles) =
     can_receive_loop registry requested_reply eavesdropping sender m rules
       (case body rule of
          ReceiveRule r \<Rightarrow>
            if receive_rule_skipped registry requested_reply eavesdropping sender m (allow rule) r
            then (allowed, toggles)
            else (allow rule, toggles + 1)
        | _ \<Rightarrow> (allowed, toggles))"

definition bus_client_policy_check_can_receive ::
  "policy_rule list \<Rightarrow> bus \<Rightarrow> bool \<Rightarrow> conn option \<Rightarrow> conn option \<Rightarrow> conn option \<Rightarrow> message \<Rightarrow>
   bool \<times> nat" where
  "bus_client_policy_check_can_receive policy registry requested_reply sender addressed_recipient
     proposed_recipient m =
     (let eavesdropping = (addressed_recipient \<noteq> proposed_recipient \<and> msg_destination m \<noteq> None)
      in can_receive_loop registry requested_reply eavesdropping sender m policy (False, 0))"

fun can_own_loop :: "byte list \<Rightarrow> policy_rule list \<Rightarrow> bool \<Rightarrow> bool" where
  "can_own_loop service_name [] allowed = allowed"
| "can_own_loop service_name (rule # rules) allowed =
     can_own_loop service_name rules
       (case body rule of
          OwnRule None \<Rightarrow> allow rule
        | OwnRule (Some name) \<Rightarrow> if service_name \<noteq> name then allowed else allow rule
        | _ \<Rightarrow> allowed)"

definition bus_client_policy_check_can_own :: "policy_rule list \<Rightarrow> byte list \<Rightarrow> bool" where
  "bus_client_policy_check_can_own policy service_name = can_own_loop service_name policy False"

text \<open>\<open>list_allows_user\<close>: the user and group rules of a list, the last that applies wins.\<close>

fun list_allows_user :: "bool \<Rightarrow> policy_rule list \<Rightarrow> nat \<Rightarrow> nat list \<Rightarrow> bool" where
  "list_allows_user allowed [] uid group_ids = allowed"
| "list_allows_user allowed (rule # rules) uid group_ids =
     list_allows_user
       (case body rule of
          UserRule u \<Rightarrow> if u \<noteq> None \<and> u \<noteq> Some uid then allowed else allow rule
        | GroupRule None \<Rightarrow> allow rule
        | GroupRule (Some g) \<Rightarrow> if g \<notin> set group_ids then allowed else allow rule
        | _ \<Rightarrow> allowed)
       rules uid group_ids"

text \<open>
  \<open>struct BusPolicy\<close>, reduced to the lists this check reads. The user database is the
  parameter: the groups of a user (\<open>None\<close>: the lookup failed) and whether the user owns the bus
  process.
\<close>

definition bus_policy_allow_unix_user ::
  "policy_rule list \<Rightarrow> policy_rule list \<Rightarrow> (nat \<Rightarrow> nat list option) \<Rightarrow> (nat \<Rightarrow> bool) \<Rightarrow> nat \<Rightarrow> bool" where
  "bus_policy_allow_unix_user default_rules mandatory_rules groups_from_uid is_process_owner uid =
     (case groups_from_uid uid of
        None \<Rightarrow> False
      | Some group_ids \<Rightarrow>
          let allowed = is_process_owner uid;
              allowed = list_allows_user allowed default_rules uid group_ids
          in list_allows_user allowed mandatory_rules uid group_ids)"

section \<open>Building and optimising a client policy\<close>

definition is_per_client :: "policy_rule \<Rightarrow> bool" where
  "is_per_client rule =
     (case body rule of UserRule _ \<Rightarrow> False | GroupRule _ \<Rightarrow> False | _ \<Rightarrow> True)"

text \<open>\<open>add_list_to_client\<close>: each append may run out of memory and then the function stops.\<close>

fun add_list_to_client :: "policy_rule list \<Rightarrow> policy_rule list \<Rightarrow> mem_oracle \<Rightarrow>
    bool \<times> policy_rule list \<times> mem_oracle" where
  "add_list_to_client [] client m = (True, client, m)"
| "add_list_to_client (rule # rules) client m =
     (if is_per_client rule then
        (case alloc m of (ok, m) \<Rightarrow>
           if ok then add_list_to_client rules (client @ [rule]) m else (False, client, m))
      else add_list_to_client rules client m)"

fun same_type :: "rule_body \<Rightarrow> rule_body \<Rightarrow> bool" where
  "same_type (SendRule _) (SendRule _) = True"
| "same_type (ReceiveRule _) (ReceiveRule _) = True"
| "same_type (OwnRule _) (OwnRule _) = True"
| "same_type (UserRule _) (UserRule _) = True"
| "same_type (GroupRule _) (GroupRule _) = True"
| "same_type _ _ = False"

fun remove_preceding :: "rule_body \<Rightarrow> bool" where
  "remove_preceding (SendRule r) \<longleftrightarrow>
     snd_message_type r = DBUS_MESSAGE_TYPE_INVALID \<and> snd_path r = None \<and>
     snd_interface r = None \<and> snd_member r = None \<and> snd_error r = None \<and> snd_destination r = None"
| "remove_preceding (ReceiveRule r) \<longleftrightarrow>
     rcv_message_type r = DBUS_MESSAGE_TYPE_INVALID \<and> rcv_path r = None \<and>
     rcv_interface r = None \<and> rcv_member r = None \<and> rcv_error r = None \<and> rcv_origin r = None"
| "remove_preceding (OwnRule name) \<longleftrightarrow> name = None"
| "remove_preceding _ \<longleftrightarrow> False"

definition remove_rules_by_type_up_to :: "rule_body \<Rightarrow> policy_rule list \<Rightarrow> policy_rule list" where
  "remove_rules_by_type_up_to type prior = filter (\<lambda>rule. \<not> same_type (body rule) type) prior"

text \<open>The optimiser's loop: the rules kept before \<open>link\<close>, and those from \<open>link\<close> on.\<close>

fun optimize_loop :: "policy_rule list \<Rightarrow> policy_rule list \<Rightarrow> policy_rule list" where
  "optimize_loop prior [] = prior"
| "optimize_loop prior (rule # rules) =
     optimize_loop
       ((if remove_preceding (body rule) then remove_rules_by_type_up_to (body rule) prior
         else prior) @ [rule]) rules"

definition bus_client_policy_optimize :: "policy_rule list \<Rightarrow> policy_rule list" where
  "bus_client_policy_optimize policy = optimize_loop [] policy"


section \<open>Scanning rules: the last one that applies wins\<close>

text \<open>
  The four checks scan a list of rules with a verdict that a rule overwrites where it applies. The
  contract of such a scan, and what follows from it.
\<close>

locale rule_scan =
  fixes scan :: "policy_rule list \<Rightarrow> bool \<Rightarrow> bool" and applies :: "policy_rule \<Rightarrow> bool"
  assumes scan_Nil: "scan [] a = a"
    and scan_Cons: "scan (r # rs) a = scan rs (if applies r then allow r else a)"
begin

lemma scan_append: "scan (rs @ rs') a = scan rs' (scan rs a)"
  by (induction rs arbitrary: a) (simp_all add: scan_Nil scan_Cons)

lemma last_wins:
  "scan rs a = (case find applies (rev rs) of None \<Rightarrow> a | Some r \<Rightarrow> allow r)"
proof (induction rs rule: rev_induct)
  case (snoc r rs)
  then show ?case by (simp add: scan_append scan_Nil scan_Cons)
qed (simp add: scan_Nil)

lemma scan_filter:
  "(\<And>r. r \<in> set rs \<Longrightarrow> applies r \<Longrightarrow> P r) \<Longrightarrow> scan (filter P rs) a = scan rs a"
  by (induction rs arbitrary: a) (auto simp: scan_Nil scan_Cons)

text \<open>
  The optimiser keeps the verdict of a scan in which every rule that removes its predecessors
  applies, or removes only rules that do not.
\<close>

lemma scan_optimize_loop:
  assumes "\<And>r. r \<in> set rs \<Longrightarrow> remove_preceding (body r) \<Longrightarrow>
      applies r \<or> (\<forall>r'. same_type (body r') (body r) \<longrightarrow> \<not> applies r')"
  shows "scan (optimize_loop prior rs) a = scan (prior @ rs) a"
  using assms
proof (induction rs arbitrary: prior)
  case (Cons r rs)
  let ?kept = "if remove_preceding (body r) then remove_rules_by_type_up_to (body r) prior else prior"
  have "scan (optimize_loop prior (r # rs)) a = scan ((?kept @ [r]) @ rs) a"
    using Cons.IH[of "?kept @ [r]"] Cons.prems by simp
  also have "\<dots> = scan rs (scan [r] (scan ?kept a))"
    by (simp only: scan_append)
  also have "\<dots> = scan rs (scan [r] (scan prior a))"
  proof (cases "remove_preceding (body r) \<and> \<not> applies r")
    case True
    then have "scan ?kept a = scan prior a"
      using Cons.prems[of r] by (auto simp: remove_rules_by_type_up_to_def intro!: scan_filter)
    then show ?thesis by simp
  qed (auto simp: scan_Cons scan_Nil)
  also have "\<dots> = scan (prior @ r # rs) a"
    using scan_append[of prior "r # rs" a] scan_append[of "[r]" rs "scan prior a"] by simp
  finally show ?case .
qed simp

lemma scan_optimize:
  assumes "\<And>r. r \<in> set rs \<Longrightarrow> remove_preceding (body r) \<Longrightarrow>
      applies r \<or> (\<forall>r'. same_type (body r') (body r) \<longrightarrow> \<not> applies r')"
  shows "scan (bus_client_policy_optimize rs) a = scan rs a"
  using scan_optimize_loop[of rs "[]" a] assms by (simp add: bus_client_policy_optimize_def)

end

fun own_applies :: "byte list \<Rightarrow> rule_body \<Rightarrow> bool" where
  "own_applies service_name (OwnRule None) = True"
| "own_applies service_name (OwnRule (Some name)) = (service_name = name)"
| "own_applies service_name _ = False"

interpretation own_scan: rule_scan "can_own_loop service_name" "\<lambda>r. own_applies service_name (body r)"
  by unfold_locales (auto split: rule_body.splits option.splits)

fun send_applies :: "bus \<Rightarrow> bool \<Rightarrow> conn option \<Rightarrow> message \<Rightarrow> policy_rule \<Rightarrow> bool" where
  "send_applies registry requested_reply receiver m rule =
     (case body rule of
        SendRule r \<Rightarrow> \<not> send_rule_skipped registry requested_reply receiver m (allow rule) r
      | _ \<Rightarrow> False)"

definition send_verdict ::
  "bus \<Rightarrow> bool \<Rightarrow> conn option \<Rightarrow> message \<Rightarrow> policy_rule list \<Rightarrow> bool \<Rightarrow> bool" where
  "send_verdict registry requested_reply receiver m rules a =
     fst (can_send_loop registry requested_reply receiver m rules (a, 0, None))"

lemma can_send_fst:
  "fst (can_send_loop g q c m rules (a, t, l)) = fst (can_send_loop g q c m rules (a, t', l'))"
proof (induction rules arbitrary: a t l t' l')
  case (Cons rule rules)
  then show ?case by (cases "body rule") auto
qed simp

interpretation send_scan: rule_scan "send_verdict g q c m" "send_applies g q c m"
proof unfold_locales
  fix r :: policy_rule and rs a
  show "send_verdict g q c m (r # rs) a =
        send_verdict g q c m rs (if send_applies g q c m r then allow r else a)"
    using can_send_fst by (cases "body r") (auto simp: send_verdict_def)
qed (simp add: send_verdict_def)

fun receive_applies :: "bus \<Rightarrow> bool \<Rightarrow> bool \<Rightarrow> conn option \<Rightarrow> message \<Rightarrow> policy_rule \<Rightarrow> bool" where
  "receive_applies registry requested_reply eavesdropping sender m rule =
     (case body rule of
        ReceiveRule r \<Rightarrow>
          \<not> receive_rule_skipped registry requested_reply eavesdropping sender m (allow rule) r
      | _ \<Rightarrow> False)"

definition receive_verdict ::
  "bus \<Rightarrow> bool \<Rightarrow> bool \<Rightarrow> conn option \<Rightarrow> message \<Rightarrow> policy_rule list \<Rightarrow> bool \<Rightarrow> bool" where
  "receive_verdict registry requested_reply eavesdropping sender m rules a =
     fst (can_receive_loop registry requested_reply eavesdropping sender m rules (a, 0))"

lemma can_receive_fst:
  "fst (can_receive_loop g q e c m rules (a, t)) = fst (can_receive_loop g q e c m rules (a, t'))"
proof (induction rules arbitrary: a t t')
  case (Cons rule rules)
  then show ?case by (cases "body rule") auto
qed simp

interpretation receive_scan: rule_scan "receive_verdict g q e c m" "receive_applies g q e c m"
proof unfold_locales
  fix r :: policy_rule and rs a
  show "receive_verdict g q e c m (r # rs) a =
        receive_verdict g q e c m rs (if receive_applies g q e c m r then allow r else a)"
    using can_receive_fst by (cases "body r") (auto simp: receive_verdict_def)
qed (simp add: receive_verdict_def)

fun identity_applies :: "nat \<Rightarrow> nat list \<Rightarrow> rule_body \<Rightarrow> bool" where
  "identity_applies uid group_ids (UserRule u) = (u = None \<or> u = Some uid)"
| "identity_applies uid group_ids (GroupRule None) = True"
| "identity_applies uid group_ids (GroupRule (Some g)) = (g \<in> set group_ids)"
| "identity_applies uid group_ids _ = False"

interpretation user_scan: rule_scan "\<lambda>rules a. list_allows_user a rules uid group_ids"
    "\<lambda>r. identity_applies uid group_ids (body r)"
  by unfold_locales (auto split: rule_body.splits option.splits)

lemma check_can_send_verdict:
  "fst (bus_client_policy_check_can_send policy g q c m) = send_verdict g q c m policy False"
  by (simp add: bus_client_policy_check_can_send_def send_verdict_def)

lemma check_can_receive_verdict:
  "fst (bus_client_policy_check_can_receive policy g q c ar pr m) =
   receive_verdict g q (ar \<noteq> pr \<and> msg_destination m \<noteq> None) c m policy False"
  by (simp add: bus_client_policy_check_can_receive_def receive_verdict_def Let_def)

text \<open>
  C30. Name ownership: a connection may own a name exactly if the last own rule of its policy that
  names it, or names none, is an allow rule; with no such rule it may not.
\<close>

theorem can_own_last_rule:
  "bus_client_policy_check_can_own policy name =
     (case find (\<lambda>r. own_applies name (body r)) (rev policy) of None \<Rightarrow> False | Some r \<Rightarrow> allow r)"
  by (simp add: bus_client_policy_check_can_own_def own_scan.last_wins)

text \<open>
  C31. Sending and receiving: the verdict is that of the last rule that is not skipped for the
  message, and denial if every rule is skipped.
\<close>

theorem can_send_receive_last_rule:
  "fst (bus_client_policy_check_can_send policy g q c m) =
     (case find (send_applies g q c m) (rev policy) of None \<Rightarrow> False | Some r \<Rightarrow> allow r) \<and>
   fst (bus_client_policy_check_can_receive policy g q c ar pr m) =
     (case find (receive_applies g q (ar \<noteq> pr \<and> msg_destination m \<noteq> None) c m) (rev policy) of
        None \<Rightarrow> False | Some r \<Rightarrow> allow r)"
  by (simp add: check_can_send_verdict check_can_receive_verdict send_scan.last_wins
      receive_scan.last_wins)

section \<open>What the optimiser keeps and what it changes\<close>

lemma wildcard_send_applies:
  "body (r :: policy_rule) = SendRule x \<Longrightarrow> remove_preceding (body r) \<Longrightarrow> msg_reply_serial m = 0 \<Longrightarrow>
   send_applies g q c m r"
  by (auto simp: send_rule_skipped_def reply_skips_def field_differs_def interface_differs_def
      peer_differs_def)

lemma wildcard_receive_applies:
  "body (r :: policy_rule) = ReceiveRule x \<Longrightarrow> remove_preceding (body r) \<Longrightarrow> msg_reply_serial m = 0 \<Longrightarrow>
   (if e then allow r \<longrightarrow> rcv_eavesdrop x else rcv_eavesdrop x \<longrightarrow> allow r) \<Longrightarrow>
   receive_applies g q e c m r"
  by (auto simp: receive_rule_skipped_def reply_skips_def field_differs_def interface_differs_def
      peer_differs_def split: if_splits)

definition plain_message :: message where
  "plain_message = \<lparr>msg_type = 1, msg_path = None, msg_interface = None, msg_member = None,
     msg_error_name = None, msg_destination = None, msg_sender = None, msg_reply_serial = 0\<rparr>"

definition allow_send_to :: "byte list \<Rightarrow> policy_rule" where
  "allow_send_to name = \<lparr>allow = True, body = SendRule \<lparr>snd_message_type = 0, snd_path = None,
     snd_interface = None, snd_member = None, snd_error = None, snd_destination = Some name,
     snd_eavesdrop = False, snd_requested_reply = True, snd_log = False\<rparr>\<rparr>"

definition allow_send :: policy_rule where
  "allow_send = \<lparr>allow = True, body = SendRule \<lparr>snd_message_type = 0, snd_path = None,
     snd_interface = None, snd_member = None, snd_error = None, snd_destination = None,
     snd_eavesdrop = False, snd_requested_reply = True, snd_log = False\<rparr>\<rparr>"

definition allow_receive :: policy_rule where
  "allow_receive = \<lparr>allow = True, body = ReceiveRule \<lparr>rcv_message_type = 0, rcv_path = None,
     rcv_interface = None, rcv_member = None, rcv_error = None, rcv_origin = None,
     rcv_eavesdrop = False, rcv_requested_reply = True\<rparr>\<rparr>"

definition deny_eavesdrop :: policy_rule where
  "deny_eavesdrop = \<lparr>allow = False, body = ReceiveRule \<lparr>rcv_message_type = 0, rcv_path = None,
     rcv_interface = None, rcv_member = None, rcv_error = None, rcv_origin = None,
     rcv_eavesdrop = True, rcv_requested_reply = False\<rparr>\<rparr>"

text \<open>
  C32. Optimising a client policy keeps every ownership decision, and every send decision about a
  message that is not a reply.
\<close>

theorem optimize_keeps_own_and_send:
  "bus_client_policy_check_can_own (bus_client_policy_optimize policy) name =
     bus_client_policy_check_can_own policy name \<and>
   (msg_reply_serial m = 0 \<longrightarrow>
     fst (bus_client_policy_check_can_send (bus_client_policy_optimize policy) g q c m) =
     fst (bus_client_policy_check_can_send policy g q c m))"
proof (intro conjI impI)
  show "bus_client_policy_check_can_own (bus_client_policy_optimize policy) name =
     bus_client_policy_check_can_own policy name"
    unfolding bus_client_policy_check_can_own_def
  proof (rule own_scan.scan_optimize)
    fix r :: policy_rule assume "remove_preceding (body r)"
    then show "own_applies name (body r) \<or>
       (\<forall>r'. same_type (body r') (body r) \<longrightarrow> \<not> own_applies name (body r'))"
      by (cases "body r") (auto elim: same_type.elims)
  qed
next
  assume m: "msg_reply_serial m = 0"
  show "fst (bus_client_policy_check_can_send (bus_client_policy_optimize policy) g q c m) =
     fst (bus_client_policy_check_can_send policy g q c m)"
    unfolding check_can_send_verdict
  proof (rule send_scan.scan_optimize)
    fix r :: policy_rule assume "remove_preceding (body r)"
    then show "send_applies g q c m r \<or>
       (\<forall>r'. same_type (body r') (body r) \<longrightarrow> \<not> send_applies g q c m r')"
      using wildcard_send_applies[of r _ m g q c] m
      by (cases "body r") (auto split: rule_body.splits)
  qed
qed

theorem optimize_keeps_own_and_send_witness:
  "fst (bus_client_policy_check_can_send
      (bus_client_policy_optimize [allow_send_to (ascii ''a.b''), allow_send]) empty_bus True None
      plain_message) = True"
  using optimize_keeps_own_and_send[of "[allow_send_to (ascii ''a.b''), allow_send]" "[]"
      plain_message empty_bus True None]
  by (simp add: plain_message_def allow_send_def allow_send_to_def
      bus_client_policy_check_can_send_def send_rule_skipped_def reply_skips_def field_differs_def
      interface_differs_def peer_differs_def)

text \<open>
  The optimiser can reverse a receive decision. A deny rule for eavesdropped messages only, with
  no other condition, removes every receive rule before it although it is skipped for messages that
  are not eavesdropped: such a message was allowed by an earlier rule and is denied afterwards.
\<close>

theorem optimize_reverses_receive:
  "fst (bus_client_policy_check_can_receive [allow_receive, deny_eavesdrop] g q c r r plain_message) \<and>
   \<not> fst (bus_client_policy_check_can_receive
        (bus_client_policy_optimize [allow_receive, deny_eavesdrop]) g q c r r plain_message)"
  by (simp add: bus_client_policy_check_can_receive_def bus_client_policy_optimize_def
      remove_rules_by_type_up_to_def allow_receive_def deny_eavesdrop_def plain_message_def
      receive_rule_skipped_def reply_skips_def field_differs_def interface_differs_def peer_differs_def)

end
