(* ===== verification/Services.thy ===== *)
theory Services
  imports Registry Policy Names
begin

text \<open>
  The updates of the name registry (\<open>bus/services.c\<close>) with the transaction they belong to
  (\<open>bus/connection.c\<close>) and the driver's signals and requests (\<open>bus/driver.c\<close>).
  Every fallible call consumes one answer of the memory oracle. An operation returns its error, if
  it fails, and the state, which on failure the caller rolls back by cancelling the transaction.
\<close>

section \<open>Effects\<close>

text \<open>\<open>AssertNotReached\<close> stands for the places where the code aborts or would dereference \<open>NULL\<close>.\<close>

datatype bus_error = NoMemory | InvalidArgs | AccessDenied | LimitsExceeded | AssertNotReached

type_synonym outcome = "bus_error option \<times> bus"

definition bus_alloc :: "bus \<Rightarrow> bool \<times> bus" where
  "bus_alloc s = (case alloc (bus_mem s) of (ok, m) \<Rightarrow> (ok, s\<lparr>bus_mem := m\<rparr>))"

text \<open>At most \<open>n\<close> fallible calls in a row; the first failure ends them.\<close>

fun bus_allocs :: "nat \<Rightarrow> bus \<Rightarrow> bool \<times> bus" where
  "bus_allocs 0 s = (True, s)"
| "bus_allocs (Suc n) s = (case bus_alloc s of (ok, s) \<Rightarrow> if ok then bus_allocs n s else (False, s))"

text \<open>\<open>if (!op (...)) return FALSE;\<close>\<close>

fun and_then :: "outcome \<Rightarrow> (bus \<Rightarrow> outcome) \<Rightarrow> outcome" where
  "and_then (None, s) k = k s"
| "and_then (Some e, s) k = (Some e, s)"

definition notify :: "notice \<Rightarrow> bus \<Rightarrow> bus" where
  "notify n s = s\<lparr>sent := sent s @ [n]\<rparr>"

text \<open>
  The driver's signals: creating the message, setting its sender or destination, appending the
  arguments and handing it to the transaction may fail, each for lack of memory.
\<close>

definition bus_driver_send_service_owner_changed ::
  "bus \<Rightarrow> byte list \<Rightarrow> byte list option \<Rightarrow> byte list option \<Rightarrow> outcome" where
  "bus_driver_send_service_owner_changed s service_name old_owner new_owner =
     (case bus_allocs 4 s of (ok, s) \<Rightarrow>
        if ok then (None, notify (NameOwnerChanged service_name old_owner new_owner) s)
        else (Some NoMemory, s))"

definition bus_driver_send_service_lost :: "bus \<Rightarrow> conn \<Rightarrow> byte list \<Rightarrow> outcome" where
  "bus_driver_send_service_lost s connection service_name =
     (case bus_allocs 4 s of (ok, s) \<Rightarrow>
        if ok then (None, notify (NameLost connection service_name) s) else (Some NoMemory, s))"

definition bus_driver_send_service_acquired :: "bus \<Rightarrow> conn \<Rightarrow> byte list \<Rightarrow> outcome" where
  "bus_driver_send_service_acquired s connection service_name =
     (case bus_allocs 4 s of (ok, s) \<Rightarrow>
        if ok then (None, notify (NameAcquired connection service_name) s) else (Some NoMemory, s))"

text \<open>The two calls into service activation, each one fallible step here.\<close>

definition bus_activation_service_created :: "bus \<Rightarrow> byte list \<Rightarrow> outcome" where
  "bus_activation_service_created s service_name =
     (case bus_alloc s of (ok, s) \<Rightarrow>
        if ok then (None, notify (ServiceCreated service_name) s) else (Some NoMemory, s))"

definition bus_activation_send_pending_auto_activation_messages :: "bus \<Rightarrow> byte list \<Rightarrow> outcome" where
  "bus_activation_send_pending_auto_activation_messages s service_name =
     (case bus_alloc s of (ok, s) \<Rightarrow>
        if ok then (None, notify (PendingActivation service_name) s) else (Some NoMemory, s))"

section \<open>Lists by identity\<close>

text \<open>
  \<open>_dbus_list_insert_after\<close> with the first link; into an empty list it inserts as first (the
  callers assert that this does not happen).
\<close>

fun insert_second :: "'a \<Rightarrow> 'a list \<Rightarrow> 'a list" where
  "insert_second x [] = [x]"
| "insert_second x (y # ys) = y # x # ys"

text \<open>\<open>_dbus_list_insert_before_link\<close>; without a link to insert before it appends.\<close>

fun insert_before :: "'a option \<Rightarrow> 'a \<Rightarrow> 'a list \<Rightarrow> 'a list" where
  "insert_before None x xs = xs @ [x]"
| "insert_before (Some y) x xs = takeWhile (\<lambda>z. z \<noteq> y) xs @ x # dropWhile (\<lambda>z. z \<noteq> y) xs"

section \<open>Owners\<close>

definition set_owners :: "service_ref \<Rightarrow> owner_ref list \<Rightarrow> bus \<Rightarrow> bus" where
  "set_owners service os s =
     s\<lparr>service_at := (service_at s)(service := (service_at s service)\<lparr>sv_owners := os\<rparr>)\<rparr>"

definition bus_connection_add_owned_service_link :: "bus \<Rightarrow> conn \<Rightarrow> service_ref \<Rightarrow> bus" where
  "bus_connection_add_owned_service_link s connection service =
     s\<lparr>services_owned := (services_owned s)(connection := services_owned s connection @ [service])\<rparr>"

definition bus_connection_add_owned_service :: "bus \<Rightarrow> conn \<Rightarrow> service_ref \<Rightarrow> bool \<times> bus" where
  "bus_connection_add_owned_service s connection service =
     (case bus_alloc s of (ok, s) \<Rightarrow>
        if ok then (True, bus_connection_add_owned_service_link s connection service) else (False, s))"

definition bus_connection_remove_owned_service :: "bus \<Rightarrow> conn \<Rightarrow> service_ref \<Rightarrow> bus" where
  "bus_connection_remove_owned_service s connection service =
     s\<lparr>services_owned := (services_owned s)(connection := remove_last service (services_owned s connection))\<rparr>"

definition flag_ALLOW_REPLACEMENT :: "32 word \<Rightarrow> bool" where
  "flag_ALLOW_REPLACEMENT flags \<longleftrightarrow> and flags 1 \<noteq> 0"

definition flag_REPLACE_EXISTING :: "32 word \<Rightarrow> bool" where
  "flag_REPLACE_EXISTING flags \<longleftrightarrow> and flags 2 \<noteq> 0"

definition flag_DO_NOT_QUEUE :: "32 word \<Rightarrow> bool" where
  "flag_DO_NOT_QUEUE flags \<longleftrightarrow> and flags 4 \<noteq> 0"

definition bus_owner_set_flags :: "bus \<Rightarrow> owner_ref \<Rightarrow> 32 word \<Rightarrow> bus" where
  "bus_owner_set_flags s ow flags =
     s\<lparr>owner_at := (owner_at s)(ow := (owner_at s ow)
       \<lparr>allow_replacement := flag_ALLOW_REPLACEMENT flags, do_not_queue := flag_DO_NOT_QUEUE flags\<rparr>)\<rparr>"

definition bus_owner_new :: "bus \<Rightarrow> service_ref \<Rightarrow> conn \<Rightarrow> 32 word \<Rightarrow> owner_ref option \<times> bus" where
  "bus_owner_new s service connection flags =
     (case bus_alloc s of (ok, s) \<Rightarrow>
        if \<not> ok then (None, s)
        else
          let result = next_owner s;
              s = s\<lparr>next_owner := result + 1,
                    owner_at := (owner_at s)(result := \<lparr>ow_refcount = 1, ow_service = service,
                      ow_conn = connection, allow_replacement = False, do_not_queue = False\<rparr>)\<rparr>
          in case bus_connection_add_owned_service s connection service of (added, s) \<Rightarrow>
               if \<not> added then (None, s) else (Some result, bus_owner_set_flags s result flags))"

definition bus_owner_ref :: "bus \<Rightarrow> owner_ref \<Rightarrow> bus" where
  "bus_owner_ref s ow =
     s\<lparr>owner_at := (owner_at s)(ow := (owner_at s ow)\<lparr>ow_refcount := ow_refcount (owner_at s ow) + 1\<rparr>)\<rparr>"

definition bus_owner_unref :: "bus \<Rightarrow> owner_ref \<Rightarrow> bus" where
  "bus_owner_unref s ow =
     (let s = s\<lparr>owner_at := (owner_at s)(ow := (owner_at s ow)
                 \<lparr>ow_refcount := ow_refcount (owner_at s ow) - 1\<rparr>)\<rparr>
      in if ow_refcount (owner_at s ow) = 0
         then bus_connection_remove_owned_service s (ow_conn (owner_at s ow)) (ow_service (owner_at s ow))
         else s)"

section \<open>Services\<close>

definition bus_service_ref :: "bus \<Rightarrow> service_ref \<Rightarrow> bus" where
  "bus_service_ref s service =
     s\<lparr>service_at := (service_at s)(service := (service_at s service)
        \<lparr>sv_refcount := sv_refcount (service_at s service) + 1\<rparr>)\<rparr>"

definition bus_service_unref :: "bus \<Rightarrow> service_ref \<Rightarrow> bus" where
  "bus_service_unref s service =
     s\<lparr>service_at := (service_at s)(service := (service_at s service)
        \<lparr>sv_refcount := sv_refcount (service_at s service) - 1\<rparr>)\<rparr>"

abbreviation service_name_of :: "bus \<Rightarrow> service_ref \<Rightarrow> byte list" where
  "service_name_of s service \<equiv> sv_name (service_at s service)"

definition bus_service_unlink_owner :: "bus \<Rightarrow> service_ref \<Rightarrow> owner_ref \<Rightarrow> bus" where
  "bus_service_unlink_owner s service ow =
     bus_owner_unref (set_owners service (remove_last ow (owners s service)) s) ow"

definition bus_service_unlink :: "bus \<Rightarrow> service_ref \<Rightarrow> bus" where
  "bus_service_unlink s service =
     bus_service_unref
       (s\<lparr>service_hash := (service_hash s)(service_name_of s service := None)\<rparr>) service"

definition bus_service_relink :: "bus \<Rightarrow> service_ref \<Rightarrow> bus" where
  "bus_service_relink s service =
     bus_service_ref
       (s\<lparr>service_hash := (service_hash s)(service_name_of s service := Some service)\<rparr>) service"

section \<open>Transactions\<close>

text \<open>Hooks are prepended, so that they run in the reverse of the order they were added.\<close>

definition bus_transaction_add_cancel_hook :: "bus \<Rightarrow> hook \<Rightarrow> bool \<times> bus" where
  "bus_transaction_add_cancel_hook s h =
     (case bus_allocs 2 s of (ok, s) \<Rightarrow>
        if ok then (True, s\<lparr>cancel_hooks := h # cancel_hooks s\<rparr>) else (False, s))"

definition cancel_ownership :: "bus \<Rightarrow> owner_ref \<Rightarrow> service_ref \<Rightarrow> bus" where
  "cancel_ownership s ow service =
     (let s = bus_service_unlink_owner s service ow
      in if owners s service = [] then bus_service_unlink s service else s)"

definition restore_ownership :: "bus \<Rightarrow> owner_ref \<Rightarrow> service_ref \<Rightarrow> owner_ref option \<Rightarrow> bus" where
  "restore_ownership s ow service prior =
     (let s = (if owners s service = [] then bus_service_relink s service else s);
          s = set_owners service (insert_before prior ow (owners s service)) s
      in bus_connection_add_owned_service_link s (ow_conn (owner_at s ow)) service)"

text \<open>\<open>free_ownership_cancel_data\<close> and \<open>free_ownership_restore_data\<close> drop the same references.\<close>

definition free_ownership_data :: "bus \<Rightarrow> owner_ref \<Rightarrow> service_ref \<Rightarrow> bus" where
  "free_ownership_data s ow service = bus_service_unref (bus_owner_unref s ow) service"

fun cancel_hook_cancel :: "bus \<Rightarrow> hook \<Rightarrow> bus" where
  "cancel_hook_cancel s (CancelOwnership ow service) = cancel_ownership s ow service"
| "cancel_hook_cancel s (RestoreOwnership ow service prior) = restore_ownership s ow service prior"

fun cancel_hook_free :: "bus \<Rightarrow> hook \<Rightarrow> bus" where
  "cancel_hook_free s (CancelOwnership ow service) = free_ownership_data s ow service"
| "cancel_hook_free s (RestoreOwnership ow service _) = free_ownership_data s ow service"

definition free_cancel_hooks :: "bus \<Rightarrow> bus" where
  "free_cancel_hooks s = (foldl cancel_hook_free s (cancel_hooks s))\<lparr>cancel_hooks := []\<rparr>"

definition bus_transaction_cancel_and_free :: "bus \<Rightarrow> bus" where
  "bus_transaction_cancel_and_free s =
     free_cancel_hooks (foldl cancel_hook_cancel (s\<lparr>sent := []\<rparr>) (cancel_hooks s))"

definition bus_transaction_execute_and_free :: "bus \<Rightarrow> bus" where
  "bus_transaction_execute_and_free s =
     free_cancel_hooks (s\<lparr>delivered := delivered s @ sent s, sent := []\<rparr>)"

definition add_cancel_ownership_to_transaction :: "bus \<Rightarrow> service_ref \<Rightarrow> owner_ref \<Rightarrow> bool \<times> bus" where
  "add_cancel_ownership_to_transaction s service ow =
     (case bus_alloc s of (ok, s) \<Rightarrow>
        if \<not> ok then (False, s)
        else case bus_transaction_add_cancel_hook s (CancelOwnership ow service) of (added, s) \<Rightarrow>
          if \<not> added then (False, s) else (True, bus_owner_ref (bus_service_ref s service) ow))"

fun next_link :: "'a \<Rightarrow> 'a list \<Rightarrow> 'a option" where
  "next_link x [] = None"
| "next_link x [y] = None"
| "next_link x (y # z # zs) = (if y = x then Some z else next_link x (z # zs))"

text \<open>The three preallocations are all attempted before their results are tested.\<close>

definition add_restore_ownership_to_transaction :: "bus \<Rightarrow> service_ref \<Rightarrow> owner_ref \<Rightarrow> bool \<times> bus" where
  "add_restore_ownership_to_transaction s service ow =
     (case bus_alloc s of (ok, s) \<Rightarrow>
        if \<not> ok then (False, s)
        else case bus_alloc s of (service_link, s) \<Rightarrow>
          case bus_alloc s of (owner_link, s) \<Rightarrow>
          case bus_alloc s of (hash_entry, s) \<Rightarrow>
            let s = bus_owner_ref (bus_service_ref s service) ow;
                prior = next_link ow (owners s service)
            in if \<not> (service_link \<and> owner_link \<and> hash_entry)
               then (False, free_ownership_data s ow service)
               else case bus_transaction_add_cancel_hook s (RestoreOwnership ow service prior) of
                 (added, s) \<Rightarrow> if added then (True, s) else (False, free_ownership_data s ow service))"

section \<open>The queue of owners\<close>

definition bus_service_add_owner :: "bus \<Rightarrow> service_ref \<Rightarrow> conn \<Rightarrow> 32 word \<Rightarrow> outcome" where
  "bus_service_add_owner s service connection flags =
     and_then (if owners s service = []
               then bus_driver_send_service_acquired s connection (service_name_of s service)
               else (None, s))
       (\<lambda>s. case bus_service_find_owner_link s service connection of
          None \<Rightarrow>
            (case bus_owner_new s service connection flags of
               (None, s) \<Rightarrow> (Some NoMemory, s)
             | (Some ow, s) \<Rightarrow>
                 let s = bus_owner_set_flags s ow flags in
                 case bus_alloc s of (ok, s) \<Rightarrow>
                   if \<not> ok then (Some NoMemory, bus_owner_unref s ow)
                   else
                     let s = (if \<not> flag_REPLACE_EXISTING flags \<or> owners s service = []
                              then set_owners service (owners s service @ [ow]) s
                              else set_owners service (insert_second ow (owners s service)) s)
                     in case add_cancel_ownership_to_transaction s service ow of (added, s) \<Rightarrow>
                          if added then (None, s)
                          else (Some NoMemory, bus_service_unlink_owner s service ow))
        | Some ow \<Rightarrow>
            let s = (if flag_REPLACE_EXISTING flags
                     then set_owners service (insert_second ow (remove1 ow (owners s service))) s
                     else s)
            in (None, bus_owner_set_flags s ow flags))"

definition bus_service_swap_owner :: "bus \<Rightarrow> service_ref \<Rightarrow> conn \<Rightarrow> outcome" where
  "bus_service_swap_owner s service connection =
     (case owners s service of
        [] \<Rightarrow> (Some AssertNotReached, s)
      | primary_owner # others \<Rightarrow>
          if ow_conn (owner_at s primary_owner) \<noteq> connection then (Some AssertNotReached, s)
          else
            and_then (bus_driver_send_service_lost s connection (service_name_of s service))
              (\<lambda>s. case others of
                 [] \<Rightarrow> (Some AssertNotReached, s)
               | new_owner # _ \<Rightarrow>
                   let new_owner_conn = ow_conn (owner_at s new_owner) in
                   and_then (bus_driver_send_service_owner_changed s (service_name_of s service)
                       (Some (unique_name s connection)) (Some (unique_name s new_owner_conn)))
                     (\<lambda>s. and_then (bus_driver_send_service_acquired s new_owner_conn (service_name_of s service))
                       (\<lambda>s. case add_restore_ownership_to_transaction s service primary_owner of
                          (added, s) \<Rightarrow>
                            if \<not> added then (Some NoMemory, s)
                            else (None, set_owners service
                                    (insert_second primary_owner (tl (owners s service))) s)))))"

definition bus_service_remove_owner :: "bus \<Rightarrow> service_ref \<Rightarrow> conn \<Rightarrow> outcome" where
  "bus_service_remove_owner s service connection =
     (case owners s service of
        primary_owner # others \<Rightarrow>
          if ow_conn (owner_at s primary_owner) = connection then
            and_then (bus_driver_send_service_lost s connection (service_name_of s service))
              (\<lambda>s. and_then
                 (case others of
                    [] \<Rightarrow> bus_driver_send_service_owner_changed s (service_name_of s service)
                            (Some (unique_name s connection)) None
                  | new_owner # _ \<Rightarrow>
                      let new_owner_conn = ow_conn (owner_at s new_owner) in
                      and_then (bus_driver_send_service_owner_changed s (service_name_of s service)
                          (Some (unique_name s connection)) (Some (unique_name s new_owner_conn)))
                        (\<lambda>s. bus_driver_send_service_acquired s new_owner_conn (service_name_of s service)))
                 (\<lambda>s. case add_restore_ownership_to_transaction s service primary_owner of
                    (added, s) \<Rightarrow>
                      if \<not> added then (Some NoMemory, s)
                      else
                        let s = bus_service_unlink_owner s service primary_owner
                        in (None, if owners s service = [] then bus_service_unlink s service else s)))
          else
            (case bus_service_find_owner_link s service connection of
               Some ow \<Rightarrow>
                 (None, bus_owner_unref (set_owners service (remove1 ow (owners s service)) s) ow)
             | None \<Rightarrow> (Some AssertNotReached, s))
      | [] \<Rightarrow> (Some AssertNotReached, s))"

definition bus_registry_ensure :: "bus \<Rightarrow> byte list \<Rightarrow> conn \<Rightarrow> 32 word \<Rightarrow> (bus_error + service_ref) \<times> bus" where
  "bus_registry_ensure s service_name connection flags =
     (case service_hash s service_name of
        Some service \<Rightarrow> (Inr service, s)
      | None \<Rightarrow>
          (case bus_alloc s of (ok, s) \<Rightarrow>
             if \<not> ok then (Inl NoMemory, s)
             else
               let service = next_service s;
                   s = s\<lparr>next_service := service + 1,
                         service_at := (service_at s)(service := \<lparr>sv_refcount = 1, sv_name = [], sv_owners = []\<rparr>)\<rparr>
               in case bus_alloc s of (ok, s) \<Rightarrow>
                    if \<not> ok then (Inl NoMemory, s)
                    else
                      let s = s\<lparr>service_at := (service_at s)(service := (service_at s service)\<lparr>sv_name := service_name\<rparr>)\<rparr>
                      in case and_then (bus_driver_send_service_owner_changed s service_name None
                                          (Some (unique_name s connection)))
                           (\<lambda>s. and_then (bus_activation_service_created s service_name)
                             (\<lambda>s. bus_service_add_owner s service connection flags)) of
                           (Some e, s) \<Rightarrow> (Inl e, bus_service_unref s service)
                         | (None, s) \<Rightarrow>
                             (case bus_alloc s of (ok, s) \<Rightarrow>
                                if \<not> ok then (Inl NoMemory, s)
                                else (Inr service, s\<lparr>service_hash := (service_hash s)(service_name := Some service)\<rparr>))))"

section \<open>Requesting and releasing a name\<close>

text \<open>
  What the registry asks of the rest of the bus: the policy of a connection, the verdict of SELinux
  (a parameter: it is decided by the kernel's policy server) and the configured limit.
\<close>

record bus_context =
  policy_of :: "conn \<Rightarrow> policy_rule list"
  selinux_allows :: "conn \<Rightarrow> byte list \<Rightarrow> bool"
  max_services_per_connection :: nat

definition DBUS_SERVICE_DBUS :: "byte list" where
  "DBUS_SERVICE_DBUS = ascii ''org.freedesktop.DBus''"

abbreviation (input) DBUS_REQUEST_NAME_REPLY_PRIMARY_OWNER :: nat where "DBUS_REQUEST_NAME_REPLY_PRIMARY_OWNER \<equiv> 1"
abbreviation (input) DBUS_REQUEST_NAME_REPLY_IN_QUEUE :: nat where "DBUS_REQUEST_NAME_REPLY_IN_QUEUE \<equiv> 2"
abbreviation (input) DBUS_REQUEST_NAME_REPLY_EXISTS :: nat where "DBUS_REQUEST_NAME_REPLY_EXISTS \<equiv> 3"
abbreviation (input) DBUS_REQUEST_NAME_REPLY_ALREADY_OWNER :: nat where "DBUS_REQUEST_NAME_REPLY_ALREADY_OWNER \<equiv> 4"
abbreviation (input) DBUS_RELEASE_NAME_REPLY_RELEASED :: nat where "DBUS_RELEASE_NAME_REPLY_RELEASED \<equiv> 1"
abbreviation (input) DBUS_RELEASE_NAME_REPLY_NON_EXISTENT :: nat where "DBUS_RELEASE_NAME_REPLY_NON_EXISTENT \<equiv> 2"
abbreviation (input) DBUS_RELEASE_NAME_REPLY_NOT_OWNER :: nat where "DBUS_RELEASE_NAME_REPLY_NOT_OWNER \<equiv> 3"

text \<open>The checks before the registry is looked at.\<close>

definition acquire_checks :: "bus_context \<Rightarrow> bus \<Rightarrow> conn \<Rightarrow> byte list \<Rightarrow> bus_error option" where
  "acquire_checks context s connection service_name =
     (if \<not> dbus_validate_bus_name service_name 0 (length service_name) then Some InvalidArgs
      else if str_byte service_name 0 = colon then Some InvalidArgs
      else if service_name = DBUS_SERVICE_DBUS then Some InvalidArgs
      else if \<not> selinux_allows context connection service_name then Some AccessDenied
      else if \<not> bus_client_policy_check_can_own (policy_of context connection) service_name
        then Some AccessDenied
      else if bus_connection_get_n_services_owned s connection \<ge> max_services_per_connection context
        then Some LimitsExceeded
      else None)"

text \<open>The reply code for an existing name, and the changes of its queue.\<close>

definition acquire_existing :: "bus \<Rightarrow> service_ref \<Rightarrow> owner_ref \<Rightarrow> conn \<Rightarrow> 32 word \<Rightarrow> (bus_error + nat) \<times> bus" where
  "acquire_existing s service primary_owner connection flags =
     (let old_owner_conn = ow_conn (owner_at s primary_owner) in
      if old_owner_conn = connection then
        (Inr DBUS_REQUEST_NAME_REPLY_ALREADY_OWNER, bus_owner_set_flags s primary_owner flags)
      else if (flag_DO_NOT_QUEUE flags \<and> \<not> bus_service_get_allow_replacement s service) \<or>
              (flag_DO_NOT_QUEUE flags \<and> \<not> flag_REPLACE_EXISTING flags) then
        (Inr DBUS_REQUEST_NAME_REPLY_EXISTS,
         case bus_service_find_owner_link s service connection of
           Some ow \<Rightarrow> bus_owner_unref (set_owners service (remove1 ow (owners s service)) s) ow
         | None \<Rightarrow> s)
      else if \<not> flag_DO_NOT_QUEUE flags \<and>
              (\<not> flag_REPLACE_EXISTING flags \<or> \<not> bus_service_get_allow_replacement s service) then
        (case bus_service_add_owner s service connection flags of
           (Some e, s) \<Rightarrow> (Inl e, s)
         | (None, s) \<Rightarrow> (Inr DBUS_REQUEST_NAME_REPLY_IN_QUEUE, s))
      else
        (case and_then (bus_service_add_owner s service connection flags)
           (\<lambda>s. if do_not_queue (owner_at s primary_owner)
                then bus_service_remove_owner s service old_owner_conn
                else bus_service_swap_owner s service old_owner_conn) of
           (Some e, s) \<Rightarrow> (Inl e, s)
         | (None, s) \<Rightarrow> (Inr DBUS_REQUEST_NAME_REPLY_PRIMARY_OWNER, s)))"

definition bus_registry_acquire_service ::
  "bus_context \<Rightarrow> bus \<Rightarrow> conn \<Rightarrow> byte list \<Rightarrow> 32 word \<Rightarrow> (bus_error + nat) \<times> bus" where
  "bus_registry_acquire_service context s connection service_name flags =
     (case acquire_checks context s connection service_name of
        Some e \<Rightarrow> (Inl e, s)
      | None \<Rightarrow>
          (case (case bus_registry_lookup s service_name of
                   None \<Rightarrow>
                     (case bus_registry_ensure s service_name connection flags of
                        (Inl e, s) \<Rightarrow> (Inl e, s)
                      | (Inr service, s) \<Rightarrow>
                          if owners s service = [] then (Inl AssertNotReached, s)
                          else (Inr DBUS_REQUEST_NAME_REPLY_PRIMARY_OWNER, s))
                 | Some service \<Rightarrow>
                     (case bus_service_get_primary_owner s service of
                        None \<Rightarrow> (Inl AssertNotReached, s)
                      | Some primary_owner \<Rightarrow> acquire_existing s service primary_owner connection flags)) of
             (Inl e, s) \<Rightarrow> (Inl e, s)
           | (Inr result, s) \<Rightarrow>
               (case bus_activation_send_pending_auto_activation_messages s service_name of
                  (Some e, s) \<Rightarrow> (Inl e, s)
                | (None, s) \<Rightarrow> (Inr result, s))))"

definition bus_registry_release_service ::
  "bus \<Rightarrow> conn \<Rightarrow> byte list \<Rightarrow> (bus_error + nat) \<times> bus" where
  "bus_registry_release_service s connection service_name =
     (if \<not> dbus_validate_bus_name service_name 0 (length service_name) then (Inl InvalidArgs, s)
      else if str_byte service_name 0 = colon then (Inl InvalidArgs, s)
      else if service_name = DBUS_SERVICE_DBUS then (Inl InvalidArgs, s)
      else
        (case bus_registry_lookup s service_name of
           None \<Rightarrow> (Inr DBUS_RELEASE_NAME_REPLY_NON_EXISTENT, s)
         | Some service \<Rightarrow>
             if \<not> bus_service_has_owner s service connection
             then (Inr DBUS_RELEASE_NAME_REPLY_NOT_OWNER, s)
             else
               (case bus_service_remove_owner s service connection of
                  (Some e, s) \<Rightarrow> (Inl e, s)
                | (None, s) \<Rightarrow> (Inr DBUS_RELEASE_NAME_REPLY_RELEASED, s))))"

section \<open>Requests and disconnection\<close>

text \<open>
  The end of the two driver handlers: the reply is created, filled and handed to the transaction.
\<close>

definition driver_reply :: "conn \<Rightarrow> (bus_error + nat) \<times> bus \<Rightarrow> outcome" where
  "driver_reply connection r =
     (case r of
        (Inl e, s) \<Rightarrow> (Some e, s)
      | (Inr service_reply, s) \<Rightarrow>
          (case bus_allocs 3 s of (ok, s) \<Rightarrow>
             if ok then (None, notify (Reply connection service_reply) s) else (Some NoMemory, s)))"

definition bus_driver_handle_acquire_service ::
  "bus_context \<Rightarrow> bus \<Rightarrow> conn \<Rightarrow> byte list \<Rightarrow> 32 word \<Rightarrow> outcome" where
  "bus_driver_handle_acquire_service context s connection service_name flags =
     driver_reply connection (bus_registry_acquire_service context s connection service_name flags)"

definition bus_driver_handle_release_service :: "bus \<Rightarrow> conn \<Rightarrow> byte list \<Rightarrow> outcome" where
  "bus_driver_handle_release_service s connection service_name =
     driver_reply connection (bus_registry_release_service s connection service_name)"

text \<open>
  The end of \<open>bus_dispatch\<close> for a connection that is still there: out of memory cancels the
  transaction, any other error is sent as a reply (one fallible step) in the transaction, which is
  then executed as after success.
\<close>

definition dispatch_out :: "outcome \<Rightarrow> bus" where
  "dispatch_out r =
     (case r of
        (None, s) \<Rightarrow> bus_transaction_execute_and_free s
      | (Some NoMemory, s) \<Rightarrow> bus_transaction_cancel_and_free s
      | (Some _, s) \<Rightarrow>
          (case bus_alloc s of (ok, s) \<Rightarrow>
             if ok then bus_transaction_execute_and_free s else bus_transaction_cancel_and_free s))"

text \<open>
  \<open>bus_connection_disconnected\<close>: drop the names from the last to the first, each in a
  transaction of its own, retried when memory is short. The loop has fuel; a round that fails uses
  some of it too.
\<close>

fun drop_names :: "nat \<Rightarrow> bus \<Rightarrow> conn \<Rightarrow> bus option" where
  "drop_names fuel s connection =
     (if services_owned s connection = [] then Some s
      else case fuel of
        0 \<Rightarrow> None
      | Suc fuel \<Rightarrow>
          (case bus_service_remove_owner s (last (services_owned s connection)) connection of
             (None, s) \<Rightarrow> drop_names fuel (bus_transaction_execute_and_free s) connection
           | (Some NoMemory, s) \<Rightarrow> drop_names fuel (bus_transaction_cancel_and_free s) connection
           | (Some _, s) \<Rightarrow> None))"

declare drop_names.simps [simp del]

end
