(* ===== verification/RegistrySteps.thy ===== *)
theory RegistrySteps
  imports Services
begin

text \<open>
  Equations for the registry operations when memory is available: what each leaves in the state and
  in the transaction, and what remains once the transaction is executed. The held references of a
  cancel hook (\<open>hold\<close>) cancel against the freeing of its data.
\<close>

lemma bus_alloc_Nil [simp]: "bus_mem s = [] \<Longrightarrow> bus_alloc s = (True, s)"
  by (cases s) (simp add: bus_alloc_def)

lemma bus_allocs_Nil [simp]: "bus_mem s = [] \<Longrightarrow> bus_allocs n s = (True, s)"
  by (induction n) simp_all

definition new_owner :: "service_ref \<Rightarrow> conn \<Rightarrow> 32 word \<Rightarrow> bus_owner" where
  "new_owner service connection flags = \<lparr>ow_refcount = 1, ow_service = service, ow_conn = connection,
     allow_replacement = flag_ALLOW_REPLACEMENT flags, do_not_queue = flag_DO_NOT_QUEUE flags\<rparr>"

definition link_new :: "bus \<Rightarrow> service_ref \<Rightarrow> conn \<Rightarrow> 32 word \<Rightarrow> (owner_ref list \<Rightarrow> owner_ref list) \<Rightarrow> bus" where
  "link_new s service connection flags place =
     set_owners service (place (owners s service))
       (s\<lparr>next_owner := next_owner s + 1,
         owner_at := (owner_at s)(next_owner s := new_owner service connection flags),
         services_owned := (services_owned s)(connection := services_owned s connection @ [service])\<rparr>)"

lemmas ops = bus_owner_new_def bus_connection_add_owned_service_def bus_owner_set_flags_def
  bus_connection_add_owned_service_link_def set_owners_def add_cancel_ownership_to_transaction_def
  bus_transaction_add_cancel_hook_def bus_owner_ref_def bus_service_ref_def owners_def

lemma owners_update [simp]:
  "owners (set_owners v os s) = (owners s)(v := os)"
  by (auto simp: owners_def set_owners_def fun_eq_iff)

lemma owners_frame [simp]:
  "owners (s\<lparr>owner_at := a\<rparr>) v = owners s v" 
  "owners (s\<lparr>services_owned := b\<rparr>) v = owners s v"
  "owners (s\<lparr>next_owner := n\<rparr>) v = owners s v"
  "owners (s\<lparr>bus_mem := m\<rparr>) v = owners s v"
  "owners (s\<lparr>cancel_hooks := h\<rparr>) v = owners s v"
  "owners (s\<lparr>service_hash := hh\<rparr>) v = owners s v"
  "owners (s\<lparr>sent := ns\<rparr>) v = owners s v"
  "owners (s\<lparr>delivered := ns\<rparr>) v = owners s v"
  by (simp_all add: owners_def)

definition place_new where "place_new flags ow os =
   (if \<not> flag_REPLACE_EXISTING flags \<or> os = [] then os @ [ow] else insert_second ow os)"

lemma remove_last_hd: "distinct (x # xs) \<Longrightarrow> remove_last x (x # xs) = xs"
  by (simp add: remove_last_def remove1_append)

lemmas sends = bus_driver_send_service_lost_def bus_driver_send_service_owner_changed_def
   bus_driver_send_service_acquired_def notify_def bus_activation_service_created_def
   bus_activation_send_pending_auto_activation_messages_def

lemma frames [simp]:
  "owner_at (set_owners v os s) = owner_at s" "bus_mem (set_owners v os s) = bus_mem s"
  "next_service (set_owners v os s) = next_service s" "next_owner (set_owners v os s) = next_owner s"
  "service_hash (set_owners v os s) = service_hash s" "unique_name (set_owners v os s) = unique_name s"
  "services_owned (set_owners v os s) = services_owned s"
  "service_name_of (set_owners v os s) v' = service_name_of s v'"
  "sent (set_owners v os s) = sent s" "cancel_hooks (set_owners v os s) = cancel_hooks s"
  by (simp_all add: set_owners_def)

definition hold where "hold h s = bus_owner_ref (bus_service_ref (s\<lparr>cancel_hooks := h # cancel_hooks s\<rparr>)
   (hook_service h)) (hook_owner h)"

lemma add_new_owner:
  assumes "bus_mem s = []" "owners s v \<noteq> []" "bus_service_find_owner_link s v c = None"
  shows "bus_service_add_owner s v c flags =
    (None, hold (CancelOwnership (next_owner s) v) (link_new s v c flags (place_new flags (next_owner s))))"
  using assms
  by (simp add: bus_service_add_owner_def ops link_new_def place_new_def new_owner_def Let_def hold_def)

lemma service_commute [simp]: "(r :: bus_service)\<lparr>sv_refcount := a, sv_owners := b\<rparr> = r\<lparr>sv_owners := b, sv_refcount := a\<rparr>"
  by (cases r) simp

lemma owner_commute [simp]: 
  "(r :: bus_owner)\<lparr>ow_refcount := a, allow_replacement := b\<rparr> = r\<lparr>allow_replacement := b, ow_refcount := a\<rparr>"
  "(r :: bus_owner)\<lparr>ow_refcount := a, do_not_queue := b\<rparr> = r\<lparr>do_not_queue := b, ow_refcount := a\<rparr>"
  by (cases r, simp)+

lemma unref_ref: "ow_refcount (owner_at s ow) \<noteq> 0 \<Longrightarrow> bus_owner_unref (bus_owner_ref s ow) ow = s"
  by (cases s) (simp add: bus_owner_unref_def bus_owner_ref_def Let_def)

lemma service_unref_ref: "bus_service_unref (bus_service_ref s v) v = s"
  by (cases s) (simp add: bus_service_unref_def bus_service_ref_def Let_def)


declare cancel_hook_free.simps [simp del]

lemma free_hold [simp]:
  "0 < ow_refcount (owner_at s (hook_owner h)) \<Longrightarrow>
   cancel_hook_free (hold h s) h = s\<lparr>cancel_hooks := h # cancel_hooks s\<rparr>"
  by (cases s; cases h) (simp_all add: cancel_hook_free.simps hold_def free_ownership_data_def bus_owner_ref_def bus_service_ref_def
    bus_service_unref_def bus_owner_unref_def Let_def)

lemma free_frame [simp]:
  "cancel_hook_free (s\<lparr>cancel_hooks := k\<rparr>) h = (cancel_hook_free s h)\<lparr>cancel_hooks := k\<rparr>"
  "cancel_hook_free (s\<lparr>sent := ns\<rparr>) h = (cancel_hook_free s h)\<lparr>sent := ns\<rparr>"
  "cancel_hook_free (s\<lparr>delivered := ns\<rparr>) h = (cancel_hook_free s h)\<lparr>delivered := ns\<rparr>"
  by (cases s; cases h; simp add: cancel_hook_free.simps free_ownership_data_def bus_service_unref_def bus_owner_unref_def
    bus_connection_remove_owned_service_def Let_def)+

lemma free_set_owners [simp]:
  "cancel_hook_free (set_owners v os s) h = set_owners v os (cancel_hook_free s h)"
  by (cases s; cases h) (auto simp add: cancel_hook_free.simps free_ownership_data_def bus_service_unref_def bus_owner_unref_def
    bus_connection_remove_owned_service_def Let_def set_owners_def fun_upd_def fun_eq_iff)

lemma hold_fields [simp]: 
  "cancel_hooks (hold h s) = h # cancel_hooks s" "sent (hold h s) = sent s" "delivered (hold h s) = delivered s"
  "bus_mem (hold h s) = bus_mem s"
  by (simp_all add: hold_def bus_owner_ref_def bus_service_ref_def)

lemma hold_refcount [simp]:
  "0 < ow_refcount (owner_at s ow) \<Longrightarrow> 0 < ow_refcount (owner_at (hold h s) ow)"
  by (auto simp: hold_def bus_owner_ref_def bus_service_ref_def)

lemma set_owners_frame [simp]:
  "set_owners v os (s\<lparr>sent := ns\<rparr>) = (set_owners v os s)\<lparr>sent := ns\<rparr>"
  "set_owners v os (s\<lparr>delivered := ns\<rparr>) = (set_owners v os s)\<lparr>delivered := ns\<rparr>"
  "set_owners v os (s\<lparr>cancel_hooks := h\<rparr>) = (set_owners v os s)\<lparr>cancel_hooks := h\<rparr>"
  "delivered (set_owners v os s) = delivered s"
  by (cases s; simp add: set_owners_def)+

lemma hold_frame [simp]:
  "hold h (s\<lparr>sent := ns\<rparr>) = (hold h s)\<lparr>sent := ns\<rparr>"
  "hold h (s\<lparr>delivered := ns\<rparr>) = (hold h s)\<lparr>delivered := ns\<rparr>"
  by (cases s; simp add: hold_def bus_owner_ref_def bus_service_ref_def)+

lemma execute_hold1:
  assumes "sent s = ns" "cancel_hooks s = []" "ow_refcount (owner_at s (hook_owner h)) > 0" 
  shows "bus_transaction_execute_and_free (hold h s) = s\<lparr>delivered := delivered s @ ns, sent := []\<rparr>"
  using assms
  by (cases s) (simp add: bus_transaction_execute_and_free_def free_cancel_hooks_def)

lemma execute_hold2:
  assumes "cancel_hooks s = []" "ow_refcount (owner_at s (hook_owner h)) > 0" "hook_owner h \<noteq> hook_owner h'"
     "ow_refcount (owner_at s (hook_owner h')) > 0" 
  shows "bus_transaction_execute_and_free (hold h (set_owners v os ((hold h' s)\<lparr>sent := ns\<rparr>))) = (set_owners v os s)\<lparr>delivered := delivered s @ ns, sent := []\<rparr>"
  using assms
  by (simp add: bus_transaction_execute_and_free_def free_cancel_hooks_def)

lemma set_owners_twice [simp]: "set_owners v os (set_owners v os' s) = set_owners v os s"
  by (cases s) (simp add: set_owners_def)

lemma hold_set_owners [simp]: "hold h (set_owners v os s) = set_owners v os (hold h s)"
  by (cases s) (auto simp: set_owners_def hold_def bus_owner_ref_def bus_service_ref_def fun_eq_iff)

lemma unref_set_owners [simp]: "bus_owner_unref (set_owners v os s) p = set_owners v os (bus_owner_unref s p)"
  by (cases s) (simp add: set_owners_def bus_owner_unref_def bus_connection_remove_owned_service_def Let_def)

lemma unref_frame [simp]:
  "bus_owner_unref (s\<lparr>sent := ns\<rparr>) p = (bus_owner_unref s p)\<lparr>sent := ns\<rparr>"
  "bus_owner_unref (s\<lparr>delivered := ns\<rparr>) p = (bus_owner_unref s p)\<lparr>delivered := ns\<rparr>"
  "bus_owner_unref (s\<lparr>cancel_hooks := h\<rparr>) p = (bus_owner_unref s p)\<lparr>cancel_hooks := h\<rparr>"
  by (cases s; simp add: bus_owner_unref_def bus_connection_remove_owned_service_def Let_def)+

lemma unref_hold_other [simp]:
  "p \<noteq> hook_owner h \<Longrightarrow> bus_owner_unref (hold h s) p = hold h (bus_owner_unref s p)"
  by (cases s) (auto simp: hold_def bus_owner_unref_def bus_owner_ref_def bus_service_ref_def
    bus_connection_remove_owned_service_def Let_def fun_upd_twist)

lemma free_unref_hold [simp]:
  "p = hook_owner h \<Longrightarrow> 0 < ow_refcount (owner_at s p) \<Longrightarrow>
   cancel_hook_free (bus_owner_unref (hold h s) p) h = bus_owner_unref (s\<lparr>cancel_hooks := h # cancel_hooks s\<rparr>) p"
  by (cases s; cases h) (simp_all add: cancel_hook_free.simps hold_def bus_owner_unref_def bus_owner_ref_def bus_service_ref_def
   bus_service_unref_def free_ownership_data_def bus_connection_remove_owned_service_def Let_def)

lemma unref_fields [simp]:
  "sent (bus_owner_unref s p) = sent s" "delivered (bus_owner_unref s p) = delivered s"
  "cancel_hooks (bus_owner_unref s p) = cancel_hooks s" "bus_mem (bus_owner_unref s p) = bus_mem s"
  "owners (bus_owner_unref s p) v = owners s v" "service_at (bus_owner_unref s p) = service_at s"
  "service_hash (bus_owner_unref s p) = service_hash s" "next_service (bus_owner_unref s p) = next_service s"
  "next_owner (bus_owner_unref s p) = next_owner s" "unique_name (bus_owner_unref s p) = unique_name s"
  by (simp_all add: bus_owner_unref_def bus_connection_remove_owned_service_def Let_def owners_def)

lemma unref_other [simp]: "ow \<noteq> p \<Longrightarrow> owner_at (bus_owner_unref s p) ow = owner_at s ow"
  by (simp add: bus_owner_unref_def bus_connection_remove_owned_service_def Let_def)

lemma hold_more [simp]: "owners (hold h s) v = owners s v" "service_hash (hold h s) = service_hash s"
  "sv_name (service_at (hold h s) v) = sv_name (service_at s v)" "ow_conn (owner_at (hold h s) ow) = ow_conn (owner_at s ow)"
  "unique_name (hold h s) = unique_name s" "do_not_queue (owner_at (hold h s) ow) = do_not_queue (owner_at s ow)"
  by (auto simp: hold_def bus_owner_ref_def bus_service_ref_def owners_def)

lemma add_restore_ok:
  "bus_mem s = [] \<Longrightarrow> add_restore_ownership_to_transaction s v p = (True, hold (RestoreOwnership p v (next_link p (owners s v))) s)"
  by (cases s) (simp add: add_restore_ownership_to_transaction_def Let_def hold_def
   bus_transaction_add_cancel_hook_def bus_owner_ref_def bus_service_ref_def owners_def)

lemma swap_ok:
  assumes "bus_mem s = []" "owners s v = p # ow # rest" "ow_conn (owner_at s p) = c0"
  shows "bus_service_swap_owner s v c0 = (None,
      (set_owners v (ow # p # rest) (hold (RestoreOwnership p v (Some ow)) s)\<lparr>sent := sent s @
       [NameLost c0 (service_name_of s v),
        NameOwnerChanged (service_name_of s v) (Some (unique_name s c0)) (Some (unique_name s (ow_conn (owner_at s ow)))),
        NameAcquired (ow_conn (owner_at s ow)) (service_name_of s v)]\<rparr>))"
  using assms 
  by (simp add: bus_service_swap_owner_def sends Let_def add_restore_ok)

lemma remove_ok:
  assumes "bus_mem s = []" "owners s v = p # ow # rest" "ow_conn (owner_at s p) = c0" "distinct (owners s v)"
  shows "bus_service_remove_owner s v c0 = (None,
      (set_owners v (ow # rest) (bus_owner_unref (hold (RestoreOwnership p v (Some ow)) s) p)\<lparr>sent := sent s @
       [NameLost c0 (service_name_of s v),
        NameOwnerChanged (service_name_of s v) (Some (unique_name s c0)) (Some (unique_name s (ow_conn (owner_at s ow)))),
        NameAcquired (ow_conn (owner_at s ow)) (service_name_of s v)]\<rparr>))"
  using assms remove_last_hd[of p "ow # rest"]
  by (simp add: bus_service_remove_owner_def sends Let_def add_restore_ok bus_service_unlink_owner_def)

lemma remove_last_ok:
  assumes "bus_mem s = []" "owners s v = [p]" "ow_conn (owner_at s p) = c0"
  shows "bus_service_remove_owner s v c0 = (None,
     bus_service_unlink (set_owners v [] (bus_owner_unref (hold (RestoreOwnership p v None) s) p)\<lparr>sent := sent s @
       [NameLost c0 (service_name_of s v),
        NameOwnerChanged (service_name_of s v) (Some (unique_name s c0)) None]\<rparr>) v)"
  using assms
  by (simp add: bus_service_remove_owner_def sends Let_def add_restore_ok bus_service_unlink_owner_def remove_last_def)

lemma unlink_frame [simp]:
  "bus_service_unlink (s\<lparr>sent := ns\<rparr>) v = (bus_service_unlink s v)\<lparr>sent := ns\<rparr>"
  "bus_service_unlink (s\<lparr>delivered := ns\<rparr>) v = (bus_service_unlink s v)\<lparr>delivered := ns\<rparr>"
  "bus_service_unlink (s\<lparr>cancel_hooks := h\<rparr>) v = (bus_service_unlink s v)\<lparr>cancel_hooks := h\<rparr>"
  by (cases s; simp add: bus_service_unlink_def bus_service_unref_def)+

lemma unlink_set_owners [simp]:
  "bus_service_unlink (set_owners v' os s) v = set_owners v' os (bus_service_unlink s v)"
  by (cases s) (auto simp add: bus_service_unlink_def bus_service_unref_def set_owners_def fun_eq_iff)

lemma free_unlink [simp]: "cancel_hook_free (bus_service_unlink s v) h = bus_service_unlink (cancel_hook_free s h) v"
  by (cases s; cases h) (auto simp add: cancel_hook_free.simps bus_service_unlink_def bus_service_unref_def free_ownership_data_def
     bus_owner_unref_def bus_connection_remove_owned_service_def Let_def fun_eq_iff)

lemma unlink_fields [simp]:
  "sent (bus_service_unlink s v) = sent s" "delivered (bus_service_unlink s v) = delivered s"
  "cancel_hooks (bus_service_unlink s v) = cancel_hooks s" "bus_mem (bus_service_unlink s v) = bus_mem s"
  by (simp_all add: bus_service_unlink_def bus_service_unref_def)

lemma execute_remove:
 assumes "cancel_hooks s = []" "0 < ow_refcount (owner_at s p)"
 shows "bus_transaction_execute_and_free (set_owners v os (bus_owner_unref (hold (RestoreOwnership p v b) s) p)\<lparr>sent := ns\<rparr>) = 
    (set_owners v os (bus_owner_unref s p))\<lparr>delivered := delivered s @ ns, sent := []\<rparr>"
  using assms
  by (simp add: bus_transaction_execute_and_free_def free_cancel_hooks_def)

lemma execute_remove2:
 assumes "cancel_hooks s = []" "0 < ow_refcount (owner_at s p)" "p \<noteq> hook_owner h" "0 < ow_refcount (owner_at s (hook_owner h))"
 shows "bus_transaction_execute_and_free (set_owners v os (bus_owner_unref (hold (RestoreOwnership p v b) (hold h s)) p)\<lparr>sent := ns\<rparr>) = 
    (set_owners v os (bus_owner_unref s p))\<lparr>delivered := delivered s @ ns, sent := []\<rparr>"
  using assms
  by (simp add: bus_transaction_execute_and_free_def free_cancel_hooks_def)
end
