(* ===== verification/NameQueue.thy ===== *)
theory NameQueue
  imports RegistrySteps "HOL-Library.Multiset"
begin

text \<open>
  The abstract view of the name registry: for every name the queue of its owners. The operations of
  the registry refine operations on such queues, and keep the representation well formed.
\<close>

section \<open>Queues\<close>

type_synonym entry = "conn \<times> bool \<times> bool"

definition entry_of :: "bus_owner \<Rightarrow> entry" where
  "entry_of r = (ow_conn r, allow_replacement r, do_not_queue r)"

definition entries :: "bus \<Rightarrow> service_ref \<Rightarrow> entry list" where
  "entries s v = map (\<lambda>ow. entry_of (owner_at s ow)) (owners s v)"

definition queue :: "bus \<Rightarrow> byte list \<Rightarrow> entry list" where
  "queue s n = (case service_hash s n of None \<Rightarrow> [] | Some v \<Rightarrow> entries s v)"

definition new_entry :: "conn \<Rightarrow> 32 word \<Rightarrow> entry" where
  "new_entry c flags = (c, flag_ALLOW_REPLACEMENT flags, flag_DO_NOT_QUEUE flags)"

definition without :: "conn \<Rightarrow> entry list \<Rightarrow> entry list" where
  "without c q = filter (\<lambda>e. fst e \<noteq> c) q"

text \<open>Entering a queue that is not empty, and what a request does to a queue.\<close>

definition enqueued :: "entry list \<Rightarrow> conn \<Rightarrow> 32 word \<Rightarrow> entry list" where
  "enqueued q c flags =
     (if flag_REPLACE_EXISTING flags then insert_second (new_entry c flags) (without c q)
      else if c \<in> fst ` set q then map (\<lambda>e. if fst e = c then new_entry c flags else e) q
      else q @ [new_entry c flags])"

fun requested :: "entry list \<Rightarrow> conn \<Rightarrow> 32 word \<Rightarrow> nat \<times> entry list" where
  "requested [] c flags = (1, [new_entry c flags])"
| "requested ((c0, replaceable, leaves) # rest) c flags =
     (let q = (c0, replaceable, leaves) # rest;
          replace = flag_REPLACE_EXISTING flags \<and> replaceable
      in if c0 = c then (4, new_entry c flags # rest)
         else if replace then (1, new_entry c flags # (if leaves then [] else [(c0, replaceable, leaves)]) @ without c rest)
         else if flag_DO_NOT_QUEUE flags then (3, without c q)
         else (2, enqueued q c flags))"

definition released :: "entry list \<Rightarrow> conn \<Rightarrow> nat \<times> entry list" where
  "released q c = (if q = [] then 2 else if c \<in> fst ` set q then 1 else 3, without c q)"

text \<open>The signals that a change of the first entry of the queue of a name calls for.\<close>

definition owner_signals :: "bus \<Rightarrow> byte list \<Rightarrow> entry list \<Rightarrow> entry list \<Rightarrow> notice list" where
  "owner_signals s n q q' =
     (case (q, q') of
        ([], []) \<Rightarrow> []
      | ([], e' # _) \<Rightarrow>
          [NameOwnerChanged n None (Some (unique_name s (fst e'))), ServiceCreated n, NameAcquired (fst e') n]
      | (e # _, []) \<Rightarrow>
          [NameLost (fst e) n, NameOwnerChanged n (Some (unique_name s (fst e))) None]
      | (e # _, e' # _) \<Rightarrow>
          if fst e = fst e' then []
          else [NameLost (fst e) n,
                NameOwnerChanged n (Some (unique_name s (fst e))) (Some (unique_name s (fst e'))),
                NameAcquired (fst e') n])"

section \<open>Well-formed registries\<close>

definition conns :: "bus \<Rightarrow> service_ref \<Rightarrow> conn list" where
  "conns s v = map (\<lambda>ow. ow_conn (owner_at s ow)) (owners s v)"

definition owner_ok :: "bus \<Rightarrow> service_ref \<Rightarrow> owner_ref \<Rightarrow> bool" where
  "owner_ok s v ow \<longleftrightarrow> ow < next_owner s \<and> ow_refcount (owner_at s ow) = 1 \<and> ow_service (owner_at s ow) = v"

definition service_ok :: "bus \<Rightarrow> byte list \<Rightarrow> service_ref \<Rightarrow> bool" where
  "service_ok s n v \<longleftrightarrow> v < next_service s \<and> service_name_of s v = n \<and> sv_refcount (service_at s v) = 1 \<and>
     owners s v \<noteq> [] \<and> (\<forall>ow \<in> set (owners s v). owner_ok s v ow) \<and> distinct (conns s v)"

definition listed :: "bus \<Rightarrow> conn \<Rightarrow> service_ref \<Rightarrow> nat" where
  "listed s c v = count_list (services_owned s c) v"

definition owns :: "bus \<Rightarrow> conn \<Rightarrow> service_ref \<Rightarrow> bool" where
  "owns s c v \<longleftrightarrow> (\<exists>n. service_hash s n = Some v) \<and> c \<in> set (conns s v)"

definition wf_bus :: "bus \<Rightarrow> bool" where
  "wf_bus s \<longleftrightarrow> (\<forall>n v. service_hash s n = Some v \<longrightarrow> service_ok s n v) \<and>
     (\<forall>c v. listed s c v = (if owns s c v then 1 else 0))"

text \<open>Between requests no transaction is open; \<open>quiet\<close> also says that memory is available.\<close>

definition quiet :: "bus \<Rightarrow> bool" where
  "quiet s \<longleftrightarrow> bus_mem s = [] \<and> sent s = [] \<and> cancel_hooks s = []"

lemma wf_service: "wf_bus s \<Longrightarrow> service_hash s n = Some v \<Longrightarrow> service_ok s n v"
  by (simp add: wf_bus_def)

lemma hash_inj: "wf_bus s \<Longrightarrow> service_hash s n = Some v \<Longrightarrow> service_hash s n' = Some v \<Longrightarrow> n' = n"
  using wf_service[of s n v] wf_service[of s n' v] by (simp add: service_ok_def)

text \<open>A change that touches the entry of one name, its service and the owners of that service only.\<close>

lemma wf_change_gen:
  assumes wf: "wf_bus s" and n: "\<And>n'. service_hash s n' = Some v \<Longrightarrow> n' = n"
    and h: "h = Some v \<or> h = None" "\<And>v'. service_hash s n = Some v' \<Longrightarrow> v' = v"
    and s': "service_hash s' = (service_hash s)(n := h)" "next_service s \<le> next_service s'"
      "next_owner s \<le> next_owner s'"
    and sv: "\<And>v'. v' \<noteq> v \<Longrightarrow> service_at s' v' = service_at s v'"
    and ow: "\<And>ow. ow < next_owner s \<Longrightarrow> ow_service (owner_at s ow) \<noteq> v \<Longrightarrow> owner_at s' ow = owner_at s ow"
    and ok: "h = Some v \<Longrightarrow> service_ok s' n v"
    and l: "\<And>c v'. v' \<noteq> v \<Longrightarrow> listed s' c v' = listed s c v'"
    and lv: "\<And>c. listed s' c v = (if h = Some v \<and> c \<in> set (conns s' v) then 1 else 0)"
  shows "wf_bus s' \<and> queue s' = (queue s)(n := if h = None then [] else entries s' v)"
proof -
  have same: "owners s' v' = owners s v' \<and> (\<forall>ow \<in> set (owners s v'). owner_at s' ow = owner_at s ow)"
    if "service_hash s n' = Some v'" "v' \<noteq> v" for n' v'
    using wf_service[OF wf that(1)] that(2) sv ow by (auto simp: service_ok_def owner_ok_def owners_def)
  have "service_ok s' n' v'" if hs: "service_hash s' n' = Some v'" for n' v'
  proof (cases "n' = n")
    case True
    then show ?thesis using hs ok h s'(1) by auto
  next
    case False
    then have h': "service_hash s n' = Some v'" "v' \<noteq> v" using hs s'(1) n by auto
    have "conns s' v' = conns s v'" using same[OF h'] by (simp add: conns_def)
    then show ?thesis using same[OF h'] wf_service[OF wf h'(1)] s' sv[OF h'(2)]
      by (auto simp: service_ok_def owner_ok_def)
  qed
  moreover have "listed s' c v' = (if owns s' c v' then 1 else 0)" for c v'
  proof (cases "v' = v")
    case True
    then show ?thesis using lv n h s'(1) by (auto simp: owns_def)
  next
    case False
    then have hs: "(\<exists>n. service_hash s' n = Some v') = (\<exists>n. service_hash s n = Some v')"
      using h s'(1) by (auto simp: fun_upd_def) (metis+)
    have "owns s' c v' = owns s c v'"
      unfolding owns_def hs using same[OF _ False] by (auto simp: conns_def) 
    then show ?thesis using l[OF False] wf by (simp add: wf_bus_def)
  qed
  moreover have "queue s' n' = ((queue s)(n := if h = None then [] else entries s' v)) n'" for n'
  proof (cases "n' = n \<or> service_hash s n' = None")
    case False
    then obtain v' where v': "service_hash s n' = Some v'" "v' \<noteq> v" using n by auto
    then show ?thesis using same[OF v'] s'(1) False by (simp add: queue_def entries_def)
  qed (use h s'(1) in \<open>auto simp: queue_def\<close>)
  ultimately show ?thesis by (auto simp: wf_bus_def)
qed

lemma wf_change:
  assumes wf: "wf_bus s" and n: "service_hash s n = Some v"
    and s': "service_hash s' = service_hash s" "next_service s' = next_service s" "next_owner s \<le> next_owner s'"
    and sv: "\<And>v'. v' \<noteq> v \<Longrightarrow> service_at s' v' = service_at s v'"
    and ow: "\<And>ow. ow < next_owner s \<Longrightarrow> ow_service (owner_at s ow) \<noteq> v \<Longrightarrow> owner_at s' ow = owner_at s ow"
    and ok: "service_ok s' n v"
    and l: "\<And>c v'. v' \<noteq> v \<Longrightarrow> listed s' c v' = listed s c v'"
    and lv: "\<And>c. listed s' c v = (if c \<in> set (conns s' v) then 1 else 0)"
  shows "wf_bus s' \<and> queue s' = (queue s)(n := entries s' v)"
proof -
  have u: "service_hash s' = (service_hash s)(n := Some v)" using s'(1) n by (simp add: fun_upd_idem)
  have "wf_bus s' \<and> queue s' = (queue s)(n := if Some v = None then [] else entries s' v)"
    by (rule wf_change_gen[OF wf hash_inj[OF wf n] _ _ u _ s'(3) sv ow ok l]) (simp_all add: n s' lv)
  then show ?thesis by simp
qed

section \<open>The elementary changes\<close>

lemma conns_entries: "conns s v = map fst (entries s v)"
  by (simp add: conns_def entries_def entry_of_def)

lemma listed_conns: "wf_bus s \<Longrightarrow> service_hash s n = Some v \<Longrightarrow> listed s c v = (if c \<in> set (conns s v) then 1 else 0)"
  by (auto simp: wf_bus_def owns_def)

lemma wf_set_flags:
  assumes wf: "wf_bus s" and n: "service_hash s n = Some v" and ow: "ow \<in> set (owners s v)"
    and oc: "ow_conn (owner_at s ow) = c"
  shows "wf_bus (bus_owner_set_flags s ow flags) \<and>
    queue (bus_owner_set_flags s ow flags) = (queue s)(n :=
      map (\<lambda>e. if fst e = c then new_entry c flags else e) (entries s v))"
proof -
  let ?s = "bus_owner_set_flags s ow flags"
  have ok: "service_ok s n v" using wf_service[OF wf n] .
  have o: "owners ?s = owners s" by (simp add: bus_owner_set_flags_def owners_def fun_eq_iff)
  have cs: "conns ?s v = conns s v" by (simp add: conns_def o) (auto simp: bus_owner_set_flags_def)
  have *: "wf_bus ?s \<and> queue ?s = (queue s)(n := entries ?s v)"
  proof (rule wf_change[OF wf n])
    show "service_ok ?s n v" using ok cs o
      by (auto simp: service_ok_def owner_ok_def bus_owner_set_flags_def)
    show "listed ?s c v = (if c \<in> set (conns ?s v) then 1 else 0)" for c
      using listed_conns[OF wf n] cs by (simp add: listed_def bus_owner_set_flags_def)
  qed (use ok ow in \<open>auto simp: bus_owner_set_flags_def listed_def service_ok_def owner_ok_def\<close>)
  have inj: "inj_on (\<lambda>ow. ow_conn (owner_at s ow)) (set (owners s v))"
    using ok by (simp add: service_ok_def conns_def distinct_map)
  have "entries ?s v = map (\<lambda>e. if fst e = c then new_entry c flags else e) (entries s v)"
    using inj ow oc unfolding entries_def o
    by (auto simp: bus_owner_set_flags_def entry_of_def new_entry_def inj_on_def)
  then show ?thesis using * by simp
qed

lemma wf_reorder:
  assumes wf: "wf_bus s" and n: "service_hash s n = Some v" and os: "mset os = mset (owners s v)"
  shows "wf_bus (set_owners v os s) \<and>
    queue (set_owners v os s) = (queue s)(n := map (\<lambda>ow. entry_of (owner_at s ow)) os)"
proof -
  have ok: "service_ok s n v" using wf_service[OF wf n] .
  have set: "set os = set (owners s v)" using os by (metis set_mset_mset)
  have "mset (conns (set_owners v os s) v) = mset (conns s v)" using os by (simp add: conns_def)
  then have d: "distinct (conns (set_owners v os s) v)" "set (conns (set_owners v os s) v) = set (conns s v)"
    using ok unfolding service_ok_def by (metis mset_eq_imp_distinct_iff, metis set_mset_mset)
  have "wf_bus (set_owners v os s) \<and> queue (set_owners v os s) = (queue s)(n := entries (set_owners v os s) v)"
  proof (rule wf_change[OF wf n])
    show "service_ok (set_owners v os s) n v" using ok d set
      by (auto simp: service_ok_def owner_ok_def)
         (simp_all add: set_owners_def)
    show "listed (set_owners v os s) c v = (if c \<in> set (conns (set_owners v os s) v) then 1 else 0)" for c
      using listed_conns[OF wf n, of c] d(2) by (simp add: listed_def set_owners_def)
  qed (auto simp: set_owners_def listed_def)
  then show ?thesis by (simp add: entries_def)
qed

lemma wf_link_new:
  assumes wf: "wf_bus s" and n: "service_hash s n = Some v" and c: "c \<notin> set (conns s v)"
    and place: "mset (place (owners s v)) = add_mset (next_owner s) (mset (owners s v))"
  shows "wf_bus (link_new s v c flags place) \<and>
    queue (link_new s v c flags place) = (queue s)(n :=
      map (\<lambda>ow. if ow = next_owner s then new_entry c flags else entry_of (owner_at s ow)) (place (owners s v)))"
proof -
  let ?s = "link_new s v c flags place" and ?os = "place (owners s v)"
  have ok: "service_ok s n v" using wf_service[OF wf n] .
  have set: "set ?os = insert (next_owner s) (set (owners s v))"
    using arg_cong[OF place, of set_mset] by simp
  have fresh: "next_owner s \<notin> set (owners s v)" using ok by (auto simp: service_ok_def owner_ok_def)
  have o: "owners ?s v = ?os" by (simp add: link_new_def)
  have oa: "owner_at ?s = (owner_at s)(next_owner s := new_owner v c flags)" by (simp add: link_new_def)
  have "mset (conns ?s v) = add_mset c (mset (conns s v))"
    unfolding conns_def o mset_map place oa using fresh
    by (auto simp: new_owner_def intro!: image_mset_cong)
  then have d: "distinct (conns ?s v)" and cs: "set (conns ?s v) = insert c (set (conns s v))"
    using ok c unfolding service_ok_def
    by (metis distinct.simps(2) mset.simps(2) mset_eq_imp_distinct_iff, metis set_mset_mset set_mset_add_mset_insert)
  have ne: "?os \<noteq> []" using set by auto
  have "wf_bus ?s \<and> queue ?s = (queue s)(n := entries ?s v)"
  proof (rule wf_change[OF wf n])
    show "service_ok ?s n v" using ok d set o oa ne
      by (auto simp: service_ok_def owner_ok_def new_owner_def link_new_def set_owners_def)
    show "listed ?s c' v = (if c' \<in> set (conns ?s v) then 1 else 0)" for c'
      using listed_conns[OF wf n, of c'] c cs by (auto simp: listed_def link_new_def set_owners_def)
  qed (use oa in \<open>auto simp: link_new_def listed_def set_owners_def\<close>)
  moreover have "entries ?s v = map (\<lambda>ow. if ow = next_owner s then new_entry c flags else entry_of (owner_at s ow)) ?os"
    unfolding entries_def o oa by (simp add: entry_of_def new_owner_def new_entry_def)
  ultimately show ?thesis by simp
qed


lemma count_remove_last: "count_list (remove_last x xs) y = count_list xs y - (if x = y then 1 else 0)"
proof -
  have "mset (remove_last x xs) = mset xs - {#x#}" by (simp add: remove_last_def)
  then show ?thesis by (simp flip: count_mset)
qed

lemma unref_last:
  assumes "ow_refcount (owner_at s ow) = 1"
  shows "bus_owner_unref s ow = s\<lparr>
     owner_at := (owner_at s)(ow := (owner_at s ow)\<lparr>ow_refcount := 0\<rparr>),
     services_owned := (services_owned s)(ow_conn (owner_at s ow) :=
        remove_last (ow_service (owner_at s ow)) (services_owned s (ow_conn (owner_at s ow))))\<rparr>"
  using assms by (simp add: bus_owner_unref_def bus_connection_remove_owned_service_def Let_def)

lemma without_remove1:
  assumes "distinct (map (\<lambda>ow. ow_conn (owner_at s ow)) os)" "ow \<in> set os"
  shows "map (\<lambda>w. entry_of (owner_at s w)) (remove1 ow os) =
    without (ow_conn (owner_at s ow)) (map (\<lambda>w. entry_of (owner_at s w)) os)"
  using assms
proof (induction os)
  case (Cons a os)
  show ?case
  proof (cases "a = ow")
    case True
    then have "\<forall>e \<in> set os. ow_conn (owner_at s e) \<noteq> ow_conn (owner_at s ow)"
      using Cons.prems by (auto intro: rev_image_eqI)
    then show ?thesis using True by (auto simp: without_def entry_of_def filter_empty_conv intro!: filter_True[symmetric])
  next
    case False
    then have "ow_conn (owner_at s a) \<noteq> ow_conn (owner_at s ow)" using Cons.prems by auto
    then show ?thesis using False Cons by (auto simp: without_def entry_of_def)
  qed
qed simp

lemma wf_drop_owner:
  assumes wf: "wf_bus s" and n: "service_hash s n = Some v" and ow: "ow \<in> set (owners s v)"
    and more: "owners s v \<noteq> [ow]" 
  shows "wf_bus (bus_owner_unref (set_owners v (remove1 ow (owners s v)) s) ow) \<and>
    queue (bus_owner_unref (set_owners v (remove1 ow (owners s v)) s) ow) = (queue s)(n :=
      without (ow_conn (owner_at s ow)) (entries s v))"
proof -
  let ?s = "bus_owner_unref (set_owners v (remove1 ow (owners s v)) s) ow"
  let ?os = "remove1 ow (owners s v)"
  have ok: "service_ok s n v" using wf_service[OF wf n] .
  then have ok': "ow_refcount (owner_at s ow) = 1" "ow_service (owner_at s ow) = v" 
    "distinct (conns s v)" "distinct (owners s v)"
    using ow by (auto simp: service_ok_def owner_ok_def conns_def distinct_map)
  let ?c = "ow_conn (owner_at s ow)"
  have s: "?s = (set_owners v ?os s)\<lparr>
     owner_at := (owner_at s)(ow := (owner_at s ow)\<lparr>ow_refcount := 0\<rparr>),
     services_owned := (services_owned s)(?c := remove_last v (services_owned s ?c))\<rparr>"
    using unref_last[of "set_owners v ?os s" ow] ok' by (simp add: set_owners_def)
  have set: "set ?os = set (owners s v) - {ow}" using ok' by simp
  have e: "entries ?s v = without ?c (entries s v)"
    using without_remove1[of s "owners s v" ow] ow ok'(3) set
    unfolding s entries_def conns_def
    by (simp add: o_def owners_def set_owners_def)
       (smt (verit) Diff_iff fun_upd_other insertCI map_eq_conv)
  have "map fst (without ?c (entries s v)) = filter (\<lambda>c. c \<noteq> ?c) (conns s v)"
    unfolding conns_entries without_def by (simp add: filter_map o_def)
  then have cs: "conns ?s v = filter (\<lambda>c. c \<noteq> ?c) (conns s v)"
    unfolding conns_entries[of ?s] e .
  have ne: "?os \<noteq> []" using more ow ok' by (cases "owners s v") (auto split: if_splits)
  have f: "\<And>c v'. listed ?s c v' = listed s c v' - (if c = ?c \<and> v' = v then 1 else 0)"
    "\<And>v'. v' \<noteq> v \<Longrightarrow> service_at ?s v' = service_at s v'"
    "\<And>o'. ow_service (owner_at s o') \<noteq> v \<Longrightarrow> owner_at ?s o' = owner_at s o'"
    unfolding s using ok' by (auto simp: set_owners_def listed_def count_remove_last)
  have "wf_bus ?s \<and> queue ?s = (queue s)(n := entries ?s v)"
  proof (rule wf_change[OF wf n])
    show "service_ok ?s n v" 
      unfolding service_ok_def cs using ok ok' set ne
      by (auto simp: s service_ok_def owner_ok_def set_owners_def owners_def)
    show "listed ?s c v = (if c \<in> set (conns ?s v) then 1 else 0)" for c
      using listed_conns[OF wf n, of c] unfolding cs f(1) by auto
  qed (use ok ok' ow f in \<open>auto\<close>)
  then show ?thesis by (simp only: e)
qed

lemmas wf_drop = wf_drop_owner[unfolded unref_set_owners]

lemma wf_drop_last:
  assumes wf: "wf_bus s" and n: "service_hash s n = Some v" and ow: "owners s v = [ow]"
  defines "s' \<equiv> set_owners v [] (bus_service_unlink (bus_owner_unref s ow) v)"
  shows "wf_bus s' \<and> queue s' = (queue s)(n := [])"
proof -
  have ok: "service_ok s n v" using wf_service[OF wf n] .
  then have ok': "ow_refcount (owner_at s ow) = 1" "ow_service (owner_at s ow) = v" "service_name_of s v = n"
    using ow by (auto simp: service_ok_def owner_ok_def)
  have c: "conns s v = [ow_conn (owner_at s ow)]" using ow by (simp add: conns_def)
  note s = s'_def unref_last[OF ok'(1)] bus_service_unlink_def bus_service_unref_def
  have f: "service_hash s' = (service_hash s)(n := None)" "next_service s' = next_service s"
    "next_owner s' = next_owner s" "\<And>v'. v' \<noteq> v \<Longrightarrow> service_at s' v' = service_at s v'"
    "\<And>o'. ow_service (owner_at s o') \<noteq> v \<Longrightarrow> owner_at s' o' = owner_at s o'"
    "\<And>c v'. listed s' c v' = listed s c v' - (if c = ow_conn (owner_at s ow) \<and> v' = v then 1 else 0)"
    using ok' by (auto simp: s set_owners_def listed_def count_remove_last)
  have "listed s' c v = 0" for c
    using listed_conns[OF wf n, of c] f(6)[of c v] by (simp add: c split: if_splits)
  then have "wf_bus s' \<and> queue s' = (queue s)(n := if (None :: nat option) = None then [] else entries s' v)"
    using f n by (intro wf_change_gen[OF wf hash_inj[OF wf n]]) simp_all
  then show ?thesis by simp
qed


definition created :: "bus \<Rightarrow> byte list \<Rightarrow> conn \<Rightarrow> 32 word \<Rightarrow> bus" where
  "created s n c flags = link_new (s\<lparr>next_service := next_service s + 1,
      service_at := (service_at s)(next_service s := \<lparr>sv_refcount = 1, sv_name = n, sv_owners = []\<rparr>),
      service_hash := (service_hash s)(n := Some (next_service s))\<rparr>)
    (next_service s) c flags (\<lambda>os. os @ [next_owner s])"

lemma wf_created:
  assumes wf: "wf_bus s" and n: "service_hash s n = None"
  shows "wf_bus (created s n c flags) \<and> queue (created s n c flags) = (queue s)(n := [new_entry c flags])"
proof -
  let ?s = "created s n c flags" and ?v = "next_service s"
  have fresh: "service_hash s n' \<noteq> Some ?v" for n'
    using wf_service[OF wf, of n' ?v] by (auto simp: service_ok_def)
  have l0: "listed s c' ?v = 0" for c'
    using wf fresh unfolding wf_bus_def owns_def by auto
  have f: "service_hash ?s = (service_hash s)(n := Some ?v)" "next_service ?s = ?v + 1"
    "next_owner ?s = next_owner s + 1" "\<And>v'. v' \<noteq> ?v \<Longrightarrow> service_at ?s v' = service_at s v'"
    "owner_at ?s = (owner_at s)(next_owner s := new_owner ?v c flags)"
    "\<And>c' v'. listed ?s c' v' = listed s c' v' + (if c' = c \<and> v' = ?v then 1 else 0)"
    "service_at ?s ?v = \<lparr>sv_refcount = 1, sv_name = n, sv_owners = [next_owner s]\<rparr>"
    by (auto simp: created_def link_new_def set_owners_def listed_def owners_def)
  then have g: "owners ?s ?v = [next_owner s]" "conns ?s ?v = [c]" "entries ?s ?v = [new_entry c flags]"
    by (simp_all add: owners_def conns_def entries_def entry_of_def new_owner_def new_entry_def)
  have "wf_bus ?s \<and> queue ?s = (queue s)(n := if Some ?v = None then [] else entries ?s ?v)"
    by (rule wf_change_gen[OF wf])
      (use f g l0 fresh n in \<open>auto simp: service_ok_def owner_ok_def new_owner_def\<close>)
  then show ?thesis by (simp add: g)
qed

section \<open>Closing a transaction\<close>

definition holds :: "hook list \<Rightarrow> bus \<Rightarrow> bus" where
  "holds hs s = foldr hold hs s"

lemma holds_simps [simp]: "holds [] s = s" "holds (h # hs) s = hold h (holds hs s)"
  by (simp_all add: holds_def)

lemma holds_fields [simp]:
  "cancel_hooks (holds hs s) = hs @ cancel_hooks s" "sent (holds hs s) = sent s"
  "delivered (holds hs s) = delivered s" "bus_mem (holds hs s) = bus_mem s"
  "owners (holds hs s) v = owners s v" "service_hash (holds hs s) = service_hash s"
  "sv_name (service_at (holds hs s) v) = sv_name (service_at s v)"
  "ow_conn (owner_at (holds hs s) ow) = ow_conn (owner_at s ow)"
  "unique_name (holds hs s) = unique_name s"
  "do_not_queue (owner_at (holds hs s) ow) = do_not_queue (owner_at s ow)"
  by (induction hs) simp_all

lemma holds_refcount [simp]:
  "0 < ow_refcount (owner_at s ow) \<Longrightarrow> 0 < ow_refcount (owner_at (holds hs s) ow)"
  by (induction hs) simp_all

lemma free_holds:
  "\<forall>h \<in> set hs. 0 < ow_refcount (owner_at s (hook_owner h)) \<Longrightarrow>
   (foldl cancel_hook_free ((holds hs s)\<lparr>cancel_hooks := k\<rparr>) hs) = s\<lparr>cancel_hooks := k\<rparr>"
  by (induction hs arbitrary: k) simp_all

lemma free_all_frame:
  "foldl cancel_hook_free (s\<lparr>sent := ns\<rparr>) hs = (foldl cancel_hook_free s hs)\<lparr>sent := ns\<rparr>"
  "foldl cancel_hook_free (s\<lparr>delivered := ns\<rparr>) hs = (foldl cancel_hook_free s hs)\<lparr>delivered := ns\<rparr>"
  "foldl cancel_hook_free (s\<lparr>cancel_hooks := k\<rparr>) hs = (foldl cancel_hook_free s hs)\<lparr>cancel_hooks := k\<rparr>"
  "foldl cancel_hook_free (set_owners v os s) hs = set_owners v os (foldl cancel_hook_free s hs)"
  "foldl cancel_hook_free (bus_service_unlink s v) hs = bus_service_unlink (foldl cancel_hook_free s hs) v"
  by (induction hs arbitrary: s) simp_all

lemma unref_holds:
  "p \<notin> hook_owner ` set hs \<Longrightarrow> bus_owner_unref (holds hs s) p = holds hs (bus_owner_unref s p)"
  by (induction hs) simp_all

lemma no_hooks: "cancel_hooks s = [] \<Longrightarrow> s\<lparr>cancel_hooks := []\<rparr> = s"
  by (cases s) simp

text \<open>
  Executing a transaction delivers its messages and leaves the state without the references its
  hooks held; the owner taken off by \<open>bus_service_remove_owner\<close> is then released.
\<close>

lemma drop_hooks:
  "s\<lparr>cancel_hooks := []\<rparr> = s' \<Longrightarrow>
   s\<lparr>delivered := a, sent := b, cancel_hooks := []\<rparr> = s'\<lparr>delivered := a, sent := b\<rparr>"
  by (cases s; cases s') auto

lemma drop_hooks_owners:
  assumes "s\<lparr>cancel_hooks := []\<rparr> = s'"
  shows "(set_owners v os s)\<lparr>delivered := a, sent := b, cancel_hooks := []\<rparr> =
      (set_owners v os s')\<lparr>delivered := a, sent := b\<rparr>"
    and "(set_owners v os (bus_service_unlink s w))\<lparr>delivered := a, sent := b, cancel_hooks := []\<rparr> =
      (set_owners v os (bus_service_unlink s' w))\<lparr>delivered := a, sent := b\<rparr>"
  by (rule drop_hooks, simp flip: assms)+

lemma free_holds_Nil:
  "\<forall>h \<in> set hs. 0 < ow_refcount (owner_at s (hook_owner h)) \<Longrightarrow> cancel_hooks s = [] \<Longrightarrow>
   (foldl cancel_hook_free (holds hs s) hs)\<lparr>cancel_hooks := []\<rparr> = s"
  using free_holds[of hs s "[]"] by (simp add: free_all_frame no_hooks)

lemma execute_holds:
  assumes "cancel_hooks s = []" "\<forall>h \<in> set hs. 0 < ow_refcount (owner_at s (hook_owner h))"
  shows "bus_transaction_execute_and_free ((holds hs s)\<lparr>sent := ns\<rparr>) = s\<lparr>delivered := delivered s @ ns, sent := []\<rparr>"
    and "bus_transaction_execute_and_free (set_owners v os (holds hs s)\<lparr>sent := ns\<rparr>) =
      set_owners v os s\<lparr>delivered := delivered s @ ns, sent := []\<rparr>"
  using assms
  by (simp_all add: bus_transaction_execute_and_free_def free_cancel_hooks_def free_all_frame
      drop_hooks[OF free_holds_Nil[OF assms(2,1)]] drop_hooks_owners(1)[OF free_holds_Nil[OF assms(2,1)]])

lemma free_unref_holds_Nil:
  assumes s: "\<forall>h \<in> set hs. 0 < ow_refcount (owner_at s (hook_owner h))" "cancel_hooks s = []"
    and p: "p \<notin> hook_owner ` set hs"
  shows "(foldl cancel_hook_free (bus_owner_unref (holds hs s) p) hs)\<lparr>cancel_hooks := []\<rparr> = bus_owner_unref s p"
proof -
  have "\<forall>h \<in> set hs. 0 < ow_refcount (owner_at (bus_owner_unref s p) (hook_owner h))"
  proof
    fix h assume "h \<in> set hs"
    then have "hook_owner h \<noteq> p" using p by blast
    then show "0 < ow_refcount (owner_at (bus_owner_unref s p) (hook_owner h))"
      using s \<open>h \<in> set hs\<close> by simp
  qed
  from free_holds_Nil[OF this] show ?thesis using s p by (simp add: unref_holds)
qed

lemma execute_restore:
  assumes "cancel_hooks s = []" "\<forall>h \<in> set hs. 0 < ow_refcount (owner_at s (hook_owner h))"
    "0 < ow_refcount (owner_at s p)" "p \<notin> hook_owner ` set hs"
  shows "bus_transaction_execute_and_free
      (set_owners v os (bus_owner_unref (hold (RestoreOwnership p v' b) (holds hs s)) p)\<lparr>sent := ns\<rparr>) =
    set_owners v os (bus_owner_unref s p)\<lparr>delivered := delivered s @ ns, sent := []\<rparr>"
    and "bus_transaction_execute_and_free (set_owners v os
      (bus_service_unlink (bus_owner_unref (hold (RestoreOwnership p v' b) (holds hs s)) p) v)\<lparr>sent := ns\<rparr>) =
    set_owners v os (bus_service_unlink (bus_owner_unref s p) v)\<lparr>delivered := delivered s @ ns, sent := []\<rparr>"
  using assms by (simp_all add: bus_transaction_execute_and_free_def free_cancel_hooks_def free_all_frame
      drop_hooks_owners[OF free_unref_holds_Nil[OF assms(2,1,4)]])

end
