(* ===== verification/NameService.thy ===== *)
theory NameService
  imports NameQueue
begin

text \<open>
  The requests of clients on the bus refine the operations on queues of \<open>NameQueue\<close>.
\<close>

section \<open>Entering the queue\<close>

definition entered :: "bus \<Rightarrow> service_ref \<Rightarrow> conn \<Rightarrow> 32 word \<Rightarrow> bus" where
  "entered s v c flags =
     (case bus_service_find_owner_link s v c of
        None \<Rightarrow> link_new s v c flags (place_new flags (next_owner s))
      | Some ow \<Rightarrow>
          bus_owner_set_flags
            (if flag_REPLACE_EXISTING flags then set_owners v (insert_second ow (remove1 ow (owners s v))) s
             else s) ow flags)"

definition enter_hooks :: "bus \<Rightarrow> service_ref \<Rightarrow> conn \<Rightarrow> hook list" where
  "enter_hooks s v c = (if bus_service_find_owner_link s v c = None then [CancelOwnership (next_owner s) v] else [])"

lemma add_owner_entered:
  assumes "bus_mem s = []" "owners s v \<noteq> []"
  shows "bus_service_add_owner s v c flags = (None, holds (enter_hooks s v c) (entered s v c flags))"
proof (cases "bus_service_find_owner_link s v c")
  case None
  then show ?thesis using add_new_owner[OF assms None] by (simp add: enter_hooks_def entered_def)
next
  case (Some ow)
  then show ?thesis using assms
    by (simp add: bus_service_add_owner_def enter_hooks_def entered_def Let_def)
qed

lemma find_link_Some:
  "bus_service_find_owner_link s v c = Some ow \<Longrightarrow> ow \<in> set (owners s v) \<and> ow_conn (owner_at s ow) = c"
  unfolding bus_service_find_owner_link_def by (rule find_owner_Some)

lemma find_link_None: "bus_service_find_owner_link s v c = None \<longleftrightarrow> c \<notin> set (conns s v)"
  unfolding bus_service_find_owner_link_def conns_def using find_owner_None by auto

lemma map_insert_second: "map f (insert_second x xs) = insert_second (f x) (map f xs)"
  by (cases xs) simp_all

lemma mset_insert_second: "mset (insert_second x xs) = add_mset x (mset xs)"
  by (cases xs) simp_all

lemma without_absent: "c \<notin> fst ` set q \<Longrightarrow> without c q = q"
  by (auto simp: without_def filter_id_conv)

lemma conns_set: "set (conns s v) = fst ` set (entries s v)"
  by (simp add: conns_entries)

lemma entered_wf:
  assumes wf: "wf_bus s" and n: "service_hash s n = Some v" and p: "owners s v = p # os" "ow_conn (owner_at s p) \<noteq> c"
  shows "wf_bus (entered s v c flags) \<and>
    queue (entered s v c flags) = (queue s)(n := enqueued (entries s v) c flags)"
proof (cases "bus_service_find_owner_link s v c")
  case None
  then have c: "c \<notin> set (conns s v)" by (simp add: find_link_None)
  have fresh: "next_owner s \<notin> set (owners s v)"
    using wf_service[OF wf n] by (auto simp: service_ok_def owner_ok_def)
  have "mset (place_new flags (next_owner s) (owners s v)) = add_mset (next_owner s) (mset (owners s v))"
    by (simp add: place_new_def mset_insert_second)
  from wf_link_new[where place = "place_new flags (next_owner s)" and flags = flags, OF wf n c this] fresh c
  show ?thesis
    unfolding entered_def None enqueued_def
    by (auto simp: place_new_def map_insert_second without_absent conns_set entries_def p)
next
  case (Some ow)
  note ow = find_link_Some[OF Some]
  let ?t = "set_owners v (insert_second ow (remove1 ow (owners s v))) s"
  have d: "distinct (conns s v)" using wf_service[OF wf n] by (simp add: service_ok_def)
  show ?thesis
  proof (cases "flag_REPLACE_EXISTING flags")
    case True
    have ms: "mset (insert_second ow (remove1 ow (owners s v))) = mset (owners s v)"
      using ow by (simp add: mset_insert_second)
    note r = wf_reorder[OF wf n ms]
    have q: "entries ?t v = insert_second (entry_of (owner_at s ow)) (without c (entries s v))"
      using without_remove1[of s "owners s v" ow] ow d
      by (simp add: entries_def map_insert_second conns_def)
    have c: "ow_conn (owner_at ?t ow) = c" using ow by simp
    have "wf_bus ?t" "service_hash ?t n = Some v" "ow \<in> set (owners ?t v)"
      using r n ow ms by (auto dest: mset_eq_setD)
    from wf_set_flags[OF this c, of flags]
    have "wf_bus (bus_owner_set_flags ?t ow flags) \<and> queue (bus_owner_set_flags ?t ow flags) =
        (queue ?t)(n := map (\<lambda>e. if fst e = c then new_entry c flags else e) (entries ?t v))" .
    moreover have "map (\<lambda>e. if fst e = c then new_entry c flags else e) (entries ?t v) =
        insert_second (new_entry c flags) (without c (entries s v))"
      unfolding q map_insert_second using ow
      by (auto simp: without_def entry_of_def intro!: arg_cong[where f = "insert_second _"] map_idI)
    ultimately show ?thesis using True Some r ow by (simp add: entered_def enqueued_def)
  next
    case False
    have "c \<in> fst ` set (entries s v)" using ow conns_set[of s v] by (auto simp: conns_def)
    then show ?thesis using wf_set_flags[OF wf n, of ow c flags] ow Some False
      by (simp add: entered_def enqueued_def)
  qed
qed


text \<open>The queue keeps its first owner when another connection enters it.\<close>

lemma entered_first:
  assumes wf: "wf_bus s" and n: "service_hash s n = Some v" and p: "owners s v = p # os" "ow_conn (owner_at s p) \<noteq> c"
  shows "hd (owners (entered s v c flags) v) = p" "owners (entered s v c flags) v \<noteq> []"
    "owner_at (entered s v c flags) p = owner_at s p"
    "cancel_hooks (entered s v c flags) = cancel_hooks s" "bus_mem (entered s v c flags) = bus_mem s"
    "sent (entered s v c flags) = sent s" "delivered (entered s v c flags) = delivered s"
    "service_hash (entered s v c flags) = service_hash s" "unique_name (entered s v c flags) = unique_name s"
    "\<forall>h \<in> set (enter_hooks s v c). 0 < ow_refcount (owner_at (entered s v c flags) (hook_owner h)) \<and> hook_owner h \<noteq> p"
proof -
  have ok: "service_ok s n v" using wf_service[OF wf n] .
  then have "p \<noteq> next_owner s" using p by (auto simp: service_ok_def owner_ok_def)
  moreover have "\<And>ow. bus_service_find_owner_link s v c = Some ow \<Longrightarrow> ow \<noteq> p"
    using find_link_Some p(2) by blast
  moreover have "hd (insert_second x (p # xs)) = p" for x xs by simp
  ultimately show "hd (owners (entered s v c flags) v) = p" "owners (entered s v c flags) v \<noteq> []"
    "owner_at (entered s v c flags) p = owner_at s p"
    "cancel_hooks (entered s v c flags) = cancel_hooks s" "bus_mem (entered s v c flags) = bus_mem s"
    "sent (entered s v c flags) = sent s" "delivered (entered s v c flags) = delivered s"
    "service_hash (entered s v c flags) = service_hash s" "unique_name (entered s v c flags) = unique_name s"
    "\<forall>h \<in> set (enter_hooks s v c). 0 < ow_refcount (owner_at (entered s v c flags) (hook_owner h)) \<and> hook_owner h \<noteq> p"
    using p by (auto simp: entered_def enter_hooks_def link_new_def place_new_def bus_owner_set_flags_def
        new_owner_def set_owners_def owners_def split: option.splits)
qed


section \<open>Requests\<close>

lemma execute_plain:
  "cancel_hooks s = [] \<Longrightarrow> bus_transaction_execute_and_free (s\<lparr>sent := ns\<rparr>) = s\<lparr>delivered := delivered s @ ns, sent := []\<rparr>"
  using execute_holds(1)[of s "[]" ns] by simp

lemma request_finish:
  assumes "acquire_checks context s c n = None" "service_hash s n = Some v" "owners s v = p # os"
    "acquire_existing s v p c flags = (Inr code, t)" "bus_mem t = []"
  shows "dispatch_out (bus_driver_handle_acquire_service context s c n flags) =
    bus_transaction_execute_and_free (t\<lparr>sent := sent t @ [PendingActivation n, Reply c code]\<rparr>)"
  using assms by (simp add: dispatch_out_def bus_driver_handle_acquire_service_def driver_reply_def
      bus_registry_acquire_service_def bus_registry_lookup_def bus_service_get_primary_owner_def
      bus_activation_send_pending_auto_activation_messages_def notify_def)

lemma wf_messages [simp]:
  "wf_bus (s\<lparr>delivered := a, sent := b\<rparr>) = wf_bus s" "queue (s\<lparr>delivered := a, sent := b\<rparr>) = queue s"
  by (auto simp: wf_bus_def service_ok_def owner_ok_def conns_def owners_def listed_def owns_def
      queue_def entries_def fun_eq_iff split: option.split)

lemma first_entry: "owners s v = p # os \<Longrightarrow> entries s v = entry_of (owner_at s p) # map (\<lambda>w. entry_of (owner_at s w)) os"
  by (simp add: entries_def)

lemma insert_second_Cons: "q \<noteq> [] \<Longrightarrow> hd q = x \<Longrightarrow> \<exists>ys. insert_second y q = x # y # ys"
  by (cases q) auto

lemma request_replace:
  assumes wf: "wf_bus s" and q: "quiet s" and n: "service_hash s n = Some v"
    and p: "owners s v = p # os" "ow_conn (owner_at s p) = c0" "c0 \<noteq> c"
    and f: "flag_REPLACE_EXISTING flags" and name: "service_name_of s v = n"
    and r: "and_then (bus_service_add_owner s v c flags)
           (\<lambda>s. if do_not_queue (owner_at s p)
                then bus_service_remove_owner s v c0 else bus_service_swap_owner s v c0) = r"
  shows "\<exists>t. r = (None, t) \<and> bus_mem t = [] \<and>
    (\<forall>ns. let s' = bus_transaction_execute_and_free (t\<lparr>sent := sent t @ ns\<rparr>) in
       wf_bus s' \<and> quiet s' \<and> queue s' = (queue s)(n := new_entry c flags #
          (if do_not_queue (owner_at s p) then [] else [entry_of (owner_at s p)]) @ without c (tl (entries s v))) \<and>
       delivered s' = delivered s @ [NameLost c0 n, NameOwnerChanged n (Some (unique_name s c0)) (Some (unique_name s c)),
          NameAcquired c n] @ ns)"
proof -
  let ?y = "entered s v c flags" and ?hs = "enter_hooks s v c"
  note first = entered_first[OF wf n p(1), of c flags] and ew = entered_wf[OF wf n p(1), of c flags]
  have pc: "ow_conn (owner_at s p) \<noteq> c" using p by simp
  note first = first[OF pc] and ew = ew[OF pc]
  have qs: "bus_mem s = []" "sent s = []" "cancel_hooks s = []" using q by (auto simp: quiet_def)
  have wy: "wf_bus ?y" and ny: "service_hash ?y n = Some v" using ew first(8) n by auto
  have e: "entries ?y v = enqueued (entries s v) c flags"
    using ew ny by (auto simp: queue_def fun_eq_iff split: option.splits)
  have ey: "entries ?y v = entry_of (owner_at s p) # new_entry c flags # without c (tl (entries s v))"
    unfolding e enqueued_def using f p by (simp add: first_entry[OF p(1)] without_def entry_of_def)
  obtain ow rest where oy: "owners ?y v = p # ow # rest"
    using first(1,2) ey by (cases "owners ?y v" rule: list.exhaust; cases "tl (owners ?y v)") (auto simp: entries_def)
  have eo: "entry_of (owner_at ?y ow) = new_entry c flags" "map (\<lambda>w. entry_of (owner_at ?y w)) rest = without c (tl (entries s v))"
    using ey by (simp_all add: entries_def oy)
  then have oc: "ow_conn (owner_at ?y ow) = c" by (simp add: entry_of_def new_entry_def)
  have oky: "service_ok ?y n v" using wf_service[OF wy ny] .
  then have d: "distinct (owners ?y v)" "0 < ow_refcount (owner_at ?y p)" "service_name_of ?y v = n"
    using oy by (auto simp: service_ok_def owner_ok_def conns_def distinct_map)
  have add: "bus_service_add_owner s v c flags = (None, holds ?hs ?y)"
    using add_owner_entered qs p by simp
  let ?t0 = "holds ?hs ?y"
  have t0: "owners ?t0 v = p # ow # rest" "bus_mem ?t0 = []" "ow_conn (owner_at ?t0 p) = c0"
    using oy first qs p by simp_all
  have hs: "\<forall>h \<in> set ?hs. 0 < ow_refcount (owner_at ?y (hook_owner h))" "p \<notin> hook_owner ` set ?hs"
    using first(10) by auto
  show ?thesis
  proof (cases "do_not_queue (owner_at s p)")
    case True
    have r': "r = (None, set_owners v (ow # rest) (bus_owner_unref (hold (RestoreOwnership p v (Some ow)) ?t0) p)\<lparr>sent :=
        [NameLost c0 n, NameOwnerChanged n (Some (unique_name s c0)) (Some (unique_name s c)), NameAcquired c n]\<rparr>)"
      using remove_ok[OF t0(2,1,3)] r add True d t0(1) oy first qs oc by simp
    have w: "wf_bus (set_owners v (ow # rest) (bus_owner_unref ?y p)) \<and>
        queue (set_owners v (ow # rest) (bus_owner_unref ?y p)) = (queue ?y)(n := without c0 (entries ?y v))"
      using wf_drop[OF wy ny, of p] oy first p by simp
    have "without c0 (entries ?y v) = new_entry c flags # without c (tl (entries s v))"
    proof -
      have "c0 \<notin> fst ` set (tl (entries s v))"
        using wf_service[OF wf n] p by (auto simp: service_ok_def conns_entries first_entry[OF p(1)] entry_of_def)
      then show ?thesis unfolding ey using p
        by (auto simp: without_def entry_of_def new_entry_def intro!: filter_cong intro: rev_image_eqI)
    qed
    then show ?thesis using r' True w ew first qs execute_restore(1)[OF _ hs(1) d(2) hs(2)]
      by (simp add: Let_def quiet_def)
  next
    case False
    have r': "r = (None, set_owners v (ow # p # rest) (hold (RestoreOwnership p v (Some ow)) ?t0)\<lparr>sent :=
        [NameLost c0 n, NameOwnerChanged n (Some (unique_name s c0)) (Some (unique_name s c)), NameAcquired c n]\<rparr>)"
      using swap_ok[OF t0(2,1,3)] r add False d oy first qs oc by simp
    have w: "wf_bus (set_owners v (ow # p # rest) ?y) \<and>
        queue (set_owners v (ow # p # rest) ?y) = (queue ?y)(n := map (\<lambda>w. entry_of (owner_at ?y w)) (ow # p # rest))"
      by (rule wf_reorder[OF wy ny]) (simp add: oy)
    show ?thesis using r' False w ew first qs eo p
      execute_holds(2)[where s = ?y and hs = "RestoreOwnership p v (Some ow) # ?hs" and v = v and os = "ow # p # rest"] hs(1) d(2)
      by (simp add: Let_def quiet_def)
  qed
qed


text \<open>
  What a completed change leaves, for any further messages of its transaction.
\<close>

definition settles :: "bus \<Rightarrow> bus \<Rightarrow> (byte list \<Rightarrow> entry list) \<Rightarrow> notice list \<Rightarrow> bool" where
  "settles s t Q sigs \<longleftrightarrow> bus_mem t = [] \<and>
     (\<forall>ns. let u = bus_transaction_execute_and_free (t\<lparr>sent := sent t @ ns\<rparr>) in
        wf_bus u \<and> quiet u \<and> queue u = Q \<and> delivered u = delivered s @ sigs @ ns)"

lemma settles_plain:
  "wf_bus t \<Longrightarrow> quiet t \<Longrightarrow> delivered t = delivered s \<Longrightarrow> settles s t (queue t) []"
  by (auto simp: settles_def quiet_def execute_plain Let_def)

lemma settles_entered:
  assumes wf: "wf_bus s" and q: "quiet s" and n: "service_hash s n = Some v"
    and p: "owners s v = p # os" "ow_conn (owner_at s p) \<noteq> c"
  shows "\<exists>t. bus_service_add_owner s v c flags = (None, t) \<and>
    settles s t ((queue s)(n := enqueued (entries s v) c flags)) []"
proof -
  have qs: "bus_mem s = []" "sent s = []" "cancel_hooks s = []" using q by (auto simp: quiet_def)
  note first = entered_first[OF wf n p, of flags]
  have "settles s (holds (enter_hooks s v c) (entered s v c flags)) ((queue s)(n := enqueued (entries s v) c flags)) []"
    using entered_wf[OF wf n p, of flags] first qs execute_holds(1)[of "entered s v c flags" "enter_hooks s v c"]
    by (auto simp: settles_def Let_def quiet_def)
  then show ?thesis using add_owner_entered[of s v c flags] qs p by auto
qed

lemma request_concludes:
  assumes "acquire_checks context s c n = None" "service_hash s n = Some v" "owners s v = p # os"
    "acquire_existing s v p c flags = (Inr code, t)" "settles s t Q sigs"
  defines "s' \<equiv> dispatch_out (bus_driver_handle_acquire_service context s c n flags)"
  shows "wf_bus s' \<and> quiet s' \<and> queue s' = Q \<and> delivered s' = delivered s @ sigs @ [PendingActivation n, Reply c code]"
  using request_finish[OF assms(1-4)] assms(5) by (simp add: settles_def Let_def s'_def)

lemma request_existing:
  fixes flags :: "32 word"
  assumes wf: "wf_bus s" and q: "quiet s" and ok: "acquire_checks context s c n = None"
    and n: "service_hash s n = Some v"
  defines "s' \<equiv> dispatch_out (bus_driver_handle_acquire_service context s c n flags)"
    and "r \<equiv> requested (queue s n) c flags"
  shows "wf_bus s' \<and> quiet s' \<and> queue s' = (queue s)(n := snd r) \<and>
    delivered s' = delivered s @ owner_signals s n (queue s n) (snd r) @ [PendingActivation n, Reply c (fst r)]"
proof -
  have sv: "service_ok s n v" using wf_service[OF wf n] .
  then obtain p os where p: "owners s v = p # os" by (cases "owners s v") (auto simp: service_ok_def)
  have qs: "bus_mem s = []" "sent s = []" "cancel_hooks s = []" using q by (auto simp: quiet_def)
  let ?c0 = "ow_conn (owner_at s p)" and ?rep = "allow_replacement (owner_at s p)"
  define rest where "rest = map (\<lambda>w. entry_of (owner_at s w)) os"
  have en: "entries s v = (?c0, ?rep, do_not_queue (owner_at s p)) # rest"
    by (simp add: first_entry[OF p] entry_of_def rest_def)
  have qn: "queue s n = entries s v" by (simp add: queue_def n)
  have d: "?c0 \<notin> fst ` set rest" using sv by (auto simp: service_ok_def conns_entries en)
  have ar: "bus_service_get_allow_replacement s v = ?rep" by (simp add: bus_service_get_allow_replacement_def p)
  note conclude = request_concludes[OF ok n p, of flags, folded s'_def]
  consider (already) "?c0 = c" | (replace) "?c0 \<noteq> c" "flag_REPLACE_EXISTING flags \<and> ?rep"
    | (refused) "?c0 \<noteq> c" "\<not> (flag_REPLACE_EXISTING flags \<and> ?rep)" "flag_DO_NOT_QUEUE flags"
    | (queued) "?c0 \<noteq> c" "\<not> (flag_REPLACE_EXISTING flags \<and> ?rep)" "\<not> flag_DO_NOT_QUEUE flags" by blast
  then show ?thesis
  proof cases
    case already
    let ?t = "bus_owner_set_flags s p flags"
    have x: "acquire_existing s v p c flags = (Inr 4, ?t)"
      using already by (simp add: acquire_existing_def)
    have "\<And>e. e \<in> set rest \<Longrightarrow> fst e \<noteq> c" using d already by (metis imageI)
    then have m: "map (\<lambda>e. if fst e = c then new_entry c flags else e) (entries s v) = new_entry c flags # rest"
      using already by (auto simp: en intro!: map_idI)
    have w: "wf_bus ?t \<and> queue ?t = (queue s)(n := new_entry c flags # rest)"
      using wf_set_flags[OF wf n _ already, of flags] p m by simp
    have "settles s ?t (queue ?t) []"
      by (rule settles_plain) (use w qs in \<open>simp_all add: quiet_def bus_owner_set_flags_def\<close>)
    from conclude[OF x this] w already show ?thesis
      by (simp add: r_def qn en owner_signals_def new_entry_def Let_def)
  next
    case replace
    define z where "z = and_then (bus_service_add_owner s v c flags)
           (\<lambda>s. if do_not_queue (owner_at s p)
                then bus_service_remove_owner s v ?c0 else bus_service_swap_owner s v ?c0)"
    obtain t where t: "z = (None, t)" and set: "settles s t ((queue s)(n := new_entry c flags #
          (if do_not_queue (owner_at s p) then [] else [entry_of (owner_at s p)]) @ without c (tl (entries s v))))
        [NameLost ?c0 n, NameOwnerChanged n (Some (unique_name s ?c0)) (Some (unique_name s c)), NameAcquired c n]"
      using request_replace[OF wf q n p refl replace(1) conjunct1[OF replace(2)] _ z_def[symmetric]] sv
      by (auto simp: service_ok_def settles_def)
    have x: "acquire_existing s v p c flags = (Inr 1, t)"
      using replace t by (auto simp: acquire_existing_def ar z_def Let_def)
    from conclude[OF x set] replace show ?thesis
      by (simp add: r_def qn en owner_signals_def new_entry_def entry_of_def Let_def)
  next
    case refused
    have code: "acquire_existing s v p c flags = (Inr 3,
      case bus_service_find_owner_link s v c of
        Some ow \<Rightarrow> bus_owner_unref (set_owners v (remove1 ow (owners s v)) s) ow | None \<Rightarrow> s)"
      using refused by (auto simp: acquire_existing_def ar Let_def)
    have rq: "r = (3, without c (entries s v))" using refused by (auto simp: r_def qn en Let_def)
    have sig: "owner_signals s n (queue s n) (snd r) = []"
      using refused by (simp add: rq qn en owner_signals_def without_def)
    show ?thesis
    proof (cases "bus_service_find_owner_link s v c")
      case None
      then have "without c (entries s v) = entries s v"
        using find_link_None[of s v c] by (auto simp: conns_set intro!: without_absent)
      then have "queue s = (queue s)(n := snd r)" by (simp add: rq qn flip: qn)
      then show ?thesis using conclude[OF code] None settles_plain[OF wf q refl] sig rq by simp
    next
      case (Some ow)
      note ow = find_link_Some[OF Some]
      let ?t = "set_owners v (remove1 ow (owners s v)) (bus_owner_unref s ow)"
      have w: "wf_bus ?t \<and> queue ?t = (queue s)(n := without c (entries s v))"
        using wf_drop[OF wf n, of ow] ow refused(1) p by auto
      have "settles s ?t (queue ?t) []"
        by (rule settles_plain) (use w qs in \<open>simp_all add: quiet_def\<close>)
      then show ?thesis using conclude[OF code] Some w sig rq by simp
    qed
  next
    case queued
    obtain t where t: "bus_service_add_owner s v c flags = (None, t)"
      "settles s t ((queue s)(n := enqueued (entries s v) c flags)) []"
      using settles_entered[OF wf q n p queued(1)] by blast
    have x: "acquire_existing s v p c flags = (Inr 2, t)"
      using queued t by (auto simp: acquire_existing_def ar Let_def)
    have "fst (hd (enqueued (entries s v) c flags)) = ?c0" "enqueued (entries s v) c flags \<noteq> []"
      using queued(1) by (auto simp: en enqueued_def without_def)
    then have "owner_signals s n (queue s n) (enqueued (entries s v) c flags) = []"
      by (cases "enqueued (entries s v) c flags") (simp_all add: owner_signals_def qn en)
    moreover have "r = (2, enqueued (entries s v) c flags)" using queued by (auto simp: r_def qn en Let_def)
    ultimately show ?thesis using conclude[OF x t(2)] by simp
  qed
qed


lemma ensure_created:
  assumes "bus_mem s = []" "service_hash s n = None"
  shows "bus_registry_ensure s n c flags = (Inr (next_service s),
    (hold (CancelOwnership (next_owner s) (next_service s)) (created s n c flags))\<lparr>sent := sent s @
      [NameOwnerChanged n None (Some (unique_name s c)), ServiceCreated n, NameAcquired c n]\<rparr>)"
  using assms
  by (cases s) (simp add: bus_registry_ensure_def sends bus_service_add_owner_def ops Let_def
      bus_service_find_owner_link_def created_def link_new_def hold_def new_owner_def)

lemma request_new:
  fixes flags :: "32 word"
  assumes wf: "wf_bus s" and q: "quiet s" and ok: "acquire_checks context s c n = None"
    and n: "service_hash s n = None"
  defines "s' \<equiv> dispatch_out (bus_driver_handle_acquire_service context s c n flags)"
  shows "wf_bus s' \<and> quiet s' \<and> queue s' = (queue s)(n := [new_entry c flags]) \<and>
    delivered s' = delivered s @ [NameOwnerChanged n None (Some (unique_name s c)), ServiceCreated n,
      NameAcquired c n, PendingActivation n, Reply c 1]"
proof -
  have qs: "bus_mem s = []" "sent s = []" "cancel_hooks s = []" using q by (auto simp: quiet_def)
  let ?t = "created s n c flags"
  have f: "bus_mem ?t = []" "sent ?t = []" "cancel_hooks ?t = []" "delivered ?t = delivered s"
    "owners ?t (next_service s) = [next_owner s]" "0 < ow_refcount (owner_at ?t (next_owner s))"
    using qs by (simp_all add: created_def link_new_def owners_def set_owners_def new_owner_def)
  have s': "s' = bus_transaction_execute_and_free ((holds [CancelOwnership (next_owner s) (next_service s)] ?t)
    \<lparr>sent := [NameOwnerChanged n None (Some (unique_name s c)), ServiceCreated n,
      NameAcquired c n, PendingActivation n, Reply c 1]\<rparr>)"
    unfolding s'_def using ok n qs f
    by (simp add: dispatch_out_def bus_driver_handle_acquire_service_def driver_reply_def
      bus_registry_acquire_service_def bus_registry_lookup_def ensure_created
      bus_activation_send_pending_auto_activation_messages_def notify_def)
  show ?thesis unfolding s' using execute_holds(1)[of ?t "[CancelOwnership (next_owner s) (next_service s)]"]
      wf_created[OF wf n, of c flags] f
    by (simp add: quiet_def)
qed

lemma request_refines:
  fixes flags :: "32 word"
  assumes "wf_bus s" "quiet s" "acquire_checks context s c n = None"
  shows "let s' = dispatch_out (bus_driver_handle_acquire_service context s c n flags);
      (code, q') = requested (queue s n) c flags
    in wf_bus s' \<and> quiet s' \<and> queue s' = (queue s)(n := q') \<and>
      delivered s' = delivered s @ owner_signals s n (queue s n) q' @ [PendingActivation n, Reply c code]"
proof (cases "service_hash s n")
  case None
  then have "queue s n = []" by (simp add: queue_def)
  then show ?thesis using request_new[OF assms None, of flags]
    by (simp add: owner_signals_def new_entry_def)
next
  case (Some v)
  then show ?thesis using request_existing[OF assms Some, of flags] by (simp add: Let_def split_beta)
qed

section \<open>Releases and disconnection\<close>

lemma remove_owner_settles:
  assumes wf: "wf_bus s" and q: "quiet s" and n: "service_hash s n = Some v" and c: "c \<in> set (conns s v)"
  shows "\<exists>t. bus_service_remove_owner s v c = (None, t) \<and>
    settles s t ((queue s)(n := without c (queue s n))) (owner_signals s n (queue s n) (without c (queue s n)))"
proof -
  have sv: "service_ok s n v" using wf_service[OF wf n] .
  then obtain p os where p: "owners s v = p # os" by (cases "owners s v") (auto simp: service_ok_def)
  have qs: "bus_mem s = []" "sent s = []" "cancel_hooks s = []" using q by (auto simp: quiet_def)
  have dist: "distinct (owners s v)" "0 < ow_refcount (owner_at s p)" "service_name_of s v = n" "distinct (conns s v)"
    using sv p by (auto simp: service_ok_def owner_ok_def conns_def distinct_map)
  let ?c0 = "ow_conn (owner_at s p)"
  define rest where "rest = map (\<lambda>w. entry_of (owner_at s w)) os"
  have en: "entries s v = entry_of (owner_at s p) # rest" by (simp add: first_entry[OF p] rest_def)
  have qn: "queue s n = entries s v" by (simp add: queue_def n)
  have w0: "without ?c0 (entries s v) = rest"
    using dist(4) by (force simp: conns_entries en without_def entry_of_def filter_id_conv)
  show ?thesis
  proof (cases "?c0 = c")
    case False
    then obtain ow where ow: "bus_service_find_owner_link s v c = Some ow"
      using c find_link_None[of s v c] by auto
    note ow' = find_link_Some[OF ow]
    let ?t = "set_owners v (remove1 ow (owners s v)) (bus_owner_unref s ow)"
    have w: "wf_bus ?t \<and> queue ?t = (queue s)(n := without c (entries s v))"
      using wf_drop[OF wf n, of ow] ow' False p by auto
    have "settles s ?t (queue ?t) []"
      by (rule settles_plain) (use w qs in \<open>simp_all add: quiet_def\<close>)
    moreover have "owner_signals s n (queue s n) (without c (queue s n)) = []"
      using False by (simp add: qn en owner_signals_def without_def entry_of_def)
    moreover have "bus_service_remove_owner s v c = (None, ?t)"
      using False p ow by (simp add: bus_service_remove_owner_def)
    ultimately show ?thesis using w qn by auto
  next
    case c0: True
    show ?thesis
    proof (cases os)
      case Nil
      let ?t = "set_owners v [] (bus_service_unlink (bus_owner_unref s p) v)"
      have w: "wf_bus ?t \<and> queue ?t = (queue s)(n := [])" using wf_drop_last[OF wf n] p Nil by simp
      have "bus_service_remove_owner s v c = (None, set_owners v [] (bus_service_unlink
          (bus_owner_unref (hold (RestoreOwnership p v None) s) p) v)\<lparr>sent :=
          [NameLost c n, NameOwnerChanged n (Some (unique_name s c)) None]\<rparr>)"
        using remove_last_ok[OF qs(1) _ c0, of v] p Nil dist(3) qs by simp
      moreover have "without c (queue s n) = []" using w0 c0 Nil by (simp add: qn rest_def)
      ultimately show ?thesis using w qs c0 dist(2) execute_restore(2)[where s = s and hs = "[]" and p = p and v = v and os = "[]"]
        by (simp add: settles_def Let_def quiet_def owner_signals_def qn en entry_of_def)
    next
      case (Cons ow os')
      let ?t = "set_owners v os (bus_owner_unref s p)"
      have w: "wf_bus ?t \<and> queue ?t = (queue s)(n := without c (queue s n))"
        using wf_drop[OF wf n, of p] p Cons c0 by (simp add: qn)
      have "bus_service_remove_owner s v c = (None, set_owners v os
          (bus_owner_unref (hold (RestoreOwnership p v (Some ow)) s) p)\<lparr>sent :=
          [NameLost c n, NameOwnerChanged n (Some (unique_name s c)) (Some (unique_name s (ow_conn (owner_at s ow)))),
           NameAcquired (ow_conn (owner_at s ow)) n]\<rparr>)"
        using remove_ok[OF qs(1) _ c0 dist(1), of ow os'] p Cons dist(3) qs by simp
      moreover have "without c (queue s n) = entry_of (owner_at s ow) # tl rest" "?c0 \<noteq> ow_conn (owner_at s ow)"
        using w0 c0 Cons dist(4) p by (simp_all add: qn rest_def conns_def)
      ultimately show ?thesis using w qs c0 dist(2) execute_restore(1)[where s = s and hs = "[]" and p = p and os = os]
        by (simp add: settles_def Let_def quiet_def owner_signals_def qn en entry_of_def)
    qed
  qed
qed

lemma release_refines:
  assumes wf: "wf_bus s" and q: "quiet s"
    and valid: "dbus_validate_bus_name n 0 (length n)" "str_byte n 0 \<noteq> colon" "n \<noteq> DBUS_SERVICE_DBUS"
  shows "let s' = dispatch_out (bus_driver_handle_release_service s c n);
      (code, q') = released (queue s n) c
    in wf_bus s' \<and> quiet s' \<and> queue s' = (queue s)(n := q') \<and>
      delivered s' = delivered s @ owner_signals s n (queue s n) q' @ [Reply c code]"
proof -
  have qs: "bus_mem s = []" "sent s = []" "cancel_hooks s = []" using q by (auto simp: quiet_def)
  have done_: "bus_registry_release_service s c n = (Inr code, t) \<Longrightarrow> settles s t Q sigs \<Longrightarrow>
      (let s' = dispatch_out (bus_driver_handle_release_service s c n)
       in wf_bus s' \<and> quiet s' \<and> queue s' = Q \<and> delivered s' = delivered s @ sigs @ [Reply c code])" for code t Q sigs
    by (simp add: dispatch_out_def bus_driver_handle_release_service_def driver_reply_def settles_def notify_def Let_def)
  have owner: "bus_service_has_owner s v c \<longleftrightarrow> c \<in> set (conns s v)" for v
    using has_owner_iff by (simp add: conns_def)
  note valid [simp]
  show ?thesis
  proof (cases "service_hash s n")
    case None
    then have "released (queue s n) c = (2, queue s n)" by (simp add: queue_def released_def without_def)
    moreover have "(queue s)(n := queue s n) = queue s" by simp
    ultimately show ?thesis using None done_[OF _ settles_plain[OF wf q refl], of 2]
      by (simp add: bus_registry_release_service_def bus_registry_lookup_def)
         (simp add: owner_signals_def queue_def None)
  next
    case (Some v)
    have qn: "queue s n = entries s v" "queue s n \<noteq> []" 
      using wf_service[OF wf Some] by (auto simp: queue_def Some service_ok_def entries_def)
    show ?thesis
    proof (cases "c \<in> set (conns s v)")
      case False
      then have "released (queue s n) c = (3, queue s n)"
        using qn by (simp add: released_def without_absent conns_set)
      moreover have "owner_signals s n (queue s n) (queue s n) = []"
        by (simp add: owner_signals_def split: list.split)
      ultimately show ?thesis using Some False done_[OF _ settles_plain[OF wf q refl], of 3]
        by (simp add: bus_registry_release_service_def bus_registry_lookup_def owner)
    next
      case True
      then have "released (queue s n) c = (1, without c (queue s n))"
        using qn by (simp add: released_def conns_set)
      moreover obtain t where t: "bus_service_remove_owner s v c = (None, t)"
        "settles s t ((queue s)(n := without c (queue s n))) (owner_signals s n (queue s n) (without c (queue s n)))"
        using remove_owner_settles[OF wf q Some True] by blast
      ultimately show ?thesis using Some True done_[OF _ t(2), of 1] t(1)
        by (simp add: bus_registry_release_service_def bus_registry_lookup_def owner)
    qed
  qed
qed


text \<open>The number of services a connection owns, as the limit counts it, is that of its queues.\<close>

lemma owned_set:
  assumes wf: "wf_bus s"
  shows "set (services_owned s c) = {v. owns s c v}" "distinct (services_owned s c)"
proof -
  have l: "count_list (services_owned s c) v = (if owns s c v then 1 else 0)" for v
    using wf by (simp add: wf_bus_def listed_def)
  show *: "set (services_owned s c) = {v. owns s c v}"
  proof (rule set_eqI)
    fix v show "v \<in> set (services_owned s c) \<longleftrightarrow> v \<in> {v. owns s c v}"
      using l[of v] count_list_0_iff[of "services_owned s c" v] by (auto split: if_splits)
  qed
  show "distinct (services_owned s c)"
    unfolding distinct_count_atmost_1 count_mset * using l by simp
qed

lemma hash_of_name: "wf_bus s \<Longrightarrow> owns s c v \<Longrightarrow> service_hash s (service_name_of s v) = Some v"
  using wf_service[of s] by (auto simp: owns_def service_ok_def)

lemma owned_names:
  assumes wf: "wf_bus s"
  shows "(\<lambda>v. service_name_of s v) ` {v. owns s c v} = {n. c \<in> fst ` set (queue s n)}"
proof (intro equalityI subsetI)
  fix n assume "n \<in> (\<lambda>v. service_name_of s v) ` {v. owns s c v}"
  then obtain v n' where "n = service_name_of s v" "service_hash s n' = Some v" "c \<in> set (conns s v)"
    by (auto simp: owns_def)
  then show "n \<in> {n. c \<in> fst ` set (queue s n)}"
    using wf_service[OF wf, of n' v] by (auto simp: service_ok_def queue_def conns_set)
next
  fix n assume "n \<in> {n. c \<in> fst ` set (queue s n)}"
  then obtain v where "service_hash s n = Some v" "c \<in> set (conns s v)"
    by (cases "service_hash s n") (auto simp: queue_def conns_set)
  then show "n \<in> (\<lambda>v. service_name_of s v) ` {v. owns s c v}"
    using wf_service[OF wf, of n v] by (auto simp: owns_def service_ok_def intro!: image_eqI[of _ _ v])
qed

lemma owned_card:
  assumes wf: "wf_bus s"
  shows "length (services_owned s c) = card {n. c \<in> fst ` set (queue s n)}"
proof -
  have "inj_on (\<lambda>v. service_name_of s v) {v. owns s c v}"
    using hash_of_name[OF wf] by (metis (mono_tags, lifting) inj_onI mem_Collect_eq option.inject)
  then have "bij_betw (\<lambda>v. service_name_of s v) {v. owns s c v} {n. c \<in> fst ` set (queue s n)}"
    using owned_names[OF wf] by (simp add: bij_betw_def)
  then show ?thesis using owned_set[OF wf, of c] distinct_card[of "services_owned s c"]
    by (simp add: bij_betw_same_card)
qed

lemma owned_finite:
  assumes wf: "wf_bus s" shows "finite {n. c \<in> fst ` set (queue s n)}"
  unfolding owned_names[OF wf, symmetric] owned_set(1)[OF wf, symmetric] by simp

lemma drop_names_all:
  assumes "wf_bus s" "quiet s"
  shows "\<exists>u. drop_names (length (services_owned s c)) s c = Some u \<and> wf_bus u \<and> quiet u \<and>
     queue u = (\<lambda>n. without c (queue s n))"
  using assms
proof (induction "length (services_owned s c)" arbitrary: s)
  case 0
  then have "{n. c \<in> fst ` set (queue s n)} = {}"
    using owned_card[of s c] owned_finite[of s c] by simp
  then have "queue s = (\<lambda>n. without c (queue s n))" by (auto simp: without_absent fun_eq_iff)
  then show ?case using 0 by (simp add: drop_names.simps)
next
  case (Suc k)
  let ?v = "last (services_owned s c)"
  have ne: "services_owned s c \<noteq> []" using Suc.hyps(2) by auto
  then have "?v \<in> set (services_owned s c)" by simp
  then obtain n where n: "service_hash s n = Some ?v" "c \<in> set (conns s ?v)"
    using owned_set(1)[OF Suc.prems(1)] by (auto simp: owns_def)
  have cn: "c \<in> fst ` set (queue s n)" using n by (simp add: queue_def conns_set)
  obtain t where t: "bus_service_remove_owner s ?v c = (None, t)"
    "settles s t ((queue s)(n := without c (queue s n))) (owner_signals s n (queue s n) (without c (queue s n)))"
    using remove_owner_settles[OF Suc.prems n] by blast
  let ?u = "bus_transaction_execute_and_free t"
  have u: "wf_bus ?u" "quiet ?u" "queue ?u = (queue s)(n := without c (queue s n))"
    using t(2) unfolding settles_def Let_def by (metis append_Nil2 bus.surjective bus.update_convs(9))+
  have "{n'. c \<in> fst ` set (queue ?u n')} = {n. c \<in> fst ` set (queue s n)} - {n}"
    by (auto simp: u(3) without_def)
  then have "length (services_owned ?u c) = k"
    using Suc.hyps(2) owned_card[OF u(1), of c] owned_card[OF Suc.prems(1), of c] cn
      owned_finite[OF Suc.prems(1), of c] by simp
  then obtain w where w: "drop_names k ?u c = Some w" "wf_bus w" "quiet w" "queue w = (\<lambda>n. without c (queue ?u n))"
    using Suc.hyps(1)[of ?u] u by auto
  have "queue w = (\<lambda>n. without c (queue s n))"
    unfolding w(4) u(3) by (auto simp: without_def fun_eq_iff)
  moreover have "drop_names (Suc k) s c = Some w"
    using ne t(1) w(1) by (simp add: drop_names.simps[of "Suc k"])
  ultimately show ?case using w Suc.hyps(2) by simp
qed

end
