(* ===== verification/NameCancel.thy ===== *)
theory NameCancel
  imports NameService
begin

text \<open>
  Rolling back: what cancelling a transaction leaves of the registry, for every pattern of allocation
  failures on the paths that add an owner, and where it does not restore the state.
\<close>

section \<open>Cancelling a swap and a removal\<close>

lemma swap_cancel:
  assumes "quiet s" "owners s v = p # ow # rest" "ow_conn (owner_at s p) = c0" "p \<noteq> ow" "0 < ow_refcount (owner_at s p)"
  shows "bus_transaction_cancel_and_free (snd (bus_service_swap_owner s v c0)) =
    bus_connection_add_owned_service_link (set_owners v (p # ow # p # rest) s) c0 v"
proof -
  let ?h = "RestoreOwnership p v (Some ow)"
  have qs: "bus_mem s = []" "sent s = []" "cancel_hooks s = []" using assms(1) by (auto simp: quiet_def)
  show ?thesis using assms qs
    by (cases s) (simp add: swap_ok bus_transaction_cancel_and_free_def free_cancel_hooks_def restore_ownership_def Let_def
      hold_def bus_owner_ref_def bus_service_ref_def set_owners_def owners_def bus_connection_add_owned_service_link_def
      cancel_hook_free.simps free_ownership_data_def bus_owner_unref_def bus_service_unref_def)
qed

lemma remove_cancel:
  assumes "quiet s" "owners s v = p # ow # rest" "ow_conn (owner_at s p) = c0" "distinct (owners s v)"
     "ow_refcount (owner_at s p) = 1"
  shows "bus_transaction_cancel_and_free (snd (bus_service_remove_owner s v c0)) =
    bus_owner_unref (bus_connection_add_owned_service_link (set_owners v (p # ow # rest) s) c0 v) p"
proof -
  have qs: "bus_mem s = []" "sent s = []" "cancel_hooks s = []" using assms(1) by (auto simp: quiet_def)
  show ?thesis using assms qs
    apply (simp add: remove_ok)
    by (cases s) (simp add: bus_transaction_cancel_and_free_def free_cancel_hooks_def restore_ownership_def Let_def
      hold_def bus_owner_ref_def bus_service_ref_def set_owners_def owners_def bus_connection_add_owned_service_link_def
      cancel_hook_free.simps free_ownership_data_def bus_owner_unref_def bus_service_unref_def bus_connection_remove_owned_service_def)
qed

section \<open>Undone changes\<close>

text \<open>
  The new state may have used up addresses; everything else is as before.
\<close>

definition undone :: "bus \<Rightarrow> bus \<Rightarrow> bool" where
  "undone s s' \<longleftrightarrow> service_hash s' = service_hash s \<and> services_owned s' = services_owned s \<and>
     delivered s' = delivered s \<and>
     next_owner s \<le> next_owner s' \<and> next_service s \<le> next_service s' \<and>
     (\<forall>ow < next_owner s. owner_at s' ow = owner_at s ow) \<and>
     (\<forall>v < next_service s. service_at s' v = service_at s v)"

lemma undone_wf:
  assumes "undone s s'" "wf_bus s"
  shows "wf_bus s' \<and> queue s' = queue s"
proof -
  note u = assms(1)[unfolded undone_def]
  have live: "service_ok s' n v \<and> entries s' v = entries s v \<and> conns s' v = conns s v" 
    if "service_hash s n = Some v" for n v
  proof -
    have ok: "service_ok s n v" using wf_service[OF assms(2) that] .
    then have sv: "service_at s' v = service_at s v" using u by (auto simp: service_ok_def)
    have ow: "\<And>ow. ow \<in> set (owners s v) \<Longrightarrow> owner_at s' ow = owner_at s ow \<and> ow < next_owner s'"
      using ok u by (auto simp: service_ok_def owner_ok_def)
    have "entries s' v = entries s v" "conns s' v = conns s v"
      using ow sv by (simp_all add: entries_def conns_def owners_def)
    then show ?thesis using ok ow sv u by (auto simp: service_ok_def owner_ok_def owners_def)
  qed
  have "owns s' c v = owns s c v" for c v using u live by (auto simp: owns_def)
  then have "wf_bus s'" using assms(2) u live by (simp add: wf_bus_def listed_def)
  moreover have "queue s' = queue s" using u live by (auto simp: queue_def fun_eq_iff split: option.split)
  ultimately show ?thesis by simp
qed

fun allocs_ok :: "nat \<Rightarrow> mem_oracle \<Rightarrow> bool" and allocs_rest :: "nat \<Rightarrow> mem_oracle \<Rightarrow> mem_oracle" where
  "allocs_ok 0 m = True"
| "allocs_ok (Suc n) m = (fst (alloc m) \<and> allocs_ok n (snd (alloc m)))"
| "allocs_rest 0 m = m"
| "allocs_rest (Suc n) m = (if fst (alloc m) then allocs_rest n (snd (alloc m)) else snd (alloc m))"

lemma bus_alloc_eq: "bus_alloc s = (fst (alloc (bus_mem s)), s\<lparr>bus_mem := snd (alloc (bus_mem s))\<rparr>)"
  by (simp add: bus_alloc_def split_beta)

lemma bus_allocs_eq: "bus_allocs n s = (allocs_ok n (bus_mem s), s\<lparr>bus_mem := allocs_rest n (bus_mem s)\<rparr>)"
  by (induction n arbitrary: s) (simp_all add: bus_alloc_eq)

declare allocs_ok.simps [simp del] allocs_rest.simps [simp del]

lemma same_owners [simp]: "(r :: bus_service)\<lparr>sv_owners := sv_owners r\<rparr> = r"
  by (cases r) simp

lemmas registry_ops = bus_owner_new_def bus_connection_add_owned_service_def bus_alloc_eq bus_allocs_eq
  add_cancel_ownership_to_transaction_def bus_transaction_add_cancel_hook_def Let_def owners_def
  bus_owner_set_flags_def bus_connection_add_owned_service_link_def set_owners_def
  bus_owner_unref_def bus_connection_remove_owned_service_def bus_service_unlink_owner_def
  bus_owner_ref_def bus_service_ref_def

text \<open>
  Appending a new owner to a queue, for every pattern of allocation failures: either it fails and
  has undone its changes, or it leaves the new owner linked and its cancel hook registered.
\<close>

lemma append_any_memory:
  assumes "cancel_hooks s = []" "owners s v \<noteq> []"
    "bus_service_find_owner_link s v c = None" "\<not> flag_REPLACE_EXISTING flags"
  shows "(\<exists>t. bus_service_add_owner s v c flags = (Some NoMemory, t) \<and> undone s t \<and> cancel_hooks t = []) \<or>
    (\<exists>m. bus_service_add_owner s v c flags = (None,
       (hold (CancelOwnership (next_owner s) v) (link_new s v c flags (place_new flags (next_owner s))))\<lparr>bus_mem := m\<rparr>))"
proof (cases s)
  case (fields oa sa no ns sh so un bm se de ch)
  obtain r t where rt: "bus_service_add_owner s v c flags = (r, t)" by (cases "bus_service_add_owner s v c flags")
  then show ?thesis
    unfolding bus_service_add_owner_def using assms
    apply (simp add: registry_ops fields split: if_splits)
    apply (auto simp add: undone_def link_new_def place_new_def hold_def new_owner_def registry_ops)
  done
qed

lemma cancel_append:
  assumes "cancel_hooks s = []" "owners s v \<noteq> []" "v < next_service s"
  shows "undone s (bus_transaction_cancel_and_free
       ((hold (CancelOwnership (next_owner s) v) (link_new s v c flags (\<lambda>os. os @ [next_owner s])))\<lparr>bus_mem := m, sent := ns\<rparr>))"
proof (cases s)
  case (fields oa sa no ns sh so un bm se de ch)
  show ?thesis using assms
    by (auto simp add: undone_def fields bus_transaction_cancel_and_free_def free_cancel_hooks_def hold_def
     cancel_hook_free.simps free_ownership_data_def cancel_ownership_def link_new_def new_owner_def bus_service_unref_def registry_ops
     bus_service_unlink_def)
qed


lemma undone_messages [simp]:
  "undone s (t\<lparr>bus_mem := m\<rparr>) = undone s t" "undone s (t\<lparr>sent := ns\<rparr>) = undone s t"
  "undone s (t\<lparr>cancel_hooks := h\<rparr>) = undone s t"
  by (simp_all add: undone_def)

lemma undone_refl [simp]: "undone s s"
  by (simp add: undone_def)

lemma cancel_none: "cancel_hooks t = [] \<Longrightarrow> bus_transaction_cancel_and_free t = t\<lparr>sent := []\<rparr>"
  by (simp add: bus_transaction_cancel_and_free_def free_cancel_hooks_def no_hooks)

text \<open>
  \<open>reverts s t\<close>: cancelling the transaction in state \<open>t\<close>, whatever it has sent and whatever
  memory is left, undoes the changes since \<open>s\<close>.
\<close>

definition reverts :: "bus \<Rightarrow> bus \<Rightarrow> bool" where
  "reverts s t \<longleftrightarrow> (\<forall>m ns. undone s (bus_transaction_cancel_and_free (t\<lparr>bus_mem := m, sent := ns\<rparr>)))"

lemma reverts_plain: "cancel_hooks t = [] \<Longrightarrow> undone s t \<Longrightarrow> reverts s t"
  by (simp add: reverts_def cancel_none)

lemma reverts_mem [simp]: "reverts s (t\<lparr>bus_mem := m\<rparr>) = reverts s t"
  by (simp add: reverts_def)

lemma reverts_append:
  assumes "cancel_hooks s = []" "owners s v \<noteq> []" "v < next_service s"
    "bus_service_find_owner_link s v c = None" "\<not> flag_REPLACE_EXISTING flags"
  shows "reverts s (snd (bus_service_add_owner s v c flags)) \<and>
    fst (bus_service_add_owner s v c flags) \<in> {None, Some NoMemory}"
proof -
  have "place_new flags (next_owner s) = (\<lambda>os. os @ [next_owner s])" using assms(5) by (simp add: place_new_def fun_eq_iff)
  then show ?thesis using append_any_memory[OF assms(1,2,4,5)] cancel_append[where c = c and flags = flags, OF assms(1-3)]
    by (auto simp: reverts_plain) (simp add: reverts_def)
qed

lemma reverts_ensure:
  assumes "cancel_hooks s = []" "service_hash s n = None"
  shows "reverts s (snd (bus_registry_ensure s n c flags)) \<and>
    (case fst (bus_registry_ensure s n c flags) of Inl e \<Rightarrow> e = NoMemory
     | Inr v \<Rightarrow> owners (snd (bus_registry_ensure s n c flags)) v \<noteq> [])"
proof (cases s)
  case (fields oa sa no ns sh so un bm se de ch)
  obtain r t where rt: "bus_registry_ensure s n c flags = (r, t)" by (cases "bus_registry_ensure s n c flags")
  have "(sh(n := None)) = sh" using assms(2) fields by auto
  with rt have "reverts s t \<and> (case r of Inl e \<Rightarrow> e = NoMemory | Inr v \<Rightarrow> owners t v \<noteq> [])"
    unfolding bus_registry_ensure_def bus_service_add_owner_def using assms
    apply (simp add: registry_ops fields sends bus_service_find_owner_link_def split: if_splits)
    apply (auto simp add: reverts_def undone_def link_new_def place_new_def hold_def new_owner_def registry_ops
       bus_transaction_cancel_and_free_def free_cancel_hooks_def cancel_hook_free.simps free_ownership_data_def cancel_ownership_def
       bus_service_unref_def bus_service_unlink_def remove_last_def fun_upd_def)
    done
  then show ?thesis using rt by (cases r) auto
qed

lemma reverts_sent [simp]: "reverts s (t\<lparr>sent := ns\<rparr>) = reverts s t"
proof -
  have "t\<lparr>sent := ns, bus_mem := m, sent := ns'\<rparr> = t\<lparr>bus_mem := m, sent := ns'\<rparr>" for m ns' by (cases t) simp
  then show ?thesis by (simp add: reverts_def)
qed

lemma reverts_cancel: "reverts s t \<Longrightarrow> undone s (bus_transaction_cancel_and_free t)"
proof -
  assume "reverts s t"
  then have "undone s (bus_transaction_cancel_and_free (t\<lparr>bus_mem := bus_mem t, sent := sent t\<rparr>))"
    unfolding reverts_def by blast
  moreover have "t\<lparr>bus_mem := bus_mem t, sent := sent t\<rparr> = t" by (cases t) simp
  ultimately show ?thesis by simp
qed

text \<open>A failure after the change of the queue: activation or the reply run out of memory.\<close>

lemma pending_reply_reverts:
  assumes "reverts s t" "r = driver_reply c (case bus_activation_send_pending_auto_activation_messages t n of
      (Some e, t) \<Rightarrow> (Inl e, t) | (None, t) \<Rightarrow> (Inr code, t))" "fst r = Some e"
  shows "e = NoMemory \<and> undone s (bus_transaction_cancel_and_free (snd r))"
proof -
  have "e = NoMemory \<and> reverts s (snd r)"
    using assms by (simp add: driver_reply_def bus_activation_send_pending_auto_activation_messages_def
        bus_alloc_eq bus_allocs_eq notify_def split: if_splits)
  then show ?thesis by (simp add: reverts_cancel)
qed

lemma failed_request_undone:
  assumes wf: "wf_bus s" and q: "cancel_hooks s = []" and ok: "acquire_checks context s c n = None"
    and new: "c \<notin> fst ` set (queue s n)" and flags: "\<not> flag_REPLACE_EXISTING flags"
    and fails: "fst (bus_driver_handle_acquire_service context s c n flags) = Some e"
  shows "e = NoMemory \<and> undone s (bus_transaction_cancel_and_free (snd (bus_driver_handle_acquire_service context s c n flags)))"
proof -
  let ?r = "bus_driver_handle_acquire_service context s c n flags"
  show ?thesis
  proof (cases "service_hash s n")
    case None
    obtain a t where at: "bus_registry_ensure s n c flags = (a, t)" by (cases "bus_registry_ensure s n c flags")
    note re = reverts_ensure[OF q None, of c flags, unfolded at, simplified]
    show ?thesis
    proof (cases a)
      case (Inl x)
      then show ?thesis using re ok fails None at reverts_cancel[of s t]
        by (simp add: bus_driver_handle_acquire_service_def bus_registry_acquire_service_def
            bus_registry_lookup_def driver_reply_def)
    next
      case (Inr v)
      then have "?r = driver_reply c (case bus_activation_send_pending_auto_activation_messages t n of
          (Some e, t) \<Rightarrow> (Inl e, t) | (None, t) \<Rightarrow> (Inr (Suc 0), t))"
        using re ok None at by (simp add: bus_driver_handle_acquire_service_def bus_registry_acquire_service_def
            bus_registry_lookup_def)
      then show ?thesis using pending_reply_reverts[OF conjunct1[OF re] _ fails] by simp
    qed
  next
    case (Some v)
    have sv: "service_ok s n v" using wf_service[OF wf Some] .
    then obtain p os where p: "owners s v = p # os" by (cases "owners s v") (auto simp: service_ok_def)
    have c: "bus_service_find_owner_link s v c = None" "ow_conn (owner_at s p) \<noteq> c"
      using new p by (auto simp: find_link_None conns_set queue_def Some first_entry entry_of_def)
    have r: "?r = driver_reply c (case acquire_existing s v p c flags of (Inl e, s) \<Rightarrow> (Inl e, s)
           | (Inr result, s) \<Rightarrow>
               (case bus_activation_send_pending_auto_activation_messages s n of
                  (Some e, s) \<Rightarrow> (Inl e, s)
                | (None, s) \<Rightarrow> (Inr result, s)))"
      using ok p by (simp add: bus_driver_handle_acquire_service_def bus_registry_acquire_service_def
            bus_registry_lookup_def Some bus_service_get_primary_owner_def)
    show ?thesis
    proof (cases "flag_DO_NOT_QUEUE flags")
      case True
      then have "acquire_existing s v p c flags = (Inr 3, s)"
        using c flags by (simp add: acquire_existing_def)
      then show ?thesis using pending_reply_reverts[OF reverts_plain[OF q undone_refl] _ fails] r by simp
    next
      case False
      obtain a t where at: "bus_service_add_owner s v c flags = (a, t)" by (cases "bus_service_add_owner s v c flags")
      have ra: "reverts s t" "a = None \<or> a = Some NoMemory"
        using reverts_append[OF q _ _ c(1) flags] at p sv by (auto simp: service_ok_def)
      show ?thesis
      proof (cases a)
        case None
        then have "acquire_existing s v p c flags = (Inr 2, t)"
          using c flags False at by (simp add: acquire_existing_def)
        then show ?thesis using pending_reply_reverts[OF ra(1) _ fails] r by simp
      next
        case (Some x)
        then have "acquire_existing s v p c flags = (Inl x, t)"
          using c flags False at by (simp add: acquire_existing_def)
        then show ?thesis using r ra fails Some reverts_cancel[OF ra(1)] by (simp add: driver_reply_def)
      qed
    qed
  qed
qed

end
