(* ===== verification/NameProps.thy ===== *)
theory NameProps
  imports NameCancel
begin

text \<open>
  The properties of the name registry: refinement of the requests, invariants of every reachable
  state, disconnection, and the behaviour when memory runs out.
\<close>

section \<open>A sample registry\<close>

text \<open>Connection 4 owns a name and allows its replacement, connection 5 waits for it.\<close>

definition two_connections :: bus where
  "two_connections = empty_bus\<lparr>unique_name := \<lambda>c. [58, of_nat c]\<rparr>"

definition name_ab :: "byte list" where
  "name_ab = ascii ''a.b''"

definition sample_bus :: bus where
  "sample_bus = link_new (created two_connections name_ab 4 1) 0 5 0 (\<lambda>os. os @ [1])"

definition open_context :: bus_context where
  "open_context = \<lparr>policy_of = \<lambda>_. [\<lparr>allow = True, body = OwnRule None\<rparr>], selinux_allows = \<lambda>_ _. True,
     max_services_per_connection = 10\<rparr>"

lemma empty_ok: "wf_bus (empty_bus\<lparr>unique_name := u\<rparr>) \<and> quiet (empty_bus\<lparr>unique_name := u\<rparr>)"
  by (simp add: wf_bus_def quiet_def empty_bus_def listed_def owns_def)

lemma flag_values [simp]:
  "flag_ALLOW_REPLACEMENT 1" "\<not> flag_REPLACE_EXISTING 1" "\<not> flag_DO_NOT_QUEUE 1"
  "\<not> flag_ALLOW_REPLACEMENT 0" "\<not> flag_REPLACE_EXISTING 0" "\<not> flag_DO_NOT_QUEUE 0"
  "\<not> flag_ALLOW_REPLACEMENT 2" "flag_REPLACE_EXISTING 2" "\<not> flag_DO_NOT_QUEUE 2"
  by (simp_all add: flag_ALLOW_REPLACEMENT_def flag_REPLACE_EXISTING_def flag_DO_NOT_QUEUE_def)

lemma sample_fields:
  "service_hash sample_bus name_ab = Some 0" "owners sample_bus 0 = [0, Suc 0]"
  "ow_conn (owner_at sample_bus 0) = 4" "ow_refcount (owner_at sample_bus 0) = 1"
  "ow_conn (owner_at sample_bus (Suc 0)) = 5" "delivered sample_bus = []"
  "services_owned sample_bus 4 = [0]" "services_owned sample_bus 5 = [0]" "services_owned sample_bus 6 = []"
  "service_name_of sample_bus 0 = name_ab" "unique_name sample_bus 4 = [58, 4]" "unique_name sample_bus 5 = [58, 5]"
  "unique_name sample_bus 6 = [58, 6]"
  by (simp_all add: sample_bus_def created_def link_new_def two_connections_def empty_bus_def set_owners_def
      owners_def new_owner_def)

lemma sample_ok: "wf_bus sample_bus" "quiet sample_bus"
    "queue sample_bus name_ab = [(4, True, False), (5, False, False)]"
proof -
  let ?c = "created two_connections name_ab 4 1"
  have e: "wf_bus two_connections" using empty_ok by (simp add: two_connections_def)
  have n: "service_hash two_connections name_ab = None" by (simp add: two_connections_def empty_bus_def)
  have c: "wf_bus ?c" "service_hash ?c name_ab = Some 0" "conns ?c 0 = [4]" "owners ?c 0 = [0]" "next_owner ?c = Suc 0"
    "owner_at ?c 0 = new_owner 0 4 1"
    using wf_created[OF e n, of 4 1]
    by (auto simp: created_def link_new_def two_connections_def empty_bus_def conns_def owners_def
        set_owners_def new_owner_def)
  have "wf_bus sample_bus \<and> queue sample_bus = (queue ?c)(name_ab := map (\<lambda>ow. if ow = next_owner ?c then new_entry 5 0
      else entry_of (owner_at ?c ow)) ((\<lambda>os. os @ [1]) (owners ?c 0)))"
    unfolding sample_bus_def by (rule wf_link_new[OF c(1,2)]) (simp_all add: c)
  then show "wf_bus sample_bus" "queue sample_bus name_ab = [(4, True, False), (5, False, False)]"
    by (simp_all add: c new_entry_def entry_of_def new_owner_def)
  show "quiet sample_bus"
    by (simp add: quiet_def sample_bus_def created_def link_new_def two_connections_def empty_bus_def)
qed

lemma name_ab_valid: "dbus_validate_bus_name name_ab 0 (length name_ab)" "str_byte name_ab 0 \<noteq> colon"
    "name_ab \<noteq> DBUS_SERVICE_DBUS"
  by (simp_all add: name_ab_def dbus_validate_bus_name_def char_class DBUS_SERVICE_DBUS_def)

lemma sample_checks: "c \<in> {4, 5, 6} \<Longrightarrow> acquire_checks open_context sample_bus c name_ab = None"
  by (auto simp: acquire_checks_def name_ab_valid open_context_def bus_client_policy_check_can_own_def
     bus_connection_get_n_services_owned_def sample_fields)

section \<open>Requests\<close>





lemma acquire_error:
  assumes "quiet s" "acquire_checks context s c n = Some e"
  shows "dispatch_out (bus_driver_handle_acquire_service context s c n flags) = s"
proof -
  have "e \<noteq> NoMemory" using assms(2) by (auto simp: acquire_checks_def split: if_splits)
  moreover have "bus_transaction_execute_and_free s = s"
    using assms(1) execute_plain[of s "[]"] by (cases s) (simp add: quiet_def)
  ultimately show ?thesis using assms
    by (cases e) (simp_all add: bus_driver_handle_acquire_service_def bus_registry_acquire_service_def
        driver_reply_def dispatch_out_def quiet_def)
qed

lemma requested_head:
  "q \<noteq> [] \<Longrightarrow> \<not> fst (snd (hd q)) \<Longrightarrow> fst (hd q) \<noteq> c \<Longrightarrow>
   snd (requested q c flags) \<noteq> [] \<and> hd (snd (requested q c flags)) = hd q"
  by (cases q) (auto simp: Let_def enqueued_def without_def split: if_splits)



section \<open>Reachable states\<close>

text \<open>What a client does to the registry. A disconnection has the fuel it needs.\<close>

datatype event =
    RequestName conn "byte list" "32 word"
  | ReleaseName conn "byte list"
  | Disconnect conn

fun bus_step :: "bus_context \<Rightarrow> bus \<Rightarrow> event \<Rightarrow> bus" where
  "bus_step context s (RequestName c n flags) = dispatch_out (bus_driver_handle_acquire_service context s c n flags)"
| "bus_step context s (ReleaseName c n) = dispatch_out (bus_driver_handle_release_service s c n)"
| "bus_step context s (Disconnect c) =
     (case drop_names (length (services_owned s c)) s c of Some u \<Rightarrow> u | None \<Rightarrow> s)"

lemma release_error:
  assumes "quiet s" "\<not> (dbus_validate_bus_name n 0 (length n) \<and> str_byte n 0 \<noteq> colon \<and> n \<noteq> DBUS_SERVICE_DBUS)"
  shows "dispatch_out (bus_driver_handle_release_service s c n) = s"
proof -
  have "bus_transaction_execute_and_free s = s"
    using assms(1) execute_plain[of s "[]"] by (cases s) (simp add: quiet_def)
  then show ?thesis using assms
    by (auto simp: bus_driver_handle_release_service_def bus_registry_release_service_def
        driver_reply_def dispatch_out_def quiet_def)
qed

text \<open>The queues after a step.\<close>

fun queues_after :: "bus_context \<Rightarrow> bus \<Rightarrow> event \<Rightarrow> byte list \<Rightarrow> entry list" where
  "queues_after context s (RequestName c n flags) =
     (if acquire_checks context s c n = None then (queue s)(n := snd (requested (queue s n) c flags)) else queue s)"
| "queues_after context s (ReleaseName c n) =
     (if dbus_validate_bus_name n 0 (length n) \<and> str_byte n 0 \<noteq> colon \<and> n \<noteq> DBUS_SERVICE_DBUS
      then (queue s)(n := without c (queue s n)) else queue s)"
| "queues_after context s (Disconnect c) = (\<lambda>n. without c (queue s n))"

lemma bus_step_ok:
  assumes "wf_bus s \<and> quiet s"
  shows "wf_bus (bus_step context s e) \<and> quiet (bus_step context s e) \<and>
    queue (bus_step context s e) = queues_after context s e"
proof (cases e)
  case (RequestName c n flags)
  then show ?thesis using assms request_refines[of s "context" c n flags] acquire_error[of s "context" c n]
    by (cases "acquire_checks context s c n") (auto simp: Let_def split_beta)
next
  case (ReleaseName c n)
  then show ?thesis using assms release_refines[of s n c] release_error[of s n c]
    by (auto simp: Let_def split_beta released_def)
next
  case (Disconnect c)
  then show ?thesis using assms drop_names_all[of s c] by auto
qed

interpretation registry: machine "empty_bus\<lparr>unique_name := u\<rparr>" "bus_step context" "\<lambda>s. wf_bus s \<and> quiet s"
  using empty_ok bus_step_ok by unfold_locales blast+

lemma queue_distinct: "wf_bus s \<Longrightarrow> distinct (map fst (queue s n))"
  using wf_service[of s n] by (cases "service_hash s n") (auto simp: queue_def service_ok_def conns_entries)


text \<open>The limit: no request takes a connection over it.\<close>

definition in_limits :: "bus_context \<Rightarrow> bus \<Rightarrow> bool" where
  "in_limits context s \<longleftrightarrow> (\<forall>c. length (services_owned s c) \<le> max_services_per_connection context)"

lemma members_requested: "fst ` set (snd (requested q c flags)) \<subseteq> insert c (fst ` set q)"
  by (cases q) (auto simp: Let_def enqueued_def without_def new_entry_def image_iff split: if_splits)

lemma members_after:
  "c' \<in> fst ` set (queues_after context s e n) \<Longrightarrow> c' \<in> fst ` set (queue s n) \<or>
     (\<exists>flags. e = RequestName c' n flags \<and> acquire_checks context s c' n = None)"
  using members_requested[of "queue s n" c']
proof (cases e)
  case (RequestName c n' flags)
  then show "c' \<in> fst ` set (queues_after context s e n) \<Longrightarrow> ?thesis"
    using subsetD[OF members_requested, of c' "queue s n" c flags] by (auto split: if_splits)
qed (auto simp: without_def split: if_splits)

lemma bus_step_limits:
  assumes s: "wf_bus s \<and> quiet s" and l: "in_limits context s"
  shows "in_limits context (bus_step context s e)"
  unfolding in_limits_def
proof
  fix c
  let ?s = "bus_step context s e"
  let ?M = "{n. c \<in> fst ` set (queue s n)}" and ?M' = "{n. c \<in> fst ` set (queue ?s n)}"
  note ok = bus_step_ok[OF s, of "context" e]
  have card: "length (services_owned s c) = card ?M" "length (services_owned ?s c) = card ?M'" "finite ?M"
    using owned_card owned_finite s ok by auto
  have le: "card ?M \<le> max_services_per_connection context" using l card(1) unfolding in_limits_def by metis
  show "length (services_owned ?s c) \<le> max_services_per_connection context"
  proof (cases "\<exists>n flags. e = RequestName c n flags \<and> acquire_checks context s c n = None")
    case True
    then obtain n flags where e: "e = RequestName c n flags" "acquire_checks context s c n = None" by blast
    then have "card ?M < max_services_per_connection context"
      using card(1) by (auto simp: acquire_checks_def bus_connection_get_n_services_owned_def split: if_splits)
    moreover have "?M' \<subseteq> insert n ?M" using members_after[of c "context" s e] ok e by auto
    then have "card ?M' \<le> card (insert n ?M)" using card(3) by (intro card_mono) simp_all
    then have "card ?M' \<le> Suc (card ?M)" using card_insert_if[OF card(3), of n] by (simp split: if_splits)
    ultimately show ?thesis using card(2) by simp
  next
    case False
    have "?M' \<subseteq> ?M"
    proof
      fix n assume "n \<in> ?M'"
      then have "c \<in> fst ` set (queues_after context s e n)" using ok by simp
      from members_after[OF this] False show "n \<in> ?M" by blast
    qed
    then show ?thesis using card le card_mono[of ?M ?M'] by simp
  qed
qed

interpretation limited: machine "empty_bus\<lparr>unique_name := u\<rparr>" "bus_step context"
    "\<lambda>s. (wf_bus s \<and> quiet s) \<and> in_limits context s"
proof unfold_locales
  show "(wf_bus (empty_bus\<lparr>unique_name := u\<rparr>) \<and> quiet (empty_bus\<lparr>unique_name := u\<rparr>)) \<and>
      in_limits context (empty_bus\<lparr>unique_name := u\<rparr>)"
    using empty_ok by (simp add: in_limits_def empty_bus_def)
qed (use bus_step_ok bus_step_limits in blast)




section \<open>Out of memory\<close>


lemma wf_mem [simp]: "wf_bus (s\<lparr>bus_mem := m\<rparr>) = wf_bus s" "queue (s\<lparr>bus_mem := m\<rparr>) = queue s"
  by (auto simp: wf_bus_def service_ok_def owner_ok_def conns_def owners_def listed_def owns_def
      queue_def entries_def fun_eq_iff split: option.split)


text \<open>
  Cancelling a replacement of the primary owner does not restore the queue: the former primary
  owner is inserted again in front without the link that the swap moved, so the same owner is twice in
  the queue and its service twice in the connection's list.
\<close>

theorem cancelled_swap_duplicates_owner:
  assumes "quiet s" "owners s v = p # ow # rest" "p \<noteq> ow" "0 < ow_refcount (owner_at s p)"
  shows "let s' = bus_transaction_cancel_and_free (snd (bus_service_swap_owner s v (ow_conn (owner_at s p))))
    in owners s' v = p # ow # p # rest \<and>
       services_owned s' (ow_conn (owner_at s p)) = services_owned s (ow_conn (owner_at s p)) @ [v]"
  using swap_cancel[OF assms(1,2) refl assms(3,4)]
  by (simp add: bus_connection_add_owned_service_link_def owners_def set_owners_def)

theorem cancelled_swap_duplicates_owner_witness:
  "owners (bus_transaction_cancel_and_free (snd (bus_service_swap_owner sample_bus 0 4))) 0 = [0, 1, 0]"
  using cancelled_swap_duplicates_owner[OF sample_ok(2) sample_fields(2)]
  by (simp add: sample_fields Let_def)

text \<open>
  Cancelling the removal of a primary owner puts its link back without the reference the link
  stands for: freeing the data of the hook drops the last reference, so the queue starts with an owner
  that has been freed.
\<close>

theorem cancelled_removal_frees_owner:
  assumes "quiet s" "owners s v = p # ow # rest" "distinct (owners s v)" "ow_refcount (owner_at s p) = 1"
  shows "let s' = bus_transaction_cancel_and_free (snd (bus_service_remove_owner s v (ow_conn (owner_at s p))))
    in owners s' v = p # ow # rest \<and> ow_refcount (owner_at s' p) = 0"
  using remove_cancel[OF assms(1,2) refl assms(3,4)] assms(4)
  by (simp add: bus_connection_add_owned_service_link_def owners_def set_owners_def unref_last Let_def)

theorem cancelled_removal_frees_owner_witness:
  "ow_refcount (owner_at (bus_transaction_cancel_and_free (snd (bus_service_remove_owner sample_bus 0 4))) 0) = 0"
  using cancelled_removal_frees_owner[OF sample_ok(2) sample_fields(2)]
  by (simp add: sample_fields Let_def)

end
