(* ===== verification/LinkedList.thy ===== *)
theory LinkedList
  imports Prelude
begin

text \<open>
  The linked lists of D-Bus (\<open>dbus/dbus-list.c\<close>): circular doubly linked rings of links in an
  explicit store. A list is the address of its first link, 0 is \<open>NULL\<close>. The operations are
  proved to refine those on sequences, and to leave every other link alone.
\<close>

section \<open>The store\<close>

type_synonym link = nat

text \<open>\<open>struct DBusList\<close>; the data pointer is a number.\<close>

record dbus_link =
  prev :: link
  "next" :: link
  data :: nat

record list_store =
  link_at :: "link \<Rightarrow> dbus_link"
  in_use :: "link \<Rightarrow> bool"
  fresh_link :: link
  list_mem :: mem_oracle

abbreviation set_next :: "link \<Rightarrow> link \<Rightarrow> list_store \<Rightarrow> list_store" where
  "set_next l x h \<equiv> h\<lparr>link_at := (link_at h)(l := (link_at h l)\<lparr>next := x\<rparr>)\<rparr>"

abbreviation set_prev :: "link \<Rightarrow> link \<Rightarrow> list_store \<Rightarrow> list_store" where
  "set_prev l x h \<equiv> h\<lparr>link_at := (link_at h)(l := (link_at h l)\<lparr>prev := x\<rparr>)\<rparr>"

abbreviation next_of :: "list_store \<Rightarrow> link \<Rightarrow> link" where "next_of h l \<equiv> next (link_at h l)"
abbreviation prev_of :: "list_store \<Rightarrow> link \<Rightarrow> link" where "prev_of h l \<equiv> prev (link_at h l)"
abbreviation data_of :: "list_store \<Rightarrow> link \<Rightarrow> nat" where "data_of h l \<equiv> data (link_at h l)"

text \<open>
  \<open>alloc_link\<close>: creating the pool and allocating from it are one fallible step here. The pool
  zeroes what it hands out.
\<close>

definition alloc_link :: "list_store \<Rightarrow> nat \<Rightarrow> link \<times> list_store" where
  "alloc_link h d =
     (case alloc (list_mem h) of (ok, m) \<Rightarrow>
        if \<not> ok then (0, h\<lparr>list_mem := m\<rparr>)
        else (fresh_link h,
              h\<lparr>list_mem := m, fresh_link := fresh_link h + 1,
                in_use := (in_use h)(fresh_link h := True),
                link_at := (link_at h)(fresh_link h := \<lparr>prev = 0, next = 0, data = d\<rparr>)\<rparr>))"

definition free_link :: "list_store \<Rightarrow> link \<Rightarrow> list_store" where
  "free_link h l = h\<lparr>in_use := (in_use h)(l := False)\<rparr>"

text \<open>The list argument is the value of \<open>*list\<close>; its new value is returned.\<close>

definition link_before :: "list_store \<Rightarrow> link \<Rightarrow> link \<Rightarrow> link \<Rightarrow> list_store \<times> link" where
  "link_before h list before_this_link l =
     (if list = 0 then (set_next l l (set_prev l l h), l)
      else
        let h = set_next l before_this_link h;
            h = set_prev l (prev_of h before_this_link) h;
            h = set_prev before_this_link l h;
            h = set_next (prev_of h l) l h
        in (h, if before_this_link = list then l else list))"

definition link_after :: "list_store \<Rightarrow> link \<Rightarrow> link \<Rightarrow> link \<Rightarrow> list_store \<times> link" where
  "link_after h list after_this_link l =
     (if list = 0 then (set_next l l (set_prev l l h), l)
      else
        let h = set_prev l after_this_link h;
            h = set_next l (next_of h after_this_link) h;
            h = set_next after_this_link l h;
            h = set_prev (next_of h l) l h
        in (h, list))"

definition dbus_list_prepend_link :: "list_store \<Rightarrow> link \<Rightarrow> link \<Rightarrow> list_store \<times> link" where
  "dbus_list_prepend_link h list l = link_before h list list l"

definition dbus_list_append_link :: "list_store \<Rightarrow> link \<Rightarrow> link \<Rightarrow> list_store \<times> link" where
  "dbus_list_append_link h list l =
     (case dbus_list_prepend_link h list l of (h, list) \<Rightarrow> (h, next_of h list))"

definition dbus_list_prepend :: "list_store \<Rightarrow> link \<Rightarrow> nat \<Rightarrow> bool \<times> list_store \<times> link" where
  "dbus_list_prepend h list d =
     (case alloc_link h d of (l, h) \<Rightarrow>
        if l = 0 then (False, h, list) else (True, link_before h list list l))"

definition dbus_list_append :: "list_store \<Rightarrow> link \<Rightarrow> nat \<Rightarrow> bool \<times> list_store \<times> link" where
  "dbus_list_append h list d =
     (case dbus_list_prepend h list d of (ok, h, list) \<Rightarrow>
        if \<not> ok then (False, h, list) else (True, h, next_of h list))"

definition dbus_list_insert_after :: "list_store \<Rightarrow> link \<Rightarrow> link \<Rightarrow> nat \<Rightarrow> bool \<times> list_store \<times> link" where
  "dbus_list_insert_after h list after_this_link d =
     (if after_this_link = 0 then dbus_list_prepend h list d
      else case alloc_link h d of (l, h) \<Rightarrow>
        if l = 0 then (False, h, list) else (True, link_after h list after_this_link l))"

definition dbus_list_insert_before_link :: "list_store \<Rightarrow> link \<Rightarrow> link \<Rightarrow> link \<Rightarrow> list_store \<times> link" where
  "dbus_list_insert_before_link h list before_this_link l =
     (if before_this_link = 0 then dbus_list_append_link h list l
      else link_before h list before_this_link l)"

definition dbus_list_insert_after_link :: "list_store \<Rightarrow> link \<Rightarrow> link \<Rightarrow> link \<Rightarrow> list_store \<times> link" where
  "dbus_list_insert_after_link h list after_this_link l =
     (if after_this_link = 0 then dbus_list_prepend_link h list l
      else link_after h list after_this_link l)"

definition dbus_list_unlink :: "list_store \<Rightarrow> link \<Rightarrow> link \<Rightarrow> list_store \<times> link" where
  "dbus_list_unlink h list l =
     (let r = (if next_of h l = l then (h, 0)
               else
                 let h = set_next (prev_of h l) (next_of h l) h;
                     h = set_prev (next_of h l) (prev_of h l) h
                 in (h, if list = l then next_of h l else list))
      in (set_prev l 0 (set_next l 0 (fst r)), snd r))"

definition dbus_list_remove_link :: "list_store \<Rightarrow> link \<Rightarrow> link \<Rightarrow> list_store \<times> link" where
  "dbus_list_remove_link h list l =
     (case dbus_list_unlink h list l of (h, list) \<Rightarrow> (free_link h l, list))"

definition dbus_list_get_next_link :: "list_store \<Rightarrow> link \<Rightarrow> link \<Rightarrow> link" where
  "dbus_list_get_next_link h list l = (if next_of h l = list then 0 else next_of h l)"

definition dbus_list_get_prev_link :: "list_store \<Rightarrow> link \<Rightarrow> link \<Rightarrow> link" where
  "dbus_list_get_prev_link h list l = (if l = list then 0 else prev_of h l)"

definition dbus_list_get_last_link :: "list_store \<Rightarrow> link \<Rightarrow> link" where
  "dbus_list_get_last_link h list = (if list = 0 then 0 else prev_of h list)"

definition dbus_list_get_first :: "list_store \<Rightarrow> link \<Rightarrow> nat" where
  "dbus_list_get_first h list = (if list = 0 then 0 else data_of h list)"

definition dbus_list_get_last :: "list_store \<Rightarrow> link \<Rightarrow> nat" where
  "dbus_list_get_last h list = (if list = 0 then 0 else data_of h (prev_of h list))"

definition dbus_list_length_is_one :: "list_store \<Rightarrow> link \<Rightarrow> bool" where
  "dbus_list_length_is_one h list \<longleftrightarrow> list \<noteq> 0 \<and> next_of h list = list"

definition dbus_list_pop_first_link :: "list_store \<Rightarrow> link \<Rightarrow> link \<times> list_store \<times> link" where
  "dbus_list_pop_first_link h list =
     (if list = 0 then (0, h, list) else (list, dbus_list_unlink h list list))"

definition dbus_list_pop_first :: "list_store \<Rightarrow> link \<Rightarrow> nat \<times> list_store \<times> link" where
  "dbus_list_pop_first h list =
     (if list = 0 then (0, h, list) else (data_of h list, dbus_list_remove_link h list list))"

definition dbus_list_pop_last :: "list_store \<Rightarrow> link \<Rightarrow> nat \<times> list_store \<times> link" where
  "dbus_list_pop_last h list =
     (let l = dbus_list_get_last_link h list
      in if l = 0 then (0, h, list) else (data_of h l, dbus_list_remove_link h list l))"

text \<open>The loops follow the links and end at \<open>NULL\<close>; on a broken ring they may not return.\<close>

partial_function (option) find_first_loop :: "list_store \<Rightarrow> link \<Rightarrow> nat \<Rightarrow> link \<Rightarrow> link option" where
  "find_first_loop h list d l =
     (if l = 0 then Some 0
      else if data_of h l = d then Some l
      else find_first_loop h list d (dbus_list_get_next_link h list l))"

partial_function (option) find_last_loop :: "list_store \<Rightarrow> link \<Rightarrow> nat \<Rightarrow> link \<Rightarrow> link option" where
  "find_last_loop h list d l =
     (if l = 0 then Some 0
      else if data_of h l = d then Some l
      else find_last_loop h list d (dbus_list_get_prev_link h list l))"

definition dbus_list_find_last :: "list_store \<Rightarrow> link \<Rightarrow> nat \<Rightarrow> link option" where
  "dbus_list_find_last h list d = find_last_loop h list d (dbus_list_get_last_link h list)"

definition dbus_list_remove :: "list_store \<Rightarrow> link \<Rightarrow> nat \<Rightarrow> (bool \<times> list_store \<times> link) option" where
  "dbus_list_remove h list d =
     map_option (\<lambda>l. if l = 0 then (False, h, list) else (True, dbus_list_remove_link h list l))
       (find_first_loop h list d list)"

definition dbus_list_remove_last :: "list_store \<Rightarrow> link \<Rightarrow> nat \<Rightarrow> (bool \<times> list_store \<times> link) option" where
  "dbus_list_remove_last h list d =
     map_option (\<lambda>l. if l = 0 then (False, h, list) else (True, dbus_list_remove_link h list l))
       (dbus_list_find_last h list d)"

partial_function (option) length_loop :: "list_store \<Rightarrow> link \<Rightarrow> link \<Rightarrow> nat \<Rightarrow> nat option" where
  "length_loop h list l n =
     (if l = 0 then Some n
      else length_loop h list (dbus_list_get_next_link h list l) (n + 1))"

definition dbus_list_get_length :: "list_store \<Rightarrow> link \<Rightarrow> nat option" where
  "dbus_list_get_length h list = length_loop h list list 0"

partial_function (option) clear_loop :: "list_store \<Rightarrow> link \<Rightarrow> link \<Rightarrow> list_store option" where
  "clear_loop h list l =
     (if l = 0 then Some h
      else let nxt = dbus_list_get_next_link h list l in clear_loop (free_link h l) list nxt)"

definition dbus_list_clear :: "list_store \<Rightarrow> link \<Rightarrow> (list_store \<times> link) option" where
  "dbus_list_clear h list = map_option (\<lambda>h. (h, 0)) (clear_loop h list list)"

text \<open>\<open>_dbus_list_copy\<close>: on failure the part copied so far is freed again.\<close>

partial_function (option) copy_loop :: "list_store \<Rightarrow> link \<Rightarrow> link \<Rightarrow> link \<Rightarrow> (bool \<times> list_store \<times> link) option" where
  "copy_loop h list dest l =
     (if l = 0 then Some (True, h, dest)
      else case dbus_list_append h dest (data_of h l) of (ok, h, dest) \<Rightarrow>
        if \<not> ok then map_option (\<lambda>(h, dest). (False, h, dest)) (dbus_list_clear h dest)
        else copy_loop h list dest (dbus_list_get_next_link h list l))"

definition dbus_list_copy :: "list_store \<Rightarrow> link \<Rightarrow> (bool \<times> list_store \<times> link) option" where
  "dbus_list_copy h list = copy_loop h list 0 list"

text \<open>\<open>_dbus_list_foreach\<close> with a function that acts on a state of its own.\<close>

partial_function (option) foreach_loop :: "list_store \<Rightarrow> link \<Rightarrow> (nat \<Rightarrow> 's \<Rightarrow> 's) \<Rightarrow> link \<Rightarrow> 's \<Rightarrow> 's option" where
  "foreach_loop h list f l s =
     (if l = 0 then Some s
      else let nxt = dbus_list_get_next_link h list l in foreach_loop h list f nxt (f (data_of h l) s))"

definition dbus_list_foreach :: "list_store \<Rightarrow> link \<Rightarrow> (nat \<Rightarrow> 's \<Rightarrow> 's) \<Rightarrow> 's \<Rightarrow> 's option" where
  "dbus_list_foreach h list f s = foreach_loop h list f list s"


section \<open>Rings\<close>

text \<open>Consecutive links of a path point at each other.\<close>

fun linked :: "list_store \<Rightarrow> link list \<Rightarrow> bool" where
  "linked h (x # y # zs) \<longleftrightarrow> next_of h x = y \<and> prev_of h y = x \<and> linked h (y # zs)"
| "linked h _ \<longleftrightarrow> True"

lemma linked_append: "linked h (xs @ x # ys) \<longleftrightarrow> linked h (xs @ [x]) \<and> linked h (x # ys)"
proof (induction xs)
  case (Cons a xs)
  then show ?case by (cases xs) auto
qed simp

lemma linked_snoc:
  "xs \<noteq> [] \<Longrightarrow> linked h (xs @ [y]) \<longleftrightarrow> linked h xs \<and> next_of h (last xs) = y \<and> prev_of h y = last xs"
  using linked_append[of h _ _ "[y]"] by (cases xs rule: rev_cases) auto

lemma linked_cong:
  "(\<And>x. x \<in> set (butlast xs) \<Longrightarrow> next_of h x = next_of h' x) \<Longrightarrow>
   (\<And>x. x \<in> set (tl xs) \<Longrightarrow> prev_of h x = prev_of h' x) \<Longrightarrow> linked h xs = linked h' xs"
  by (induction xs rule: linked.induct[of _ h]) (auto split: if_splits)

text \<open>
  A ring of links from the first; \<open>list_of\<close> relates a list with the links it consists of.
\<close>

definition ring :: "list_store \<Rightarrow> link list \<Rightarrow> bool" where
  "ring h ls \<longleftrightarrow> ls \<noteq> [] \<and> linked h (ls @ [hd ls])"

definition list_of :: "list_store \<Rightarrow> link \<Rightarrow> link list \<Rightarrow> bool" where
  "list_of h list ls \<longleftrightarrow> list = (if ls = [] then 0 else hd ls) \<and> (ls \<noteq> [] \<longrightarrow> ring h ls) \<and>
     distinct ls \<and> 0 \<notin> set ls \<and> (\<forall>l \<in> set ls. in_use h l \<and> l < fresh_link h) \<and> 0 < fresh_link h"

lemma ring_rotate:
  assumes "ys \<noteq> []" shows "ring h (x # xs @ ys) \<longleftrightarrow> ring h (ys @ x # xs)"
proof -
  obtain y zs where ys: "ys = y # zs" using assms by (cases ys) auto
  have "linked h (x # xs @ (y # zs) @ [x]) \<longleftrightarrow> linked h (x # xs @ [y]) \<and> linked h (y # zs @ [x])"
    using linked_append[of h "x # xs" y "zs @ [x]"] by simp
  moreover have "linked h (y # zs @ (x # xs) @ [y]) \<longleftrightarrow> linked h (y # zs @ [x]) \<and> linked h (x # xs @ [y])"
    using linked_append[of h "y # zs" x "xs @ [y]"] by simp
  ultimately show ?thesis by (auto simp: ring_def ys)
qed

lemma ring_Cons: "ring h (x # xs) \<longleftrightarrow> linked h (x # xs) \<and> next_of h (last (x # xs)) = x \<and> prev_of h x = last (x # xs)"
  using linked_snoc[of "x # xs" h x] by (simp add: ring_def)

lemma ring_frame:
  assumes "\<And>l. l \<in> set ls \<Longrightarrow> next_of h' l = next_of h l \<and> prev_of h' l = prev_of h l"
  shows "ring h' ls \<longleftrightarrow> ring h ls"
proof (cases ls)
  case (Cons x xs)
  have "linked h' (ls @ [hd ls]) = linked h (ls @ [hd ls])"
    by (rule linked_cong) (use assms Cons in auto)
  then show ?thesis by (simp add: ring_def)
qed (simp add: ring_def)

text \<open>The two surgeries on rings, in a rotated ring that starts at the place of the change.\<close>

lemma insert_ring:
  assumes r: "ring h (b # bs)" and l: "l \<notin> set (b # bs)" and d: "distinct (b # bs)"
    and p: "last (b # bs) = p"
    and h': "next_of h' l = b" "prev_of h' l = p" "prev_of h' b = l" "next_of h' p = l"
    and frame: "\<And>x. x \<in> set (b # bs) \<Longrightarrow> x \<noteq> b \<Longrightarrow> prev_of h' x = prev_of h x"
      "\<And>x. x \<in> set (b # bs) \<Longrightarrow> x \<noteq> p \<Longrightarrow> next_of h' x = next_of h x"
  shows "ring h' (l # b # bs)"
proof -
  have "linked h' (b # bs) \<longleftrightarrow> linked h (b # bs)"
  proof (rule linked_cong)
    fix x assume "x \<in> set (butlast (b # bs))"
    moreover from this have "x \<noteq> p"
      unfolding p[symmetric] using d by (metis append_butlast_last_id distinct_append disjoint_iff list.discI list.set_intros(1))
    ultimately show "next_of h' x = next_of h x" using frame(2) by (blast dest: in_set_butlastD)
  qed (use frame(1) d in auto)
  then show ?thesis using r h' p unfolding ring_Cons by simp
qed

lemma remove_ring:
  assumes r: "ring h (l # b # bs)" and d: "distinct (l # b # bs)"
    and p: "last (b # bs) = p"
    and h': "prev_of h' b = p" "next_of h' p = b"
    and frame: "\<And>x. x \<in> set (b # bs) \<Longrightarrow> x \<noteq> b \<Longrightarrow> prev_of h' x = prev_of h x"
      "\<And>x. x \<in> set (b # bs) \<Longrightarrow> x \<noteq> p \<Longrightarrow> next_of h' x = next_of h x"
  shows "ring h' (b # bs)"
proof -
  have "linked h' (b # bs) \<longleftrightarrow> linked h (b # bs)"
  proof (rule linked_cong)
    fix x assume "x \<in> set (butlast (b # bs))"
    moreover from this have "x \<noteq> p"
      unfolding p[symmetric] using d by (metis append_butlast_last_id distinct.simps(2) distinct_append disjoint_iff list.discI list.set_intros(1))
    ultimately show "next_of h' x = next_of h x" using frame(2) by (blast dest: in_set_butlastD)
  qed (use frame(1) d in auto)
  then show ?thesis using r h' p unfolding ring_Cons by simp
qed


text \<open>What a surgery leaves alone: all data, the allocation, and the links outside a set.\<close>

definition only_links :: "link set \<Rightarrow> list_store \<Rightarrow> list_store \<Rightarrow> bool" where
  "only_links S h h' \<longleftrightarrow> in_use h' = in_use h \<and> fresh_link h' = fresh_link h \<and> list_mem h' = list_mem h \<and>
     (\<forall>x. data_of h' x = data_of h x) \<and> (\<forall>x. x \<notin> S \<longrightarrow> link_at h' x = link_at h x)"

lemma only_links_list_of:
  "only_links S h h' \<Longrightarrow> list_of h list ls \<Longrightarrow> set ls \<inter> S = {} \<Longrightarrow> list_of h' list ls"
proof -
  assume a: "only_links S h h'" "list_of h list ls" "set ls \<inter> S = {}"
  have "ring h' ls \<longleftrightarrow> ring h ls"
    by (rule ring_frame) (use a(1,3) in \<open>auto simp: only_links_def\<close>)
  then show ?thesis using a by (simp add: list_of_def only_links_def)
qed

lemma list_of_first: "list_of h list (x # xs) \<Longrightarrow> list = x \<and> x \<noteq> 0"
  by (auto simp: list_of_def)

definition spare :: "list_store \<Rightarrow> link \<Rightarrow> link list \<Rightarrow> bool" where
  "spare h l ls \<longleftrightarrow> l \<noteq> 0 \<and> l \<notin> set ls \<and> in_use h l \<and> l < fresh_link h"

lemma link_before_refines:
  assumes lo: "list_of h list (as @ b # bs)" and l: "spare h l (as @ b # bs)"
    and r: "link_before h list b l = (h', list')"
  shows "list_of h' list' (as @ l # b # bs) \<and> only_links (insert l (set (as @ b # bs))) h h'"
proof -
  let ?ls = "as @ b # bs"
  have list: "list = hd ?ls" "list \<noteq> 0" "ring h ?ls" "distinct ?ls"
    using lo by (auto simp: list_of_def split: if_splits) (cases as; auto)+
  have rot: "ring h (b # bs @ as)" using list(3) ring_rotate[of as h b bs] by (cases "as = []") auto
  let ?p = "last (b # bs @ as)"
  have p: "prev_of h b = ?p" "next_of h ?p = b" using rot by (simp_all add: ring_Cons)
  have inp: "?p \<in> set ?ls" using last_in_set[of "b # bs @ as"] by auto
  have nl: "l \<noteq> b" "l \<noteq> ?p" using l inp by (auto simp: spare_def)
  have h': "h' = set_next ?p l (set_prev b l (set_prev l ?p (set_next l b h)))"
    using r list(2) nl p by (auto simp: link_before_def Let_def split: if_splits)
  have list': "list' = (if b = list then l else list)"
    using r list(2) by (auto simp: link_before_def Let_def split: if_splits)
  obtain q where q: "last (b # bs @ as) = q" by simp
  have "ring h' (l # b # bs @ as)"
  proof (rule insert_ring[OF rot _ _ q])
    show "distinct (b # bs @ as)" using list(4) by auto
    show "l \<notin> set (b # bs @ as)" using l by (auto simp: spare_def)
  qed (use l nl in \<open>auto simp: h' spare_def q simp del: last.simps\<close>)
  then have ring: "ring h' (as @ l # b # bs)" using ring_rotate[of as h' l "b # bs"] by (cases "as = []") auto
  have only: "only_links (insert l (set ?ls)) h h'"
    using inp by (auto simp: h' only_links_def)
  have "list' = hd (as @ l # b # bs)" using list(1,4) list' by (cases as) auto
  then show ?thesis using lo l ring only by (auto simp: list_of_def spare_def only_links_def)
qed

lemma link_before_empty:
  assumes "spare h l []" "link_before h 0 b l = (h', list')" "0 < fresh_link h"
  shows "list_of h' list' [l] \<and> only_links {l} h h'"
  using assms by (auto simp: link_before_def list_of_def ring_def only_links_def spare_def)

lemma link_after_refines:
  assumes lo: "list_of h list (as @ a # bs)" and l: "spare h l (as @ a # bs)"
    and r: "link_after h list a l = (h', list')"
  shows "list_of h' list' (as @ a # l # bs) \<and> only_links (insert l (set (as @ a # bs))) h h'"
proof -
  let ?ls = "as @ a # bs"
  have list: "list = hd ?ls" "list \<noteq> 0" "ring h ?ls" "distinct ?ls"
    using lo by (auto simp: list_of_def split: if_splits) (cases as; auto)+
  let ?rot = "(bs @ as) @ [a]"
  have rot: "ring h ?rot" using list(3) ring_rotate[of "bs" h a "[]"] ring_rotate[of as h a bs] ring_rotate[of "bs @ as" h a "[]"]
    by (cases "as = []"; cases "bs = []") auto
  let ?b = "hd ?rot"
  obtain b cs where bcs: "?rot = b # cs" by (cases ?rot) auto
  have p: "next_of h a = b" "prev_of h b = a" using rot unfolding bcs ring_Cons by (simp_all flip: bcs)
  have inp: "b \<in> set ?ls" using arg_cong[OF bcs, of set] by auto
  have nl: "l \<noteq> b" "l \<noteq> a" using l inp by (auto simp: spare_def)
  have h': "h' = set_prev b l (set_next a l (set_next l b (set_prev l a h)))"
    using r list(2) nl p by (auto simp: link_after_def Let_def split: if_splits)
  have list': "list' = list" using r list(2) by (auto simp: link_after_def Let_def)
  have la: "last (b # cs) = a" by (simp flip: bcs)
  have lc: "l \<notin> set (b # cs)" unfolding bcs[symmetric] using l by (auto simp: spare_def)
  have "ring h' (l # b # cs)"
  proof (rule insert_ring[OF rot[unfolded bcs] lc _ la])
    show "distinct (b # cs)" unfolding bcs[symmetric] using list(4) by auto
  qed (use l nl lc in \<open>auto simp: h' spare_def\<close>)
  then have "ring h' (l # (bs @ as) @ [a])" unfolding bcs .
  then have ring: "ring h' (as @ a # l # bs)"
    using ring_rotate[of "as @ [a]" h' l bs] by simp
  have only: "only_links (insert l (set ?ls)) h h'" using inp by (auto simp: h' only_links_def)
  have "list' = hd (as @ a # l # bs)" using list(1) list' by (cases as) auto
  then show ?thesis using lo l ring only by (auto simp: list_of_def spare_def only_links_def)
qed

lemma unlink_refines:
  assumes lo: "list_of h list (as @ l # bs)" and r: "dbus_list_unlink h list l = (h', list')"
  shows "list_of h' list' (as @ bs) \<and> only_links (set (as @ l # bs)) h h' \<and> next_of h' l = 0 \<and> prev_of h' l = 0"
proof -
  let ?ls = "as @ l # bs"
  have list: "list = hd ?ls" "list \<noteq> 0" "ring h ?ls" "distinct ?ls"
    using lo by (auto simp: list_of_def split: if_splits) (cases as; auto)+
  have rot: "ring h (l # bs @ as)" using list(3) ring_rotate[of as h l bs] by (cases "as = []") auto
  show ?thesis
  proof (cases "bs @ as")
    case Nil
    then show ?thesis using rot r lo
      by (auto simp: ring_Cons dbus_list_unlink_def Let_def list_of_def only_links_def)
  next
    case (Cons b cs)
    obtain p where p: "p = last (b # cs)" by simp
    have n: "next_of h l = b" "prev_of h l = p" using rot unfolding Cons ring_Cons by (simp_all add: p)
    have d: "distinct (l # b # cs)" using list(4) by (simp flip: Cons) auto
    have sub: "set (b # cs) \<subseteq> set ?ls" unfolding Cons[symmetric] by auto
    have inp: "b \<in> set ?ls" "p \<in> set ?ls" "p \<in> set (b # cs)"
      using sub last_in_set[of "b # cs"] unfolding p by (simp, blast+)
    have nl: "l \<noteq> b" "l \<noteq> p" using d inp(3) by auto
    have h': "h' = set_prev l 0 (set_next l 0 (set_prev b p (set_next p b h)))"
      and list': "list' = (if list = l then b else list)"
      using r n nl by (auto simp: dbus_list_unlink_def Let_def)
    have "ring h' (b # cs)"
      by (rule remove_ring[OF rot[unfolded Cons] d p[symmetric]]) (use nl d in \<open>auto simp: h'\<close>)
    then have "ring h' (bs @ as)" by (simp add: Cons)
    then have ring: "ring h' (as @ bs)"
      using ring_rotate[of as h' "hd bs" "tl bs"] by (cases bs; cases as) auto
    have only: "only_links (set ?ls) h h'" using inp(1,2) by (auto simp: h' only_links_def)
    have "list' = hd (as @ bs)" "as @ bs \<noteq> []" using list(1,4) list' Cons by (cases as; auto)+
    then show ?thesis using lo ring only by (auto simp: list_of_def only_links_def h')
  qed
qed


section \<open>Walking\<close>

lemma list_of_linked: "list_of h list (as @ x # bs) \<Longrightarrow> linked h (as @ x # bs @ [list]) \<and> distinct (as @ x # bs) \<and> list = hd (as @ x # bs)"
  by (cases as) (auto simp: list_of_def ring_def)

lemma next_link:
  assumes "list_of h list (as @ x # bs)"
  shows "dbus_list_get_next_link h list x = (if bs = [] then 0 else hd bs)"
proof -
  note l = list_of_linked[OF assms]
  have "linked h (x # bs @ [list])" using l linked_append[of h as x "bs @ [list]"] by blast
  then have n: "next_of h x = (if bs = [] then list else hd bs)" by (cases bs) simp_all
  have "bs \<noteq> [] \<Longrightarrow> hd bs \<noteq> list"
    using l hd_in_set[of bs] by (cases as) auto
  then show ?thesis by (simp add: n dbus_list_get_next_link_def)
qed

lemma prev_link:
  assumes "list_of h list (as @ x # bs)"
  shows "dbus_list_get_prev_link h list x = (if as = [] then 0 else last as)"
proof (cases as rule: rev_cases)
  case (snoc as' y)
  note l = list_of_linked[OF assms]
  have "linked h (y # x # bs @ [list])" using l linked_append[of h as' y "x # bs @ [list]"] snoc by auto
  moreover have "x \<noteq> list" using l snoc by (cases as') auto
  ultimately show ?thesis unfolding snoc dbus_list_get_prev_link_def by simp
qed (use assms in \<open>auto simp: list_of_def dbus_list_get_prev_link_def\<close>)

lemma last_link:
  assumes "list_of h list ls" shows "dbus_list_get_last_link h list = (if ls = [] then 0 else last ls)"
  using assms by (cases ls) (auto simp: list_of_def dbus_list_get_last_link_def ring_Cons)

lemma find_first:
  "list_of h list (as @ bs) \<Longrightarrow> find_first_loop h list d (if bs = [] then 0 else hd bs) =
     Some (case dropWhile (\<lambda>l. data_of h l \<noteq> d) bs of [] \<Rightarrow> 0 | x # _ \<Rightarrow> x)"
proof (induction bs arbitrary: as)
  case (Cons x bs)
  have "x \<noteq> 0" using Cons.prems by (auto simp: list_of_def)
  then show ?case using Cons.IH[of "as @ [x]"] Cons.prems next_link[OF Cons.prems]
    by (simp add: find_first_loop.simps[of h list d x])
qed (simp add: find_first_loop.simps)

lemma find_last:
  "list_of h list (as @ bs) \<Longrightarrow> find_last_loop h list d (if as = [] then 0 else last as) =
     Some (case dropWhile (\<lambda>l. data_of h l \<noteq> d) (rev as) of [] \<Rightarrow> 0 | x # _ \<Rightarrow> x)"
proof (induction as arbitrary: bs rule: rev_induct)
  case (snoc x as)
  then have lo: "list_of h list (as @ x # bs)" by simp
  then have "x \<noteq> 0" by (auto simp: list_of_def)
  then show ?case using snoc.IH[of "x # bs"] lo prev_link[OF lo]
    by (simp add: find_last_loop.simps[of h list d x])
qed (simp add: find_last_loop.simps)

lemma length_counts:
  "list_of h list (as @ bs) \<Longrightarrow> length_loop h list (if bs = [] then 0 else hd bs) n = Some (n + length bs)"
proof (induction bs arbitrary: as n)
  case (Cons x bs)
  have "x \<noteq> 0" using Cons.prems by (auto simp: list_of_def)
  then show ?case using Cons.IH[of "as @ [x]"] Cons.prems next_link[OF Cons.prems]
    by (simp add: length_loop.simps[of h list x])
qed (simp add: length_loop.simps)

lemma foreach_folds:
  "list_of h list (as @ bs) \<Longrightarrow> foreach_loop h list f (if bs = [] then 0 else hd bs) s =
     Some (fold f (map (data_of h) bs) s)"
proof (induction bs arbitrary: as s)
  case (Cons x bs)
  have "x \<noteq> 0" using Cons.prems by (auto simp: list_of_def)
  then show ?case using Cons.IH[of "as @ [x]"] Cons.prems next_link[OF Cons.prems]
    by (simp add: foreach_loop.simps[of h list f x] Let_def)
qed (simp add: foreach_loop.simps)

section \<open>Sequences\<close>

text \<open>
  \<open>changes ls h h'\<close>: only the links \<open>ls\<close> and links allocated since may differ, and the data of
  existing links is the same: what a list that shares no link with \<open>ls\<close> relies on.
\<close>

definition changes :: "link list \<Rightarrow> list_store \<Rightarrow> list_store \<Rightarrow> bool" where
  "changes ls h h' \<longleftrightarrow> fresh_link h \<le> fresh_link h' \<and>
     (\<forall>x < fresh_link h. x \<notin> set ls \<longrightarrow> link_at h' x = link_at h x \<and> in_use h' x = in_use h x)"

lemma changes_other:
  assumes "changes ls h h'" "list_of h list os" "set os \<inter> set ls = {}"
  shows "list_of h' list os \<and> map (data_of h') os = map (data_of h) os"
proof -
  have same: "link_at h' x = link_at h x \<and> in_use h' x = in_use h x" if "x \<in> set os" for x
    using assms that by (auto simp: changes_def list_of_def)
  then have "ring h' os = ring h os" by (intro ring_frame) simp
  then show ?thesis using same assms by (auto simp: list_of_def changes_def)
qed

lemma alloc_spare:
  assumes "list_of h list ls" "alloc_link h d = (l, h')" "l \<noteq> 0"
  shows "list_of h' list ls \<and> spare h' l ls \<and> data_of h' l = d \<and> (\<forall>x \<in> set ls. data_of h' x = data_of h x) \<and>
    changes [] h h' \<and> l \<ge> fresh_link h"
proof -
  have h': "l = fresh_link h" "fresh_link h' = fresh_link h + 1" "link_at h' = (link_at h)(l := \<lparr>prev = 0, next = 0, data = d\<rparr>)"
    "in_use h' = (in_use h)(l := True)"
    using assms(2,3) by (auto simp: alloc_link_def split: prod.splits if_splits)
  have nl: "l \<notin> set ls" using assms(1) h'(1) by (auto simp: list_of_def)
  then have "ring h' ls = ring h ls" by (intro ring_frame) (auto simp: h'(3))
  then show ?thesis using assms(1,3) h' nl by (auto simp: list_of_def spare_def changes_def)
qed

lemma alloc_fails:
  "list_of h list ls \<Longrightarrow> alloc_link h d = (0, h') \<Longrightarrow> list_of h' list ls \<and> link_at h' = link_at h \<and> changes [] h h'"
  using ring_frame[of ls h' h] by (auto simp: alloc_link_def list_of_def changes_def split: prod.splits if_splits)


text \<open>
  The outcome of an operation on the list with links \<open>ls\<close>: a list that holds the sequence
  \<open>xs\<close>, made of old links of this list and of new ones.
\<close>

definition outcome :: "list_store \<Rightarrow> link list \<Rightarrow> list_store \<Rightarrow> link \<Rightarrow> nat list \<Rightarrow> bool" where
  "outcome h ls h' list' xs \<longleftrightarrow> changes ls h h' \<and>
     (\<exists>ls'. list_of h' list' ls' \<and> map (data_of h') ls' = xs \<and> (\<forall>l \<in> set ls'. l \<in> set ls \<or> fresh_link h \<le> l))"

lemma only_changes: "only_links (insert l (set ls)) h h' \<Longrightarrow> fresh_link h0 \<le> l \<Longrightarrow> changes [] h0 h \<Longrightarrow> changes ls h0 h'"
  by (auto simp: only_links_def changes_def)

lemma only_changes': "only_links (set ls) h h' \<Longrightarrow> changes ls h h'"
  by (auto simp: only_links_def changes_def)

lemma link_first_refines:
  assumes "list_of h list ls" "spare h l ls" "link_before h list list l = (h', list')"
  shows "list_of h' list' (l # ls) \<and> only_links (insert l (set ls)) h h'"
proof (cases ls)
  case Nil
  then show ?thesis using assms link_before_empty[of h l 0 h' list'] by (auto simp: list_of_def)
next
  case (Cons b bs)
  then show ?thesis using assms link_before_refines[of h list "[]" b bs l h' list'] by (auto dest: list_of_first)
qed

lemma cycle_list:
  assumes "list_of h l (l # ls)"
  shows "list_of h (next_of h l) (ls @ [l])"
proof (cases ls)
  case (Cons b bs)
  have "ring h (l # ls)" using assms by (auto simp: list_of_def)
  then have "ring h (ls @ [l])" "next_of h l = b" using ring_rotate[of ls h l "[]"] Cons by (auto simp: ring_Cons)
  then show ?thesis using assms Cons by (auto simp: list_of_def)
qed (use assms in \<open>auto simp: list_of_def ring_def\<close>)

lemma prepend_link_refines:
  assumes "list_of h list ls" "spare h l ls"
  shows "\<exists>h' list'. dbus_list_prepend_link h list l = (h', list') \<and> list_of h' list' (l # ls) \<and> only_links (insert l (set ls)) h h'"
  using link_first_refines[OF assms] by (cases "link_before h list list l") (auto simp: dbus_list_prepend_link_def)

lemma append_link_refines:
  assumes "list_of h list ls" "spare h l ls"
  shows "\<exists>h' list'. dbus_list_append_link h list l = (h', list') \<and> list_of h' list' (ls @ [l]) \<and> only_links (insert l (set ls)) h h'"
proof -
  obtain h' list' where r: "dbus_list_prepend_link h list l = (h', list')" "list_of h' list' (l # ls)" "only_links (insert l (set ls)) h h'"
    using prepend_link_refines[OF assms] by blast
  then have "list' = l" by (auto dest: list_of_first)
  then show ?thesis using r cycle_list[of h' l ls] by (simp add: dbus_list_append_link_def)
qed

lemma new_outcome:
  assumes a: "alloc_link h d = (l, h1)" "l \<noteq> 0" and lo: "list_of h list (as @ bs)"
    and r: "list_of h' list' (as @ l # bs)" "only_links (insert l (set (as @ bs))) h1 h'"
  shows "outcome h (as @ bs) h' list' (map (data_of h) as @ d # map (data_of h) bs)"
proof -
  note s = alloc_spare[OF lo a]
  have "changes (as @ bs) h h'" using only_changes[OF r(2)] s by blast
  moreover have "data_of h' x = data_of h1 x" for x using r(2) by (simp add: only_links_def)
  then have "map (data_of h') (as @ l # bs) = map (data_of h) as @ d # map (data_of h) bs"
    using s by auto
  ultimately show ?thesis using r(1) s unfolding outcome_def by (intro conjI exI[of _ "as @ l # bs"]) auto
qed

lemma failed_outcome:
  assumes "list_of h list ls" "alloc_link h d = (0, h')"
  shows "outcome h ls h' list (map (data_of h) ls)"
  using alloc_fails[OF assms] unfolding outcome_def changes_def by (intro conjI exI[of _ ls]) auto

lemma prepend_refines:
  assumes lo: "list_of h list ls" and r: "dbus_list_prepend h list d = (ok, h', list')"
  shows "outcome h ls h' list' (if ok then d # map (data_of h) ls else map (data_of h) ls)"
proof (cases "alloc_link h d")
  case (Pair l h1)
  show ?thesis
  proof (cases "l = 0")
    case True
    then show ?thesis using failed_outcome[OF lo] Pair r by (simp add: dbus_list_prepend_def)
  next
    case False
    then have "ok" "link_before h1 list list l = (h', list')" using r Pair by (simp_all add: dbus_list_prepend_def)
    then show ?thesis using link_first_refines[of h1 list ls l h' list'] alloc_spare[OF lo Pair False]
        new_outcome[OF Pair False, of list "[]" ls h' list'] lo by simp
  qed
qed

lemma append_refines:
  assumes lo: "list_of h list ls" and r: "dbus_list_append h list d = (ok, h', list')"
  shows "outcome h ls h' list' (if ok then map (data_of h) ls @ [d] else map (data_of h) ls)"
proof (cases "alloc_link h d")
  case (Pair l h1)
  show ?thesis
  proof (cases "l = 0")
    case True
    then show ?thesis using failed_outcome[OF lo] Pair r by (simp add: dbus_list_append_def dbus_list_prepend_def)
  next
    case False
    obtain list1 where b: "link_before h1 list list l = (h', list1)" and ok: "ok" "list' = next_of h' list1"
      using r Pair False by (auto simp: dbus_list_append_def dbus_list_prepend_def split: prod.splits)
    have f: "list_of h' list1 (l # ls)" "only_links (insert l (set ls)) h1 h'"
      using link_first_refines[OF _ _ b] alloc_spare[OF lo Pair False] by blast+
    then have "list_of h' list' (ls @ [l])" using cycle_list[of h' l ls] ok by (auto dest: list_of_first)
    then show ?thesis using new_outcome[OF Pair False, of list ls "[]" h' list'] lo f ok by simp
  qed
qed

lemma insert_after_refines:
  assumes lo: "list_of h list (as @ a # bs)" and r: "dbus_list_insert_after h list a d = (ok, h', list')"
  shows "outcome h (as @ a # bs) h' list'
    (map (data_of h) (as @ [a]) @ (if ok then [d] else []) @ map (data_of h) bs)"
proof (cases "alloc_link h d")
  case (Pair l h1)
  have a0: "a \<noteq> 0" using lo by (auto simp: list_of_def)
  show ?thesis
  proof (cases "l = 0")
    case True
    then show ?thesis using failed_outcome[OF lo] Pair r a0 by (simp add: dbus_list_insert_after_def)
  next
    case False
    then have "ok" "link_after h1 list a l = (h', list')" using r Pair a0 by (simp_all add: dbus_list_insert_after_def)
    then show ?thesis using link_after_refines[of h1 list as a bs l h' list'] alloc_spare[OF lo Pair False]
        new_outcome[OF Pair False, of list "as @ [a]" bs h' list'] lo by simp
  qed
qed

lemma remove_link_refines:
  assumes lo: "list_of h list (as @ l # bs)" and r: "dbus_list_remove_link h list l = (h', list')"
  shows "list_of h' list' (as @ bs) \<and> changes (as @ l # bs) h h' \<and> (\<forall>x. data_of h' x = data_of h x) \<and>
    outcome h (as @ l # bs) h' list' (map (data_of h) (as @ bs)) \<and> \<not> in_use h' l"
proof -
  obtain h1 where u: "dbus_list_unlink h list l = (h1, list')" "h' = free_link h1 l"
    using r by (auto simp: dbus_list_remove_link_def split: prod.splits)
  note f = unlink_refines[OF lo u(1)]
  have "ring h' (as @ bs) = ring h1 (as @ bs)" by (rule ring_frame) (simp add: u(2) free_link_def)
  moreover have "l \<notin> set (as @ bs)" using lo by (auto simp: list_of_def)
  ultimately have lo': "list_of h' list' (as @ bs)" using f by (auto simp: u(2) free_link_def list_of_def)
  moreover have ch: "changes (as @ l # bs) h h'" "\<forall>x. data_of h' x = data_of h x" "\<not> in_use h' l"
    using f by (auto simp: u(2) free_link_def changes_def only_links_def)
  ultimately show ?thesis unfolding outcome_def by auto
qed


lemma remove_first_split:
  "\<exists>x \<in> set ls. P x \<Longrightarrow> \<exists>as x bs. ls = as @ x # bs \<and> P x \<and> (\<forall>y \<in> set as. \<not> P y)"
  using split_list_first_prop[of ls P] by blast

lemma pops_refine:
  assumes "list_of h list (l # ls)"
  shows "\<exists>h' list'. dbus_list_pop_first h list = (data_of h l, h', list') \<and> outcome h (l # ls) h' list' (map (data_of h) ls)"
    and "\<exists>h' list'. dbus_list_pop_last h list = (data_of h (last (l # ls)), h', list') \<and>
      outcome h (l # ls) h' list' (map (data_of h) (butlast (l # ls)))"
proof -
  have f: "list = l" "l \<noteq> 0" using assms by (auto simp: list_of_def)
  obtain h1 l1 where r: "dbus_list_remove_link h list l = (h1, l1)" by (cases "dbus_list_remove_link h list l")
  show "\<exists>h' list'. dbus_list_pop_first h list = (data_of h l, h', list') \<and> outcome h (l # ls) h' list' (map (data_of h) ls)"
    using remove_link_refines[of h list "[]" l ls h1 l1] assms r f by (simp add: dbus_list_pop_first_def)
  let ?b = "butlast (l # ls)" and ?e = "last (l # ls)"
  have e: "l # ls = ?b @ [?e]" by simp
  have "ring h (l # ls)" "0 \<notin> set (l # ls)" using assms unfolding list_of_def by blast+
  then have p: "dbus_list_get_last_link h list = ?e" "?e \<noteq> 0"
    using f last_in_set[of "l # ls"] unfolding ring_Cons[of h l ls] dbus_list_get_last_link_def by (simp, metis list.distinct(1))
  obtain h2 l2 where r2: "dbus_list_remove_link h list ?e = (h2, l2)" by (cases "dbus_list_remove_link h list ?e")
  have "outcome h (l # ls) h2 l2 (map (data_of h) ?b)"
    using remove_link_refines[of h list ?b ?e "[]" h2 l2] assms r2 e by simp
  then show "\<exists>h' list'. dbus_list_pop_last h list = (data_of h ?e, h', list') \<and> outcome h (l # ls) h' list' (map (data_of h) ?b)"
    using p r2 by (simp add: dbus_list_pop_last_def)
qed

lemma remove_refines:
  assumes lo: "list_of h list ls"
  shows "\<exists>h' list'. dbus_list_remove h list d = Some (d \<in> data_of h ` set ls, h', list') \<and>
    outcome h ls h' list' (remove1 d (map (data_of h) ls))"
proof -
  have f: "find_first_loop h list d list = Some (case dropWhile (\<lambda>l. data_of h l \<noteq> d) ls of [] \<Rightarrow> 0 | x # _ \<Rightarrow> x)"
    using find_first[of h list "[]" ls d] lo by (auto simp: list_of_def)
  show ?thesis
  proof (cases "d \<in> data_of h ` set ls")
    case True
    then obtain as x bs where s: "ls = as @ x # bs" "data_of h x = d" "\<forall>y \<in> set as. data_of h y \<noteq> d"
      using remove_first_split[of ls "\<lambda>x. data_of h x = d"] by auto
    then have "dropWhile (\<lambda>l. data_of h l \<noteq> d) ls = x # bs"
      using dropWhile_append2[of as "\<lambda>l. data_of h l \<noteq> d" "x # bs"] by simp
    moreover have "x \<noteq> 0" using lo s(1) by (auto simp: list_of_def)
    moreover obtain h' list' where r: "dbus_list_remove_link h list x = (h', list')" by fastforce
    moreover have "remove1 d (map (data_of h) ls) = map (data_of h) (as @ bs)"
      using s by (auto simp: remove1_append)
    ultimately show ?thesis using remove_link_refines[OF _ r] lo f True s(1) by (simp add: dbus_list_remove_def)
  next
    case False
    then have none: "dropWhile (\<lambda>l. data_of h l \<noteq> d) ls = []" by auto
    moreover have "remove1 d (map (data_of h) ls) = map (data_of h) ls" using False by (simp add: remove1_idem)
    moreover have "outcome h ls h list (map (data_of h) ls)" using lo unfolding outcome_def changes_def by auto
    ultimately show ?thesis using False by (simp add: dbus_list_remove_def f none)
  qed
qed

lemma remove_last_refines:
  assumes lo: "list_of h list ls"
  shows "\<exists>h' list'. dbus_list_remove_last h list d = Some (d \<in> data_of h ` set ls, h', list') \<and>
    outcome h ls h' list' (remove_last d (map (data_of h) ls))"
proof -
  have f: "dbus_list_find_last h list d = Some (case dropWhile (\<lambda>l. data_of h l \<noteq> d) (rev ls) of [] \<Rightarrow> 0 | x # _ \<Rightarrow> x)"
    using find_last[of h list ls "[]" d] last_link[OF lo] lo by (simp add: dbus_list_find_last_def)
  show ?thesis
  proof (cases "d \<in> data_of h ` set ls")
    case True
    then obtain as x bs where s: "ls = as @ x # bs" "data_of h x = d" "\<forall>y \<in> set bs. data_of h y \<noteq> d"
      using split_list_last_prop[of ls "\<lambda>x. data_of h x = d"] by auto
    then have "dropWhile (\<lambda>l. data_of h l \<noteq> d) (rev ls) = x # rev as"
      using dropWhile_append2[of "rev bs" "\<lambda>l. data_of h l \<noteq> d" "x # rev as"] by simp
    moreover have "x \<noteq> 0" using lo s(1) by (auto simp: list_of_def)
    moreover obtain h' list' where r: "dbus_list_remove_link h list x = (h', list')" by fastforce
    moreover have "remove_last d (map (data_of h) ls) = map (data_of h) (as @ bs)"
    proof -
      have "d \<notin> set (map (data_of h) bs)" using s(3) by auto
      from remove_last_split[OF this, of "map (data_of h) as"] show ?thesis using s(1,2) by simp
    qed
    ultimately show ?thesis using remove_link_refines[OF _ r] lo f True s(1) by (simp add: dbus_list_remove_last_def)
  next
    case False
    then have none: "dropWhile (\<lambda>l. data_of h l \<noteq> d) (rev ls) = []" by auto
    moreover have "remove_last d (map (data_of h) ls) = map (data_of h) ls" using False by (simp add: remove_last_absent)
    moreover have "outcome h ls h list (map (data_of h) ls)" using lo unfolding outcome_def changes_def by auto
    ultimately show ?thesis using False by (simp add: dbus_list_remove_last_def f none)
  qed
qed

lemma free_links:
  "link_at (fold (\<lambda>l h. free_link h l) ls h) = link_at h"
  "fresh_link (fold (\<lambda>l h. free_link h l) ls h) = fresh_link h"
  "list_mem (fold (\<lambda>l h. free_link h l) ls h) = list_mem h"
  "in_use (fold (\<lambda>l h. free_link h l) ls h) x = (in_use h x \<and> x \<notin> set ls)"
  by (induction ls arbitrary: h) (auto simp: free_link_def)

lemma clear_frees:
  "list_of h0 list (as @ bs) \<Longrightarrow> link_at h = link_at h0 \<Longrightarrow>
   clear_loop h list (if bs = [] then 0 else hd bs) = Some (fold (\<lambda>l h. free_link h l) bs h)"
proof (induction bs arbitrary: as h)
  case (Cons x bs)
  have "x \<noteq> 0" using Cons.prems by (auto simp: list_of_def)
  moreover have "dbus_list_get_next_link h list x = dbus_list_get_next_link h0 list x"
    using Cons.prems(2) by (simp add: dbus_list_get_next_link_def)
  moreover have "link_at (free_link h x) = link_at h0" using Cons.prems(2) by (simp add: free_link_def)
  ultimately show ?case using Cons.IH[of "as @ [x]" "free_link h x"] Cons.prems next_link[OF Cons.prems(1)]
    by (simp add: clear_loop.simps[of h list x] Let_def)
qed (simp add: clear_loop.simps)

lemma clear_refines:
  assumes "list_of h list ls"
  shows "dbus_list_clear h list = Some (fold (\<lambda>l h. free_link h l) ls h, 0)"
  using clear_frees[of h list "[]" ls h] assms by (auto simp: dbus_list_clear_def list_of_def)

text \<open>Copying: the state of the loop, with the part copied so far in links of its own.\<close>

lemma copy_refines:
  "list_of h list (as @ bs) \<Longrightarrow> list_of h dest ds \<Longrightarrow> (\<forall>l \<in> set ds. k \<le> l) \<Longrightarrow> (\<forall>l \<in> set (as @ bs). l < k) \<Longrightarrow>
   k \<le> fresh_link h \<Longrightarrow>
   \<exists>ok h' dest'. copy_loop h list dest (if bs = [] then 0 else hd bs) = Some (ok, h', dest') \<and>
     list_of h' list (as @ bs) \<and> (\<forall>l < k. link_at h' l = link_at h l \<and> in_use h' l = in_use h l) \<and>
     (if ok then \<exists>ds'. list_of h' dest' ds' \<and> map (data_of h') ds' = map (data_of h) (ds @ bs) \<and> (\<forall>l \<in> set ds'. k \<le> l)
      else dest' = 0)"
proof (induction bs arbitrary: as h dest ds)
  case Nil
  then show ?case by (auto simp: copy_loop.simps[of h list dest 0])
next
  case (Cons x bs)
  have x: "x \<noteq> 0" "x < k" using Cons.prems by (auto simp: list_of_def)
  obtain ok h1 dest1 where r: "dbus_list_append h dest (data_of h x) = (ok, h1, dest1)" by (cases "dbus_list_append h dest (data_of h x)")
  note ap = append_refines[OF Cons.prems(2) r, unfolded outcome_def]
  have keep: "\<forall>l < k. link_at h1 l = link_at h l \<and> in_use h1 l = in_use h l"
  proof (intro allI impI)
    fix l assume "l < k"
    then have "l \<notin> set ds" "l < fresh_link h" using Cons.prems(3,5) by (auto dest: bspec)
    then show "link_at h1 l = link_at h l \<and> in_use h1 l = in_use h l"
      using conjunct1[OF ap] by (simp add: changes_def)
  qed
  have lo1: "list_of h1 list (as @ x # bs)"
  proof -
    have "set (as @ x # bs) \<inter> set ds = {}" using Cons.prems(3,4) by (meson disjoint_iff not_le)
    then show ?thesis using changes_other[OF conjunct1[OF ap] Cons.prems(1)] by blast
  qed
  have nx: "dbus_list_get_next_link h1 list x = (if bs = [] then 0 else hd bs)" using next_link[OF lo1] .
  obtain ds1 where ds1: "list_of h1 dest1 ds1" "map (data_of h1) ds1 = (if ok then map (data_of h) ds @ [data_of h x] else map (data_of h) ds)"
    "\<forall>l \<in> set ds1. l \<in> set ds \<or> fresh_link h \<le> l"
    using ap by blast
  then have k1: "\<forall>l \<in> set ds1. k \<le> l" using Cons.prems(3,5) by fastforce
  show ?case
  proof (cases ok)
    case True
    have "k \<le> fresh_link h1" using ap Cons.prems(5) by (simp add: changes_def)
    from Cons.IH[of h1 "as @ [x]" dest1 ds1, OF _ ds1(1) k1 _ this] lo1 Cons.prems(4)
    obtain ok' h' dest' where IH: "copy_loop h1 list dest1 (if bs = [] then 0 else hd bs) = Some (ok', h', dest')"
      "list_of h' list (as @ x # bs)" "\<forall>l < k. link_at h' l = link_at h1 l \<and> in_use h' l = in_use h1 l"
      "if ok' then \<exists>ds'. list_of h' dest' ds' \<and> map (data_of h') ds' = map (data_of h1) (ds1 @ bs) \<and> (\<forall>l \<in> set ds'. k \<le> l)
       else dest' = 0" by auto
    have mb: "map (data_of h1) bs = map (data_of h) bs" using keep Cons.prems(4) by auto
    have d1: "map (data_of h1) ds1 = map (data_of h) ds @ [data_of h x]" using ds1(2) True by simp
    have IH4: "if ok' then \<exists>ds'. list_of h' dest' ds' \<and> map (data_of h') ds' = map (data_of h) (ds @ x # bs) \<and> (\<forall>l \<in> set ds'. k \<le> l)
       else dest' = 0"
      using IH(4) unfolding map_append mb d1 by (cases ok') simp_all
    moreover have "copy_loop h list dest x = Some (ok', h', dest')"
      using IH(1) True r x nx by (simp add: copy_loop.simps[of h list dest x])
    ultimately show ?thesis using IH(2,3) IH4 keep by auto
  next
    case False
    obtain h' where h': "dbus_list_clear h1 dest1 = Some (h', 0)" "link_at h' = link_at h1" "fresh_link h' = fresh_link h1"
      "\<And>l. in_use h' l = (in_use h1 l \<and> l \<notin> set ds1)"
      using clear_refines[OF ds1(1)] free_links by auto
    have "copy_loop h list dest x = Some (False, h', 0)"
      using h'(1) False r x by (simp add: copy_loop.simps[of h list dest x])
    moreover have "\<forall>l < k. link_at h' l = link_at h l \<and> in_use h' l = in_use h l"
    proof (intro allI impI)
      fix l assume "l < k"
      then have "l \<notin> set ds1" using k1 by (auto dest: bspec)
      then show "link_at h' l = link_at h l \<and> in_use h' l = in_use h l" using keep \<open>l < k\<close> by (simp add: h')
    qed
    moreover have "list_of h' list (as @ x # bs)"
    proof -
      have "ring h' (as @ x # bs) = ring h1 (as @ x # bs)" by (rule ring_frame) (simp add: h')
      moreover have "\<forall>l \<in> set (as @ x # bs). l \<notin> set ds1" using k1 Cons.prems(4) by (meson not_le)
      ultimately show ?thesis using lo1 unfolding list_of_def h' by auto
    qed
    ultimately show ?thesis by (intro exI[of _ False] exI[of _ h'] exI[of _ 0]) simp
  qed
qed


section \<open>The interface the owner queues rely on\<close>

text \<open>
  A store of sequences into which a client appends and from which it takes the last occurrence of a
  value: what the cancel hooks of the registry do to undo an append.
\<close>

locale sequence_store =
  fixes rep :: "'h \<Rightarrow> 'l \<Rightarrow> nat list \<Rightarrow> bool"
    and push :: "'h \<Rightarrow> 'l \<Rightarrow> nat \<Rightarrow> bool \<times> 'h \<times> 'l"
    and take_last :: "'h \<Rightarrow> 'l \<Rightarrow> nat \<Rightarrow> (bool \<times> 'h \<times> 'l) option"
  assumes push: "rep h l xs \<Longrightarrow> push h l d = (ok, h', l') \<Longrightarrow> rep h' l' (if ok then xs @ [d] else xs)"
    and take: "rep h l xs \<Longrightarrow> \<exists>h' l'. take_last h l d = Some (d \<in> set xs, h', l') \<and> rep h' l' (remove_last d xs)"
begin

lemma undo_push:
  assumes "rep h l xs" "push h l d = (True, h', l')"
  shows "\<exists>h'' l''. take_last h' l' d = Some (True, h'', l'') \<and> rep h'' l'' xs"
  using take[OF push[OF assms], of d] by simp

text \<open>Pushing a sequence, as long as the pushes succeed.\<close>

fun push_all :: "'h \<Rightarrow> 'l \<Rightarrow> nat list \<Rightarrow> bool \<times> 'h \<times> 'l" where
  "push_all h l [] = (True, h, l)"
| "push_all h l (d # ds) = (case push h l d of (ok, h, l) \<Rightarrow> if ok then push_all h l ds else (False, h, l))"

lemma push_all_prefix:
  "rep h l xs \<Longrightarrow> push_all h l ds = (ok, h', l') \<Longrightarrow>
   \<exists>k \<le> length ds. rep h' l' (xs @ take k ds) \<and> (ok \<longrightarrow> k = length ds)"
proof (induction ds arbitrary: h l xs)
  case (Cons d ds)
  obtain ok1 h1 l1 where p: "push h l d = (ok1, h1, l1)" by (cases "push h l d")
  note r = push[OF Cons.prems(1) p]
  show ?case
  proof (cases ok1)
    case True
    then obtain k where "k \<le> length ds" "rep h' l' ((xs @ [d]) @ take k ds)" "ok \<longrightarrow> k = length ds"
      using Cons.IH[of h1 l1 "xs @ [d]"] Cons.prems(2) p r by auto
    then show ?thesis by (intro exI[of _ "Suc k"]) simp
  next
    case False
    then show ?thesis using Cons.prems(2) p r by (intro exI[of _ 0]) simp
  qed
qed (auto intro: exI[of _ 0])

end

definition holds_seq :: "list_store \<Rightarrow> link \<Rightarrow> nat list \<Rightarrow> bool" where
  "holds_seq h list xs \<longleftrightarrow> (\<exists>ls. list_of h list ls \<and> map (data_of h) ls = xs)"

lemma outcome_seq: "outcome h ls h' list' xs \<Longrightarrow> holds_seq h' list' xs"
  by (auto simp: outcome_def holds_seq_def)

interpretation dbus_list: sequence_store holds_seq dbus_list_append dbus_list_remove_last
proof
  fix h list xs d ok h' list'
  assume "holds_seq h list xs" "dbus_list_append h list d = (ok, h', list')"
  then show "holds_seq h' list' (if ok then xs @ [d] else xs)"
    unfolding holds_seq_def[of h list xs] using append_refines outcome_seq by blast
next
  fix h list xs d
  assume "holds_seq h list xs"
  then obtain ls where ls: "list_of h list ls" "xs = map (data_of h) ls" by (auto simp: holds_seq_def)
  then show "\<exists>h' l'. dbus_list_remove_last h list d = Some (d \<in> set xs, h', l') \<and> holds_seq h' l' (remove_last d xs)"
    using remove_last_refines[OF ls(1), of d] outcome_seq by fastforce
qed

section \<open>Properties\<close>

definition empty_store :: list_store where
  "empty_store = \<lparr>link_at = \<lambda>_. \<lparr>prev = 0, next = 0, data = 0\<rparr>, in_use = \<lambda>_. False, fresh_link = 1, list_mem = []\<rparr>"

lemma empty_list_of: "list_of empty_store 0 []"
  by (simp add: list_of_def empty_store_def)

definition two_store :: list_store where
  "two_store = \<lparr>link_at = (\<lambda>_. \<lparr>prev = 0, next = 0, data = 0\<rparr>)(2 := \<lparr>prev = 3, next = 3, data = 7\<rparr>,
     3 := \<lparr>prev = 2, next = 2, data = 8\<rparr>), in_use = \<lambda>l. l \<in> {2, 3}, fresh_link = 4, list_mem = []\<rparr>"

lemma two_list_of: "list_of two_store 2 [2, 3]"
  by (simp add: list_of_def two_store_def ring_def)



text \<open>
  Unlinking a link takes exactly its datum out of the sequence, clears the link's own pointers and
  leaves the other lists as they are; removing the first or last occurrence of a datum returns whether
  it was there, and always returns.
\<close>

theorem removals_refine:
  assumes "list_of h list (as @ l # bs)" "list_of h other os" "set os \<inter> set (as @ l # bs) = {}"
  shows "(case dbus_list_unlink h list l of (h', list') \<Rightarrow>
      holds_seq h' list' (map (data_of h) (as @ bs)) \<and> next_of h' l = 0 \<and> prev_of h' l = 0 \<and>
      holds_seq h' other (map (data_of h) os)) \<and>
    (\<exists>h' list'. dbus_list_remove h list d = Some (d \<in> data_of h ` set (as @ l # bs), h', list') \<and>
      holds_seq h' list' (remove1 d (map (data_of h) (as @ l # bs))) \<and> holds_seq h' other (map (data_of h) os)) \<and>
    (\<exists>h' list'. dbus_list_remove_last h list d = Some (d \<in> data_of h ` set (as @ l # bs), h', list') \<and>
      holds_seq h' list' (remove_last d (map (data_of h) (as @ l # bs))) \<and> holds_seq h' other (map (data_of h) os))"
proof (intro conjI)
  have keep: "outcome h (as @ l # bs) h' list' xs \<Longrightarrow> holds_seq h' list' xs \<and> holds_seq h' other (map (data_of h) os)"
    for h' list' xs
    using changes_other[OF _ assms(2,3)] outcome_seq unfolding outcome_def holds_seq_def by blast
  obtain h1 l1 where u: "dbus_list_unlink h list l = (h1, l1)" by (cases "dbus_list_unlink h list l")
  note f = unlink_refines[OF assms(1) u]
  have "holds_seq h1 l1 (map (data_of h) (as @ bs))"
    using f unfolding holds_seq_def by (intro exI[of _ "as @ bs"]) (simp add: only_links_def)
  moreover have "holds_seq h1 other (map (data_of h) os)"
    using changes_other[OF only_changes'[of "as @ l # bs" h h1] assms(2,3)] f unfolding holds_seq_def by blast
  ultimately show "case dbus_list_unlink h list l of (h', list') \<Rightarrow>
      holds_seq h' list' (map (data_of h) (as @ bs)) \<and> next_of h' l = 0 \<and> prev_of h' l = 0 \<and>
      holds_seq h' other (map (data_of h) os)" using f u by simp
  show "\<exists>h' list'. dbus_list_remove h list d = Some (d \<in> data_of h ` set (as @ l # bs), h', list') \<and>
      holds_seq h' list' (remove1 d (map (data_of h) (as @ l # bs))) \<and> holds_seq h' other (map (data_of h) os)"
    using remove_refines[OF assms(1), of d] keep by blast
  show "\<exists>h' list'. dbus_list_remove_last h list d = Some (d \<in> data_of h ` set (as @ l # bs), h', list') \<and>
      holds_seq h' list' (remove_last d (map (data_of h) (as @ l # bs))) \<and> holds_seq h' other (map (data_of h) os)"
    using remove_last_refines[OF assms(1), of d] keep by blast
qed

theorem removals_refine_witness:
  "\<exists>h' list'. dbus_list_remove_last two_store 2 8 = Some (True, h', list') \<and> holds_seq h' list' [7]"
  using removals_refine[of two_store 2 "[]" 2 "[3]" 0 "[]" 8] two_list_of empty_list_of
  by (auto simp: list_of_def two_store_def remove_last_def)

text \<open>
  C39. The walks over a list end: the length is that of the sequence, foreach applies its function to
  the data in order, clearing frees exactly the links of the list, and a copy that finds the memory it
  needs holds the same sequence in links of its own, while the original stays.
\<close>

theorem walks_refine:
  assumes "list_of h list ls"
  shows "dbus_list_get_length h list = Some (length ls) \<and>
    dbus_list_foreach h list f s = Some (fold f (map (data_of h) ls) s) \<and>
    (\<exists>h'. dbus_list_clear h list = Some (h', 0) \<and> (\<forall>l. in_use h' l = (in_use h l \<and> l \<notin> set ls))) \<and>
    (\<exists>ok h' dest. dbus_list_copy h list = Some (ok, h', dest) \<and> list_of h' list ls \<and>
       (if ok then \<exists>ds. list_of h' dest ds \<and> map (data_of h') ds = map (data_of h) ls \<and> set ds \<inter> set ls = {}
        else dest = 0))"
proof (intro conjI)
  have l: "list = (if ls = [] then 0 else hd ls)" using assms by (simp add: list_of_def)
  show "dbus_list_get_length h list = Some (length ls)"
    using length_counts[of h list "[]" ls 0] assms l by (simp add: dbus_list_get_length_def)
  show "dbus_list_foreach h list f s = Some (fold f (map (data_of h) ls) s)"
    using foreach_folds[of h list "[]" ls f s] assms l by (simp add: dbus_list_foreach_def)
  show "\<exists>h'. dbus_list_clear h list = Some (h', 0) \<and> (\<forall>l. in_use h' l = (in_use h l \<and> l \<notin> set ls))"
    using clear_refines[OF assms] free_links(4) by blast
  have "\<forall>l \<in> set ls. l < fresh_link h" "0 < fresh_link h" using assms by (auto simp: list_of_def)
  then obtain ok h' dest where c: "copy_loop h list 0 list = Some (ok, h', dest)" "list_of h' list ls"
    "if ok then \<exists>ds'. list_of h' dest ds' \<and> map (data_of h') ds' = map (data_of h) ([] @ ls) \<and> (\<forall>l \<in> set ds'. fresh_link h \<le> l)
      else dest = 0"
    using copy_refines[of h list "[]" ls 0 "[]" "fresh_link h"] assms l by (auto simp: list_of_def)
  have "ok \<Longrightarrow> \<exists>ds. list_of h' dest ds \<and> map (data_of h') ds = map (data_of h) ls \<and> set ds \<inter> set ls = {}"
    using c(3) \<open>\<forall>l \<in> set ls. l < fresh_link h\<close> by (fastforce simp: disjoint_iff)
  then show "\<exists>ok h' dest. dbus_list_copy h list = Some (ok, h', dest) \<and> list_of h' list ls \<and>
       (if ok then \<exists>ds. list_of h' dest ds \<and> map (data_of h') ds = map (data_of h) ls \<and> set ds \<inter> set ls = {}
        else dest = 0)"
    using c by (intro exI[of _ ok] exI[of _ h'] exI[of _ dest]) (auto simp: dbus_list_copy_def)
qed

theorem walks_refine_witness:
  "dbus_list_get_length two_store 2 = Some 2 \<and> dbus_list_foreach two_store 2 (\<lambda>d s. s + d) 0 = Some 15"
  using walks_refine[OF two_list_of, of "\<lambda>d s. s + d" 0] by (simp add: two_store_def)

text \<open>
  What the registry's rollback needs of its queues: removing the last occurrence of a datum just
  appended succeeds and gives the sequence back.
\<close>

theorem append_then_remove_last:
  assumes "holds_seq h list xs" "dbus_list_append h list d = (True, h', list')"
  shows "\<exists>h'' list''. dbus_list_remove_last h' list' d = Some (True, h'', list'') \<and> holds_seq h'' list'' xs"
  using assms by (rule dbus_list.undo_push)

theorem append_then_remove_last_witness:
  "\<exists>h'' list''. dbus_list_remove_last (fst (snd (dbus_list_append empty_store 0 5)))
     (snd (snd (dbus_list_append empty_store 0 5))) 5 = Some (True, h'', list'') \<and> holds_seq h'' list'' []"
proof -
  have "holds_seq empty_store 0 []" using empty_list_of by (auto simp: holds_seq_def)
  moreover have "fst (dbus_list_append empty_store 0 5)"
    by (simp add: dbus_list_append_def dbus_list_prepend_def alloc_link_def empty_store_def link_before_def)
  ultimately show ?thesis
    using append_then_remove_last[of empty_store 0 "[]" 5] by (cases "dbus_list_append empty_store 0 5") auto
qed

end
