(* ===== verification/DString.thy ===== *)
theory DString
  imports Prelude
begin

text \<open>
  The operations of \<open>dbus/dbus-string.c\<close> that the authentication protocol and the addresses
  are built on: searching, blanks, hexadecimal coding and the UTF-8 validator. A \<open>DBusString\<close>
  is its bytes. Positions handed to an operation are within the string, as the callers ensure; the
  one assertion that depends on the contents, in \<open>_dbus_string_skip_blank\<close>, is kept: None is a
  failed assertion.
\<close>

unbundle bit_operations_syntax

section \<open>Searching\<close>

text \<open>\<open>_dbus_string_find_to\<close>: the inner loop compares and returns its last \<open>j\<close>.\<close>

function find_compare :: "byte list \<Rightarrow> nat \<Rightarrow> byte list \<Rightarrow> nat \<Rightarrow> nat \<Rightarrow> nat" where
  "find_compare str end substr i j =
     (if j < end then
        (if str_byte substr (j - i) = 0 then j
         else if str_byte str j \<noteq> str_byte substr (j - i) then j
         else find_compare str end substr i (j + 1))
      else j)"
  by pat_completeness auto
termination by (relation "measure (\<lambda>(_, e, _, _, j). e - j)") simp_all

declare find_compare.simps [simp del]

function find_to_loop :: "byte list \<Rightarrow> nat \<Rightarrow> byte list \<Rightarrow> nat \<Rightarrow> bool \<times> nat" where
  "find_to_loop str end substr i =
     (if i < end then
        (if str_byte str i = str_byte substr 0 \<and>
            str_byte substr (find_compare str end substr i (i + 1) - i) = 0
         then (True, i)
         else find_to_loop str end substr (i + 1))
      else (False, end))"
  by pat_completeness auto
termination by (relation "measure (\<lambda>(_, e, _, i). e - i)") simp_all

declare find_to_loop.simps [simp del]

definition dbus_string_find_to :: "byte list \<Rightarrow> nat \<Rightarrow> nat \<Rightarrow> byte list \<Rightarrow> bool \<times> nat" where
  "dbus_string_find_to str start end substr =
     (if str_byte substr 0 = 0 then (True, start) else find_to_loop str end substr start)"

definition dbus_string_find :: "byte list \<Rightarrow> nat \<Rightarrow> byte list \<Rightarrow> bool \<times> nat" where
  "dbus_string_find str start substr = dbus_string_find_to str start (length str) substr"

definition IS_ASCII_BLANK :: "byte \<Rightarrow> bool" where
  "IS_ASCII_BLANK c \<longleftrightarrow> c = 0x20 \<or> c = 0x09"

definition IS_ASCII_WHITE :: "byte \<Rightarrow> bool" where
  "IS_ASCII_WHITE c \<longleftrightarrow> c = 0x20 \<or> c = 0x09 \<or> c = 0x0a \<or> c = 0x0d"

text \<open>The scans from \<open>start\<close>; the lists are the bytes from the position on.\<close>

fun find_blank_loop :: "byte list \<Rightarrow> nat \<Rightarrow> bool \<times> nat" where
  "find_blank_loop [] i = (False, i)"
| "find_blank_loop (c # cs) i = (if IS_ASCII_BLANK c then (True, i) else find_blank_loop cs (i + 1))"

definition dbus_string_find_blank :: "byte list \<Rightarrow> nat \<Rightarrow> bool \<times> nat" where
  "dbus_string_find_blank str start = find_blank_loop (drop start str) start"

fun skip_blank_loop :: "byte list \<Rightarrow> nat \<Rightarrow> nat" where
  "skip_blank_loop [] i = i"
| "skip_blank_loop (c # cs) i = (if \<not> IS_ASCII_BLANK c then i else skip_blank_loop cs (i + 1))"

definition dbus_string_skip_blank :: "byte list \<Rightarrow> nat \<Rightarrow> nat option" where
  "dbus_string_skip_blank str start =
     (let i = skip_blank_loop (drop start str) start
      in if i = length str \<or> \<not> IS_ASCII_WHITE (str ! i) then Some i else None)"

definition ISASCII :: "byte \<Rightarrow> bool" where
  "ISASCII c \<longleftrightarrow> c \<noteq> 0 \<and> c AND NOT 0x7f = 0"

definition dbus_string_validate_ascii :: "byte list \<Rightarrow> bool" where
  "dbus_string_validate_ascii str \<longleftrightarrow> list_all ISASCII str"

section \<open>Hexadecimal coding\<close>

definition hexdigits :: "byte list" where
  "hexdigits = ascii ''0123456789abcdef''"

definition byte_as_hex :: "byte \<Rightarrow> byte list" where
  "byte_as_hex b = [hexdigits ! unat (drop_bit 4 b), hexdigits ! unat (b AND 0x0f)]"

definition dbus_string_hex_encode :: "byte list \<Rightarrow> byte list" where
  "dbus_string_hex_encode source = concat (map byte_as_hex source)"

definition hex_value :: "byte \<Rightarrow> byte option" where
  "hex_value c =
     (if 0x30 \<le> c \<and> c \<le> 0x39 then Some (c - 0x30)
      else if 0x61 \<le> c \<and> c \<le> 0x66 then Some (c - 0x61 + 10)
      else if 0x41 \<le> c \<and> c \<le> 0x46 then Some (c - 0x41 + 10)
      else None)"

text \<open>The loop of \<open>_dbus_string_hex_decode\<close>: result so far, and the position it has reached.\<close>

fun hex_decode_loop :: "byte list \<Rightarrow> nat \<Rightarrow> bool \<Rightarrow> byte list \<Rightarrow> byte list \<times> nat" where
  "hex_decode_loop [] p high_bits result = (result, p)"
| "hex_decode_loop (c # cs) p high_bits result =
     (case hex_value c of
        None \<Rightarrow> (result, p)
      | Some val \<Rightarrow>
          hex_decode_loop cs (p + 1) (\<not> high_bits)
            (if high_bits then result @ [push_bit 4 val]
             else result[length result - 1 := result ! (length result - 1) OR val]))"

definition dbus_string_hex_decode :: "byte list \<Rightarrow> byte list \<times> nat" where
  "dbus_string_hex_decode source = hex_decode_loop source 0 True []"

section \<open>UTF-8\<close>

definition UTF8_COMPUTE :: "byte \<Rightarrow> 32 word \<times> nat" where
  "UTF8_COMPUTE c =
     (if c < 128 then (0x7f, 1)
      else if c AND 0xe0 = 0xc0 then (0x1f, 2)
      else if c AND 0xf0 = 0xe0 then (0x0f, 3)
      else if c AND 0xf8 = 0xf0 then (0x07, 4)
      else if c AND 0xfc = 0xf8 then (0x03, 5)
      else if c AND 0xfe = 0xfc then (0x01, 6)
      else (0, 0))"

definition UTF8_LENGTH :: "32 word \<Rightarrow> nat" where
  "UTF8_LENGTH ch =
     (if ch < 0x80 then 1
      else if ch < 0x800 then 2
      else if ch < 0x10000 then 3
      else if ch < 0x200000 then 4
      else if ch < 0x4000000 then 5
      else 6)"

text \<open>\<open>UTF8_GET\<close> after the first byte; a bad continuation byte ends it with the value -1.\<close>

fun utf8_get_loop :: "32 word \<Rightarrow> byte list \<Rightarrow> 32 word" where
  "utf8_get_loop result [] = result"
| "utf8_get_loop result (c # cs) =
     (if c AND 0xc0 \<noteq> 0x80 then - 1
      else utf8_get_loop (push_bit 6 result OR (ucast c AND 0x3f)) cs)"

definition UTF8_GET :: "byte list \<Rightarrow> 32 word \<Rightarrow> nat \<Rightarrow> 32 word" where
  "UTF8_GET chars msk len = utf8_get_loop (ucast (hd chars) AND msk) (take (len - 1) (tl chars))"

definition UNICODE_VALID :: "32 word \<Rightarrow> bool" where
  "UNICODE_VALID ch \<longleftrightarrow>
     ch < 0x110000 \<and> ch AND 0xFFFFF800 \<noteq> 0xD800 \<and> (ch < 0xFDD0 \<or> ch > 0xFDEF) \<and> ch AND 0xFFFF \<noteq> 0xFFFF"

text \<open>The loop of \<open>_dbus_string_validate_utf8\<close> on the bytes from \<open>p\<close> to the end.\<close>

function validate_utf8_loop :: "byte list \<Rightarrow> bool" where
  "validate_utf8_loop p =
     (if p = [] then True
      else if hd p = 0 then False
      else if hd p < 128 then validate_utf8_loop (tl p)
      else case UTF8_COMPUTE (hd p) of (msk, char_len) \<Rightarrow>
        if char_len = 0 then False
        else if length p < char_len then False
        else let result = UTF8_GET p msk char_len
             in if UTF8_LENGTH result \<noteq> char_len then False
                else if \<not> UNICODE_VALID result then False
                else validate_utf8_loop (drop char_len p))"
  by pat_completeness auto
termination by (relation "measure length") auto

declare validate_utf8_loop.simps [simp del]

definition dbus_string_validate_utf8 :: "byte list \<Rightarrow> bool" where
  "dbus_string_validate_utf8 str = validate_utf8_loop str"



section \<open>Bits of a byte as arithmetic\<close>

text \<open>Masking with a run of \<open>m\<close> ones above \<open>k\<close> zeros.\<close>

lemma nat_and_slice: "(n::nat) AND ((2 ^ m - 1) * 2 ^ k) = n div 2 ^ k mod 2 ^ m * 2 ^ k"
proof -
  have "n AND push_bit k (mask m) = push_bit k (take_bit m (drop_bit k n))"
    by (auto simp: bit_eq_iff bit_simps)
  then show ?thesis by (simp add: push_bit_eq_mult take_bit_eq_mod drop_bit_eq_div mask_eq_exp_minus_1)
qed

lemmas nat_masks = nat_and_slice[of _ 3 5] nat_and_slice[of _ 4 4] nat_and_slice[of _ 5 3]
  nat_and_slice[of _ 6 2] nat_and_slice[of _ 7 1] nat_and_slice[of _ 2 6] nat_and_slice[of _ 21 11]
  nat_and_slice[of _ 16 0] nat_and_slice[of _ 4 0] nat_and_slice[of _ 5 0] nat_and_slice[of _ 3 0]
  nat_and_slice[of _ 6 0] nat_and_slice[of _ 2 0]

lemma unat_byte: "unat (c :: byte) < 256"
  using unsigned_less[of c] by simp

lemma unat_ucast_byte [simp]: "unat (ucast (c :: byte) :: 32 word) = unat c"
  using unat_byte[of c] by (simp add: unsigned_ucast_eq take_bit_nat_eq_self)

lemma byte_div: "k * m = 256 \<Longrightarrow> unat (c :: byte) div k mod m = unat c div k"
  using unat_byte[of c] by (simp add: less_mult_imp_div_less mult.commute)

text \<open>Appending digits: the low bits of a shifted word are free.\<close>

lemma unat_shift_or:
  fixes r d :: "'a :: len word"
  assumes "unat r * 2 ^ k < 2 ^ LENGTH('a)" "unat d < 2 ^ k" "k < LENGTH('a)"
  shows "unat (push_bit k r OR d) = unat r * 2 ^ k + unat d"
proof -
  have d: "take_bit k (unat d) = unat d" using assms(2) by (simp add: take_bit_nat_eq_self_iff)
  have "unat (push_bit k r OR d) = push_bit k (unat r) OR take_bit k (unat d)"
    unfolding unsigned_or_eq unsigned_push_bit_eq d
    using take_bit_nat_eq_self[OF assms(1)] by (simp add: push_bit_eq_mult)
  also have "\<dots> = push_bit k (unat r) + take_bit k (unat d)"
    by (rule disjunctive_add_eq_or[symmetric]) (auto simp: bit_eq_iff bit_simps)
  finally show ?thesis using d by (simp add: push_bit_eq_mult)
qed


section \<open>UTF-8: the validator against the encoding\<close>

text \<open>The code points the validator means to allow, and their encoding.\<close>

definition unicode_char :: "nat \<Rightarrow> bool" where
  "unicode_char n \<longleftrightarrow> 0 < n \<and> n < 0x110000 \<and> \<not> (0xD800 \<le> n \<and> n < 0xE000) \<and>
     \<not> (0xFDD0 \<le> n \<and> n \<le> 0xFDEF) \<and> n mod 0x10000 \<noteq> 0xFFFF"

definition utf8_encode :: "nat \<Rightarrow> byte list" where
  "utf8_encode n = map word_of_nat
     (if n < 0x80 then [n]
      else if n < 0x800 then [0xC0 + n div 64, 0x80 + n mod 64]
      else if n < 0x10000 then [0xE0 + n div 4096, 0x80 + n div 64 mod 64, 0x80 + n mod 64]
      else [0xF0 + n div 262144, 0x80 + n div 4096 mod 64, 0x80 + n div 64 mod 64, 0x80 + n mod 64])"

lemmas byte_arith = word_less_nat_alt word_unat_eq_iff unsigned_and_eq nat_masks[simplified]

lemma compute_arith:
  "UTF8_COMPUTE c =
     (if unat c < 128 then (0x7f, 1) else if unat c div 32 = 6 then (0x1f, 2)
      else if unat c div 16 = 14 then (0x0f, 3) else if unat c div 8 = 30 then (0x07, 4)
      else if unat c div 4 = 62 then (0x03, 5) else if unat c div 2 = 126 then (0x01, 6) else (0, 0))"
  unfolding UTF8_COMPUTE_def by (simp add: byte_arith byte_div)

definition continuation :: "byte \<Rightarrow> bool" where
  "continuation c \<longleftrightarrow> unat c div 64 = 2"

lemma continuation_iff: "c AND 0xc0 = 0x80 \<longleftrightarrow> continuation c"
  by (simp add: byte_arith byte_div continuation_def)

lemma get_loop_bad: "\<not> list_all continuation cs \<Longrightarrow> utf8_get_loop r cs = - 1"
  by (induction cs arbitrary: r) (auto simp: continuation_iff)

lemma get_loop_good:
  "list_all continuation cs \<Longrightarrow> (unat r + 1) * 64 ^ length cs \<le> 2 ^ 32 \<Longrightarrow>
   unat (utf8_get_loop r cs) = foldl (\<lambda>a c. a * 64 + unat c mod 64) (unat r) cs"
proof (induction cs arbitrary: r)
  case (Cons c cs)
  have low: "unat (ucast c AND 0x3f :: 32 word) = unat c mod 64"
    by (simp add: unsigned_and_eq nat_masks[simplified])
  have b: "(unat r + 1) * 1 \<le> (unat r + 1) * 64 ^ length cs" by (rule mult_left_mono) auto
  have "unat r * 64 < 2 ^ 32" using Cons.prems(2) b by simp
  then have s: "unat (push_bit 6 r OR (ucast c AND 0x3f)) = unat r * 64 + unat c mod 64"
    using unat_shift_or[of r 6 "ucast c AND 0x3f"] low by simp
  have "(unat r * 64 + unat c mod 64 + 1) * 64 ^ length cs \<le> ((unat r + 1) * 64) * 64 ^ length cs"
    by (rule mult_right_mono) (use mod_less_divisor[of 64 "unat c"] in auto)
  also have "\<dots> = (unat r + 1) * 64 ^ length (c # cs)" by (simp only: list.size power_Suc add_0_right add_Suc_right mult.assoc)
  also note Cons.prems(2)
  finally have "(unat (push_bit 6 r OR (ucast c AND 0x3f)) + 1) * 64 ^ length cs \<le> 2 ^ 32" unfolding s .
  then show ?case using Cons.IH Cons.prems(1) s by (simp add: continuation_iff)
qed simp

lemma unat_low_bits:
  "unat (ucast (c :: byte) AND 0x1f :: 32 word) = unat c mod 32"
  "unat (ucast (c :: byte) AND 0x0f :: 32 word) = unat c mod 16"
  "unat (ucast (c :: byte) AND 0x07 :: 32 word) = unat c mod 8"
  by (simp_all add: unsigned_and_eq nat_masks[simplified])

lemma unicode_valid_arith:
  "UNICODE_VALID r \<longleftrightarrow> unat r < 0x110000 \<and> \<not> (0xD800 \<le> unat r \<and> unat r < 0xE000) \<and>
     \<not> (0xFDD0 \<le> unat r \<and> unat r \<le> 0xFDEF) \<and> unat r mod 0x10000 \<noteq> 0xFFFF"
proof -
  have "unat r < 2097152 * 2048" using unsigned_less[of r] by simp
  then have "unat r div 2048 mod 2097152 = unat r div 2048" by (simp add: less_mult_imp_div_less)
  moreover have "unat r div 2048 * 2048 = 55296 \<longleftrightarrow> 0xD800 \<le> unat r \<and> unat r < 0xE000" by auto
  ultimately show ?thesis unfolding UNICODE_VALID_def by (auto simp: byte_arith)
qed

lemma length_arith:
  "UTF8_LENGTH r = (if unat r < 0x80 then 1 else if unat r < 0x800 then 2 else if unat r < 0x10000 then 3
     else if unat r < 0x200000 then 4 else if unat r < 0x4000000 then 5 else 6)"
  by (simp add: UTF8_LENGTH_def word_less_nat_alt)

lemma from_digits: "unat (c :: byte) = n \<Longrightarrow> word_of_nat n = c"
  by auto

lemma byte_split: "unat (c :: byte) div k = q \<Longrightarrow> unat c = q * k + unat c mod k"
  by (metis div_mult_mod_eq)

lemma base64_digits:
  fixes x y z w :: nat
  assumes "y < 64" "z < 64"
  shows "((x * 64 + y) * 64 + z) mod 64 = z" "((x * 64 + y) * 64 + z) div 64 mod 64 = y"
    "((x * 64 + y) * 64 + z) div 4096 = x" "w < 64 \<Longrightarrow> (((x * 64 + y) * 64 + z) * 64 + w) div 262144 = x"
    "w < 64 \<Longrightarrow> (((x * 64 + y) * 64 + z) * 64 + w) div 4096 mod 64 = y"
proof -
  have d: "(a * 64 + b) div 64 = a" if "b < 64" for a b :: nat using that by simp
  have m: "(a * 64 + b) mod 64 = b" if "b < 64" for a b :: nat
    using that by (metis add.commute mod_less mod_mult_self1)
  have d2: "n div 4096 = n div 64 div 64" "n div 262144 = n div 64 div 64 div 64" for n :: nat
    by (simp_all add: div_mult2_eq[symmetric])
  show "((x * 64 + y) * 64 + z) mod 64 = z" using assms by (simp only: m)
  show "((x * 64 + y) * 64 + z) div 64 mod 64 = y" using assms by (simp only: d m)
  show "((x * 64 + y) * 64 + z) div 4096 = x" using assms by (simp only: d d2)
  show "w < 64 \<Longrightarrow> (((x * 64 + y) * 64 + z) * 64 + w) div 262144 = x" using assms by (simp only: d d2)
  show "w < 64 \<Longrightarrow> (((x * 64 + y) * 64 + z) * 64 + w) div 4096 mod 64 = y"
    using assms by (simp only: d d2 m)
qed

lemma step_sound:
  assumes c: "\<not> unat c < 128" and comp: "UTF8_COMPUTE c = (msk, len)" "len \<noteq> 0" "len \<le> Suc (length cs)"
    and r: "r = UTF8_GET (c # cs) msk len" and ok: "UTF8_LENGTH r = len" "UNICODE_VALID r"
  shows "\<exists>n. unicode_char n \<and> 128 \<le> n \<and> take len (c # cs) = utf8_encode n"
proof -
  have len: "len = 2 \<or> len = 3 \<or> len = 4"
    using ok c comp(1) by (auto simp: compute_arith length_arith unicode_valid_arith split: if_splits)
  have cont: "list_all continuation (take (len - 1) cs)"
  proof (rule ccontr)
    assume "\<not> ?thesis"
    then have "r = - 1" using r by (simp add: UTF8_GET_def get_loop_bad)
    then show False using ok(2) by (simp add: UNICODE_VALID_def)
  qed
  have val: "(unat (ucast c AND msk) + 1) * 64 ^ (len - 1) \<le> 2 ^ 32 \<Longrightarrow>
      unat r = foldl (\<lambda>a c. a * 64 + unat c mod 64) (unat (ucast c AND msk)) (take (len - 1) cs)"
    using get_loop_good[OF cont, of "ucast c AND msk"] comp(3) len r by (auto simp: UTF8_GET_def min_def)
  have char: "unicode_char (unat r)" "128 \<le> unat r"
    using ok len by (auto simp: unicode_valid_arith unicode_char_def length_arith split: if_splits)
  consider (2) "len = 2" | (3) "len = 3" | (4) "len = 4" using len by blast
  then have "take len (c # cs) = utf8_encode (unat r)"
  proof cases
    case 2
    then obtain c1 ds where cs: "cs = c1 # ds" using comp(3) by (cases cs) auto
    have m: "msk = 0x1f" "unat c div 32 = 6" using comp(1) 2 by (auto simp: compute_arith split: if_splits)
    have r: "unat r = unat c mod 32 * 64 + unat c1 mod 64"
      using val 2 cs mod_less_divisor[of 32 "unat c"] by (simp add: m unat_low_bits)
    have "unat c = 192 + unat r div 64" "unat c1 = 128 + unat r mod 64"
      using cont 2 cs byte_split[OF m(2)] byte_split[of c1 64 2] by (simp_all add: r continuation_def)
    then show ?thesis using 2 cs ok(1) by (auto simp: utf8_encode_def length_arith dest!: from_digits split: if_splits)
  next
    case 3
    then obtain c1 c2 ds where cs: "cs = c1 # c2 # ds" using comp(3) by (cases cs; cases "tl cs") auto
    have m: "msk = 0x0f" "unat c div 16 = 14" using comp(1) 3 by (auto simp: compute_arith split: if_splits)
    have r: "unat r = (unat c mod 16 * 64 + unat c1 mod 64) * 64 + unat c2 mod 64"
      using val 3 cs mod_less_divisor[of 16 "unat c"] by (simp add: m unat_low_bits)
    have "unat c = 224 + unat r div 4096" "unat c1 = 128 + unat r div 64 mod 64" "unat c2 = 128 + unat r mod 64"
      using cont 3 cs byte_split[OF m(2)] byte_split[of c1 64 2] byte_split[of c2 64 2]
      unfolding r by (simp_all only: base64_digits mod_less_divisor[of 64, simplified]) (simp_all add: continuation_def)
    then show ?thesis using 3 cs ok(1) by (auto simp: utf8_encode_def length_arith dest!: from_digits split: if_splits)
  next
    case 4
    then obtain c1 c2 c3 ds where cs: "cs = c1 # c2 # c3 # ds"
      using comp(3) by (cases cs; cases "tl cs"; cases "tl (tl cs)") auto
    have m: "msk = 0x07" "unat c div 8 = 30" using comp(1) 4 by (auto simp: compute_arith split: if_splits)
    have r: "unat r = ((unat c mod 8 * 64 + unat c1 mod 64) * 64 + unat c2 mod 64) * 64 + unat c3 mod 64"
      using val 4 cs mod_less_divisor[of 8 "unat c"] by (simp add: m unat_low_bits)
    have "unat c = 240 + unat r div 262144" "unat c1 = 128 + unat r div 4096 mod 64"
      "unat c2 = 128 + unat r div 64 mod 64" "unat c3 = 128 + unat r mod 64"
      using cont 4 cs byte_split[OF m(2)] byte_split[of c1 64 2] byte_split[of c2 64 2] byte_split[of c3 64 2]
      unfolding r by (simp_all only: base64_digits mod_less_divisor[of 64, simplified]) (simp_all add: continuation_def)
    then show ?thesis using 4 cs ok(1) by (auto simp: utf8_encode_def length_arith dest!: from_digits split: if_splits)
  qed
  then show ?thesis using char by blast
qed

lemma unat_small [simp]: "m < 256 \<Longrightarrow> unat (word_of_nat m :: byte) = m"
  by (simp add: unsigned_of_nat take_bit_nat_eq_self)

lemma step_accepts:
  assumes u: "unicode_char n" and c: "\<not> unat c < 128" and comp: "UTF8_COMPUTE c = (msk, Suc (length cs))"
    and cont: "list_all continuation cs" and b: "(unat (ucast c AND msk) + 1) * 64 ^ length cs \<le> 2 ^ 32"
    and val: "foldl (\<lambda>a c. a * 64 + unat c mod 64) (unat (ucast c AND msk)) cs = n"
    and len: "(if n < 0x80 then 1 else if n < 0x800 then 2 else if n < 0x10000 then 3 else 4) = Suc (length cs)"
  shows "validate_utf8_loop (c # cs @ rest) = validate_utf8_loop rest"
proof -
  have r: "unat (UTF8_GET (c # cs @ rest) msk (Suc (length cs))) = n"
    using get_loop_good[OF cont b] val by (simp add: UTF8_GET_def)
  have "UTF8_LENGTH (UTF8_GET (c # cs @ rest) msk (Suc (length cs))) = Suc (length cs)"
    using len u by (simp add: length_arith r unicode_char_def split: if_splits)
  moreover have "UNICODE_VALID (UTF8_GET (c # cs @ rest) msk (Suc (length cs)))"
    using u by (auto simp: unicode_valid_arith r unicode_char_def)
  moreover have "c \<noteq> 0" "\<not> c < 128" using c by (auto simp: word_less_nat_alt)
  ultimately show ?thesis
    by (subst validate_utf8_loop.simps) (simp add: comp Let_def)
qed

lemma byte_with:
  assumes "m < 256" obtains c :: byte where "unat c = m" "word_of_nat m = c"
  using assms unat_small by blast

lemma lead_digit: "q < k \<Longrightarrow> (m * k + q) mod k = q \<and> (m * k + q) div k = (m :: nat)"
  by (metis add.right_neutral div_eq_0_iff div_mult_self3 mod_less mod_mult_self3 not_less_zero)

lemma continuation_byte:
  assumes "k < 64" obtains c :: byte where "unat c mod 64 = k" "word_of_nat (128 + k) = c" "continuation c"
proof -
  have "128 + k < 256" using assms by simp
  then obtain c :: byte where c: "unat c = 128 + k" "word_of_nat (128 + k) = c" by (rule byte_with)
  have "unat c mod 64 = k" "continuation c" using assms c(1) lead_digit[of k 64 2] by (simp_all add: continuation_def)
  then show thesis using that c(2) by blast
qed

lemma base64_join:
  "(n div 4096 * 64 + n div 64 mod 64) * 64 + n mod 64 = (n :: nat)"
  "((n div 262144 * 64 + n div 4096 mod 64) * 64 + n div 64 mod 64) * 64 + n mod 64 = n"
proof -
  have d: "n div 4096 = n div 64 div 64" "n div 262144 = n div 64 div 64 div 64" by (simp_all add: div_mult2_eq[symmetric])
  show "(n div 4096 * 64 + n div 64 mod 64) * 64 + n mod 64 = n"
    "((n div 262144 * 64 + n div 4096 mod 64) * 64 + n div 64 mod 64) * 64 + n mod 64 = n"
    by (simp_all only: d div_mult_mod_eq)
qed

lemma step_complete:
  assumes u: "unicode_char n"
  shows "validate_utf8_loop (utf8_encode n @ rest) = validate_utf8_loop rest"
proof -
  have n: "0 < n" "n < 0x110000" using u by (auto simp: unicode_char_def)
  consider (1) "n < 0x80" | (2) "0x80 \<le> n" "n < 0x800" | (3) "0x800 \<le> n" "n < 0x10000" | (4) "0x10000 \<le> n" by linarith
  then show ?thesis
  proof cases
    case 1
    then obtain c :: byte where c: "unat c = n" "word_of_nat n = c" using byte_with[of n] by auto
    then have "c \<noteq> 0" "c < 128" using n 1 by (auto simp: word_less_nat_alt)
    then show ?thesis using 1 c by (subst validate_utf8_loop.simps) (simp add: utf8_encode_def)
  next
    case 2
    have q: "192 + n div 64 < 256" "(192 + n div 64) mod 32 = n div 64" "(192 + n div 64) div 32 = 6"
      using less_mult_imp_div_less[of n 32 64] 2 lead_digit[of "n div 64" 32 6] by simp_all
    obtain c :: byte where c: "unat c = 192 + n div 64" "word_of_nat (192 + n div 64) = c" using byte_with[OF q(1)] .
    obtain c1 where c1: "unat c1 mod 64 = n mod 64" "word_of_nat (128 + n mod 64) = c1" "continuation c1"
      using continuation_byte[of "n mod 64"] by auto
    have enc: "utf8_encode n = c # [c1]" using 2 c(2) c1(2) by (simp add: utf8_encode_def)
    have low: "unat (ucast c AND 0x1f :: 32 word) = n div 64" using q c(1) by (simp add: unat_low_bits)
    have "validate_utf8_loop (c # [c1] @ rest) = validate_utf8_loop rest"
    proof (rule step_accepts[OF u])
      show "UTF8_COMPUTE c = (0x1f, Suc (length [c1]))" using q c(1) by (simp add: compute_arith)
      show "foldl (\<lambda>a c. a * 64 + unat c mod 64) (unat (ucast c AND 0x1f :: 32 word)) [c1] = n"
        using low c1(1) by simp
    qed (use c(1) c1(3) low q 2 in simp_all)
    then show ?thesis using enc by simp
  next
    case 3
    have q: "224 + n div 4096 < 256" "(224 + n div 4096) mod 16 = n div 4096" "(224 + n div 4096) div 16 = 14"
      using less_mult_imp_div_less[of n 16 4096] 3 lead_digit[of "n div 4096" 16 14] by simp_all
    obtain c :: byte where c: "unat c = 224 + n div 4096" "word_of_nat (224 + n div 4096) = c" using byte_with[OF q(1)] .
    obtain c1 where c1: "unat c1 mod 64 = n div 64 mod 64" "word_of_nat (128 + n div 64 mod 64) = c1" "continuation c1"
      using continuation_byte[of "n div 64 mod 64"] by auto
    obtain c2 where c2: "unat c2 mod 64 = n mod 64" "word_of_nat (128 + n mod 64) = c2" "continuation c2"
      using continuation_byte[of "n mod 64"] by auto
    have enc: "utf8_encode n = c # [c1, c2]" using 3 c(2) c1(2) c2(2) by (simp add: utf8_encode_def)
    have low: "unat (ucast c AND 0x0f :: 32 word) = n div 4096" using q c(1) by (simp add: unat_low_bits)
    have "validate_utf8_loop (c # [c1, c2] @ rest) = validate_utf8_loop rest"
    proof (rule step_accepts[OF u])
      show "UTF8_COMPUTE c = (0x0f, Suc (length [c1, c2]))" using q c(1) by (simp add: compute_arith)
      show "foldl (\<lambda>a c. a * 64 + unat c mod 64) (unat (ucast c AND 0x0f :: 32 word)) [c1, c2] = n"
        using low c1(1) c2(1) base64_join[of n] by simp
    qed (use c(1) c1(3) c2(3) low q 3 in simp_all)
    then show ?thesis using enc by simp
  next
    case 4
    have q: "240 + n div 262144 < 256" "(240 + n div 262144) mod 8 = n div 262144" "(240 + n div 262144) div 8 = 30"
      using less_mult_imp_div_less[of n 8 262144] n lead_digit[of "n div 262144" 8 30] by simp_all
    have "n div 262144 < 8" using less_mult_imp_div_less[of n 8 262144] n by simp
    then have q': "(240 + n div 262144) div 16 = 15" "(240 + n div 262144) div 32 = 7"
      using lead_digit[of "n div 262144" 16 15] lead_digit[of "16 + n div 262144" 32 7] by simp_all
    obtain c :: byte where c: "unat c = 240 + n div 262144" "word_of_nat (240 + n div 262144) = c" using byte_with[OF q(1)] .
    obtain c1 where c1: "unat c1 mod 64 = n div 4096 mod 64" "word_of_nat (128 + n div 4096 mod 64) = c1" "continuation c1"
      using continuation_byte[of "n div 4096 mod 64"] by auto
    obtain c2 where c2: "unat c2 mod 64 = n div 64 mod 64" "word_of_nat (128 + n div 64 mod 64) = c2" "continuation c2"
      using continuation_byte[of "n div 64 mod 64"] by auto
    obtain c3 where c3: "unat c3 mod 64 = n mod 64" "word_of_nat (128 + n mod 64) = c3" "continuation c3"
      using continuation_byte[of "n mod 64"] by auto
    have enc: "utf8_encode n = c # [c1, c2, c3]" using 4 c(2) c1(2) c2(2) c3(2) by (simp add: utf8_encode_def)
    have low: "unat (ucast c AND 0x07 :: 32 word) = n div 262144" using q c(1) by (simp add: unat_low_bits)
    have "validate_utf8_loop (c # [c1, c2, c3] @ rest) = validate_utf8_loop rest"
    proof (rule step_accepts[OF u])
      show "UTF8_COMPUTE c = (0x07, Suc (length [c1, c2, c3]))" using q q' c(1) by (simp add: compute_arith)
      show "foldl (\<lambda>a c. a * 64 + unat c mod 64) (unat (ucast c AND 0x07 :: 32 word)) [c1, c2, c3] = n"
        using low c1(1) c2(1) c3(1) base64_join[of n] by simp
    qed (use c(1) c1(3) c2(3) c3(3) low q 4 in simp_all)
    then show ?thesis using enc by simp
  qed
qed

lemma loop_sound:
  "validate_utf8_loop p \<Longrightarrow> \<exists>ns. list_all unicode_char ns \<and> p = concat (map utf8_encode ns)"
proof (induction p rule: length_induct)
  case (1 p)
  show ?case
  proof (cases p)
    case (Cons c cs)
    note unfolded = "1.prems"[unfolded validate_utf8_loop.simps[of p]]
    show ?thesis
    proof (cases "c < 128")
      case True
      have "c \<noteq> 0" "validate_utf8_loop cs" using unfolded Cons True by (auto split: if_splits)
      moreover obtain ns where "list_all unicode_char ns" "cs = concat (map utf8_encode ns)"
        using "1.IH" Cons calculation by fastforce
      moreover have "unicode_char (unat c)" "utf8_encode (unat c) = [c]"
        using True \<open>c \<noteq> 0\<close> by (simp_all add: unicode_char_def utf8_encode_def word_less_nat_alt word_unat_eq_iff)
      ultimately show ?thesis using Cons by (intro exI[of _ "unat c # ns"]) simp
    next
      case False
      obtain msk len where comp: "UTF8_COMPUTE c = (msk, len)" by (cases "UTF8_COMPUTE c")
      have f: "c \<noteq> 0" "len \<noteq> 0" "len \<le> Suc (length cs)" "UTF8_LENGTH (UTF8_GET p msk len) = len"
        "UNICODE_VALID (UTF8_GET p msk len)" "validate_utf8_loop (drop len p)"
        using unfolded Cons False comp by (auto simp: Let_def split: if_splits)
      obtain ns where ns: "list_all unicode_char ns" "drop len p = concat (map utf8_encode ns)"
        using "1.IH" Cons f by (metis diff_less length_drop length_greater_0_conv list.distinct(1) not_gr_zero)
      obtain n where "unicode_char n" "take len p = utf8_encode n"
        using step_sound[OF _ comp f(2,3) refl] f(4,5) False Cons by (auto simp: word_less_nat_alt)
      then show ?thesis
        using ns by (intro exI[of _ "n # ns"]) (simp, metis append_take_drop_id)
    qed
  qed (auto intro: exI[of _ "[]"])
qed

text \<open>
  C40. The UTF-8 validator accepts exactly the encodings of sequences of allowed code points: no nul,
  no surrogate, nothing in U+FDD0 to U+FDEF or ending in FFFF, nothing overlong or truncated.
\<close>

theorem validate_utf8_iff:
  "dbus_string_validate_utf8 str \<longleftrightarrow> (\<exists>ns. list_all unicode_char ns \<and> str = concat (map utf8_encode ns))"
proof
  assume "\<exists>ns. list_all unicode_char ns \<and> str = concat (map utf8_encode ns)"
  then obtain ns where ns: "list_all unicode_char ns" "str = concat (map utf8_encode ns)" by blast
  have "validate_utf8_loop []" by (simp add: validate_utf8_loop.simps)
  then have "validate_utf8_loop (concat (map utf8_encode ns))"
    using ns(1) by (induction ns) (simp_all add: step_complete)
  then show "dbus_string_validate_utf8 str" by (simp add: dbus_string_validate_utf8_def ns(2))
qed (use loop_sound in \<open>simp add: dbus_string_validate_utf8_def\<close>)

section \<open>Hexadecimal round trip\<close>

lemma hexdigit_value: "n < 16 \<Longrightarrow> hex_value (hexdigits ! n) = Some (word_of_nat n)"
proof -
  have "list_all (\<lambda>n. hex_value (hexdigits ! n) = Some (word_of_nat n)) [0..<16]" by code_simp
  then show "n < 16 \<Longrightarrow> hex_value (hexdigits ! n) = Some (word_of_nat n)" by (simp add: list_all_iff)
qed

lemma nibbles:
  "hex_value (hexdigits ! unat (drop_bit 4 (c :: byte))) = Some (drop_bit 4 c)"
  "hex_value (hexdigits ! unat (c AND 0x0f)) = Some (c AND 0x0f)"
  "push_bit 4 (drop_bit 4 c) OR (c AND 0x0f) = c"
proof -
  have u: "unat (drop_bit 4 c) = unat c div 16" "unat (c AND 0x0f) = unat c mod 16"
    by (simp only: unat_drop_bit_eq, simp add: drop_bit_eq_div)
      (simp add: unsigned_and_eq nat_masks[simplified])
  have "unat (drop_bit 4 c) < 16" using unat_byte[of c] u by simp
  then show "hex_value (hexdigits ! unat (drop_bit 4 c)) = Some (drop_bit 4 c)"
    using hexdigit_value[of "unat (drop_bit 4 c)"] by simp
  have "unat (c AND 0x0f) < 16" using u by simp
  then show "hex_value (hexdigits ! unat (c AND 0x0f)) = Some (c AND 0x0f)"
    using hexdigit_value[of "unat (c AND 0x0f)"] by simp
  have "unat (push_bit 4 (drop_bit 4 c) OR (c AND 0x0f)) = unat c div 16 * 16 + unat c mod 16"
    using unat_shift_or[of "drop_bit 4 c" 4 "c AND 0x0f"] u unat_byte[of c] div_mult_mod_eq[of "unat c" 16] by simp
  then show "push_bit 4 (drop_bit 4 c) OR (c AND 0x0f) = c"
    by (simp only: div_mult_mod_eq word_unat_eq_iff)
qed

lemma hex_encode_Nil: "dbus_string_hex_encode [] = []"
  by (simp add: dbus_string_hex_encode_def)

lemma hex_encode_Cons:
  "dbus_string_hex_encode (b # bs) =
   hexdigits ! unat (drop_bit 4 b) # hexdigits ! unat (b AND 0x0f) # dbus_string_hex_encode bs"
  by (simp add: dbus_string_hex_encode_def byte_as_hex_def)

lemma hex_encode_length: "length (dbus_string_hex_encode bs) = 2 * length bs"
  by (induction bs) (simp_all add: hex_encode_Cons hex_encode_Nil)

lemma hex_decode_encode_loop:
  "hex_decode_loop (dbus_string_hex_encode bs @ rest) p True acc =
   hex_decode_loop rest (p + 2 * length bs) True (acc @ bs)"
proof (induction bs arbitrary: p acc)
  case (Cons b bs)
  show ?case
    using Cons.IH[of "p + 2" "acc @ [b]"] by (simp add: hex_encode_Cons nibbles)
qed (simp add: hex_encode_Nil)

text \<open>
  Hexadecimal coding is a round trip: decoding what was encoded gives the bytes back and ends
  at the end of the digits.
\<close>

theorem hex_round_trip:
  "dbus_string_hex_decode (dbus_string_hex_encode bs) = (bs, length (dbus_string_hex_encode bs))"
  using hex_decode_encode_loop[of bs "[]" 0 "[]"] by (simp add: dbus_string_hex_decode_def hex_encode_length)

section \<open>What the scans find\<close>

definition occurs_at :: "byte list \<Rightarrow> nat \<Rightarrow> byte list \<Rightarrow> nat \<Rightarrow> bool" where
  "occurs_at str end substr i \<longleftrightarrow> i + length substr \<le> end \<and> take (length substr) (drop i str) = substr"

lemma occurs_nth:
  assumes "occurs_at str end substr i" "k < length substr" "end \<le> length str"
  shows "str ! (i + k) = substr ! k"
proof -
  have "substr ! k = take (length substr) (drop i str) ! k" using assms(1) by (simp add: occurs_at_def)
  then show ?thesis using assms by (simp add: occurs_at_def)
qed

lemma find_compare_end:
  "0 \<notin> set substr \<Longrightarrow> i < j \<Longrightarrow> j \<le> end \<Longrightarrow> end \<le> length str \<Longrightarrow> j - i \<le> length substr \<Longrightarrow>
   take (j - i) (drop i str) = take (j - i) substr \<Longrightarrow>
   str_byte substr (find_compare str end substr i j - i) = 0 \<longleftrightarrow> occurs_at str end substr i"
proof (induction str "end" substr i j rule: find_compare.induct)
  case (1 str e substr i j)
  show ?case
  proof (cases "j - i = length substr")
    case True
    then have "find_compare str e substr i j = j" by (simp add: find_compare.simps[of str e substr i j] str_byte_def)
    then show ?thesis using "1.prems" True by (auto simp: occurs_at_def str_byte_def)
  next
    case False
    then have k: "j - i < length substr" using "1.prems" by simp
    have nz: "str_byte substr (j - i) \<noteq> 0" using k "1.prems"(1) nth_mem[OF k] by (metis str_byte_def)
    show ?thesis
    proof (cases "j < e \<and> str_byte str j = str_byte substr (j - i)")
      case True
      then have eq: "str ! j = substr ! (j - i)" using k "1.prems" by (auto simp: str_byte_def split: if_splits)
      have "drop i str ! (j - i) = str ! j" using "1.prems" True by simp
      then have "take (Suc (j - i)) (drop i str) = take (Suc (j - i)) substr"
        using "1.prems" True k eq take_Suc_conv_app_nth[of "j - i" "drop i str"] take_Suc_conv_app_nth[of "j - i" substr]
        by fastforce
      then show ?thesis
        using "1.IH" True nz "1.prems" k by (simp add: find_compare.simps[of str e substr i j] Suc_diff_le)
    next
      case False
      then have f: "find_compare str e substr i j = j" using nz by (auto simp: find_compare.simps[of str e substr i j])
      have "\<not> occurs_at str e substr i"
      proof
        assume o: "occurs_at str e substr i"
        then have "j < e" using k by (auto simp: occurs_at_def)
        moreover have "str ! j = substr ! (j - i)"
          using occurs_nth[OF o k] "1.prems" by simp
        ultimately show False using False k "1.prems" by (simp add: str_byte_def)
      qed
      then show ?thesis using f nz by simp
    qed
  qed
qed

lemma find_to_loop_spec:
  assumes "substr \<noteq> []" "0 \<notin> set substr" "end \<le> length str" "i \<le> end"
  shows "case find_to_loop str end substr i of
      (True, k) \<Rightarrow> i \<le> k \<and> occurs_at str end substr k \<and> (\<forall>m. i \<le> m \<and> m < k \<longrightarrow> \<not> occurs_at str end substr m)
    | (False, k) \<Rightarrow> k = end \<and> (\<forall>m \<ge> i. \<not> occurs_at str end substr m)"
  using assms
proof (induction str "end" substr i rule: find_to_loop.induct)
  case (1 str e substr i)
  let ?found = "str_byte str i = str_byte substr 0 \<and> str_byte substr (find_compare str e substr i (i + 1) - i) = 0"
  have found: "?found \<longleftrightarrow> occurs_at str e substr i" if "i < e"
  proof (cases "str_byte str i = str_byte substr 0")
    case True
    then have "take 1 (drop i str) = take 1 substr"
      using "1.prems" that by (cases substr) (simp_all add: str_byte_def hd_drop_conv_nth take_Suc)
    then show ?thesis using find_compare_end[of substr i "i + 1" e str] "1.prems" that True by (cases substr) simp_all
  next
    case False
    then show ?thesis using "1.prems" that occurs_nth[of str e substr i 0] by (auto simp: str_byte_def)
  qed
  have out: "\<not> occurs_at str e substr m" if "e \<le> m" for m using that "1.prems"(1) by (cases substr) (auto simp: occurs_at_def)
  have split: "i \<le> m \<longleftrightarrow> m = i \<or> i + 1 \<le> m" for m by auto
  show ?case
  proof (cases "i < e \<and> \<not> ?found")
    case True
    then have n: "\<not> occurs_at str e substr i" using found by blast
    have l: "find_to_loop str e substr i = find_to_loop str e substr (i + 1)"
      using True by (subst find_to_loop.simps) metis
    have "case find_to_loop str e substr (i + 1) of
      (True, k) \<Rightarrow> i + 1 \<le> k \<and> occurs_at str e substr k \<and> (\<forall>m. i + 1 \<le> m \<and> m < k \<longrightarrow> \<not> occurs_at str e substr m)
    | (False, k) \<Rightarrow> k = e \<and> (\<forall>m \<ge> i + 1. \<not> occurs_at str e substr m)"
      using "1.IH" True "1.prems" by simp
    then show ?thesis unfolding l using n split by (cases "find_to_loop str e substr (i + 1)") (auto split: bool.splits)
  next
    case False
    then show ?thesis using found out "1.prems" by (auto simp: find_to_loop.simps[of str e substr i])
  qed
qed

text \<open>
  Searching finds the first occurrence: with a start within the string and a needle that is not
  empty and holds no nul byte, the result is the least position at or after the start where the
  needle lies within the searched range.
\<close>

theorem find_to_first:
  assumes "substr \<noteq> []" "0 \<notin> set substr" "end \<le> length str" "start \<le> end"
  shows "dbus_string_find_to str start end substr = (True, k) \<longleftrightarrow>
    start \<le> k \<and> occurs_at str end substr k \<and> (\<forall>m. start \<le> m \<and> m < k \<longrightarrow> \<not> occurs_at str end substr m)"
proof -
  have z: "str_byte substr 0 \<noteq> 0" using assms(1,2) by (cases substr) auto
  obtain b k' where f: "find_to_loop str end substr start = (b, k')" by (cases "find_to_loop str end substr start")
  show ?thesis
    using find_to_loop_spec[OF assms, unfolded f] z
    by (cases b) (auto simp: dbus_string_find_to_def f intro: linorder_cases[of k k'])
qed

theorem find_to_first_witness: "dbus_string_find_to [97, 98, 61, 99, 61] 0 5 [61] = (True, 2)"
proof -
  have "\<not> occurs_at [97, 98, 61, 99, 61] 5 [61] m" if "m < 2" for m
    using that by (cases m; cases "m - 1") (auto simp: occurs_at_def)
  then show ?thesis by (subst find_to_first) (auto simp: occurs_at_def)
qed

end
