(* ===== verification/ByteOrder.thy ===== *)
theory ByteOrder
  imports Prelude
begin

text \<open>
  The byte order macros of \<open>dbus/dbus-marshal-basic.h\<close> on a little-endian host, whose memory
  holds a word as its bytes from the lowest on; \<open>store_le\<close> and \<open>load_le\<close> are the
  host's own stores and loads. The macros are shown to reverse the bytes.
\<close>

unbundle bit_operations_syntax

section \<open>Host memory\<close>

definition store_le :: "nat \<Rightarrow> 'a :: len word \<Rightarrow> byte list" where
  "store_le n w = map (\<lambda>i. ucast (drop_bit (8 * i) w)) [0..<n]"

fun load_le :: "byte list \<Rightarrow> 'a :: len word" where
  "load_le [] = 0"
| "load_le (b # bs) = push_bit 8 (load_le bs) OR ucast b"

section \<open>The macros\<close>

definition UINT16_SWAP_LE_BE :: "16 word \<Rightarrow> 16 word" where
  "UINT16_SWAP_LE_BE val = drop_bit 8 val OR push_bit 8 val"

definition UINT32_SWAP_LE_BE :: "32 word \<Rightarrow> 32 word" where
  "UINT32_SWAP_LE_BE val =
     push_bit 24 (val AND 0x000000ff) OR push_bit 8 (val AND 0x0000ff00) OR
     drop_bit 8 (val AND 0x00ff0000) OR drop_bit 24 (val AND 0xff000000)"

definition UINT64_SWAP_LE_BE :: "64 word \<Rightarrow> 64 word" where
  "UINT64_SWAP_LE_BE val =
     push_bit 56 (val AND 0x00000000000000ff) OR push_bit 40 (val AND 0x000000000000ff00) OR
     push_bit 24 (val AND 0x0000000000ff0000) OR push_bit 8 (val AND 0x00000000ff000000) OR
     drop_bit 8 (val AND 0x000000ff00000000) OR drop_bit 24 (val AND 0x0000ff0000000000) OR
     drop_bit 40 (val AND 0x00ff000000000000) OR drop_bit 56 (val AND 0xff00000000000000)"

section \<open>Bits and bytes\<close>

lemma length_store [simp]: "length (store_le n w) = n"
  by (simp add: store_le_def)

lemma bit_load_le:
  "bit (load_le bs :: 'a :: len word) m \<longleftrightarrow> m < LENGTH('a) \<and> m div 8 < length bs \<and> bit (bs ! (m div 8)) (m mod 8)"
proof (induction bs arbitrary: m)
  case (Cons b bs)
  show ?case
  proof (cases "m < 8")
    case True
    then show ?thesis by (auto simp: bit_simps)
  next
    case False
    then have "m div 8 = Suc ((m - 8) div 8)" "(m - 8) mod 8 = m mod 8" by (simp_all add: le_div_geq le_mod_geq)
    then show ?thesis using False Cons.IH[of "m - 8"] by (auto simp: bit_simps dest: bit_imp_le_length)
  qed
qed simp

lemma bit_store_le:
  "i < n \<Longrightarrow> bit (store_le n w ! i) j \<longleftrightarrow> j < 8 \<and> bit w (8 * i + j)"
  by (auto simp: store_le_def bit_simps)

lemma load_store_le: "n * 8 = LENGTH('a) \<Longrightarrow> load_le (store_le n w) = (w :: 'a :: len word)"
  by (rule bit_word_eqI) (auto simp: bit_load_le bit_store_le less_mult_imp_div_less)

lemma store_load_le:
  assumes "length bs * 8 = LENGTH('a)" shows "store_le (length bs) (load_le bs :: 'a :: len word) = bs"
proof (rule nth_equalityI)
  fix i assume i: "i < length (store_le (length bs) (load_le bs :: 'a word))"
  show "store_le (length bs) (load_le bs :: 'a word) ! i = bs ! i"
  proof (rule bit_word_eqI)
    fix j assume "j < LENGTH(8)"
    then have "8 * i + j < LENGTH('a)" "(8 * i + j) div 8 = i" "(8 * i + j) mod 8 = j" using i assms by auto
    then show "bit (store_le (length bs) (load_le bs :: 'a word) ! i) j = bit (bs ! i) j"
      using i \<open>j < LENGTH(8)\<close> by (simp add: bit_store_le bit_load_le)
  qed
qed simp

text \<open>A word whose bits are those of another with the bytes reversed.\<close>

lemma reversed_load:
  fixes w :: "'a :: len word"
  assumes "length bs * 8 = LENGTH('a)"
    and "\<And>m. m < LENGTH('a) \<Longrightarrow> bit w m = bit (load_le bs :: 'a word) (8 * (length bs - 1 - m div 8) + m mod 8)"
  shows "w = load_le (rev bs)"
proof (rule bit_word_eqI)
  fix m assume m: "m < LENGTH('a)"
  then have q: "m div 8 < length bs" using assms(1) by (simp add: less_mult_imp_div_less)
  let ?k = "length bs - 1 - m div 8"
  have "8 * ?k + m mod 8 < LENGTH('a)" "(8 * ?k + m mod 8) div 8 = ?k" "(8 * ?k + m mod 8) mod 8 = m mod 8" "?k < length bs"
    using assms(1) q by auto
  then show "bit w m = bit (load_le (rev bs) :: 'a word) m"
    using assms(2)[OF m] m q by (simp add: bit_load_le rev_nth)
qed

text \<open>The byte of a position, by cases.\<close>

lemma bit_position:
  assumes "m < 8 * n" obtains q r where "m = 8 * q + r" "q \<in> set [0..<n]" "r < (8 :: nat)"
  using assms that[of "m div 8" "m mod 8"] by (simp add: less_mult_imp_div_less)

lemma byte_masks:
  "(0xff :: 'a :: len word) = mask 8" "(0xff00 :: 'a word) = push_bit 8 (mask 8)"
  "(0xff0000 :: 'a word) = push_bit 16 (mask 8)" "(0xff000000 :: 'a word) = push_bit 24 (mask 8)"
  "(0xff00000000 :: 'a word) = push_bit 32 (mask 8)" "(0xff0000000000 :: 'a word) = push_bit 40 (mask 8)"
  "(0xff000000000000 :: 'a word) = push_bit 48 (mask 8)" "(0xff00000000000000 :: 'a word) = push_bit 56 (mask 8)"
  by (simp_all add: mask_eq_exp_minus_1 push_bit_eq_mult)

lemma swap16_load: "length bs = 2 \<Longrightarrow> UINT16_SWAP_LE_BE (load_le bs) = load_le (rev bs)"
proof (rule reversed_load)
  fix m assume l: "length bs = 2" and "m < LENGTH(16)"
  then obtain q r where "m = 8 * q + r" "q \<in> set [0..<2]" "r < 8" using bit_position[of m 2] by auto
  then show "bit (UINT16_SWAP_LE_BE (load_le bs)) m = bit (load_le bs :: 16 word) (8 * (length bs - 1 - m div 8) + m mod 8)"
    unfolding l UINT16_SWAP_LE_BE_def by (auto simp: upt_rec bit_simps dest: bit_imp_le_length)
qed simp

text \<open>One byte of a word moved up or down.\<close>

lemma bit_byte_up:
  fixes w :: "'a :: len word"
  assumes "r < 8" "8 * q + r < LENGTH('a)"
  shows "bit (push_bit (8 * a) (w AND push_bit (8 * b) (mask 8))) (8 * q + r) \<longleftrightarrow> q = a + b \<and> bit w (8 * b + r)"
proof (cases "q = a + b")
  case True
  then show ?thesis using assms by (simp add: bit_simps add_mult_distrib2)
next
  case False
  then have "q < a + b \<or> a + b < q" by linarith
  then have "8 * q + r < 8 * a + 8 * b \<or> 8 * a + 8 * b + 8 \<le> 8 * q + r" using assms(1) by linarith
  then show ?thesis using False assms by (auto simp: bit_simps)
qed

lemma bit_byte_down:
  fixes w :: "'a :: len word"
  assumes "r < 8" "8 * b + r < LENGTH('a)"
  shows "bit (drop_bit (8 * a) (w AND push_bit (8 * b) (mask 8))) (8 * q + r) \<longleftrightarrow> q + a = b \<and> bit w (8 * b + r)"
proof (cases "q + a = b")
  case True
  then have "8 * a + (8 * q + r) = 8 * b + r" by auto
  then have "bit (drop_bit (8 * a) (w AND push_bit (8 * b) (mask 8))) (8 * q + r) \<longleftrightarrow>
      bit (w AND push_bit (8 * b) (mask 8)) (8 * b + r)" by (simp only: bit_drop_bit_eq o_def)
  then show ?thesis using True assms by (simp add: bit_and_iff bit_push_bit_iff bit_mask_iff)
next
  case False
  then have "8 * a + (8 * q + r) < 8 * b \<or> 8 * b + 8 \<le> 8 * a + (8 * q + r)" using assms(1) by linarith
  then show ?thesis using False by (auto simp: bit_drop_bit_eq bit_and_iff bit_push_bit_iff bit_mask_iff)
qed

lemma swap32_load: "length bs = 4 \<Longrightarrow> UINT32_SWAP_LE_BE (load_le bs) = load_le (rev bs)"
proof (rule reversed_load)
  fix m assume l: "length bs = 4" and "m < LENGTH(32)"
  then obtain q r where m: "m = 8 * q + r" "q \<in> set [0..<4]" "r < 8" using bit_position[of m 4] by auto
  then have "8 * q + r < LENGTH(32)" by auto
  note up = bit_byte_up[OF m(3) this, where w = "load_le bs"] and down = bit_byte_down[OF m(3), where w = "load_le bs :: 32 word"]
  have "bit (UINT32_SWAP_LE_BE (load_le bs)) m \<longleftrightarrow> bit (load_le bs :: 32 word) (8 * (3 - q) + r)"
    unfolding m(1) UINT32_SWAP_LE_BE_def byte_masks bit_or_iff
    using up[of 3 0] up[of 1 1] down[of 2 1 q] down[of 3 3 q] m(2,3) by (auto simp: upt_rec)
  then show "bit (UINT32_SWAP_LE_BE (load_le bs)) m = bit (load_le bs :: 32 word) (8 * (length bs - 1 - m div 8) + m mod 8)"
    using m l by simp
qed simp

lemma swap64_load: "length bs = 8 \<Longrightarrow> UINT64_SWAP_LE_BE (load_le bs) = load_le (rev bs)"
proof (rule reversed_load)
  fix m assume l: "length bs = 8" and "m < LENGTH(64)"
  then obtain q r where m: "m = 8 * q + r" "q \<in> set [0..<8]" "r < 8" using bit_position[of m 8] by auto
  then have "8 * q + r < LENGTH(64)" by auto
  note up = bit_byte_up[OF m(3) this, where w = "load_le bs"] and down = bit_byte_down[OF m(3), where w = "load_le bs :: 64 word"]
  have "bit (UINT64_SWAP_LE_BE (load_le bs)) m \<longleftrightarrow> bit (load_le bs :: 64 word) (8 * (7 - q) + r)"
  proof -
    have "q = 0 \<or> q = 1 \<or> q = 2 \<or> q = 3 \<or> q = 4 \<or> q = 5 \<or> q = 6 \<or> q = 7" using m(2) by auto
    then show ?thesis
      unfolding m(1) UINT64_SWAP_LE_BE_def byte_masks bit_or_iff
      using up[of 7 0] up[of 5 1] up[of 3 2] up[of 1 3] down[of 4 1 q] down[of 5 3 q] down[of 6 5 q] down[of 7 7 q] m(3)
      by (elim disjE) simp_all
  qed
  then show "bit (UINT64_SWAP_LE_BE (load_le bs)) m = bit (load_le bs :: 64 word) (8 * (length bs - 1 - m div 8) + m mod 8)"
    using m l by simp
qed simp

end
