(* ===== verification/Sha.thy ===== *)
theory Sha
  imports ByteOrder DString
begin

text \<open>
  SHA-1 of \<open>dbus/dbus-sha.c\<close>, for a little-endian host: the unrolled transformation with its
  circular buffer, and the incremental interface. It is proved equal to the definition of the
  standard (FIPS 180) on the concatenation of everything fed to it.
\<close>

unbundle bit_operations_syntax

section \<open>The transformation\<close>

definition f1 :: "32 word \<Rightarrow> 32 word \<Rightarrow> 32 word \<Rightarrow> 32 word" where
  "f1 x y z = z XOR (x AND (y XOR z))"

definition f2 :: "32 word \<Rightarrow> 32 word \<Rightarrow> 32 word \<Rightarrow> 32 word" where
  "f2 x y z = x XOR y XOR z"

definition f3 :: "32 word \<Rightarrow> 32 word \<Rightarrow> 32 word \<Rightarrow> 32 word" where
  "f3 x y z = (x AND y) OR (z AND (x OR y))"

definition f4 :: "32 word \<Rightarrow> 32 word \<Rightarrow> 32 word \<Rightarrow> 32 word" where
  "f4 x y z = x XOR y XOR z"

definition K1 :: "32 word" where "K1 = 0x5A827999"
definition K2 :: "32 word" where "K2 = 0x6ED9EBA1"
definition K3 :: "32 word" where "K3 = 0x8F1BBCDC"
definition K4 :: "32 word" where "K4 = 0xCA62C1D6"

definition ROTL :: "nat \<Rightarrow> 32 word \<Rightarrow> 32 word" where
  "ROTL n x = push_bit n x OR drop_bit (32 - n) x"

text \<open>\<open>expand (W, i)\<close> stores the next word of the schedule in the circular buffer and is its value.\<close>

definition expand :: "32 word list \<Rightarrow> nat \<Rightarrow> 32 word \<times> 32 word list" where
  "expand W i =
     (let v = ROTL 1 (W ! (i mod 16) XOR W ! ((i - 14) mod 16) XOR W ! ((i - 8) mod 16) XOR W ! ((i - 3) mod 16))
      in (v, W[i mod 16 := v]))"

type_synonym vars = "32 word \<times> 32 word \<times> 32 word \<times> 32 word \<times> 32 word"

definition subRound :: "vars \<Rightarrow> (32 word \<Rightarrow> 32 word \<Rightarrow> 32 word \<Rightarrow> 32 word) \<Rightarrow> 32 word \<Rightarrow> 32 word \<Rightarrow> vars" where
  "subRound v f k d = (case v of (a, b, c, d', e) \<Rightarrow> (a, ROTL 30 b, c, d', e + (ROTL 5 a + f b c d' + k + d)))"

text \<open>The \<open>data\<close> argument of round \<open>i\<close>.\<close>

definition round_data :: "32 word list \<Rightarrow> nat \<Rightarrow> 32 word \<times> 32 word list" where
  "round_data eData i = (if i < 16 then (eData ! i, eData) else expand eData i)"

text \<open>Five lines of the unrolled code, with the variables renamed from line to line.\<close>

definition five_rounds :: "(32 word \<Rightarrow> 32 word \<Rightarrow> 32 word \<Rightarrow> 32 word) \<Rightarrow> 32 word \<Rightarrow> nat \<Rightarrow>
    vars \<times> 32 word list \<Rightarrow> vars \<times> 32 word list" where
  "five_rounds f k i s =
     (case s of ((A, B, C, D, E), eData) \<Rightarrow>
      let (d, eData) = round_data eData i; (A, B, C, D, E) = subRound (A, B, C, D, E) f k d;
          (d, eData) = round_data eData (i + 1); (E, A, B, C, D) = subRound (E, A, B, C, D) f k d;
          (d, eData) = round_data eData (i + 2); (D, E, A, B, C) = subRound (D, E, A, B, C) f k d;
          (d, eData) = round_data eData (i + 3); (C, D, E, A, B) = subRound (C, D, E, A, B) f k d;
          (d, eData) = round_data eData (i + 4); (B, C, D, E, A) = subRound (B, C, D, E, A) f k d
      in ((A, B, C, D, E), eData))"

definition SHATransform :: "vars \<Rightarrow> 32 word list \<Rightarrow> vars" where
  "SHATransform digest d =
     (let s = (digest, d);
          s = five_rounds f1 K1 0 s; s = five_rounds f1 K1 5 s; s = five_rounds f1 K1 10 s; s = five_rounds f1 K1 15 s;
          s = five_rounds f2 K2 20 s; s = five_rounds f2 K2 25 s; s = five_rounds f2 K2 30 s; s = five_rounds f2 K2 35 s;
          s = five_rounds f3 K3 40 s; s = five_rounds f3 K3 45 s; s = five_rounds f3 K3 50 s; s = five_rounds f3 K3 55 s;
          s = five_rounds f4 K4 60 s; s = five_rounds f4 K4 65 s; s = five_rounds f4 K4 70 s; s = five_rounds f4 K4 75 s
      in case (digest, fst s) of ((d0, d1, d2, d3, d4), (A, B, C, D, E)) \<Rightarrow>
           (d0 + A, d1 + B, d2 + C, d3 + D, d4 + E))"

section \<open>The incremental interface\<close>

text \<open>\<open>DBusSHAContext\<close>; the data buffer is memory, bytes and words over the same place.\<close>

record sha_context =
  digest :: vars
  count_lo :: "32 word"
  count_hi :: "32 word"
  data :: "byte list"

fun words_of :: "byte list \<Rightarrow> 32 word list" where
  "words_of (a # b # c # d # bs) = load_le [a, b, c, d] # words_of bs"
| "words_of _ = []"

definition bytes_of :: "32 word list \<Rightarrow> byte list" where
  "bytes_of ws = concat (map (store_le 4) ws)"

definition swap_words :: "byte list \<Rightarrow> nat \<Rightarrow> byte list" where
  "swap_words buffer byte_count =
     bytes_of (map UINT32_SWAP_LE_BE (words_of (take byte_count buffer))) @ drop byte_count buffer"

definition memmove :: "byte list \<Rightarrow> nat \<Rightarrow> byte list \<Rightarrow> byte list" where
  "memmove dest at src = take at dest @ src @ drop (at + length src) dest"

definition sha_init :: "sha_context \<Rightarrow> sha_context" where
  "sha_init ctx = ctx\<lparr>digest := (0x67452301, 0xEFCDAB89, 0x98BADCFE, 0x10325476, 0xC3D2E1F0),
     count_lo := 0, count_hi := 0\<rparr>"

text \<open>Swap the buffer and run the transformation on it.\<close>

definition swap_transform :: "sha_context \<Rightarrow> sha_context" where
  "swap_transform ctx =
     (let d = swap_words (data ctx) 64
      in ctx\<lparr>data := d, digest := SHATransform (digest ctx) (words_of d)\<rparr>)"

function append_blocks :: "sha_context \<Rightarrow> byte list \<Rightarrow> sha_context \<times> byte list" where
  "append_blocks ctx buffer =
     (if length buffer \<ge> 64
      then append_blocks (swap_transform (ctx\<lparr>data := memmove (data ctx) 0 (take 64 buffer)\<rparr>)) (drop 64 buffer)
      else (ctx, buffer))"
  by pat_completeness auto
termination by (relation "measure (length \<circ> snd)") auto

declare append_blocks.simps [simp del]

text \<open>\<open>count\<close> is an unsigned int: the length of the buffer modulo 2 to the 32.\<close>

definition sha_append :: "sha_context \<Rightarrow> byte list \<Rightarrow> sha_context" where
  "sha_append ctx buffer =
     (let count = word_of_nat (length buffer) :: 32 word;
          tmp = count_lo ctx;
          ctx = ctx\<lparr>count_lo := tmp + push_bit 3 count\<rparr>;
          ctx = (if count_lo ctx < tmp then ctx\<lparr>count_hi := count_hi ctx + 1\<rparr> else ctx);
          ctx = ctx\<lparr>count_hi := count_hi ctx + drop_bit 29 count\<rparr>;
          dataCount = unat (drop_bit 3 tmp AND 0x3F);
          rest = 64 - dataCount
      in if dataCount \<noteq> 0 \<and> length buffer < rest
         then ctx\<lparr>data := memmove (data ctx) dataCount buffer\<rparr>
         else
           let (ctx, buffer) =
                 (if dataCount \<noteq> 0
                  then (swap_transform (ctx\<lparr>data := memmove (data ctx) dataCount (take rest buffer)\<rparr>), drop rest buffer)
                  else (ctx, buffer));
               (ctx, buffer) = append_blocks ctx buffer
           in ctx\<lparr>data := memmove (data ctx) 0 buffer\<rparr>)"

definition sha_finish :: "sha_context \<Rightarrow> byte list" where
  "sha_finish ctx =
     (let count = unat (drop_bit 3 (count_lo ctx) AND 0x3F);
          ctx = ctx\<lparr>data := (data ctx)[count := 0x80]\<rparr>;
          data_p = count + 1;
          count = 64 - 1 - count;
          ctx = (if count < 8
                 then
                   let ctx = swap_transform (ctx\<lparr>data := memmove (data ctx) data_p (replicate count 0)\<rparr>)
                   in ctx\<lparr>data := memmove (data ctx) 0 (replicate (64 - 8) 0)\<rparr>
                 else ctx\<lparr>data := memmove (data ctx) data_p (replicate (count - 8) 0)\<rparr>);
          ctx = ctx\<lparr>data := memmove (data ctx) (14 * 4) (store_le 4 (count_hi ctx))\<rparr>;
          ctx = ctx\<lparr>data := memmove (data ctx) (15 * 4) (store_le 4 (count_lo ctx))\<rparr>;
          d = swap_words (data ctx) (64 - 8)
      in case SHATransform (digest ctx) (words_of d) of (d0, d1, d2, d3, d4) \<Rightarrow>
           swap_words (bytes_of [d0, d1, d2, d3, d4]) 20)"

text \<open>\<open>_dbus_sha_compute\<close> when memory suffices: the digest in hexadecimal.\<close>

definition sha_new :: sha_context where
  "sha_new = sha_init \<lparr>digest = (0, 0, 0, 0, 0), count_lo = 0, count_hi = 0, data = replicate 64 0\<rparr>"

definition dbus_sha_compute :: "byte list \<Rightarrow> byte list" where
  "dbus_sha_compute d = dbus_string_hex_encode (sha_finish (sha_append sha_new d))"
section \<open>The standard\<close>

definition Ch :: "32 word \<Rightarrow> 32 word \<Rightarrow> 32 word \<Rightarrow> 32 word" where
  "Ch x y z = (x AND y) XOR (NOT x AND z)"

definition Parity :: "32 word \<Rightarrow> 32 word \<Rightarrow> 32 word \<Rightarrow> 32 word" where
  "Parity x y z = x XOR y XOR z"

definition Maj :: "32 word \<Rightarrow> 32 word \<Rightarrow> 32 word \<Rightarrow> 32 word" where
  "Maj x y z = (x AND y) XOR (x AND z) XOR (y AND z)"

definition fips_f :: "nat \<Rightarrow> 32 word \<Rightarrow> 32 word \<Rightarrow> 32 word \<Rightarrow> 32 word" where
  "fips_f t = (if t < 20 then Ch else if t < 40 then Parity else if t < 60 then Maj else Parity)"

definition fips_K :: "nat \<Rightarrow> 32 word" where
  "fips_K t = (if t < 20 then 0x5A827999 else if t < 40 then 0x6ED9EBA1 else if t < 60 then 0x8F1BBCDC else 0xCA62C1D6)"

fun schedule :: "nat \<Rightarrow> 32 word list \<Rightarrow> 32 word list" where
  "schedule 0 W = W"
| "schedule (Suc n) W =
     (let t = length W
      in schedule n (W @ [word_rotl 1 (W ! (t - 3) XOR W ! (t - 8) XOR W ! (t - 14) XOR W ! (t - 16))]))"

definition fips_step :: "32 word list \<Rightarrow> nat \<Rightarrow> vars \<Rightarrow> vars" where
  "fips_step W t v =
     (case v of (a, b, c, d, e) \<Rightarrow>
        (word_rotl 5 a + fips_f t b c d + e + fips_K t + W ! t, a, word_rotl 30 b, c, d))"

definition compress :: "vars \<Rightarrow> 32 word list \<Rightarrow> vars" where
  "compress H M =
     (case (H, fold (fips_step (schedule 64 M)) [0..<80] H) of ((h0, h1, h2, h3, h4), (a, b, c, d, e)) \<Rightarrow>
        (h0 + a, h1 + b, h2 + c, h3 + d, h4 + e))"

section \<open>The transformation is the standard's compression\<close>

lemma ROTL_rotl: "0 < n \<Longrightarrow> n < 32 \<Longrightarrow> ROTL n x = word_rotl n x"
proof (rule bit_word_eqI)
  fix m assume n: "0 < n" "n < 32" and "m < LENGTH(32)"
  moreover have "32 + m - n = m + 32 - n" by simp
  ultimately show "bit (ROTL n x) m = bit (word_rotl n x) m"
    by (cases "m < n") (auto simp: ROTL_def bit_simps bit_word_rotl_iff mod_if dest: bit_imp_le_length)
qed

lemma round_functions: "f1 = Ch" "f2 = Parity" "f3 = Maj" "f4 = Parity"
  by (intro ext bit_word_eqI; auto simp: f1_def f2_def f3_def f4_def Ch_def Parity_def Maj_def bit_simps)+

lemma length_schedule [simp]: "length (schedule n W) = length W + n"
  by (induction n W rule: schedule.induct) (simp_all add: Let_def)

lemma schedule_prefix: "t < length W \<Longrightarrow> schedule n W ! t = W ! t"
  by (induction n W rule: schedule.induct) (simp_all add: Let_def nth_append)

lemma schedule_step:
  "16 \<le> length W \<Longrightarrow> length W \<le> t \<Longrightarrow> t < length W + n \<Longrightarrow>
   schedule n W ! t = word_rotl 1 (schedule n W ! (t - 3) XOR schedule n W ! (t - 8) XOR
     schedule n W ! (t - 14) XOR schedule n W ! (t - 16))"
proof (induction n W rule: schedule.induct)
  case (2 n W)
  let ?V = "W @ [word_rotl 1 (W ! (length W - 3) XOR W ! (length W - 8) XOR W ! (length W - 14) XOR W ! (length W - 16))]"
  show ?case
  proof (cases "t = length W")
    case True
    have "schedule n ?V ! s = ?V ! s" if "s \<le> length W" for s
      by (rule schedule_prefix) (use that in simp)
    then show ?thesis using True "2.prems" by (simp add: Let_def nth_append)
  next
    case False
    then show ?thesis using 2 by (simp add: Let_def)
  qed
qed simp

text \<open>The circular buffer before round \<open>t\<close> holds the last 16 words of the schedule.\<close>

definition buffer_at :: "32 word list \<Rightarrow> nat \<Rightarrow> 32 word list \<Rightarrow> bool" where
  "buffer_at W t eData \<longleftrightarrow> length eData = 16 \<and>
     (\<forall>j. max t 16 - 16 \<le> j \<and> j < max t 16 \<longrightarrow> eData ! (j mod 16) = W ! j)"

lemma round_data_schedule:
  assumes b: "buffer_at (schedule 64 M) t eData" and M: "length M = 16" and t: "t < 80"
  shows "\<exists>eData'. round_data eData t = (schedule 64 M ! t, eData') \<and> buffer_at (schedule 64 M) (Suc t) eData'"
proof (cases "t < 16")
  case True
  then have "eData ! t = schedule 64 M ! t" using b by (auto simp: buffer_at_def)
  moreover have "max (Suc t) 16 = max t 16" using True by simp
  ultimately show ?thesis using b True by (simp add: round_data_def buffer_at_def)
next
  case False
  have e: "eData ! (j mod 16) = schedule 64 M ! j" if "t - 16 \<le> j" "j < t" for j
    using b that False by (auto simp: buffer_at_def)
  have "(t - 16) mod 16 = t mod 16" using False by (metis le_add_diff_inverse2 mod_add_self2 not_less)
  then have v: "ROTL 1 (eData ! (t mod 16) XOR eData ! ((t - 14) mod 16) XOR eData ! ((t - 8) mod 16) XOR eData ! ((t - 3) mod 16))
      = schedule 64 M ! t"
    using e[of "t - 16"] e[of "t - 14"] e[of "t - 8"] e[of "t - 3"] False M t schedule_step[of M t 64]
    by (simp add: ROTL_rotl ac_simps)
  have "buffer_at (schedule 64 M) (Suc t) (eData[t mod 16 := schedule 64 M ! t])"
    unfolding buffer_at_def
  proof (intro conjI allI impI)
    fix j assume j: "max (Suc t) 16 - 16 \<le> j \<and> j < max (Suc t) 16"
    show "eData[t mod 16 := schedule 64 M ! t] ! (j mod 16) = schedule 64 M ! j"
    proof (cases "j = t")
      case True
      then show ?thesis using b by (simp add: buffer_at_def)
    next
      case ne: False
      then have "t - 16 < j" "j < t" using j False by auto
      moreover have "j mod 16 \<noteq> t mod 16"
      proof
        assume "j mod 16 = t mod 16"
        then have "16 dvd t - j" using \<open>j < t\<close> mod_eq_dvd_iff_nat[of j t 16] by simp
        then show False using \<open>t - 16 < j\<close> \<open>j < t\<close> False by (auto dest: dvd_imp_le)
      qed
      ultimately show ?thesis using e[of j] by simp
    qed
  qed (use b in \<open>simp add: buffer_at_def\<close>)
  then show ?thesis using False v by (simp add: round_data_def expand_def Let_def)
qed

lemma sub_round_step:
  assumes "f = fips_f t \<and> k = fips_K t" "fips_step W t (a, b, c, d, e) = (a', b', c', d', e')"
  shows "subRound (a, b, c, d, e) f k (W ! t) = (b', c', d', e', a')"
  using assms by (auto simp: subRound_def fips_step_def ROTL_rotl add.commute add.left_commute)

lemma five_rounds_steps:
  assumes b: "buffer_at (schedule 64 M) t eData" and M: "length M = 16" and t: "t + 5 \<le> 80"
    and f: "\<And>i. t \<le> i \<Longrightarrow> i < t + 5 \<Longrightarrow> f = fips_f i \<and> k = fips_K i"
  shows "\<exists>eData'. five_rounds f k t (v, eData) = (fold (fips_step (schedule 64 M)) [t..<t + 5] v, eData') \<and>
    buffer_at (schedule 64 M) (t + 5) eData'"
proof -
  let ?W = "schedule 64 M"
  have r: "\<exists>e'. round_data e (t + i) = (?W ! (t + i), e') \<and> buffer_at ?W (t + Suc i) e'"
    if "buffer_at ?W (t + i) e" "i < 5" for i e
    using round_data_schedule[OF that(1) M] that(2) t by simp
  obtain e1 where 1: "round_data eData t = (?W ! t, e1)" "buffer_at ?W (t + 1) e1" using r[of 0] b by auto
  obtain e2 where 2: "round_data e1 (t + 1) = (?W ! (t + 1), e2)" "buffer_at ?W (t + 2) e2" using r[OF 1(2)] by auto
  obtain e3 where 3: "round_data e2 (t + 2) = (?W ! (t + 2), e3)" "buffer_at ?W (t + 3) e3" using r[OF 2(2)] by auto
  obtain e4 where 4: "round_data e3 (t + 3) = (?W ! (t + 3), e4)" "buffer_at ?W (t + 4) e4" using r[OF 3(2)] by auto
  obtain e5 where 5: "round_data e4 (t + 4) = (?W ! (t + 4), e5)" "buffer_at ?W (t + 5) e5" using r[OF 4(2)] by auto
  have l: "[t..<t + 5] = [t, t + 1, t + 2, t + 3, t + 4]"
    by (simp add: upt_conv_Cons eval_nat_numeral)
  obtain A B C D E where v: "v = (A, B, C, D, E)" by (cases v)
  obtain A1 B1 C1 D1 E1 where s1: "fips_step ?W t (A, B, C, D, E) = (A1, B1, C1, D1, E1)"
    by (cases "fips_step ?W t (A, B, C, D, E)")
  obtain A2 B2 C2 D2 E2 where s2: "fips_step ?W (t + 1) (A1, B1, C1, D1, E1) = (A2, B2, C2, D2, E2)"
    by (cases "fips_step ?W (t + 1) (A1, B1, C1, D1, E1)")
  obtain A3 B3 C3 D3 E3 where s3: "fips_step ?W (t + 2) (A2, B2, C2, D2, E2) = (A3, B3, C3, D3, E3)"
    by (cases "fips_step ?W (t + 2) (A2, B2, C2, D2, E2)")
  obtain A4 B4 C4 D4 E4 where s4: "fips_step ?W (t + 3) (A3, B3, C3, D3, E3) = (A4, B4, C4, D4, E4)"
    by (cases "fips_step ?W (t + 3) (A3, B3, C3, D3, E3)")
  obtain A5 B5 C5 D5 E5 where s5: "fips_step ?W (t + 4) (A4, B4, C4, D4, E4) = (A5, B5, C5, D5, E5)"
    by (cases "fips_step ?W (t + 4) (A4, B4, C4, D4, E4)")
  have sub: "subRound (A, B, C, D, E) f k (?W ! t) = (B1, C1, D1, E1, A1)"
    "subRound (A1, B1, C1, D1, E1) f k (?W ! (t + 1)) = (B2, C2, D2, E2, A2)"
    "subRound (A2, B2, C2, D2, E2) f k (?W ! (t + 2)) = (B3, C3, D3, E3, A3)"
    "subRound (A3, B3, C3, D3, E3) f k (?W ! (t + 3)) = (B4, C4, D4, E4, A4)"
    "subRound (A4, B4, C4, D4, E4) f k (?W ! (t + 4)) = (B5, C5, D5, E5, A5)"
    using sub_round_step[OF f s1] sub_round_step[OF f s2] sub_round_step[OF f s3] sub_round_step[OF f s4] sub_round_step[OF f s5]
    by simp_all
  have "five_rounds f k t (v, eData) = ((A5, B5, C5, D5, E5), e5)"
    unfolding five_rounds_def v by (simp only: Let_def 1(1) 2(1) 3(1) 4(1) 5(1) sub prod.case)
  moreover have "fold (fips_step ?W) [t..<t + 5] v = (A5, B5, C5, D5, E5)"
    unfolding l v by (simp only: fold_simps s1 s2 s3 s4 s5)
  ultimately show ?thesis using 5(2) by simp
qed

text \<open>Sixteen times five rounds, from round \<open>t\<close> with its state and buffer.\<close>

definition rounds_done :: "vars \<Rightarrow> 32 word list \<Rightarrow> nat \<Rightarrow> vars \<times> 32 word list \<Rightarrow> bool" where
  "rounds_done H M t s \<longleftrightarrow> fst s = fold (fips_step (schedule 64 M)) [0..<t] H \<and> buffer_at (schedule 64 M) t (snd s)"

lemma rounds_done_five:
  assumes "rounds_done H M t s" "length M = 16" "t + 5 \<le> 80" "t' = t + 5"
    "\<And>i. t \<le> i \<Longrightarrow> i < t + 5 \<Longrightarrow> f = fips_f i \<and> k = fips_K i"
  shows "rounds_done H M t' (five_rounds f k t s)"
proof -
  obtain v e where s: "s = (v, e)" by (cases s)
  have "[0..<t + 5] = [0..<t] @ [t..<t + 5]" by (rule upt_add_eq_append) simp
  then show ?thesis
    using five_rounds_steps[of M t e f k v] assms s by (auto simp: rounds_done_def)
qed

lemma rounds_done_twenty:
  assumes d: "rounds_done H M t s" and M: "length M = 16" and t: "t + 20 \<le> 80"
    and f: "\<And>i. t \<le> i \<Longrightarrow> i < t + 20 \<Longrightarrow> f = fips_f i \<and> k = fips_K i"
  shows "rounds_done H M (t + 20)
    (five_rounds f k (t + 15) (five_rounds f k (t + 10) (five_rounds f k (t + 5) (five_rounds f k t s))))"
  by (rule rounds_done_five[OF rounds_done_five[OF rounds_done_five[OF rounds_done_five[OF d M] M] M] M])
    (use t f in auto)

lemma SHATransform_compress:
  assumes "length M = 16" shows "SHATransform H M = compress H M"
proof -
  have "rounds_done H M 0 (H, M)" using assms by (simp add: rounds_done_def buffer_at_def schedule_prefix)
  note r = this[THEN rounds_done_twenty[OF _ assms, of H 0 _ f1 K1]]
  have k: "f1 = fips_f i \<and> K1 = fips_K i" if "i < 20" for i
    using that by (simp add: fips_f_def fips_K_def round_functions K1_def)
  have k2: "f2 = fips_f i \<and> K2 = fips_K i" if "20 \<le> i" "i < 40" for i
    using that by (simp add: fips_f_def fips_K_def round_functions K2_def)
  have k3: "f3 = fips_f i \<and> K3 = fips_K i" if "40 \<le> i" "i < 60" for i
    using that by (simp add: fips_f_def fips_K_def round_functions K3_def)
  have k4: "f4 = fips_f i \<and> K4 = fips_K i" if "60 \<le> i" for i
    using that by (simp add: fips_f_def fips_K_def round_functions K4_def)
  let ?s4 = "five_rounds f1 K1 15 (five_rounds f1 K1 10 (five_rounds f1 K1 5 (five_rounds f1 K1 0 (H, M))))"
  let ?s8 = "five_rounds f2 K2 35 (five_rounds f2 K2 30 (five_rounds f2 K2 25 (five_rounds f2 K2 20 ?s4)))"
  let ?s12 = "five_rounds f3 K3 55 (five_rounds f3 K3 50 (five_rounds f3 K3 45 (five_rounds f3 K3 40 ?s8)))"
  let ?s16 = "five_rounds f4 K4 75 (five_rounds f4 K4 70 (five_rounds f4 K4 65 (five_rounds f4 K4 60 ?s12)))"
  have "rounds_done H M 20 ?s4" using r k by simp
  then have "rounds_done H M 40 ?s8" using rounds_done_twenty[OF _ assms, of H 20 ?s4 f2 K2] k2 by simp
  then have "rounds_done H M 60 ?s12" using rounds_done_twenty[OF _ assms, of H 40 ?s8 f3 K3] k3 by simp
  then have "rounds_done H M 80 ?s16" using rounds_done_twenty[OF _ assms, of H 60 ?s12 f4 K4] k4 by simp
  then show ?thesis by (simp add: SHATransform_def compress_def rounds_done_def Let_def)
qed

section \<open>The hash of the standard\<close>

definition fips_pad :: "byte list \<Rightarrow> byte list" where
  "fips_pad m = m @ [0x80] @ replicate ((119 - length m mod 64) mod 64) 0 @
     rev (store_le 8 (word_of_nat (8 * length m) :: 64 word))"

fun be_words :: "byte list \<Rightarrow> 32 word list" where
  "be_words (a # b # c # d # bs) = load_le [d, c, b, a] # be_words bs"
| "be_words _ = []"

function hash_blocks :: "vars \<Rightarrow> byte list \<Rightarrow> vars" where
  "hash_blocks H bs =
     (if length bs \<ge> 64 then hash_blocks (compress H (be_words (take 64 bs))) (drop 64 bs) else H)"
  by pat_completeness auto
termination by (relation "measure (length \<circ> snd)") auto

declare hash_blocks.simps [simp del]

definition fips_H0 :: vars where
  "fips_H0 = (0x67452301, 0xEFCDAB89, 0x98BADCFE, 0x10325476, 0xC3D2E1F0)"

definition fips_sha1 :: "byte list \<Rightarrow> byte list" where
  "fips_sha1 m =
     (case hash_blocks fips_H0 (fips_pad m) of (h0, h1, h2, h3, h4) \<Rightarrow>
        concat (map (\<lambda>w. rev (store_le 4 w)) [h0, h1, h2, h3, h4]))"

section \<open>Words in the buffer\<close>

lemma dvd_four [simp]: "4 dvd Suc (Suc (Suc (Suc n))) \<longleftrightarrow> 4 dvd n" "\<not> 4 dvd Suc (Suc 0)" "\<not> 4 dvd Suc (Suc (Suc 0))"
  by presburger+

lemma be_words_append: "4 dvd length xs \<Longrightarrow> be_words (xs @ ys) = be_words xs @ be_words ys"
  by (induction xs rule: be_words.induct) auto

lemma words_of_append: "4 dvd length xs \<Longrightarrow> words_of (xs @ ys) = words_of xs @ words_of ys"
  by (induction xs rule: words_of.induct) auto

lemma length_be_words: "length (be_words xs) = length xs div 4"
  by (induction xs rule: be_words.induct) auto

lemma store_four: "\<exists>a b c d. store_le 4 w = [a, b, c, d]"
  by (simp add: store_le_def upt_conv_Cons eval_nat_numeral)

lemma words_of_store: "words_of (store_le 4 w @ bs) = w # words_of bs"
  using store_four[of w] load_store_le[of 4 w] by auto

lemma words_of_bytes: "words_of (bytes_of ws) = ws"
  by (induction ws) (simp_all add: bytes_of_def words_of_store)

lemma length_bytes_of [simp]: "length (bytes_of ws) = 4 * length ws"
  by (induction ws) (simp_all add: bytes_of_def)

lemma swap_words_of: "map UINT32_SWAP_LE_BE (words_of bs) = be_words bs"
  by (induction bs rule: words_of.induct) (simp_all add: swap32_load del: load_le.simps)

lemma swap_words_read:
  "4 dvd n \<Longrightarrow> n \<le> length bs \<Longrightarrow> words_of (swap_words bs n) = be_words (take n bs) @ words_of (drop n bs)"
  by (simp add: swap_words_def words_of_append swap_words_of words_of_bytes)

lemma length_swap_words [simp]: "4 dvd n \<Longrightarrow> n \<le> length bs \<Longrightarrow> length (swap_words bs n) = length bs"
  by (simp add: swap_words_def swap_words_of length_be_words dvd_mult_div_cancel)

lemma store_swap: "store_le 4 (UINT32_SWAP_LE_BE w) = rev (store_le 4 w)"
proof -
  have "UINT32_SWAP_LE_BE w = load_le (rev (store_le 4 w))"
    using swap32_load[of "store_le 4 w"] load_store_le[of 4 w] by simp
  then show ?thesis using store_load_le[of "rev (store_le 4 w)", where 'a = 32] by simp
qed

lemma length_memmove [simp]: "at + length src \<le> length dest \<Longrightarrow> length (memmove dest at src) = length dest"
  by (simp add: memmove_def)

lemma swap_transform_block:
  "length (data ctx) = 64 \<Longrightarrow> digest (swap_transform ctx) = compress (digest ctx) (be_words (data ctx)) \<and>
    length (data (swap_transform ctx)) = 64 \<and> count_lo (swap_transform ctx) = count_lo ctx \<and>
    count_hi (swap_transform ctx) = count_hi ctx"
  by (simp add: swap_transform_def Let_def swap_words_read SHATransform_compress length_be_words)

section \<open>Feeding the hash\<close>

lemma hash_blocks_append:
  "64 dvd length xs \<Longrightarrow> hash_blocks H (xs @ ys) = hash_blocks (hash_blocks H xs) ys"
proof (induction H xs rule: hash_blocks.induct)
  case (1 H xs)
  show ?case
  proof (cases "64 \<le> length xs")
    case True
    then show ?thesis using 1
      by (simp add: hash_blocks.simps[of H "xs @ ys"] hash_blocks.simps[of H xs] dvd_minus_self)
  next
    case False
    then have "xs = []" using "1.prems" by (auto dest: dvd_imp_le)
    then show ?thesis by (simp add: hash_blocks.simps[of H "[]"])
  qed
qed

lemma hash_blocks_one: "length b = 64 \<Longrightarrow> hash_blocks H b = compress H (be_words b)"
  by (simp add: hash_blocks.simps[of H b] hash_blocks.simps[of _ "[]"])

lemma hash_blocks_short: "length b < 64 \<Longrightarrow> hash_blocks H b = H"
  by (simp add: hash_blocks.simps[of H b])

lemma append_blocks_hash:
  "length (data ctx) = 64 \<Longrightarrow> append_blocks ctx buf = (ctx', rest) \<Longrightarrow>
   digest ctx' = hash_blocks (digest ctx) buf \<and> rest = drop (length buf - length buf mod 64) buf \<and>
   length (data ctx') = 64 \<and> count_lo ctx' = count_lo ctx \<and> count_hi ctx' = count_hi ctx"
proof (induction ctx buf rule: append_blocks.induct)
  case (1 ctx buf)
  show ?case
  proof (cases "64 \<le> length buf")
    case True
    let ?c = "swap_transform (ctx\<lparr>data := memmove (data ctx) 0 (take 64 buf)\<rparr>)"
    have c: "data (ctx\<lparr>data := memmove (data ctx) 0 (take 64 buf)\<rparr>) = take 64 buf"
      using "1.prems"(1) True by (simp add: memmove_def)
    then have b: "digest ?c = compress (digest ctx) (be_words (take 64 buf))" "length (data ?c) = 64"
      "count_lo ?c = count_lo ctx" "count_hi ?c = count_hi ctx"
      using swap_transform_block[of "ctx\<lparr>data := memmove (data ctx) 0 (take 64 buf)\<rparr>"] True by simp_all
    have l: "length buf - 64 - (length buf - 64) mod 64 + 64 = length buf - length buf mod 64"
      using True by (simp add: le_mod_geq mod_less_eq_dividend)
    have "append_blocks ?c (drop 64 buf) = (ctx', rest)"
      using "1.prems"(2) True by (simp add: append_blocks.simps[of ctx buf])
    then show ?thesis
      using "1.IH"[OF True b(2)] b True l by (simp add: hash_blocks.simps[of "digest ctx" buf] add.commute)
  next
    case False
    then show ?thesis using 1 by (simp add: append_blocks.simps[of ctx buf] hash_blocks_short)
  qed
qed

definition fed :: "sha_context \<Rightarrow> byte list \<Rightarrow> bool" where
  "fed ctx m \<longleftrightarrow> length (data ctx) = 64 \<and> digest ctx = hash_blocks fips_H0 m \<and>
     take (length m mod 64) (data ctx) = drop (length m - length m mod 64) m \<and>
     unat (count_hi ctx) * 2 ^ 32 + unat (count_lo ctx) = 8 * length m mod 2 ^ 64"

lemma fed_new: "fed sha_new []"
  by (simp add: fed_def sha_new_def sha_init_def fips_H0_def hash_blocks_short)

lemma digit_mod: "l < b \<Longrightarrow> (A * b + l) mod (b * c) = A mod c * b + (l :: nat)"
  unfolding mod_mult2_eq by simp

lemma counter_add:
  fixes lo hi :: "32 word"
  assumes c: "c < 2 ^ 32"
  defines "lo' \<equiv> lo + push_bit 3 (word_of_nat c)"
  shows "unat ((if lo' < lo then hi + 1 else hi) + drop_bit 29 (word_of_nat c)) * 2 ^ 32 + unat lo' =
    (unat hi * 2 ^ 32 + unat lo + 8 * c) mod 2 ^ 64"
proof -
  define x y k where "x = 8 * c mod 2 ^ 32" and "y = c div 2 ^ 29" and "k = (unat lo + x) div 2 ^ 32"
  have l: "unat lo < 2 ^ 32" using unsigned_less[of lo] by simp
  have x: "unat (push_bit 3 (word_of_nat c :: 32 word)) = x"
    unfolding unsigned_push_bit_eq by (simp add: unsigned_of_nat take_bit_push_bit push_bit_eq_mult take_bit_eq_mod x_def mult.commute mod_mult_right_eq)
  have y: "unat (drop_bit 29 (word_of_nat c :: 32 word)) = y"
    unfolding unat_drop_bit_eq using c by (simp add: unsigned_of_nat take_bit_nat_eq_self drop_bit_eq_div y_def)
  have lo': "unat lo' = (unat lo + x) mod 2 ^ 32"
    unfolding lo'_def unat_word_ariths x by simp
  have "x < 2 ^ 32" by (simp add: x_def)
  have carry: "lo' < lo \<longleftrightarrow> 2 ^ 32 \<le> unat lo + x" "k = (if lo' < lo then 1 else 0)"
    using l \<open>x < 2 ^ 32\<close> unfolding word_less_nat_alt lo' k_def by (auto simp: mod_if div_if)
  have "unat ((if lo' < lo then hi + 1 else hi) + drop_bit 29 (word_of_nat c)) = (unat hi + k + y) mod 2 ^ 32"
    unfolding unat_word_ariths y carry(2) by (simp add: unat_word_ariths mod_simps)
  moreover have "unat hi * 2 ^ 32 + unat lo + 8 * c = (unat hi + k + y) * 2 ^ 32 + unat lo'"
  proof -
    have "8 * c = y * 2 ^ 32 + x" unfolding x_def y_def using div_mult_mod_eq[of "8 * c" "2 ^ 32"] by simp
    moreover have "unat lo + x = k * 2 ^ 32 + unat lo'" unfolding lo' k_def by simp
    ultimately show ?thesis by (simp add: algebra_simps)
  qed
  moreover have "((unat hi + k + y) * 2 ^ 32 + unat lo') mod (2 ^ 32 * 2 ^ 32) = (unat hi + k + y) mod 2 ^ 32 * 2 ^ 32 + unat lo'"
    by (rule digit_mod) (use unsigned_less[of lo'] in simp)
  ultimately show ?thesis by (simp del: power_numeral add: power_add[symmetric])
qed

lemma data_count:
  assumes "unat hi * 2 ^ 32 + unat (lo :: 32 word) = 8 * n mod 2 ^ 64"
  shows "unat (drop_bit 3 lo AND 0x3F) = n mod 64"
proof -
  have "unat lo < 2 ^ 32" using unsigned_less[of lo] by simp
  then have "unat lo = (unat hi * 2 ^ 32 + unat lo) mod 2 ^ 32" by simp
  also have "\<dots> = 8 * n mod 2 ^ 32" unfolding assms by (simp add: mod_mod_cancel)
  also have "\<dots> = 8 * (n mod 2 ^ 29)" using mult_mod_right[of 8 n "2 ^ 29"] by simp
  finally have "unat lo div 8 mod 64 = n mod 64" by (simp add: mod_mod_cancel)
  then show ?thesis
    unfolding unsigned_and_eq unat_drop_bit_eq by (simp add: nat_masks[simplified] drop_bit_eq_div)
qed

text \<open>The part of a message that is not yet hashed.\<close>

definition tail64 :: "byte list \<Rightarrow> byte list" where
  "tail64 m = drop (length m - length m mod 64) m"

lemma length_tail64: "length (tail64 m) = length m mod 64"
  by (simp add: tail64_def)

lemma tail64_append: "64 dvd length z \<Longrightarrow> tail64 (z @ y) = tail64 y"
proof -
  assume "64 dvd length z"
  then have m: "(length z + length y) mod 64 = length y mod 64" by (auto elim!: dvdE)
  have e: "length z + length y - length y mod 64 = length z + (length y - length y mod 64)"
    by (rule diff_add_assoc) (rule mod_less_eq_dividend)
  show ?thesis unfolding tail64_def length_append m e by simp
qed

lemma hash_blocks_tail: "hash_blocks H (m @ b) = hash_blocks (hash_blocks H m) (tail64 m @ b)"
proof -
  let ?k = "length m - length m mod 64"
  have d: "64 dvd length (take ?k m)" by (simp add: dvd_minus_mod)
  have m: "m = take ?k m @ tail64 m" by (simp add: tail64_def)
  have "hash_blocks H m = hash_blocks H (take ?k m)"
    using hash_blocks_append[OF d, of H "tail64 m"] m by (simp add: hash_blocks_short length_tail64)
  moreover have "hash_blocks H (m @ b) = hash_blocks (hash_blocks H (take ?k m)) (tail64 m @ b)"
    using hash_blocks_append[OF d, of H "tail64 m @ b"] m by (metis append.assoc)
  ultimately show ?thesis by simp
qed

lemma fed_tail: "fed ctx m \<longleftrightarrow> length (data ctx) = 64 \<and> digest ctx = hash_blocks fips_H0 m \<and>
     take (length m mod 64) (data ctx) = tail64 m \<and>
     unat (count_hi ctx) * 2 ^ 32 + unat (count_lo ctx) = 8 * length m mod 2 ^ 64"
  by (simp add: fed_def tail64_def)

lemma hash_blocks_fits:
  assumes "length m mod 64 + length b < 64"
  shows "hash_blocks H (m @ b) = hash_blocks H m" "tail64 (m @ b) = tail64 m @ b"
proof -
  show "hash_blocks H (m @ b) = hash_blocks H m"
    using hash_blocks_tail[of H m b] assms by (simp add: hash_blocks_short length_tail64)
  let ?k = "length m - length m mod 64"
  have "64 dvd length (take ?k m)" by (simp add: dvd_minus_mod)
  then have "tail64 (take ?k m @ tail64 m @ b) = tail64 (tail64 m @ b)" by (rule tail64_append)
  moreover have "take ?k m @ tail64 m = m" by (simp add: tail64_def)
  moreover have "tail64 (tail64 m @ b) = tail64 m @ b" using assms by (simp add: tail64_def[of "_ @ _"] length_tail64)
  ultimately show "tail64 (m @ b) = tail64 m @ b" by (metis append.assoc)
qed

lemma hash_blocks_fills:
  assumes "length (tail64 m @ b) = 64"
  shows "hash_blocks H (m @ b) = compress (hash_blocks H m) (be_words (tail64 m @ b))" "64 dvd length (m @ b)"
proof -
  show "hash_blocks H (m @ b) = compress (hash_blocks H m) (be_words (tail64 m @ b))"
    using hash_blocks_tail[of H m b] assms by (simp add: hash_blocks_one)
  have "length m mod 64 + length b = 64" using assms by (simp add: length_tail64)
  then have "(length m + length b) mod 64 = 0" by (metis mod_add_left_eq mod_self)
  then show "64 dvd length (m @ b)" by (simp add: dvd_eq_mod_eq_0)
qed

lemma memmove_take: "at \<le> length dest \<Longrightarrow> take (at + length src) (memmove dest at src) = take at dest @ src"
  by (simp add: memmove_def)

lemma memmove_fill: "at + length src = length dest \<Longrightarrow> memmove dest at src = take at dest @ src"
  by (simp add: memmove_def)

lemma fed_append:
  assumes f: "fed ctx m" and l: "length buf < 2 ^ 32"
  shows "fed (sha_append ctx buf) (m @ buf)"
proof -
  note ft = f[unfolded fed_tail]
  let ?n = "length m mod 64"
  let ?lo = "count_lo ctx + push_bit 3 (word_of_nat (length buf))"
  let ?hi = "(if ?lo < count_lo ctx then count_hi ctx + 1 else count_hi ctx) + drop_bit 29 (word_of_nat (length buf))"
  define c where "c = ctx\<lparr>count_lo := ?lo, count_hi := ?hi\<rparr>"
  have cnt: "unat ?hi * 2 ^ 32 + unat ?lo = 8 * length (m @ buf) mod 2 ^ 64"
  proof -
    have "unat (count_hi ctx) * 2 ^ 32 + unat (count_lo ctx) = 8 * length m mod 2 ^ 64" using ft by blast
    then have "unat ?hi * 2 ^ 32 + unat ?lo = (8 * length m mod 2 ^ 64 + 8 * length buf) mod 2 ^ 64"
      using counter_add[OF l, of "count_lo ctx" "count_hi ctx"] by (simp only:)
    then show ?thesis unfolding mod_add_left_eq length_append distrib_left .
  qed
  have n: "unat (drop_bit 3 (count_lo ctx) AND 0x3F) = ?n" using ft by (intro data_count) blast
  have c: "data c = data ctx" "digest c = digest ctx" "count_lo c = ?lo" "count_hi c = ?hi" by (simp_all add: c_def)
  have step: "sha_append ctx buf =
      (if ?n \<noteq> 0 \<and> length buf < 64 - ?n then c\<lparr>data := memmove (data c) ?n buf\<rparr>
       else case append_blocks
           (if ?n \<noteq> 0 then swap_transform (c\<lparr>data := memmove (data c) ?n (take (64 - ?n) buf)\<rparr>) else c)
           (if ?n \<noteq> 0 then drop (64 - ?n) buf else buf) of
         (c, b) \<Rightarrow> c\<lparr>data := memmove (data c) 0 b\<rparr>)"
    unfolding sha_append_def Let_def n by (simp add: c_def split: prod.splits)
  show ?thesis
  proof (cases "?n \<noteq> 0 \<and> length buf < 64 - ?n")
    case True
    then have fits: "?n + length buf < 64" by linarith
    then have "length (m @ buf) mod 64 = ?n + length buf" by (metis length_append mod_add_left_eq mod_less)
    then show ?thesis
      using True ft c cnt hash_blocks_fits[OF fits] memmove_take[of ?n "data ctx" buf] fits
      by (simp add: step fed_tail)
  next
    case False
    define r where "r = (if ?n \<noteq> 0 then 64 - ?n else 0)"
    define c1 where "c1 = (if ?n \<noteq> 0 then swap_transform (c\<lparr>data := memmove (data c) ?n (take (64 - ?n) buf)\<rparr>) else c)"
    have c1: "digest c1 = hash_blocks fips_H0 (m @ take r buf)" "64 dvd length (m @ take r buf)" "length (data c1) = 64"
      "count_lo c1 = ?lo" "count_hi c1 = ?hi"
    proof -
      have "digest c1 = hash_blocks fips_H0 (m @ take r buf) \<and> 64 dvd length (m @ take r buf) \<and> length (data c1) = 64 \<and>
        count_lo c1 = ?lo \<and> count_hi c1 = ?hi"
      proof (cases "?n = 0")
        case True
        then show ?thesis using ft c by (simp add: c1_def r_def dvd_eq_mod_eq_0)
      next
        case nz: False
        have "?n < 64" by simp
        then have t: "length (take (64 - ?n) buf) = 64 - ?n" "?n + (64 - ?n) = 64" using False nz by auto
        have d: "memmove (data c) ?n (take (64 - ?n) buf) = tail64 m @ take (64 - ?n) buf"
          using ft c t memmove_fill[of ?n "take (64 - ?n) buf" "data c"] by simp
        have "length (tail64 m @ take (64 - ?n) buf) = 64" using t by (simp add: length_tail64)
        note fill = hash_blocks_fills[OF this]
        show ?thesis
          using swap_transform_block[of "c\<lparr>data := memmove (data c) ?n (take (64 - ?n) buf)\<rparr>"] fill d nz ft c t
          by (simp add: c1_def r_def length_tail64)
      qed
      then show "digest c1 = hash_blocks fips_H0 (m @ take r buf)" "64 dvd length (m @ take r buf)" "length (data c1) = 64"
        "count_lo c1 = ?lo" "count_hi c1 = ?hi" by blast+
    qed
    obtain c2 rest where a: "append_blocks c1 (drop r buf) = (c2, rest)" by (cases "append_blocks c1 (drop r buf)")
    note blocks = append_blocks_hash[OF c1(3) a]
    have s: "sha_append ctx buf = c2\<lparr>data := memmove (data c2) 0 rest\<rparr>"
      using a False unfolding step c1_def r_def by (auto split: if_splits)
    have split: "m @ buf = (m @ take r buf) @ drop r buf" by simp
    have t: "rest = tail64 (m @ buf)"
      using blocks tail64_append[OF c1(2), of "drop r buf"] unfolding split tail64_def[of "drop r buf"] by simp
    have dg: "digest c2 = hash_blocks fips_H0 (m @ buf)"
      using blocks c1(1) hash_blocks_append[OF c1(2), of fips_H0 "drop r buf"] unfolding split by simp
    have lr: "length rest = length (m @ buf) mod 64" using t by (simp add: length_tail64)
    have "length (m @ buf) mod 64 < 64" by simp
    then show ?thesis
      using blocks c1(4,5) cnt dg t lr memmove_take[of 0 "data c2" rest] by (simp add: s fed_tail)
  qed
qed

lemma store_split:
  fixes L :: "64 word"
  shows "store_le 8 L = store_le 4 (ucast L :: 32 word) @ store_le 4 (ucast (drop_bit 32 L) :: 32 word)"
proof -
  have "(ucast (drop_bit (8 * i) (ucast L :: 32 word)) :: byte) = ucast (drop_bit (8 * i) L)" if "i < 4" for i
    using that by (intro bit_word_eqI) (auto simp: bit_simps)
  moreover have "(ucast (drop_bit (8 * i) (ucast (drop_bit 32 L) :: 32 word)) :: byte) = ucast (drop_bit (8 * (i + 4)) L)" if "i < 4" for i
    using that by (intro bit_word_eqI) (auto simp: bit_simps add.commute add.left_commute)
  moreover have "[0..<8] = [0..<4] @ map (\<lambda>i. i + 4) [0..<4]" by (simp add: upt_conv_Cons)
  ultimately show ?thesis by (simp add: store_le_def)
qed

lemma count_words:
  fixes hi lo :: "32 word"
  assumes "unat hi * 2 ^ 32 + unat lo = n mod 2 ^ 64"
  shows "lo = ucast (word_of_nat n :: 64 word)" "hi = ucast (drop_bit 32 (word_of_nat n :: 64 word))"
proof -
  have l: "unat lo < 2 ^ 32" "unat hi < 2 ^ 32" using unsigned_less[of lo] unsigned_less[of hi] by simp_all
  have L: "unat (word_of_nat n :: 64 word) = unat hi * 2 ^ 32 + unat lo"
    using assms by (simp add: unsigned_of_nat take_bit_eq_mod)
  have "unat (ucast (word_of_nat n :: 64 word) :: 32 word) = unat lo"
    unfolding unsigned_ucast_eq L using l by (simp add: take_bit_eq_mod)
  then show "lo = ucast (word_of_nat n :: 64 word)" by (simp only: word_unat_eq_iff)
  have "unat (ucast (drop_bit 32 (word_of_nat n :: 64 word)) :: 32 word) = unat hi"
    unfolding unsigned_ucast_eq unat_drop_bit_eq L using l by (simp add: take_bit_eq_mod drop_bit_eq_div)
  then show "hi = ucast (drop_bit 32 (word_of_nat n :: 64 word))" by (simp only: word_unat_eq_iff)
qed

text \<open>The last block: 56 bytes and the two counter words.\<close>

lemma last_block:
  fixes hi lo :: "32 word"
  assumes "length p = 56" "unat hi * 2 ^ 32 + unat lo = n mod 2 ^ 64"
  shows "words_of (swap_words (p @ store_le 4 hi @ store_le 4 lo) 56) = be_words (p @ rev (store_le 8 (word_of_nat n :: 64 word)))"
proof -
  have r: "rev (store_le 8 (word_of_nat n :: 64 word)) = rev (store_le 4 hi) @ rev (store_le 4 lo)"
    unfolding store_split count_words[OF assms(2), symmetric] by simp
  have be: "be_words (rev (store_le 4 w) @ bs) = w # be_words bs" for w :: "32 word" and bs
    using store_four[of w] load_store_le[of 4 w] by (auto simp del: load_le.simps)
  have "words_of (store_le 4 hi @ store_le 4 lo) = [hi, lo]"
    using words_of_store[of hi "store_le 4 lo"] words_of_store[of lo "[]"] by simp
  then show ?thesis
    using assms(1) be[of hi "rev (store_le 4 lo)"] be[of lo "[]"]
    by (simp add: swap_words_read be_words_append r)
qed

text \<open>The message with its padding, cut where the counter words go.\<close>

lemma pad_tail:
  "length m mod 64 < 56 \<Longrightarrow> fips_pad m = m @ 0x80 # replicate (55 - length m mod 64) 0 @ rev (store_le 8 (word_of_nat (8 * length m) :: 64 word))"
  "56 \<le> length m mod 64 \<Longrightarrow> fips_pad m =
     (m @ 0x80 # replicate (63 - length m mod 64) 0) @ replicate 56 0 @ rev (store_le 8 (word_of_nat (8 * length m) :: 64 word))"
proof -
  have 1: "(119 - k) mod 64 = 55 - k" if "k < 56" for k :: nat
  proof -
    have "(119 - k) mod 64 = (64 + (55 - k)) mod 64" by (rule arg_cong[of _ _ "\<lambda>x. x mod 64"]) (use that in linarith)
    also have "\<dots> = (55 - k) mod 64" by (rule mod_add_self1)
    also have "\<dots> = 55 - k" by (rule mod_less) simp
    finally show ?thesis .
  qed
  show "length m mod 64 < 56 \<Longrightarrow> fips_pad m = m @ 0x80 # replicate (55 - length m mod 64) 0 @ rev (store_le 8 (word_of_nat (8 * length m) :: 64 word))"
    unfolding fips_pad_def by (simp only: 1 append_Cons append_Nil)
  have 2: "(119 - k) mod 64 = (63 - k) + 56" if "56 \<le> k" "k < 64" for k :: nat
    using that by (subst mod_less) linarith+
  have "length m mod 64 < 64" by simp
  then show "56 \<le> length m mod 64 \<Longrightarrow> fips_pad m =
     (m @ 0x80 # replicate (63 - length m mod 64) 0) @ replicate 56 0 @ rev (store_le 8 (word_of_nat (8 * length m) :: 64 word))"
    unfolding fips_pad_def by (simp only: 2 replicate_add append_Cons append_Nil append_assoc)
qed

lemma memmove_counts:
  "length d = 64 \<Longrightarrow> length x = 4 \<Longrightarrow> length y = 4 \<Longrightarrow> memmove (memmove d 56 x) 60 y = take 56 d @ x @ y"
  by (simp add: memmove_def)

lemma digest_bytes: "swap_words (bytes_of ws) (4 * length ws) = concat (map (\<lambda>w. rev (store_le 4 w)) ws)"
  by (simp add: swap_words_def words_of_bytes bytes_of_def[of "map _ _"] store_swap o_def)

text \<open>The end of \<open>sha_finish\<close>, from the moment the first 56 bytes are in place.\<close>

lemma finish_last:
  fixes hi lo :: "32 word"
  assumes "length d = 64" "unat hi * 2 ^ 32 + unat lo = 8 * length m mod 2 ^ 64"
    and "hash_blocks fips_H0 (fips_pad m) =
      compress H (be_words (take 56 d @ rev (store_le 8 (word_of_nat (8 * length m) :: 64 word))))"
  shows "(case SHATransform H (words_of (swap_words (memmove (memmove d 56 (store_le 4 hi)) 60 (store_le 4 lo)) 56)) of
      (d0, d1, d2, d3, d4) \<Rightarrow> swap_words (bytes_of [d0, d1, d2, d3, d4]) 20) = fips_sha1 m"
proof -
  have w: "words_of (swap_words (memmove (memmove d 56 (store_le 4 hi)) 60 (store_le 4 lo)) 56) =
      be_words (take 56 d @ rev (store_le 8 (word_of_nat (8 * length m) :: 64 word)))"
    using assms(1) last_block[OF _ assms(2), of "take 56 d"] memmove_counts[of d "store_le 4 hi" "store_le 4 lo"] by simp
  have "length (be_words (take 56 d @ rev (store_le 8 (word_of_nat (8 * length m) :: 64 word)))) = 16"
    using assms(1) by (simp add: length_be_words)
  then show ?thesis
    using digest_bytes[of "[_, _, _, _, _]"] unfolding w fips_sha1_def assms(3)
    by (simp add: SHATransform_compress split: prod.split)
qed

lemma finish_hash:
  assumes f: "fed ctx m" shows "sha_finish ctx = fips_sha1 m"
proof -
  note ft = f[unfolded fed_tail]
  let ?n = "length m mod 64"
  let ?L = "rev (store_le 8 (word_of_nat (8 * length m) :: 64 word))"
  have n: "unat (drop_bit 3 (count_lo ctx) AND 0x3F) = ?n" using ft by (intro data_count) blast
  have n64: "?n < 64" by simp
  define d where "d = (data ctx)[?n := 0x80]"
  have d: "length d = 64" "take (?n + 1) d = tail64 m @ [0x80]"
    using ft n64 by (simp_all add: d_def take_Suc_conv_app_nth)
  show ?thesis
  proof (cases "?n < 56")
    case True
    let ?d = "memmove d (?n + 1) (replicate (55 - ?n) 0)"
    have p: "take 56 ?d = tail64 m @ 0x80 # replicate (55 - ?n) 0"
      using memmove_take[of "?n + 1" d "replicate (55 - ?n) 0"] True d by simp
    have l: "length (tail64 m @ 0x80 # replicate (55 - ?n) 0 @ ?L) = 64" using True by (simp add: length_tail64)
    have "hash_blocks fips_H0 (fips_pad m) = compress (digest ctx) (be_words (take 56 ?d @ ?L))"
      using hash_blocks_fills(1)[OF l, of fips_H0] ft p pad_tail(1)[OF True] by simp
    moreover have "length ?d = 64" using d True by simp
    ultimately have "(case SHATransform (digest ctx) (words_of (swap_words (memmove (memmove ?d 56 (store_le 4 (count_hi ctx))) 60
        (store_le 4 (count_lo ctx))) 56)) of (d0, d1, d2, d3, d4) \<Rightarrow> swap_words (bytes_of [d0, d1, d2, d3, d4]) 20) = fips_sha1 m"
      using ft by (intro finish_last) auto
    moreover have "\<not> 64 - 1 - ?n < 8" "64 - 1 - ?n - 8 = 55 - ?n" using True by auto
    ultimately show ?thesis unfolding sha_finish_def Let_def n by (simp add: d_def)
  next
    case False
    let ?c = "swap_transform (ctx\<lparr>data := memmove d (?n + 1) (replicate (63 - ?n) 0)\<rparr>)"
    let ?d = "memmove (data ?c) 0 (replicate 56 0)"
    have p: "memmove d (?n + 1) (replicate (63 - ?n) 0) = tail64 m @ 0x80 # replicate (63 - ?n) 0"
      using memmove_fill[of "?n + 1" "replicate (63 - ?n) 0" d] n64 d by simp
    have l: "length (tail64 m @ 0x80 # replicate (63 - ?n) 0) = 64" using n64 by (simp add: length_tail64)
    note fill = hash_blocks_fills(1)[OF l, of fips_H0] hash_blocks_fills(2)[OF l]
    have c: "digest ?c = hash_blocks fips_H0 (m @ 0x80 # replicate (63 - ?n) 0)" "length (data ?c) = 64"
      "count_lo ?c = count_lo ctx" "count_hi ?c = count_hi ctx"
      using swap_transform_block[of "ctx\<lparr>data := memmove d (?n + 1) (replicate (63 - ?n) 0)\<rparr>"] p l fill ft by simp_all
    have d56: "take 56 ?d = replicate 56 0" using memmove_take[of 0 "data ?c" "replicate 56 0"] by simp
    have "hash_blocks fips_H0 (fips_pad m) = compress (digest ?c) (be_words (take 56 ?d @ ?L))"
      using hash_blocks_append[OF fill(2), of fips_H0 "replicate 56 0 @ ?L"] pad_tail(2)[of m] False
        hash_blocks_one[of "replicate 56 0 @ ?L"] unfolding c(1) d56 by simp
    moreover have "length ?d = 64" using c by simp
    ultimately have "(case SHATransform (digest ?c) (words_of (swap_words (memmove (memmove ?d 56 (store_le 4 (count_hi ?c))) 60
        (store_le 4 (count_lo ?c))) 56)) of (d0, d1, d2, d3, d4) \<Rightarrow> swap_words (bytes_of [d0, d1, d2, d3, d4]) 20) = fips_sha1 m"
      using ft c(3,4) by (intro finish_last) auto
    moreover have "64 - 1 - ?n < 8" "64 - 1 - ?n = 63 - ?n" using False n64 by auto
    ultimately show ?thesis unfolding sha_finish_def Let_def n by (simp add: d_def)
  qed
qed

lemma fed_init: "length (data ctx) = 64 \<Longrightarrow> fed (sha_init ctx) []"
  by (simp add: fed_def sha_init_def fips_H0_def hash_blocks_short)

interpretation dbus_sha: incremental fed sha_append sha_finish fips_sha1 "\<lambda>b. length b < 2 ^ 32"
  by unfold_locales (fact fed_append, fact finish_hash)

text \<open>
  C15. Whatever the pieces a message is fed in, and whatever the context held before its
  initialisation, the digest is that of the standard on the whole message: block boundaries, the
  carry of the 64-bit counter and both padding cases included.
\<close>

theorem streaming_sha1:
  assumes "length (data ctx) = 64" "list_all (\<lambda>b. length b < 2 ^ 32) bufs"
  shows "sha_finish (foldl sha_append (sha_init ctx) bufs) = fips_sha1 (concat bufs)"
  using dbus_sha.finish_pieces[OF fed_init[OF assms(1)] assms(2)] by simp

theorem streaming_sha1_witness:
  "sha_finish (sha_append (sha_append (sha_init sha_new) [97]) [98, 99]) = fips_sha1 [97, 98, 99]"
  using streaming_sha1[of sha_new "[[97], [98, 99]]"] by (simp add: sha_new_def sha_init_def)

lemma sha_compute_hex:
  "length d < 2 ^ 32 \<Longrightarrow> dbus_sha_compute d = dbus_string_hex_encode (fips_sha1 d)"
  using dbus_sha.finish_pieces[OF fed_new, of "[d]"] by (simp add: dbus_sha_compute_def)

lemma length_sha1: "length (fips_sha1 m) = 20"
  by (simp add: fips_sha1_def split: prod.split)

text \<open>
  The unrolled transformation with its sixteen-word circular buffer and simplified round
  functions is the compression function of the standard.
\<close>

theorem transform_is_compression:
  assumes "length M = 16" shows "SHATransform H M = compress H M"
  using assms by (rule SHATransform_compress)

theorem transform_is_compression_witness:
  "SHATransform fips_H0 [1, 2, 3, 4, 5, 6, 7, 8, 9, 10, 11, 12, 13, 14, 15, 16] =
   compress fips_H0 [1, 2, 3, 4, 5, 6, 7, 8, 9, 10, 11, 12, 13, 14, 15, 16]"
  by (rule transform_is_compression) simp

end
