(* ===== verification/Credentials.thy ===== *)
theory Credentials
  imports Prelude
begin

text \<open>
  Credentials of a peer (\<open>dbus/dbus-credentials.c\<close>): user and process id with their unset
  values, Windows SID and audit data. Copying a string or a block may run out of memory.
\<close>

type_synonym uid = "32 word"
type_synonym pid = "32 word"

definition DBUS_UID_UNSET :: uid where "DBUS_UID_UNSET = - 1"
definition DBUS_PID_UNSET :: pid where "DBUS_PID_UNSET = - 1"

record credentials =
  unix_uid :: uid
  unix_pid :: pid
  windows_sid :: "byte list option"
  adt_audit_data :: "byte list option"

datatype DBusCredentialType =
  CREDENTIAL_UNIX_PROCESS_ID | CREDENTIAL_UNIX_USER_ID | CREDENTIAL_ADT_AUDIT_DATA_ID | CREDENTIAL_WINDOWS_SID

definition dbus_credentials_new :: credentials where
  "dbus_credentials_new = \<lparr>unix_uid = DBUS_UID_UNSET, unix_pid = DBUS_PID_UNSET, windows_sid = None, adt_audit_data = None\<rparr>"

definition dbus_credentials_add_unix_pid :: "credentials \<Rightarrow> pid \<Rightarrow> credentials" where
  "dbus_credentials_add_unix_pid c p = c\<lparr>unix_pid := p\<rparr>"

definition dbus_credentials_add_unix_uid :: "credentials \<Rightarrow> uid \<Rightarrow> credentials" where
  "dbus_credentials_add_unix_uid c u = c\<lparr>unix_uid := u\<rparr>"

definition dbus_credentials_add_windows_sid :: "credentials \<Rightarrow> byte list \<Rightarrow> mem_oracle \<Rightarrow> bool \<times> credentials \<times> mem_oracle" where
  "dbus_credentials_add_windows_sid c sid m =
     (case alloc m of (ok, m) \<Rightarrow> if \<not> ok then (False, c, m) else (True, c\<lparr>windows_sid := Some sid\<rparr>, m))"

definition dbus_credentials_add_adt_audit_data :: "credentials \<Rightarrow> byte list \<Rightarrow> mem_oracle \<Rightarrow> bool \<times> credentials \<times> mem_oracle" where
  "dbus_credentials_add_adt_audit_data c d m =
     (case alloc m of (ok, m) \<Rightarrow> if \<not> ok then (False, c, m) else (True, c\<lparr>adt_audit_data := Some d\<rparr>, m))"

fun dbus_credentials_include :: "credentials \<Rightarrow> DBusCredentialType \<Rightarrow> bool" where
  "dbus_credentials_include c CREDENTIAL_UNIX_PROCESS_ID = (unix_pid c \<noteq> DBUS_PID_UNSET)"
| "dbus_credentials_include c CREDENTIAL_UNIX_USER_ID = (unix_uid c \<noteq> DBUS_UID_UNSET)"
| "dbus_credentials_include c CREDENTIAL_WINDOWS_SID = (windows_sid c \<noteq> None)"
| "dbus_credentials_include c CREDENTIAL_ADT_AUDIT_DATA_ID = (adt_audit_data c \<noteq> None)"

text \<open>
  \<open>memcmp (a, b, n) == 0\<close>; None when it reads past one of the blocks. The audit data is compared
  over the size recorded for the superset.
\<close>

definition memcmp_eq :: "byte list \<Rightarrow> byte list \<Rightarrow> nat \<Rightarrow> bool option" where
  "memcmp_eq a b n = (if n \<le> length a \<and> n \<le> length b then Some (take n a = take n b) else None)"

definition dbus_credentials_are_superset :: "credentials \<Rightarrow> credentials \<Rightarrow> bool option" where
  "dbus_credentials_are_superset c sub =
     (if (unix_pid sub = DBUS_PID_UNSET \<or> unix_pid sub = unix_pid c) \<and>
         (unix_uid sub = DBUS_UID_UNSET \<or> unix_uid sub = unix_uid c) \<and>
         (windows_sid sub = None \<or> windows_sid c \<noteq> None \<and> windows_sid sub = windows_sid c)
      then
        (case adt_audit_data sub of
           None \<Rightarrow> Some True
         | Some d \<Rightarrow>
             (case adt_audit_data c of
                None \<Rightarrow> Some False
              | Some e \<Rightarrow> memcmp_eq d e (length e)))
      else Some False)"

definition dbus_credentials_are_empty :: "credentials \<Rightarrow> bool" where
  "dbus_credentials_are_empty c \<longleftrightarrow> unix_pid c = DBUS_PID_UNSET \<and> unix_uid c = DBUS_UID_UNSET \<and>
     windows_sid c = None \<and> adt_audit_data c = None"

definition dbus_credentials_are_anonymous :: "credentials \<Rightarrow> bool" where
  "dbus_credentials_are_anonymous c \<longleftrightarrow> unix_uid c = DBUS_UID_UNSET \<and> windows_sid c = None"

definition dbus_credentials_add_credential ::
    "credentials \<Rightarrow> DBusCredentialType \<Rightarrow> credentials \<Rightarrow> mem_oracle \<Rightarrow> bool \<times> credentials \<times> mem_oracle" where
  "dbus_credentials_add_credential c which other m =
     (if which = CREDENTIAL_UNIX_PROCESS_ID \<and> unix_pid other \<noteq> DBUS_PID_UNSET
      then (True, dbus_credentials_add_unix_pid c (unix_pid other), m)
      else if which = CREDENTIAL_UNIX_USER_ID \<and> unix_uid other \<noteq> DBUS_UID_UNSET
      then (True, dbus_credentials_add_unix_uid c (unix_uid other), m)
      else if which = CREDENTIAL_WINDOWS_SID \<and> windows_sid other \<noteq> None
      then dbus_credentials_add_windows_sid c (the (windows_sid other)) m
      else if which = CREDENTIAL_ADT_AUDIT_DATA_ID \<and> adt_audit_data other \<noteq> None
      then dbus_credentials_add_adt_audit_data c (the (adt_audit_data other)) m
      else (True, c, m))"

text \<open>\<open>_dbus_credentials_add_credentials\<close>: the four kinds one after the other, as long as memory lasts.\<close>

fun add_kinds :: "DBusCredentialType list \<Rightarrow> credentials \<Rightarrow> credentials \<Rightarrow> mem_oracle \<Rightarrow> bool \<times> credentials \<times> mem_oracle" where
  "add_kinds [] c other m = (True, c, m)"
| "add_kinds (k # ks) c other m =
     (case dbus_credentials_add_credential c k other m of (ok, c, m) \<Rightarrow>
        if \<not> ok then (False, c, m) else add_kinds ks c other m)"

definition dbus_credentials_add_credentials :: "credentials \<Rightarrow> credentials \<Rightarrow> mem_oracle \<Rightarrow> bool \<times> credentials \<times> mem_oracle" where
  "dbus_credentials_add_credentials =
     add_kinds [CREDENTIAL_UNIX_PROCESS_ID, CREDENTIAL_UNIX_USER_ID, CREDENTIAL_ADT_AUDIT_DATA_ID, CREDENTIAL_WINDOWS_SID]"

definition dbus_credentials_clear :: "credentials \<Rightarrow> credentials" where
  "dbus_credentials_clear c = c\<lparr>unix_pid := DBUS_PID_UNSET, unix_uid := DBUS_UID_UNSET, windows_sid := None, adt_audit_data := None\<rparr>"

definition dbus_credentials_copy :: "credentials \<Rightarrow> mem_oracle \<Rightarrow> credentials option \<times> mem_oracle" where
  "dbus_credentials_copy c m =
     (case alloc m of (ok, m) \<Rightarrow>
        if \<not> ok then (None, m)
        else case dbus_credentials_add_credentials dbus_credentials_new c m of (ok, copy, m) \<Rightarrow>
          if \<not> ok then (None, m) else (Some copy, m))"

definition dbus_credentials_same_user :: "credentials \<Rightarrow> credentials \<Rightarrow> bool" where
  "dbus_credentials_same_user c other \<longleftrightarrow> unix_uid c = unix_uid other \<and>
     (\<not> (windows_sid c \<noteq> None \<or> windows_sid other \<noteq> None) \<or>
      windows_sid c \<noteq> None \<and> windows_sid other \<noteq> None \<and> windows_sid c = windows_sid other)"

section \<open>Facts\<close>

lemma clear_empty [simp]: "dbus_credentials_are_empty (dbus_credentials_clear c)" "dbus_credentials_are_anonymous (dbus_credentials_clear c)"
  "unix_uid (dbus_credentials_clear c) = DBUS_UID_UNSET" "windows_sid (dbus_credentials_clear c) = None"
  by (simp_all add: dbus_credentials_clear_def dbus_credentials_are_empty_def dbus_credentials_are_anonymous_def)

lemma add_credential_user:
  assumes "dbus_credentials_add_credential c k other m = (ok, c', m')"
  shows "unix_uid c' = unix_uid c \<or> unix_uid c' = unix_uid other \<and> unix_uid other \<noteq> DBUS_UID_UNSET"
    and "windows_sid c' = windows_sid c \<or> windows_sid c' = windows_sid other"
    and "ok \<Longrightarrow> unix_uid c' = (if k = CREDENTIAL_UNIX_USER_ID \<and> unix_uid other \<noteq> DBUS_UID_UNSET then unix_uid other else unix_uid c)"
    and "k = CREDENTIAL_UNIX_PROCESS_ID \<or> k = CREDENTIAL_ADT_AUDIT_DATA_ID \<Longrightarrow> unix_uid c' = unix_uid c \<and> windows_sid c' = windows_sid c"
  using assms
  by (auto simp: dbus_credentials_add_credential_def dbus_credentials_add_unix_pid_def dbus_credentials_add_unix_uid_def
      dbus_credentials_add_windows_sid_def dbus_credentials_add_adt_audit_data_def split: if_splits prod.splits)

lemma add_kinds_user:
  "add_kinds ks c other m = (ok, c', m') \<Longrightarrow>
   (unix_uid c' = unix_uid c \<or> unix_uid c' = unix_uid other \<and> unix_uid other \<noteq> DBUS_UID_UNSET) \<and>
   (windows_sid c' = windows_sid c \<or> windows_sid c' = windows_sid other) \<and>
   (ok \<longrightarrow> CREDENTIAL_UNIX_USER_ID \<in> set ks \<longrightarrow> unix_uid other \<noteq> DBUS_UID_UNSET \<longrightarrow> unix_uid c' = unix_uid other)"
proof (induction ks arbitrary: c m)
  case (Cons k ks)
  obtain ok1 c1 m1 where s: "dbus_credentials_add_credential c k other m = (ok1, c1, m1)"
    by (cases "dbus_credentials_add_credential c k other m")
  note u = add_credential_user[OF s]
  show ?case
  proof (cases ok1)
    case True
    then have "add_kinds ks c1 other m1 = (ok, c', m')" using Cons.prems s by simp
    from Cons.IH[OF this] u True show ?thesis by auto
  next
    case False
    then show ?thesis using Cons.prems s u by auto
  qed
qed simp

lemmas add_credentials_user = add_kinds_user[of "[CREDENTIAL_UNIX_PROCESS_ID, CREDENTIAL_UNIX_USER_ID, CREDENTIAL_ADT_AUDIT_DATA_ID, CREDENTIAL_WINDOWS_SID]",
  folded dbus_credentials_add_credentials_def, simplified]

lemma superset_user:
  "dbus_credentials_are_superset c sub = Some True \<Longrightarrow>
   (unix_uid sub = DBUS_UID_UNSET \<or> unix_uid sub = unix_uid c) \<and> (windows_sid sub = None \<or> windows_sid sub = windows_sid c)"
  by (auto simp: dbus_credentials_are_superset_def split: if_splits)

end
