(* ===== verification/Auth.thy ===== *)
theory Auth
  imports Credentials Sha
begin

text \<open>
  The authentication conversation of \<open>dbus/dbus-auth.c\<close>, both sides: line framing, commands,
  states, the three mechanisms. The operating system is a parameter: user database, random bytes,
  current user, and the cookie files behind \<open>dbus/dbus-keyring.c\<close>.
\<close>

section \<open>Keyrings\<close>

text \<open>
  \<open>DBusKey\<close> and \<open>DBusKeyring\<close>, as far as a conversation reads them. What loading a cookie
  file and picking a fresh key give is a parameter.
\<close>

record dbus_key =
  key_id :: int
  secret :: "byte list"

record keyring =
  keys :: "dbus_key list"
  keyring_credentials :: credentials

definition find_key_by_id :: "dbus_key list \<Rightarrow> int \<Rightarrow> dbus_key option" where
  "find_key_by_id ks i = find (\<lambda>k. key_id k = i) ks"

definition dbus_keyring_is_for_credentials :: "keyring \<Rightarrow> credentials \<Rightarrow> bool" where
  "dbus_keyring_is_for_credentials k c = dbus_credentials_same_user (keyring_credentials k) c"

definition dbus_keyring_validate_context :: "byte list \<Rightarrow> bool" where
  "dbus_keyring_validate_context ctx \<longleftrightarrow>
     ctx \<noteq> [] \<and> dbus_string_validate_ascii ctx \<and>
     \<not> fst (dbus_string_find ctx 0 (ascii ''/'')) \<and> \<not> fst (dbus_string_find ctx 0 [0x5c]) \<and>
     \<not> fst (dbus_string_find ctx 0 (ascii ''.'')) \<and> \<not> fst (dbus_string_find_blank ctx 0) \<and>
     \<not> fst (dbus_string_find ctx 0 [0x0a]) \<and> \<not> fst (dbus_string_find ctx 0 [0x0d])"

datatype keyring_result = KeyringNoMemory | KeyringFailed | KeyringLoaded keyring

text \<open>The world outside: the first argument counts the calls, so that no two need agree.\<close>

record auth_env =
  env_user :: "nat \<Rightarrow> byte list \<Rightarrow> uid option"
  env_random :: "nat \<Rightarrow> nat \<Rightarrow> byte list option"
  env_current_user :: "nat \<Rightarrow> byte list option"
  env_keyring :: "nat \<Rightarrow> credentials option \<Rightarrow> byte list \<Rightarrow> keyring_result"
  env_best_key :: "nat \<Rightarrow> keyring \<Rightarrow> int \<times> keyring"
  env_strtol :: "byte list \<Rightarrow> int option"
  env_version :: "byte list"

section \<open>The conversation\<close>

datatype DBusAuthCommand =
  COMMAND_AUTH | COMMAND_CANCEL | COMMAND_DATA | COMMAND_BEGIN | COMMAND_REJECTED | COMMAND_OK |
  COMMAND_ERROR | COMMAND_UNKNOWN

datatype auth_state =
  server_state_waiting_for_auth | server_state_waiting_for_data | server_state_waiting_for_begin |
  client_state_need_send_auth | client_state_waiting_for_data | client_state_waiting_for_ok |
  client_state_waiting_for_reject | common_state_authenticated | common_state_need_disconnect

datatype mechanism = EXTERNAL | DBUS_COOKIE_SHA1 | ANONYMOUS

definition all_mechanisms :: "mechanism list" where
  "all_mechanisms = [EXTERNAL, DBUS_COOKIE_SHA1, ANONYMOUS]"

fun mechanism_name :: "mechanism \<Rightarrow> byte list" where
  "mechanism_name EXTERNAL = ascii ''EXTERNAL''"
| "mechanism_name DBUS_COOKIE_SHA1 = ascii ''DBUS_COOKIE_SHA1''"
| "mechanism_name ANONYMOUS = ascii ''ANONYMOUS''"

record auth =
  is_server :: bool
  incoming :: "byte list"
  outgoing :: "byte list"
  state :: auth_state
  mech :: "mechanism option"
  identity :: "byte list"
  socket_credentials :: credentials
  authorized_identity :: credentials
  desired_identity :: credentials
  cookie_context :: "byte list"
  auth_keyring :: "keyring option"
  cookie_id :: int
  challenge :: "byte list"
  allowed_mechs :: "byte list list option"
  needed_memory :: bool
  already_got_mechanisms :: bool
  already_asked_for_initial_response :: bool
  auth_mem :: mem_oracle
  env_calls :: nat

record auth_server = auth +
  failures :: nat
  max_failures :: nat
  guid :: "byte list"

record auth_client = auth +
  mechs_to_try :: "mechanism list"
  guid_from_server :: "byte list"

text \<open>
  An operation returns whether memory sufficed, and the state; None is an abort, by a failed
  assertion or through a null pointer. \<open>and_then\<close> is the C idiom that returns FALSE when the
  first part did.
\<close>

type_synonym 's outcome = "(bool \<times> 's) option"

definition and_then :: "'s outcome \<Rightarrow> ('s \<Rightarrow> 's outcome) \<Rightarrow> 's outcome" where
  "and_then r f = (case r of None \<Rightarrow> None | Some (ok, s) \<Rightarrow> if ok then f s else Some (False, s))"

text \<open>\<open>k\<close> library operations on strings of its own, each of which may run out of memory.\<close>

fun mem_allocs :: "nat \<Rightarrow> mem_oracle \<Rightarrow> bool \<times> mem_oracle" where
  "mem_allocs 0 m = (True, m)"
| "mem_allocs (Suc k) m = (case alloc m of (ok, m) \<Rightarrow> if ok then mem_allocs k m else (False, m))"

definition allocs :: "nat \<Rightarrow> 'z auth_scheme \<Rightarrow> bool \<times> 'z auth_scheme" where
  "allocs k a = (case mem_allocs k (auth_mem a) of (ok, m) \<Rightarrow> (ok, a\<lparr>auth_mem := m\<rparr>))"

definition goto_state :: "'z auth_scheme \<Rightarrow> auth_state \<Rightarrow> 'z auth_scheme" where
  "goto_state a s = a\<lparr>state := s\<rparr>"

text \<open>The next call into the outside world.\<close>

definition ask_env :: "(nat \<Rightarrow> 'b) \<Rightarrow> 'z auth_scheme \<Rightarrow> 'b \<times> 'z auth_scheme" where
  "ask_env f a = (f (env_calls a), a\<lparr>env_calls := env_calls a + 1\<rparr>)"

definition add_credentials_to ::
    "((credentials \<Rightarrow> credentials) \<Rightarrow> 'z auth_scheme \<Rightarrow> 'z auth_scheme) \<Rightarrow> ('z auth_scheme \<Rightarrow> credentials) \<Rightarrow>
     (credentials \<Rightarrow> mem_oracle \<Rightarrow> bool \<times> credentials \<times> mem_oracle) \<Rightarrow> 'z auth_scheme \<Rightarrow> bool \<times> 'z auth_scheme" where
  "add_credentials_to upd sel f a =
     (case f (sel a) (auth_mem a) of (ok, c, m) \<Rightarrow> (ok, (upd (\<lambda>_. c) a)\<lparr>auth_mem := m\<rparr>))"

definition shutdown_mech :: "'z auth_scheme \<Rightarrow> 'z auth_scheme" where
  "shutdown_mech a =
     (let a = a\<lparr>already_asked_for_initial_response := False, identity := [],
                authorized_identity := dbus_credentials_clear (authorized_identity a),
                desired_identity := dbus_credentials_clear (desired_identity a)\<rparr>
      in case mech a of
           None \<Rightarrow> a
         | Some DBUS_COOKIE_SHA1 \<Rightarrow> a\<lparr>cookie_id := - 1, challenge := [], mech := None\<rparr>
         | Some _ \<Rightarrow> a\<lparr>mech := None\<rparr>)"

section \<open>Sending\<close>

definition CRLF :: "byte list" where "CRLF = [0x0d, 0x0a]"

text \<open>On failure the outgoing buffer is cut back to its old length, so nothing is appended.\<close>

definition send_data :: "'z auth_scheme \<Rightarrow> byte list \<Rightarrow> bool \<times> 'z auth_scheme" where
  "send_data a d =
     (case allocs (if d = [] then 1 else 3) a of (ok, a) \<Rightarrow>
        if \<not> ok then (False, a)
        else (True, a\<lparr>outgoing := outgoing a @
          (if d = [] then ascii ''DATA'' @ CRLF
           else ascii ''DATA '' @ dbus_string_hex_encode d @ CRLF)\<rparr>))"

definition rejected_line :: "byte list" where
  "rejected_line = ascii ''REJECTED'' @ concat (map (\<lambda>m. ascii '' '' @ mechanism_name m) all_mechanisms) @ CRLF"

definition send_rejected :: "'z auth_server_scheme \<Rightarrow> bool \<times> 'z auth_server_scheme" where
  "send_rejected a =
     (case allocs (2 + 2 * length all_mechanisms + 2) a of (ok, a) \<Rightarrow>
        if \<not> ok then (False, a)
        else
          let a = a\<lparr>outgoing := outgoing a @ rejected_line\<rparr>;
              a = shutdown_mech a;
              a = a\<lparr>failures := failures a + 1\<rparr>
          in (True, goto_state a (if failures a \<ge> max_failures a then common_state_need_disconnect
                                  else server_state_waiting_for_auth)))"

definition error_line :: "string \<Rightarrow> byte list" where
  "error_line message = ascii ''ERROR '' @ [0x22] @ ascii message @ [0x22] @ CRLF"

definition send_error :: "'z auth_scheme \<Rightarrow> string \<Rightarrow> bool \<times> 'z auth_scheme" where
  "send_error a message =
     (case allocs 1 a of (ok, a) \<Rightarrow>
        if \<not> ok then (False, a) else (True, a\<lparr>outgoing := outgoing a @ error_line message\<rparr>))"

definition send_ok :: "'z auth_server_scheme \<Rightarrow> bool \<times> 'z auth_server_scheme" where
  "send_ok a =
     (case allocs 3 a of (ok, a) \<Rightarrow>
        if \<not> ok then (False, a)
        else (True, goto_state (a\<lparr>outgoing := outgoing a @ ascii ''OK '' @ guid a @ CRLF\<rparr>)
                      server_state_waiting_for_begin))"

definition send_begin :: "'z auth_client_scheme \<Rightarrow> byte list \<Rightarrow> ('z auth_client_scheme) outcome" where
  "send_begin a args_from_ok =
     (if guid_from_server a \<noteq> [] then None
      else
        case allocs 1 a of (ok, a) \<Rightarrow>
          if \<not> ok then Some (False, a)
          else
            let end_of_hex = snd (dbus_string_hex_decode args_from_ok)
            in if end_of_hex \<noteq> length args_from_ok \<or> end_of_hex = 0
               then Some (True, goto_state a common_state_need_disconnect)
               else
                 case allocs 2 a of (ok, a) \<Rightarrow>
                   if ok
                   then Some (True, goto_state (a\<lparr>guid_from_server := args_from_ok,
                          outgoing := outgoing a @ ascii ''BEGIN'' @ CRLF\<rparr>) common_state_authenticated)
                   else Some (False, a\<lparr>guid_from_server := []\<rparr>))"

definition send_cancel :: "'z auth_scheme \<Rightarrow> bool \<times> 'z auth_scheme" where
  "send_cancel a =
     (case allocs 1 a of (ok, a) \<Rightarrow>
        if ok then (True, goto_state (a\<lparr>outgoing := outgoing a @ ascii ''CANCEL'' @ CRLF\<rparr>) client_state_waiting_for_reject)
        else (False, a))"

section \<open>Mechanisms, server side\<close>

definition add_from_user :: "auth_env \<Rightarrow> 'z auth_scheme \<Rightarrow> byte list \<Rightarrow> bool \<times> 'z auth_scheme" where
  "add_from_user env a name =
     (case ask_env (\<lambda>n. env_user env n name) a of
        (None, a) \<Rightarrow> (False, a)
      | (Some u, a) \<Rightarrow> (True, a\<lparr>desired_identity := dbus_credentials_add_unix_uid (desired_identity a) u\<rparr>))"

definition copy_identity :: "'z auth_scheme \<Rightarrow> byte list \<Rightarrow> bool \<times> 'z auth_scheme" where
  "copy_identity a d =
     (if d = [] then (True, a)
      else case allocs 1 a of (ok, a) \<Rightarrow> if \<not> ok then (False, a) else (True, a\<lparr>identity := d\<rparr>))"

definition authorize_desired :: "'z auth_scheme \<Rightarrow> bool \<times> 'z auth_scheme" where
  "authorize_desired a = add_credentials_to authorized_identity_update authorized_identity
     (\<lambda>c. dbus_credentials_add_credentials c (desired_identity a)) a"

definition authorize_from_socket :: "DBusCredentialType \<Rightarrow> 'z auth_scheme \<Rightarrow> bool \<times> 'z auth_scheme" where
  "authorize_from_socket k a = add_credentials_to authorized_identity_update authorized_identity
     (\<lambda>c. dbus_credentials_add_credential c k (socket_credentials a)) a"

definition desire_socket :: "'z auth_scheme \<Rightarrow> bool \<times> 'z auth_scheme" where
  "desire_socket a = add_credentials_to desired_identity_update desired_identity
     (\<lambda>c. dbus_credentials_add_credentials c (socket_credentials a)) a"

definition external_check :: "'z auth_server_scheme \<Rightarrow> ('z auth_server_scheme) outcome" where
  "external_check a =
     (if dbus_credentials_are_anonymous (desired_identity a) then Some (send_rejected a)
      else
        case dbus_credentials_are_superset (socket_credentials a) (desired_identity a) of
          None \<Rightarrow> None
        | Some False \<Rightarrow> Some (send_rejected a)
        | Some True \<Rightarrow>
            and_then (Some (authorize_desired a)) (\<lambda>a.
            and_then (Some (authorize_from_socket CREDENTIAL_UNIX_PROCESS_ID a)) (\<lambda>a.
            and_then (Some (authorize_from_socket CREDENTIAL_ADT_AUDIT_DATA_ID a)) (\<lambda>a.
            Some (send_ok a)))))"

definition external_desired :: "auth_env \<Rightarrow> 'z auth_server_scheme \<Rightarrow> ('z auth_server_scheme) outcome" where
  "external_desired env a =
     (let a = a\<lparr>desired_identity := dbus_credentials_clear (desired_identity a)\<rparr>
      in if identity a = [] then and_then (Some (desire_socket a)) external_check
         else case add_from_user env a (identity a) of (ok, a) \<Rightarrow>
           if \<not> ok then Some (send_rejected a) else external_check a)"

definition handle_server_data_external_mech ::
    "auth_env \<Rightarrow> 'z auth_server_scheme \<Rightarrow> byte list \<Rightarrow> ('z auth_server_scheme) outcome" where
  "handle_server_data_external_mech env a d =
     (if dbus_credentials_are_anonymous (socket_credentials a) then Some (send_rejected a)
      else if d \<noteq> [] \<and> identity a \<noteq> [] then Some (send_rejected a)
      else
        and_then (Some (copy_identity a d)) (\<lambda>a.
          if identity a = [] \<and> \<not> already_asked_for_initial_response a
          then and_then (Some (send_data a [])) (\<lambda>a.
            Some (True, goto_state (a\<lparr>already_asked_for_initial_response := True\<rparr>) server_state_waiting_for_data))
          else external_desired env a))"

fun decimal :: "nat \<Rightarrow> byte list" where
  "decimal n = (if n < 10 then [word_of_nat (48 + n)] else decimal (n div 10) @ [word_of_nat (48 + n mod 10)])"

declare decimal.simps [simp del]

definition N_CHALLENGE_BYTES :: nat where "N_CHALLENGE_BYTES = 128 div 8"

definition first_response_send :: "'z auth_server_scheme \<Rightarrow> int \<Rightarrow> byte list \<Rightarrow> ('z auth_server_scheme) outcome" where
  "first_response_send a i c =
     and_then (Some (allocs 1 (a\<lparr>challenge := c\<rparr>))) (\<lambda>a.
     and_then (Some (send_data a (cookie_context a @ ascii '' '' @ decimal (nat i) @ ascii '' '' @ c))) (\<lambda>a.
     Some (True, goto_state a server_state_waiting_for_data)))"

definition first_response_random :: "auth_env \<Rightarrow> 'z auth_server_scheme \<Rightarrow> int \<Rightarrow> ('z auth_server_scheme) outcome" where
  "first_response_random env a i =
     (case ask_env (\<lambda>n. env_random env n N_CHALLENGE_BYTES) a of
        (None, a) \<Rightarrow> Some (False, a)
      | (Some r, a) \<Rightarrow>
          and_then (Some (allocs 1 (a\<lparr>challenge := []\<rparr>))) (\<lambda>a. first_response_send a i (dbus_string_hex_encode r)))"

definition first_response_challenge :: "auth_env \<Rightarrow> 'z auth_server_scheme \<Rightarrow> ('z auth_server_scheme) outcome" where
  "first_response_challenge env a =
     (case auth_keyring a of
        None \<Rightarrow> None
      | Some k \<Rightarrow>
          (case ask_env (\<lambda>n. env_best_key env n k) a of ((i, k), a) \<Rightarrow>
             let a = a\<lparr>auth_keyring := Some k, cookie_id := i\<rparr>
             in if i < 0 then Some (send_rejected a)
                else and_then (Some (allocs 4 a)) (\<lambda>a. first_response_random env a i)))"

definition first_response_keyring :: "auth_env \<Rightarrow> 'z auth_server_scheme \<Rightarrow> ('z auth_server_scheme) outcome" where
  "first_response_keyring env a =
     (let a = (case auth_keyring a of
                 Some k \<Rightarrow> if \<not> dbus_keyring_is_for_credentials k (desired_identity a) then a\<lparr>auth_keyring := None\<rparr> else a
               | None \<Rightarrow> a)
      in if auth_keyring a = None
         then
           (case ask_env (\<lambda>n. env_keyring env n (Some (desired_identity a)) (cookie_context a)) a of
              (KeyringNoMemory, a) \<Rightarrow> Some (False, a)
            | (KeyringFailed, a) \<Rightarrow> Some (send_rejected a)
            | (KeyringLoaded k, a) \<Rightarrow> first_response_challenge env (a\<lparr>auth_keyring := Some k\<rparr>))
         else first_response_challenge env a)"

definition sha1_handle_first_client_response ::
    "auth_env \<Rightarrow> 'z auth_server_scheme \<Rightarrow> byte list \<Rightarrow> ('z auth_server_scheme) outcome" where
  "sha1_handle_first_client_response env a d =
     (let a = a\<lparr>challenge := []\<rparr>
      in if d \<noteq> [] \<and> identity a \<noteq> [] then Some (send_rejected a)
         else
           and_then (Some (copy_identity a d)) (\<lambda>a.
           case add_from_user env a d of (ok, a) \<Rightarrow>
             if \<not> ok then Some (send_rejected a)
             else and_then (Some (allocs 2 a)) (first_response_keyring env)))"

text \<open>\<open>sha1_compute_hash\<close>: an empty hash when the cookie is not known.\<close>

definition sha1_compute_hash :: "'z auth_scheme \<Rightarrow> int \<Rightarrow> byte list \<Rightarrow> byte list \<Rightarrow> (bool \<times> byte list \<times> 'z auth_scheme) option" where
  "sha1_compute_hash a i server_challenge client_challenge =
     (case auth_keyring a of
        None \<Rightarrow> None
      | Some k \<Rightarrow>
          (case allocs 1 a of (ok, a) \<Rightarrow>
             if \<not> ok then Some (False, [], a)
             else
               case find_key_by_id (keys k) i of
                 None \<Rightarrow> Some (True, [], a)
               | Some key \<Rightarrow>
                   (case allocs 1 a of (ok, a) \<Rightarrow>
                      if \<not> ok then Some (False, [], a)
                      else
                        let cookie = dbus_string_hex_encode (secret key)
                        in if cookie = [] then Some (True, [], a)
                           else
                             case allocs 7 a of (ok, a) \<Rightarrow>
                               if \<not> ok then Some (False, [], a)
                               else Some (True, dbus_sha_compute
                                 (server_challenge @ ascii '':'' @ client_challenge @ ascii '':'' @ cookie), a))))"

definition second_response_hash ::
    "'z auth_server_scheme \<Rightarrow> byte list \<Rightarrow> byte list \<Rightarrow> ('z auth_server_scheme) outcome" where
  "second_response_hash a client_challenge client_hash =
     (if client_challenge = [] \<or> client_hash = [] then Some (send_rejected a)
      else
        and_then (Some (allocs 1 a)) (\<lambda>a.
        case sha1_compute_hash a (cookie_id a) (challenge a) client_challenge of
          None \<Rightarrow> None
        | Some (ok, correct_hash, a) \<Rightarrow>
            if \<not> ok then Some (False, a)
            else if correct_hash = [] then Some (send_rejected a)
            else if client_hash \<noteq> correct_hash then Some (send_rejected a)
            else
              and_then (Some (authorize_desired a)) (\<lambda>a.
              and_then (Some (authorize_from_socket CREDENTIAL_UNIX_PROCESS_ID a)) (\<lambda>a.
              Some (send_ok a)))))"

definition sha1_handle_second_client_response ::
    "'z auth_server_scheme \<Rightarrow> byte list \<Rightarrow> ('z auth_server_scheme) outcome" where
  "sha1_handle_second_client_response a d =
     (case dbus_string_find_blank d 0 of (found, i) \<Rightarrow>
        if \<not> found then Some (send_rejected a)
        else
          and_then (Some (allocs 3 a)) (\<lambda>a.
          case dbus_string_skip_blank d i of
            None \<Rightarrow> None
          | Some j \<Rightarrow>
              and_then (Some (allocs 1 a)) (\<lambda>a. second_response_hash a (take i d) (drop j d))))"

definition handle_server_data_cookie_sha1_mech ::
    "auth_env \<Rightarrow> 'z auth_server_scheme \<Rightarrow> byte list \<Rightarrow> ('z auth_server_scheme) outcome" where
  "handle_server_data_cookie_sha1_mech env a d =
     (if cookie_id a < 0 then sha1_handle_first_client_response env a d
      else sha1_handle_second_client_response a d)"

definition handle_server_data_anonymous_mech :: "'z auth_server_scheme \<Rightarrow> byte list \<Rightarrow> ('z auth_server_scheme) outcome" where
  "handle_server_data_anonymous_mech a d =
     (if d \<noteq> [] \<and> \<not> dbus_string_validate_utf8 d then Some (send_rejected a)
      else
        let a = a\<lparr>desired_identity := dbus_credentials_clear (desired_identity a)\<rparr>
        in and_then (Some (authorize_from_socket CREDENTIAL_UNIX_PROCESS_ID a)) (\<lambda>a. Some (send_ok a)))"

fun server_data_func :: "auth_env \<Rightarrow> mechanism \<Rightarrow> 'z auth_server_scheme \<Rightarrow> byte list \<Rightarrow> ('z auth_server_scheme) outcome" where
  "server_data_func env EXTERNAL = handle_server_data_external_mech env"
| "server_data_func env DBUS_COOKIE_SHA1 = handle_server_data_cookie_sha1_mech env"
| "server_data_func env ANONYMOUS = handle_server_data_anonymous_mech"

section \<open>Server states\<close>

definition find_mech :: "byte list \<Rightarrow> byte list list option \<Rightarrow> mechanism option" where
  "find_mech name allowed =
     (if (case allowed of Some l \<Rightarrow> name \<notin> set l | None \<Rightarrow> False) then None
      else find (\<lambda>m. mechanism_name m = name) all_mechanisms)"

definition process_data :: "'z auth_scheme \<Rightarrow> byte list \<Rightarrow> ('z auth_scheme \<Rightarrow> byte list \<Rightarrow> ('z auth_scheme) outcome) \<Rightarrow>
    ('z auth_scheme) outcome" where
  "process_data a args data_func =
     and_then (Some (allocs 2 a)) (\<lambda>a.
     case dbus_string_hex_decode args of (decoded, end) \<Rightarrow>
       if length args \<noteq> end then Some (send_error a ''Invalid hex encoding'')
       else data_func a decoded)"

text \<open>On a failure the mechanism is forgotten.\<close>

definition forget_mech :: "('z auth_scheme) outcome \<Rightarrow> ('z auth_scheme) outcome" where
  "forget_mech r = (case r of Some (False, a) \<Rightarrow> Some (False, a\<lparr>mech := None\<rparr>) | r \<Rightarrow> r)"

definition auth_by_mech :: "auth_env \<Rightarrow> 'z auth_server_scheme \<Rightarrow> byte list \<Rightarrow> byte list \<Rightarrow> ('z auth_server_scheme) outcome" where
  "auth_by_mech env a name response =
     (let a = a\<lparr>mech := find_mech name (allowed_mechs a)\<rparr>
      in case mech a of
           Some m \<Rightarrow> process_data a response (server_data_func env m)
         | None \<Rightarrow> Some (send_rejected a))"

definition handle_auth :: "auth_env \<Rightarrow> 'z auth_server_scheme \<Rightarrow> byte list \<Rightarrow> ('z auth_server_scheme) outcome" where
  "handle_auth env a args =
     (if args = [] then Some (send_rejected a)
      else
        let i = snd (dbus_string_find_blank args 0)
        in and_then (Some (allocs 2 a)) (\<lambda>a.
           forget_mech (and_then (Some (allocs 1 a)) (\<lambda>a.
           case dbus_string_skip_blank args i of
             None \<Rightarrow> None
           | Some j \<Rightarrow> and_then (Some (allocs 1 a)) (\<lambda>a. auth_by_mech env a (take i args) (drop j args))))))"

fun handle_server_state_waiting_for_auth ::
    "auth_env \<Rightarrow> 'z auth_server_scheme \<Rightarrow> DBusAuthCommand \<Rightarrow> byte list \<Rightarrow> ('z auth_server_scheme) outcome" where
  "handle_server_state_waiting_for_auth env a COMMAND_AUTH args = handle_auth env a args"
| "handle_server_state_waiting_for_auth env a COMMAND_CANCEL args = Some (send_error a ''Not currently in an auth conversation'')"
| "handle_server_state_waiting_for_auth env a COMMAND_DATA args = Some (send_error a ''Not currently in an auth conversation'')"
| "handle_server_state_waiting_for_auth env a COMMAND_BEGIN args = Some (True, goto_state a common_state_need_disconnect)"
| "handle_server_state_waiting_for_auth env a COMMAND_ERROR args = Some (send_rejected a)"
| "handle_server_state_waiting_for_auth env a _ args = Some (send_error a ''Unknown command'')"

fun handle_server_state_waiting_for_data ::
    "auth_env \<Rightarrow> 'z auth_server_scheme \<Rightarrow> DBusAuthCommand \<Rightarrow> byte list \<Rightarrow> ('z auth_server_scheme) outcome" where
  "handle_server_state_waiting_for_data env a COMMAND_AUTH args = Some (send_error a ''Sent AUTH while another AUTH in progress'')"
| "handle_server_state_waiting_for_data env a COMMAND_CANCEL args = Some (send_rejected a)"
| "handle_server_state_waiting_for_data env a COMMAND_ERROR args = Some (send_rejected a)"
| "handle_server_state_waiting_for_data env a COMMAND_DATA args =
     (case mech a of None \<Rightarrow> None | Some m \<Rightarrow> process_data a args (server_data_func env m))"
| "handle_server_state_waiting_for_data env a COMMAND_BEGIN args = Some (True, goto_state a common_state_need_disconnect)"
| "handle_server_state_waiting_for_data env a _ args = Some (send_error a ''Unknown command'')"

fun handle_server_state_waiting_for_begin ::
    "'z auth_server_scheme \<Rightarrow> DBusAuthCommand \<Rightarrow> byte list \<Rightarrow> ('z auth_server_scheme) outcome" where
  "handle_server_state_waiting_for_begin a COMMAND_AUTH args = Some (send_error a ''Sent AUTH while expecting BEGIN'')"
| "handle_server_state_waiting_for_begin a COMMAND_DATA args = Some (send_error a ''Sent DATA while expecting BEGIN'')"
| "handle_server_state_waiting_for_begin a COMMAND_BEGIN args = Some (True, goto_state a common_state_authenticated)"
| "handle_server_state_waiting_for_begin a COMMAND_CANCEL args = Some (send_rejected a)"
| "handle_server_state_waiting_for_begin a COMMAND_ERROR args = Some (send_rejected a)"
| "handle_server_state_waiting_for_begin a _ args = Some (send_error a ''Unknown command'')"

definition server_handler :: "auth_env \<Rightarrow> 'z auth_server_scheme \<Rightarrow> DBusAuthCommand \<Rightarrow> byte list \<Rightarrow> ('z auth_server_scheme) outcome" where
  "server_handler env a =
     (case state a of
        server_state_waiting_for_auth \<Rightarrow> handle_server_state_waiting_for_auth env a
      | server_state_waiting_for_data \<Rightarrow> handle_server_state_waiting_for_data env a
      | server_state_waiting_for_begin \<Rightarrow> handle_server_state_waiting_for_begin a
      | _ \<Rightarrow> (\<lambda>_ _. None))"

section \<open>Mechanisms, client side\<close>

definition initial_response_user :: "auth_env \<Rightarrow> 'z auth_scheme \<Rightarrow> byte list option \<times> 'z auth_scheme" where
  "initial_response_user env a =
     (case allocs 1 a of (ok, a) \<Rightarrow>
        if \<not> ok then (None, a)
        else
          case ask_env (env_current_user env) a of
            (None, a) \<Rightarrow> (None, a)
          | (Some u, a) \<Rightarrow>
              (case allocs 1 a of (ok, a) \<Rightarrow>
                 if \<not> ok then (None, a) else (Some (dbus_string_hex_encode u), a)))"

definition initial_response_anonymous :: "auth_env \<Rightarrow> 'z auth_scheme \<Rightarrow> byte list option \<times> 'z auth_scheme" where
  "initial_response_anonymous env a =
     (case allocs 3 a of (ok, a) \<Rightarrow>
        if \<not> ok then (None, a) else (Some (dbus_string_hex_encode (ascii ''libdbus '' @ env_version env)), a))"

fun client_initial_response :: "auth_env \<Rightarrow> mechanism \<Rightarrow> 'z auth_scheme \<Rightarrow> byte list option \<times> 'z auth_scheme" where
  "client_initial_response env EXTERNAL = initial_response_user env"
| "client_initial_response env DBUS_COOKIE_SHA1 = initial_response_user env"
| "client_initial_response env ANONYMOUS = initial_response_anonymous env"

text \<open>A \<open>long\<close> passed where an \<open>int\<close> is expected keeps its low 32 bits.\<close>

definition long_to_int :: "int \<Rightarrow> int" where "long_to_int v = sint (word_of_int v :: 32 word)"

definition client_answer_challenge ::
    "auth_env \<Rightarrow> 'z auth_scheme \<Rightarrow> int \<Rightarrow> byte list \<Rightarrow> ('z auth_scheme) outcome" where
  "client_answer_challenge env a val server_challenge =
     and_then (Some (allocs 1 a)) (\<lambda>a.
     case ask_env (\<lambda>n. env_random env n N_CHALLENGE_BYTES) a of
       (None, a) \<Rightarrow> Some (False, a)
     | (Some r, a) \<Rightarrow>
         and_then (Some (allocs 3 a)) (\<lambda>a.
         case sha1_compute_hash a (long_to_int val) server_challenge (dbus_string_hex_encode r) of
           None \<Rightarrow> None
         | Some (ok, correct_hash, a) \<Rightarrow>
             if \<not> ok then Some (False, a)
             else if correct_hash = []
             then Some (send_error a ''Don't have the requested cookie ID'')
             else
               and_then (Some (allocs 3 a)) (\<lambda>a.
               Some (send_data a (dbus_string_hex_encode r @ ascii '' '' @ correct_hash)))))"

definition client_load_keyring :: "auth_env \<Rightarrow> 'z auth_scheme \<Rightarrow> byte list \<Rightarrow> int \<Rightarrow> byte list \<Rightarrow> ('z auth_scheme) outcome" where
  "client_load_keyring env a ctx val server_challenge =
     (if auth_keyring a = None
      then
        (case ask_env (\<lambda>n. env_keyring env n None ctx) a of
           (KeyringNoMemory, a) \<Rightarrow> Some (False, a)
         | (KeyringFailed, a) \<Rightarrow> Some (send_error a ''Could not load cookie file'')
         | (KeyringLoaded k, a) \<Rightarrow> client_answer_challenge env (a\<lparr>auth_keyring := Some k\<rparr>) val server_challenge)
      else client_answer_challenge env a val server_challenge)"

definition client_parsed_challenge ::
    "auth_env \<Rightarrow> 'z auth_scheme \<Rightarrow> byte list \<Rightarrow> byte list \<Rightarrow> byte list \<Rightarrow> ('z auth_scheme) outcome" where
  "client_parsed_challenge env a ctx cookie_id_str server_challenge =
     (if \<not> dbus_keyring_validate_context ctx then Some (send_error a ''Server sent invalid cookie context'')
      else
        case env_strtol env cookie_id_str of
          None \<Rightarrow> Some (send_error a ''Could not parse cookie ID as an integer'')
        | Some val \<Rightarrow>
            if server_challenge = [] then Some (send_error a ''Empty server challenge string'')
            else client_load_keyring env a ctx val server_challenge)"

definition handle_client_data_cookie_sha1_mech ::
    "auth_env \<Rightarrow> 'z auth_scheme \<Rightarrow> byte list \<Rightarrow> ('z auth_scheme) outcome" where
  "handle_client_data_cookie_sha1_mech env a d =
     (case dbus_string_find_blank d 0 of (found, i) \<Rightarrow>
        if \<not> found then Some (send_error a ''Server did not send context/ID/challenge properly'')
        else
          and_then (Some (allocs 2 a)) (\<lambda>a.
          case dbus_string_skip_blank d i of
            None \<Rightarrow> None
          | Some i2 \<Rightarrow>
              (case dbus_string_find_blank d i2 of (found, j) \<Rightarrow>
                 if \<not> found then Some (send_error a ''Server did not send context/ID/challenge properly'')
                 else
                   and_then (Some (allocs 3 a)) (\<lambda>a.
                   case dbus_string_skip_blank d j of
                     None \<Rightarrow> None
                   | Some i3 \<Rightarrow>
                       and_then (Some (allocs 1 a)) (\<lambda>a.
                         client_parsed_challenge env a (take i d) (take (j - i2) (drop i2 d)) (drop i3 d))))))"

fun client_data_func :: "auth_env \<Rightarrow> mechanism \<Rightarrow> 'z auth_scheme \<Rightarrow> byte list \<Rightarrow> ('z auth_scheme) outcome" where
  "client_data_func env EXTERNAL a d = Some (True, a)"
| "client_data_func env DBUS_COOKIE_SHA1 a d = handle_client_data_cookie_sha1_mech env a d"
| "client_data_func env ANONYMOUS a d = Some (True, a)"

section \<open>Client states\<close>

definition send_auth :: "auth_env \<Rightarrow> 'z auth_scheme \<Rightarrow> mechanism \<Rightarrow> bool \<times> 'z auth_scheme" where
  "send_auth env a m =
     (case allocs 4 a of (ok, a) \<Rightarrow>
        if \<not> ok then (False, a)
        else
          case client_initial_response env m a of
            (None, a) \<Rightarrow> (False, a)
          | (Some response, a) \<Rightarrow>
              (case allocs 2 a of (ok, a) \<Rightarrow>
                 if \<not> ok then (False, a)
                 else
                   let a = a\<lparr>outgoing := outgoing a @ ascii ''AUTH '' @ mechanism_name m @ ascii '' '' @ response @ CRLF\<rparr>;
                       a = shutdown_mech a
                   in (True, goto_state (a\<lparr>mech := Some m\<rparr>) client_state_waiting_for_data)))"

definition get_word :: "byte list \<Rightarrow> nat \<Rightarrow> (byte list \<times> nat) option" where
  "get_word str start =
     (case dbus_string_skip_blank str start of
        None \<Rightarrow> None
      | Some start \<Rightarrow>
          let i = snd (dbus_string_find_blank str start)
          in if i > start then Some (take (i - start) (drop start str), i) else Some ([], start))"

lemma skip_blank_loop_ge: "i \<le> skip_blank_loop s i"
  by (induction s i rule: skip_blank_loop.induct) auto

lemma skip_blank_loop_stays: "s \<noteq> [] \<Longrightarrow> skip_blank_loop s i = i \<Longrightarrow> \<not> IS_ASCII_BLANK (hd s)"
  using skip_blank_loop_ge[of "i + 1" "tl s"] by (cases s) (auto split: if_splits)

lemma find_blank_loop_ge: "i \<le> snd (find_blank_loop s i)"
  by (induction s i rule: find_blank_loop.induct) auto

lemma find_blank_loop_gt: "s \<noteq> [] \<Longrightarrow> \<not> IS_ASCII_BLANK (hd s) \<Longrightarrow> i < snd (find_blank_loop s i)"
  using find_blank_loop_ge[of "i + 1" "tl s"] by (cases s) auto

lemma get_word_progress:
  assumes "start < length str" "get_word str start = Some (w, pos)"
  shows "start < pos"
proof -
  obtain i where i: "dbus_string_skip_blank str start = Some i"
    using assms by (cases "dbus_string_skip_blank str start") (auto simp: get_word_def)
  then have l: "i = skip_blank_loop (drop start str) start" by (auto simp: dbus_string_skip_blank_def Let_def split: if_splits)
  have ge: "start \<le> i" unfolding l by (rule skip_blank_loop_ge)
  have p: "pos = (if i < snd (dbus_string_find_blank str i) then snd (dbus_string_find_blank str i) else i)"
    using assms i by (auto simp: get_word_def Let_def split: if_splits)
  show ?thesis
  proof (cases "i = start")
    case True
    have "\<not> IS_ASCII_BLANK (hd (drop start str))"
      using skip_blank_loop_stays[of "drop start str" start] assms l True by simp
    then have "start < snd (dbus_string_find_blank str start)"
      using find_blank_loop_gt[of "drop start str" start] assms by (simp add: dbus_string_find_blank_def)
    then show ?thesis using p True by simp
  next
    case False
    then show ?thesis using ge p by (auto split: if_splits)
  qed
qed

text \<open>The loop of \<open>record_mechanisms\<close>; running out of memory empties the list.\<close>

function record_loop :: "'z auth_client_scheme \<Rightarrow> byte list \<Rightarrow> nat \<Rightarrow> ('z auth_client_scheme) outcome" where
  "record_loop a args pos =
     (if pos < length args
      then
        (case allocs 2 a of (ok, a) \<Rightarrow>
           if \<not> ok then Some (False, a\<lparr>mechs_to_try := []\<rparr>)
           else
             case get_word args pos of
               None \<Rightarrow> None
             | Some (m, pos) \<Rightarrow>
                 (case find_mech m (allowed_mechs a) of
                    None \<Rightarrow> record_loop a args pos
                  | Some m \<Rightarrow>
                      if m = hd all_mechanisms then record_loop a args pos
                      else
                        case allocs 1 a of (ok, a) \<Rightarrow>
                          if \<not> ok then Some (False, a\<lparr>mechs_to_try := []\<rparr>)
                          else record_loop (a\<lparr>mechs_to_try := mechs_to_try a @ [m]\<rparr>) args pos))
      else Some (True, a\<lparr>already_got_mechanisms := True\<rparr>))"
  by pat_completeness auto
termination by (relation "measure (\<lambda>(a, args, pos). length args - pos)") (auto dest: get_word_progress intro!: diff_less_mono2)

declare record_loop.simps [simp del]

definition record_mechanisms :: "'z auth_client_scheme \<Rightarrow> byte list \<Rightarrow> ('z auth_client_scheme) outcome" where
  "record_mechanisms a args = (if already_got_mechanisms a then Some (True, a) else record_loop a args 0)"

definition process_rejected :: "auth_env \<Rightarrow> 'z auth_client_scheme \<Rightarrow> byte list \<Rightarrow> ('z auth_client_scheme) outcome" where
  "process_rejected env a args =
     and_then (if \<not> already_got_mechanisms a then record_mechanisms a args else Some (True, a)) (\<lambda>a.
     case mechs_to_try a of
       m # _ \<Rightarrow> and_then (Some (send_auth env a m)) (\<lambda>a. Some (True, a\<lparr>mechs_to_try := tl (mechs_to_try a)\<rparr>))
     | [] \<Rightarrow> Some (True, goto_state a common_state_need_disconnect))"

fun handle_client_state_waiting_for_data ::
    "auth_env \<Rightarrow> 'z auth_client_scheme \<Rightarrow> DBusAuthCommand \<Rightarrow> byte list \<Rightarrow> ('z auth_client_scheme) outcome" where
  "handle_client_state_waiting_for_data env a cmd args =
     (case mech a of
        None \<Rightarrow> None
      | Some m \<Rightarrow>
          (case cmd of
             COMMAND_DATA \<Rightarrow> process_data a args (client_data_func env m)
           | COMMAND_REJECTED \<Rightarrow> process_rejected env a args
           | COMMAND_OK \<Rightarrow> send_begin a args
           | COMMAND_ERROR \<Rightarrow> Some (send_cancel a)
           | _ \<Rightarrow> Some (send_error a ''Unknown command'')))"

fun handle_client_state_waiting_for_ok ::
    "auth_env \<Rightarrow> 'z auth_client_scheme \<Rightarrow> DBusAuthCommand \<Rightarrow> byte list \<Rightarrow> ('z auth_client_scheme) outcome" where
  "handle_client_state_waiting_for_ok env a COMMAND_REJECTED args = process_rejected env a args"
| "handle_client_state_waiting_for_ok env a COMMAND_OK args = send_begin a args"
| "handle_client_state_waiting_for_ok env a COMMAND_DATA args = Some (send_cancel a)"
| "handle_client_state_waiting_for_ok env a COMMAND_ERROR args = Some (send_cancel a)"
| "handle_client_state_waiting_for_ok env a _ args = Some (send_error a ''Unknown command'')"

fun handle_client_state_waiting_for_reject ::
    "auth_env \<Rightarrow> 'z auth_client_scheme \<Rightarrow> DBusAuthCommand \<Rightarrow> byte list \<Rightarrow> ('z auth_client_scheme) outcome" where
  "handle_client_state_waiting_for_reject env a COMMAND_REJECTED args = process_rejected env a args"
| "handle_client_state_waiting_for_reject env a _ args = Some (True, goto_state a common_state_need_disconnect)"

definition client_handler :: "auth_env \<Rightarrow> 'z auth_client_scheme \<Rightarrow> DBusAuthCommand \<Rightarrow> byte list \<Rightarrow> ('z auth_client_scheme) outcome" where
  "client_handler env a =
     (case state a of
        client_state_waiting_for_data \<Rightarrow> handle_client_state_waiting_for_data env a
      | client_state_waiting_for_ok \<Rightarrow> handle_client_state_waiting_for_ok env a
      | client_state_waiting_for_reject \<Rightarrow> handle_client_state_waiting_for_reject env a
      | _ \<Rightarrow> (\<lambda>_ _. None))"

section \<open>Lines\<close>

definition auth_command_names :: "(byte list \<times> DBusAuthCommand) list" where
  "auth_command_names =
     [(ascii ''AUTH'', COMMAND_AUTH), (ascii ''CANCEL'', COMMAND_CANCEL), (ascii ''DATA'', COMMAND_DATA),
      (ascii ''BEGIN'', COMMAND_BEGIN), (ascii ''REJECTED'', COMMAND_REJECTED), (ascii ''OK'', COMMAND_OK),
      (ascii ''ERROR'', COMMAND_ERROR)]"

definition lookup_command_from_name :: "byte list \<Rightarrow> DBusAuthCommand" where
  "lookup_command_from_name command =
     (case find (\<lambda>(n, c). n = command) auth_command_names of Some (n, c) \<Rightarrow> c | None \<Rightarrow> COMMAND_UNKNOWN)"

type_synonym 's command_handler = "'s \<Rightarrow> DBusAuthCommand \<Rightarrow> byte list \<Rightarrow> 's outcome"

text \<open>
  The line in hand: \<open>validate_ascii\<close>, the command name up to the first blank, the arguments after
  the blanks, and the handler of the state.
\<close>

definition process_line :: "('z auth_scheme) command_handler \<Rightarrow> 'z auth_scheme \<Rightarrow> byte list \<Rightarrow> ('z auth_scheme) outcome" where
  "process_line handler a line =
     (if \<not> dbus_string_validate_ascii line then Some (send_error a ''Command contained non-ASCII'')
      else
        let i = snd (dbus_string_find_blank line 0)
        in case dbus_string_skip_blank line i of
             None \<Rightarrow> None
           | Some j \<Rightarrow>
               and_then (Some (allocs 1 a)) (\<lambda>a. handler a (lookup_command_from_name (take i line)) (drop j line)))"

definition process_command :: "('z auth_scheme) command_handler \<Rightarrow> 'z auth_scheme \<Rightarrow> ('z auth_scheme) outcome" where
  "process_command handler a =
     (case dbus_string_find (incoming a) 0 CRLF of (found, eol) \<Rightarrow>
        if \<not> found then Some (False, a)
        else
          case and_then (Some (allocs 3 a)) (\<lambda>b. process_line handler b (take eol (incoming a))) of
            None \<Rightarrow> None
          | Some (ok, a) \<Rightarrow>
              if ok then Some (True, a\<lparr>incoming := drop 2 (drop eol (incoming a)), needed_memory := False\<rparr>)
              else Some (False, a\<lparr>needed_memory := True\<rparr>))"

section \<open>The object\<close>

datatype DBusAuthState =
  AUTH_STATE_WAITING_FOR_INPUT | AUTH_STATE_WAITING_FOR_MEMORY | AUTH_STATE_HAVE_BYTES_TO_SEND |
  AUTH_STATE_NEED_DISCONNECT | AUTH_STATE_AUTHENTICATED

text \<open>The states whose handler is NULL.\<close>

definition in_end_state :: "'z auth_scheme \<Rightarrow> bool" where
  "in_end_state a \<longleftrightarrow> state a \<in> {client_state_need_send_auth, common_state_authenticated, common_state_need_disconnect}"

definition MAX_BUFFER :: nat where "MAX_BUFFER = 16 * 1024"

definition buffer_overrun :: "'z auth_scheme \<Rightarrow> bool" where
  "buffer_overrun a \<longleftrightarrow> length (incoming a) > MAX_BUFFER \<or> length (outgoing a) > MAX_BUFFER"

text \<open>The loop of \<open>_dbus_auth_do_work\<close>; every command takes two bytes or more off the input.\<close>

fun do_work_loop :: "nat \<Rightarrow> ('z auth_scheme) command_handler \<Rightarrow> 'z auth_scheme \<Rightarrow> ('z auth_scheme) option" where
  "do_work_loop 0 handler a = None"
| "do_work_loop (Suc fuel) handler a =
     (if in_end_state a then Some a
      else if buffer_overrun a then Some (goto_state a common_state_need_disconnect)
      else
        case process_command handler a of
          None \<Rightarrow> None
        | Some (again, a) \<Rightarrow> if again then do_work_loop fuel handler a else Some a)"

definition work_result :: "'z auth_scheme \<Rightarrow> DBusAuthState" where
  "work_result a =
     (if needed_memory a then AUTH_STATE_WAITING_FOR_MEMORY
      else if outgoing a \<noteq> [] then AUTH_STATE_HAVE_BYTES_TO_SEND
      else if state a = common_state_need_disconnect then AUTH_STATE_NEED_DISCONNECT
      else if state a = common_state_authenticated then AUTH_STATE_AUTHENTICATED
      else AUTH_STATE_WAITING_FOR_INPUT)"

definition dbus_auth_do_work :: "('z auth_scheme) command_handler \<Rightarrow> 'z auth_scheme \<Rightarrow> (DBusAuthState \<times> 'z auth_scheme) option" where
  "dbus_auth_do_work handler a =
     (case do_work_loop (Suc (length (incoming a))) handler (a\<lparr>needed_memory := False\<rparr>) of
        None \<Rightarrow> None
      | Some a \<Rightarrow> Some (work_result a, a))"

definition dbus_auth_new :: "bool \<Rightarrow> auth_state \<Rightarrow> mem_oracle \<Rightarrow> auth option \<times> mem_oracle" where
  "dbus_auth_new server s m =
     (case mem_allocs 10 m of (ok, m) \<Rightarrow>
        if \<not> ok then (None, m)
        else (Some \<lparr>is_server = server, incoming = [], outgoing = [], state = s, mech = None, identity = [],
                socket_credentials = dbus_credentials_new, authorized_identity = dbus_credentials_new,
                desired_identity = dbus_credentials_new, cookie_context = ascii ''org_freedesktop_general'',
                auth_keyring = None, cookie_id = - 1, challenge = [], allowed_mechs = None, needed_memory = False,
                already_got_mechanisms = False, already_asked_for_initial_response = False,
                auth_mem = m, env_calls = 0\<rparr>, m))"

definition dbus_auth_server_new :: "byte list \<Rightarrow> mem_oracle \<Rightarrow> auth_server option \<times> mem_oracle" where
  "dbus_auth_server_new g m =
     (case mem_allocs 2 m of (ok, m) \<Rightarrow>
        if \<not> ok then (None, m)
        else
          case dbus_auth_new True server_state_waiting_for_auth m of
            (None, m) \<Rightarrow> (None, m)
          | (Some a, m) \<Rightarrow> (Some (auth.extend a (auth_server.fields 0 6 g)), m))"

definition dbus_auth_client_new :: "auth_env \<Rightarrow> mem_oracle \<Rightarrow> auth_client option \<times> mem_oracle" where
  "dbus_auth_client_new env m =
     (case mem_allocs 1 m of (ok, m) \<Rightarrow>
        if \<not> ok then (None, m)
        else
          case dbus_auth_new False client_state_need_send_auth m of
            (None, m) \<Rightarrow> (None, m)
          | (Some a, m) \<Rightarrow>
              (case send_auth env (auth.extend a (auth_client.fields [] [])) (hd all_mechanisms) of (ok, a) \<Rightarrow>
                 if \<not> ok then (None, auth_mem a) else (Some a, auth_mem a)))"

definition dbus_auth_set_mechanisms :: "'z auth_scheme \<Rightarrow> byte list list option \<Rightarrow> bool \<times> 'z auth_scheme" where
  "dbus_auth_set_mechanisms a mechanisms =
     (case mechanisms of
        None \<Rightarrow> (True, a\<lparr>allowed_mechs := None\<rparr>)
      | Some l \<Rightarrow>
          (case allocs (length l + 1) a of (ok, a) \<Rightarrow>
             if \<not> ok then (False, a) else (True, a\<lparr>allowed_mechs := Some l\<rparr>)))"

definition dbus_auth_get_bytes_to_send :: "'z auth_scheme \<Rightarrow> byte list option" where
  "dbus_auth_get_bytes_to_send a = (if outgoing a = [] then None else Some (outgoing a))"

definition dbus_auth_bytes_sent :: "'z auth_scheme \<Rightarrow> nat \<Rightarrow> ('z auth_scheme) option" where
  "dbus_auth_bytes_sent a n =
     (if n \<le> length (outgoing a) then Some (a\<lparr>outgoing := drop n (outgoing a)\<rparr>) else None)"

text \<open>\<open>_dbus_auth_get_buffer\<close>, bytes read into the buffer, \<open>_dbus_auth_return_buffer\<close>.\<close>

definition dbus_auth_read :: "'z auth_scheme \<Rightarrow> byte list \<Rightarrow> 'z auth_scheme" where
  "dbus_auth_read a bytes = a\<lparr>incoming := incoming a @ bytes\<rparr>"

definition dbus_auth_get_unused_bytes :: "'z auth_scheme \<Rightarrow> byte list option" where
  "dbus_auth_get_unused_bytes a = (if \<not> in_end_state a then None else Some (incoming a))"

definition dbus_auth_delete_unused_bytes :: "'z auth_scheme \<Rightarrow> 'z auth_scheme" where
  "dbus_auth_delete_unused_bytes a = (if \<not> in_end_state a then a else a\<lparr>incoming := []\<rparr>)"

text \<open>The encode and decode functions of the table, per side: NULL in every row.\<close>

fun encode_func :: "bool \<Rightarrow> mechanism \<Rightarrow> (byte list \<Rightarrow> byte list option) option" where
  "encode_func server EXTERNAL = None"
| "encode_func server DBUS_COOKIE_SHA1 = None"
| "encode_func server ANONYMOUS = None"

definition dbus_auth_needs_encoding :: "'z auth_scheme \<Rightarrow> bool" where
  "dbus_auth_needs_encoding a =
     (if state a \<noteq> common_state_authenticated then False
      else case mech a of Some m \<Rightarrow> encode_func (is_server a) m \<noteq> None | None \<Rightarrow> False)"

definition dbus_auth_encode_data :: "'z auth_scheme \<Rightarrow> byte list \<Rightarrow> byte list \<Rightarrow> mem_oracle \<Rightarrow> bool \<times> byte list \<times> mem_oracle" where
  "dbus_auth_encode_data a plaintext encoded m =
     (if state a \<noteq> common_state_authenticated then (False, encoded, m)
      else if dbus_auth_needs_encoding a
      then
        (case the (encode_func (is_server a) (the (mech a))) plaintext of
           None \<Rightarrow> (False, encoded, m)
         | Some d \<Rightarrow> (True, encoded @ d, m))
      else case alloc m of (ok, m) \<Rightarrow> if \<not> ok then (False, encoded, m) else (True, encoded @ plaintext, m))"

definition dbus_auth_set_credentials :: "'z auth_scheme \<Rightarrow> credentials \<Rightarrow> bool \<times> 'z auth_scheme" where
  "dbus_auth_set_credentials a c =
     add_credentials_to socket_credentials_update socket_credentials (\<lambda>s. dbus_credentials_add_credentials s c)
       (a\<lparr>socket_credentials := dbus_credentials_clear (socket_credentials a)\<rparr>)"

definition dbus_auth_get_identity :: "'z auth_scheme \<Rightarrow> credentials option" where
  "dbus_auth_get_identity a =
     (if state a = common_state_authenticated then Some (authorized_identity a)
      else if dbus_credentials_are_empty (authorized_identity a) then Some (authorized_identity a) else None)"

definition dbus_auth_get_guid_from_server :: "'z auth_client_scheme \<Rightarrow> byte list option" where
  "dbus_auth_get_guid_from_server a =
     (if state a = common_state_authenticated then Some (guid_from_server a) else None)"

text \<open>
  \<open>_dbus_auth_set_context\<close> as written: the old context loses as many bytes as the new one has, and the
  call aborts when it has fewer.
\<close>

definition dbus_auth_set_context :: "'z auth_scheme \<Rightarrow> byte list \<Rightarrow> ('z auth_scheme) outcome" where
  "dbus_auth_set_context a ctx =
     (if length ctx > length (cookie_context a) then None
      else case allocs 1 a of (ok, a) \<Rightarrow>
        if \<not> ok then Some (False, a)
        else Some (True, a\<lparr>cookie_context := ctx @ drop (length ctx) (cookie_context a)\<rparr>))"

end
