(* ===== verification/AuthInv.thy ===== *)
theory AuthInv
  imports Auth
begin

text \<open>
  What every authentication handler keeps. Rules for postconditions of outcomes come first, then
  the invariant of the server side and of the client side, one lemma per operation.
\<close>

section \<open>Postconditions\<close>

text \<open>
  \<open>post b r Q\<close>: the outcome satisfies \<open>Q\<close>; an abort is tolerated when \<open>b\<close> holds.
\<close>

definition post :: "bool \<Rightarrow> 's outcome \<Rightarrow> (bool \<Rightarrow> 's \<Rightarrow> bool) \<Rightarrow> bool" where
  "post b r Q = (case r of None \<Rightarrow> b | Some (ok, a) \<Rightarrow> Q ok a)"

named_theorems post_rules

lemma post_Some [simp]: "post b (Some (ok, a)) Q = Q ok a"
  by (simp add: post_def)

lemma post_None [simp]: "post b None Q = b"
  by (simp add: post_def)

lemma post_pair: "post b (Some p) Q = Q (fst p) (snd p)"
  by (simp add: post_def split: prod.splits)

lemma post_False: "post False r Q \<Longrightarrow> r \<noteq> None"
  by (cases r) (simp_all add: post_def)

lemma post_mono: "post b r P \<Longrightarrow> (\<And>ok a. P ok a \<Longrightarrow> Q ok a) \<Longrightarrow> post b r Q"
  by (auto simp: post_def split: option.splits)

lemma post_and_then: "post b r (\<lambda>ok a. if ok then post b (f a) Q else Q False a) \<Longrightarrow> post b (and_then r f) Q"
  by (auto simp: post_def and_then_def split: option.splits prod.splits if_splits)

lemma post_forget: "post b r (\<lambda>ok a. if ok then Q True a else Q False (a\<lparr>mech := None\<rparr>)) \<Longrightarrow> post b (forget_mech r) Q"
  by (auto simp: post_def forget_mech_def split: option.splits prod.splits bool.splits if_splits)

lemma post_allocs: "(\<And>ok m. Q ok (a\<lparr>auth_mem := m\<rparr>)) \<Longrightarrow> post b (Some (allocs k a)) Q"
  by (simp add: allocs_def split: prod.splits)

lemma allocs_same: "allocs k a = (ok, a') \<Longrightarrow> \<exists>m. a' = a\<lparr>auth_mem := m\<rparr>"
  by (auto simp: allocs_def split: prod.splits)

lemma ask_env_same: "ask_env f a = (x, a') \<Longrightarrow> a' = a\<lparr>env_calls := env_calls a + 1\<rparr>"
  by (simp add: ask_env_def)

section \<open>Credentials taken over\<close>

lemma add_credential_adt:
  "dbus_credentials_add_credential c k other m = (ok, c', m') \<Longrightarrow>
   adt_audit_data c' = adt_audit_data c \<or> adt_audit_data c' = adt_audit_data other"
  by (auto simp: dbus_credentials_add_credential_def dbus_credentials_add_unix_pid_def dbus_credentials_add_unix_uid_def
      dbus_credentials_add_windows_sid_def dbus_credentials_add_adt_audit_data_def split: if_splits prod.splits)

lemma add_kinds_adt:
  "add_kinds ks c other m = (ok, c', m') \<Longrightarrow>
   adt_audit_data c' = adt_audit_data c \<or> adt_audit_data c' = adt_audit_data other"
proof (induction ks arbitrary: c m)
  case (Cons k ks)
  obtain ok1 c1 m1 where s: "dbus_credentials_add_credential c k other m = (ok1, c1, m1)"
    by (cases "dbus_credentials_add_credential c k other m")
  from add_credential_adt[OF s] Cons s show ?case by (cases ok1) (simp, metis, auto)
qed simp

definition within :: "credentials \<Rightarrow> credentials \<Rightarrow> bool" where
  "within c d \<longleftrightarrow> (unix_uid d = DBUS_UID_UNSET \<or> unix_uid d = unix_uid c) \<and>
     (windows_sid d = None \<or> windows_sid d = windows_sid c)"

lemma within_clear [simp]: "within c (dbus_credentials_clear d)"
  by (simp add: within_def)

lemma within_add:
  "within c d \<Longrightarrow> within c other \<Longrightarrow> dbus_credentials_add_credentials d other m = (ok, d', m') \<Longrightarrow> within c d'"
  using add_credentials_user[of d other m ok d' m'] by (auto simp: within_def)

lemma within_add_credential:
  "within c d \<Longrightarrow> dbus_credentials_add_credential d k c m = (ok, d', m') \<Longrightarrow> within c d'"
  using add_credential_user(1,2)[of d k c m ok d' m'] by (auto simp: within_def)

lemma within_refl [simp]: "within c c"
  by (simp add: within_def)

lemma within_superset: "dbus_credentials_are_superset c d = Some True \<Longrightarrow> within c d"
  using superset_user[of c d] by (auto simp: within_def)

lemma superset_total:
  "adt_audit_data d = None \<or> adt_audit_data d = adt_audit_data c \<Longrightarrow> dbus_credentials_are_superset c d \<noteq> None"
  by (auto simp: dbus_credentials_are_superset_def memcmp_eq_def split: option.splits)

section \<open>The invariant of the server side\<close>

definition cookie_allowed :: "byte list list option \<Rightarrow> bool" where
  "cookie_allowed al = (case al of None \<Rightarrow> True | Some l \<Rightarrow> mechanism_name DBUS_COOKIE_SHA1 \<in> set l)"

definition waiting :: "auth_state \<Rightarrow> bool" where
  "waiting st \<longleftrightarrow> st \<in> {server_state_waiting_for_auth, server_state_waiting_for_data, server_state_waiting_for_begin}"

text \<open>An EXTERNAL peer is authorized as the user the socket belongs to.\<close>

definition external_authorized :: "credentials \<Rightarrow> mechanism option \<Rightarrow> credentials \<Rightarrow> bool" where
  "external_authorized c m d \<longleftrightarrow> (m = Some EXTERNAL \<and> windows_sid c = None \<longrightarrow>
     unix_uid d = unix_uid c \<and> unix_uid c \<noteq> DBUS_UID_UNSET)"

definition inv_state :: "auth_state \<Rightarrow> mechanism option \<Rightarrow> nat \<Rightarrow> bool" where
  "inv_state st m f \<longleftrightarrow>
     (waiting st \<or> st = common_state_authenticated \<or> st = common_state_need_disconnect) \<and>
     (st = server_state_waiting_for_data \<longrightarrow> m \<noteq> None) \<and>
     f \<le> 6 \<and> (f = 6 \<longrightarrow> st = common_state_need_disconnect)"

definition inv_keyring :: "int \<Rightarrow> keyring option \<Rightarrow> bool" where
  "inv_keyring i k \<longleftrightarrow> (0 \<le> i \<longrightarrow> k \<noteq> None)"

definition inv_desired :: "credentials \<Rightarrow> credentials \<Rightarrow> bool" where
  "inv_desired c d \<longleftrightarrow> adt_audit_data d = None \<or> adt_audit_data d = adt_audit_data c"

definition inv_authorized :: "credentials \<Rightarrow> byte list list option \<Rightarrow> auth_state \<Rightarrow> mechanism option \<Rightarrow> credentials \<Rightarrow> bool" where
  "inv_authorized c al st m d \<longleftrightarrow>
     (\<not> cookie_allowed al \<longrightarrow> m \<noteq> Some DBUS_COOKIE_SHA1 \<and> within c d) \<and>
     (st = server_state_waiting_for_begin \<or> st = common_state_authenticated \<longrightarrow> external_authorized c m d)"

definition server_inv :: "credentials \<Rightarrow> byte list list option \<Rightarrow> 'z auth_server_scheme \<Rightarrow> bool" where
  "server_inv c al a \<longleftrightarrow>
     socket_credentials a = c \<and> allowed_mechs a = al \<and> max_failures a = 6 \<and>
     inv_state (state a) (mech a) (failures a) \<and> inv_keyring (cookie_id a) (auth_keyring a) \<and>
     inv_desired c (desired_identity a) \<and> inv_authorized c al (state a) (mech a) (authorized_identity a)"

text \<open>Before and after an operation of a handler: state \<open>st\<close>, mechanism \<open>m\<close>, input \<open>s\<close>.\<close>

definition busy :: "credentials \<Rightarrow> byte list list option \<Rightarrow> byte list \<Rightarrow> auth_state \<Rightarrow> mechanism option \<Rightarrow> 'z auth_server_scheme \<Rightarrow> bool" where
  "busy c al s st m a \<longleftrightarrow> server_inv c al a \<and> incoming a = s \<and> state a = st \<and> waiting st \<and> mech a = m"

definition kept :: "credentials \<Rightarrow> byte list list option \<Rightarrow> byte list \<Rightarrow> auth_state \<Rightarrow> bool \<Rightarrow> 'z auth_server_scheme \<Rightarrow> bool" where
  "kept c al s st ok a \<longleftrightarrow> server_inv c al a \<and> incoming a = s \<and> (\<not> ok \<longrightarrow> state a = st)"

lemma busy_kept: "busy c al s st m a \<Longrightarrow> kept c al s st ok a"
  by (simp add: busy_def kept_def)

lemma busy_frame [simp]:
  "busy c al s st m (a\<lparr>auth_mem := x1\<rparr>) = busy c al s st m a"
  "busy c al s st m (a\<lparr>env_calls := x2\<rparr>) = busy c al s st m a"
  "busy c al s st m (a\<lparr>identity := x3\<rparr>) = busy c al s st m a"
  "busy c al s st m (a\<lparr>challenge := x4\<rparr>) = busy c al s st m a"
  "busy c al s st m (a\<lparr>outgoing := x5\<rparr>) = busy c al s st m a"
  "busy c al s st m (a\<lparr>already_asked_for_initial_response := x6\<rparr>) = busy c al s st m a"
  by (simp_all add: busy_def server_inv_def)

lemma busy_keyring: "busy c al s st m a \<Longrightarrow> busy c al s st m (a\<lparr>auth_keyring := Some k\<rparr>)"
  by (auto simp: busy_def server_inv_def inv_keyring_def)

lemma busy_desired: "busy c al s st m a \<Longrightarrow> inv_desired c d \<Longrightarrow> busy c al s st m (a\<lparr>desired_identity := d\<rparr>)"
  by (auto simp: busy_def server_inv_def)

lemma desired_clear [simp]: "inv_desired c (dbus_credentials_clear d)"
  by (simp add: inv_desired_def dbus_credentials_clear_def)

lemma allocs_busy: "allocs k a = (ok, a') \<Longrightarrow> busy c al s st m a \<Longrightarrow> busy c al s st m a'"
  by (auto dest: allocs_same)

lemma kept_allocs [post_rules]:
  assumes "busy c al s st m a" "\<And>a'. busy c al s st m a' \<Longrightarrow> (\<exists>m'. a' = a\<lparr>auth_mem := m'\<rparr>) \<Longrightarrow> post b (f a') (kept c al s st)"
  shows "post b (and_then (Some (allocs k a)) f) (kept c al s st)"
proof (rule post_and_then, rule post_allocs)
  fix ok m'
  have k: "busy c al s st m (a\<lparr>auth_mem := m'\<rparr>)" using assms(1) by simp
  have "post b (f (a\<lparr>auth_mem := m'\<rparr>)) (kept c al s st)" by (rule assms(2)) (rule k, blast)
  then show "if ok then post b (f (a\<lparr>auth_mem := m'\<rparr>)) (kept c al s st) else kept c al s st False (a\<lparr>auth_mem := m'\<rparr>)"
    using busy_kept[OF k] by simp
qed

lemma shutdown_fields [simp]:
  fixes a :: "'z auth_server_scheme"
  shows "mech (shutdown_mech a) = None" "state (shutdown_mech a) = state a" "failures (shutdown_mech a) = failures a"
    "max_failures (shutdown_mech a) = max_failures a" "auth_keyring (shutdown_mech a) = auth_keyring a"
    "authorized_identity (shutdown_mech a) = dbus_credentials_clear (authorized_identity a)"
    "desired_identity (shutdown_mech a) = dbus_credentials_clear (desired_identity a)"
    "incoming (shutdown_mech a) = incoming a" "outgoing (shutdown_mech a) = outgoing a"
    "socket_credentials (shutdown_mech a) = socket_credentials a"
    "allowed_mechs (shutdown_mech a) = allowed_mechs a" "identity (shutdown_mech a) = []"
    "cookie_id (shutdown_mech a) = (if mech a = Some DBUS_COOKIE_SHA1 then - 1 else cookie_id a)"
  by (simp_all add: shutdown_mech_def Let_def split: option.splits mechanism.splits)

lemma kept_send_rejected [post_rules]:
  assumes "busy c al s st m a"
  shows "post b (Some (send_rejected a)) (kept c al s st)"
proof -
  obtain ok a1 where k: "allocs (2 + 2 * length all_mechanisms + 2) a = (ok, a1)" by force
  have b: "busy c al s st m a1" using allocs_busy[OF k assms] .
  show ?thesis
  proof (cases ok)
    case False
    then show ?thesis using k b by (simp add: send_rejected_def busy_kept)
  next
    case True
    have f: "failures a1 < 6" "max_failures a1 = 6" "socket_credentials a1 = c" "allowed_mechs a1 = al" "incoming a1 = s"
      "inv_keyring (cookie_id a1) (auth_keyring a1)"
      using b by (auto simp: busy_def server_inv_def inv_state_def waiting_def)
    have "inv_keyring (- 1) (auth_keyring a1)" by (simp add: inv_keyring_def)
    then have "kept c al s st True (snd (send_rejected a))"
      using k True f
      by (simp add: send_rejected_def goto_state_def Let_def kept_def server_inv_def inv_authorized_def external_authorized_def
          inv_state_def waiting_def)
    then show ?thesis using k True by (simp add: post_pair send_rejected_def Let_def)
  qed
qed

lemma kept_send_error [post_rules]: "busy c al s st m a \<Longrightarrow> post b (Some (send_error a t)) (kept c al s st)"
  by (cases "allocs 1 a") (auto simp: post_pair send_error_def dest!: allocs_busy intro!: busy_kept[where m = m])

lemma busy_send_data: "busy c al s st m a \<Longrightarrow> send_data a d = (ok, a') \<Longrightarrow> busy c al s st m a'"
  by (cases "allocs (if d = [] then 1 else 3) a") (auto simp: send_data_def split: if_splits dest!: allocs_busy)

lemma inv_state_leave: "inv_state st m f \<Longrightarrow> waiting st \<Longrightarrow> f < 6"
  by (auto simp: inv_state_def waiting_def)

lemma kept_move:
  assumes "busy c al s st m a" "waiting st' \<or> st' = common_state_authenticated \<or> st' = common_state_need_disconnect"
    "st' = server_state_waiting_for_data \<Longrightarrow> m \<noteq> None"
    "st' = server_state_waiting_for_begin \<or> st' = common_state_authenticated \<Longrightarrow> external_authorized c m (authorized_identity a)"
  shows "kept c al s st True (goto_state a st')"
proof -
  have "inv_state st' m (failures a)" "inv_authorized c al st' m (authorized_identity a)"
    using assms inv_state_leave[of st m "failures a"] by (auto simp: busy_def server_inv_def inv_state_def inv_authorized_def)
  then show ?thesis using assms(1) by (auto simp: kept_def busy_def server_inv_def goto_state_def)
qed

lemma kept_send_ok [post_rules]:
  assumes "busy c al s st m a" "external_authorized c m (authorized_identity a)"
  shows "post b (Some (send_ok a)) (kept c al s st)"
proof -
  obtain ok m' where k: "allocs 3 a = (ok, a\<lparr>auth_mem := m'\<rparr>)"
    by (cases "allocs 3 a") (use allocs_same in blast)
  show ?thesis
    using assms by (cases ok) (auto simp: post_pair send_ok_def k waiting_def intro: busy_kept[where m = m] intro!: kept_move[where m = m])
qed

lemma kept_disconnect [post_rules]: "busy c al s st m a \<Longrightarrow> kept c al s st True (goto_state a common_state_need_disconnect)"
  by (rule kept_move) simp_all

lemma kept_wait [post_rules]: "busy c al s st (Some m) a \<Longrightarrow> kept c al s st True (goto_state a server_state_waiting_for_data)"
  by (rule kept_move) (auto simp: waiting_def)

lemma kept_begin [post_rules]:
  "busy c al s server_state_waiting_for_begin m a \<Longrightarrow>
   kept c al s server_state_waiting_for_begin True (goto_state a common_state_authenticated)"
  by (rule kept_move) (auto simp: busy_def server_inv_def inv_authorized_def)

text \<open>Taking over credentials, in a state where the conversation is still going on.\<close>

definition talking :: "auth_state \<Rightarrow> bool" where
  "talking st \<longleftrightarrow> st = server_state_waiting_for_auth \<or> st = server_state_waiting_for_data"

lemma busy_authorized:
  "busy c al s st m a \<Longrightarrow> talking st \<Longrightarrow> (\<not> cookie_allowed al \<Longrightarrow> within c d) \<Longrightarrow>
   busy c al s st m (a\<lparr>authorized_identity := d\<rparr>)"
  by (auto simp: busy_def server_inv_def inv_authorized_def talking_def)

lemma busy_socket: "busy c al s st m a \<Longrightarrow> socket_credentials a = c"
  by (simp add: busy_def server_inv_def)

lemma busy_within: "busy c al s st m a \<Longrightarrow> \<not> cookie_allowed al \<Longrightarrow> within c (authorized_identity a)"
  by (auto simp: busy_def server_inv_def inv_authorized_def)

lemma kept_authorize_desired:
  assumes b: "busy c al s st m a" and t: "talking st" and w: "\<not> cookie_allowed al \<Longrightarrow> within c (desired_identity a)"
    and next_part: "\<And>a' m'. busy c al s st m a' \<Longrightarrow>
      dbus_credentials_add_credentials (authorized_identity a) (desired_identity a) (auth_mem a) = (True, authorized_identity a', m') \<Longrightarrow>
      post ab (f a') (kept c al s st)"
  shows "post ab (and_then (Some (authorize_desired a)) f) (kept c al s st)"
proof -
  obtain ok d m' where k: "dbus_credentials_add_credentials (authorized_identity a) (desired_identity a) (auth_mem a) = (ok, d, m')"
    by (cases "dbus_credentials_add_credentials (authorized_identity a) (desired_identity a) (auth_mem a)")
  have d: "\<not> cookie_allowed al \<Longrightarrow> within c d" using within_add[OF busy_within[OF b] w k] by simp
  have b2: "busy c al s st m (a\<lparr>authorized_identity := d, auth_mem := m'\<rparr>)"
    using busy_authorized[OF b t d] by simp
  show ?thesis
  proof (cases ok)
    case True
    have "post ab (f (a\<lparr>authorized_identity := d, auth_mem := m'\<rparr>)) (kept c al s st)"
      by (rule next_part[OF b2]) (use k True in simp)
    then show ?thesis using k True by (simp add: authorize_desired_def add_credentials_to_def and_then_def)
  next
    case False
    then show ?thesis using k busy_kept[OF b2] by (simp add: authorize_desired_def add_credentials_to_def and_then_def)
  qed
qed

lemma kept_authorize_from_socket:
  assumes b: "busy c al s st m a" and t: "talking st"
    and k': "k = CREDENTIAL_UNIX_PROCESS_ID \<or> k = CREDENTIAL_ADT_AUDIT_DATA_ID"
    and next_part: "\<And>a'. busy c al s st m a' \<Longrightarrow> unix_uid (authorized_identity a') = unix_uid (authorized_identity a) \<Longrightarrow>
      post ab (f a') (kept c al s st)"
  shows "post ab (and_then (Some (authorize_from_socket k a)) f) (kept c al s st)"
proof -
  obtain ok d m' where s: "dbus_credentials_add_credential (authorized_identity a) k (socket_credentials a) (auth_mem a) = (ok, d, m')"
    by (cases "dbus_credentials_add_credential (authorized_identity a) k (socket_credentials a) (auth_mem a)")
  have d: "\<not> cookie_allowed al \<Longrightarrow> within c d"
    using within_add_credential[OF busy_within[OF b]] s busy_socket[OF b] by auto
  have b2: "busy c al s st m (a\<lparr>authorized_identity := d, auth_mem := m'\<rparr>)"
    using busy_authorized[OF b t d] by simp
  show ?thesis
  proof (cases ok)
    case True
    have "post ab (f (a\<lparr>authorized_identity := d, auth_mem := m'\<rparr>)) (kept c al s st)"
      by (rule next_part[OF b2]) (use add_credential_user(4)[OF s k'] in simp)
    then show ?thesis using s True by (simp add: authorize_from_socket_def add_credentials_to_def and_then_def)
  next
    case False
    then show ?thesis using s busy_kept[OF b2] by (simp add: authorize_from_socket_def add_credentials_to_def and_then_def)
  qed
qed

lemma kept_external_check:
  assumes b: "busy c al s st (Some EXTERNAL) a" and t: "talking st"
  shows "post ab (external_check a) (kept c al s st)"
proof (cases "dbus_credentials_are_anonymous (desired_identity a)")
  case True
  then show ?thesis using kept_send_rejected[OF b] by (simp add: external_check_def)
next
  case named: False
  have i: "inv_desired c (desired_identity a)" using b by (simp add: busy_def server_inv_def)
  show ?thesis
  proof (cases "dbus_credentials_are_superset (socket_credentials a) (desired_identity a)")
    case None
    then show ?thesis using superset_total[of "desired_identity a" c] i busy_socket[OF b] by (simp add: inv_desired_def)
  next
    case (Some sup)
    show ?thesis
    proof (cases sup)
      case False
      then show ?thesis using kept_send_rejected[OF b] named Some by (simp add: external_check_def)
    next
      case True
      then have w: "within c (desired_identity a)" using within_superset Some busy_socket[OF b] by auto
      have x: "external_authorized c (Some EXTERNAL) d"
        if "dbus_credentials_add_credentials (authorized_identity a) (desired_identity a) (auth_mem a) = (True, d', m')"
          "unix_uid d = unix_uid d'" for d d' m'
        using w named add_credentials_user[OF that(1)] that(2)
        by (auto simp: external_authorized_def within_def dbus_credentials_are_anonymous_def)
      have "post ab (and_then (Some (authorize_desired a)) (\<lambda>a.
              and_then (Some (authorize_from_socket CREDENTIAL_UNIX_PROCESS_ID a)) (\<lambda>a.
              and_then (Some (authorize_from_socket CREDENTIAL_ADT_AUDIT_DATA_ID a)) (\<lambda>a. Some (send_ok a))))) (kept c al s st)"
        by (intro kept_authorize_desired[OF b t w] kept_authorize_from_socket[OF _ t] kept_send_ok)
           (assumption | rule x | simp)+
      then show ?thesis using named Some True by (simp add: external_check_def)
    qed
  qed
qed

lemma busy_ask: "busy c al s st m a \<Longrightarrow> ask_env f a = (x, a') \<Longrightarrow> busy c al s st m a'"
  by (auto dest!: ask_env_same)

lemma busy_add_from_user:
  "busy c al s st m a \<Longrightarrow> add_from_user env a n = (ok, a') \<Longrightarrow> busy c al s st m a'"
  by (auto simp: add_from_user_def inv_desired_def dbus_credentials_add_unix_uid_def busy_def server_inv_def
      dest!: ask_env_same split: prod.splits option.splits)

lemma busy_copy_identity: "busy c al s st m a \<Longrightarrow> copy_identity a d = (ok, a') \<Longrightarrow> busy c al s st m a'"
  by (auto simp: copy_identity_def split: prod.splits if_splits dest: allocs_busy)

lemma kept_then:
  assumes "busy c al s st m a'" "busy c al s st m a' \<Longrightarrow> post ab (f a') (kept c al s st)"
  shows "post ab (and_then (Some (ok, a')) f) (kept c al s st)"
  using assms busy_kept[OF assms(1)] by (simp add: and_then_def)

lemma kept_external_desired:
  assumes "busy c al s st (Some EXTERNAL) a" "talking st"
  shows "post ab (external_desired env a) (kept c al s st)"
proof -
  let ?a = "a\<lparr>desired_identity := dbus_credentials_clear (desired_identity a)\<rparr>"
  have b: "busy c al s st (Some EXTERNAL) ?a" using assms(1) by (rule busy_desired) simp
  show ?thesis
  proof (cases "identity a = []")
    case True
    obtain ok d m' where k: "dbus_credentials_add_credentials (dbus_credentials_clear (desired_identity a)) (socket_credentials a) (auth_mem a) = (ok, d, m')"
      by (cases "dbus_credentials_add_credentials (dbus_credentials_clear (desired_identity a)) (socket_credentials a) (auth_mem a)")
    have "inv_desired c d"
      using add_kinds_adt[OF k[unfolded dbus_credentials_add_credentials_def]] busy_socket[OF b]
      by (auto simp: inv_desired_def dbus_credentials_clear_def)
    then have b2: "busy c al s st (Some EXTERNAL) (?a\<lparr>desired_identity := d, auth_mem := m'\<rparr>)"
      using busy_desired[OF b] by simp
    show ?thesis using True k kept_then[OF b2 kept_external_check[OF _ assms(2)]]
      by (simp add: external_desired_def desire_socket_def add_credentials_to_def)
  next
    case False
    obtain ok a' where k: "add_from_user env ?a (identity a) = (ok, a')" by force
    have b2: "busy c al s st (Some EXTERNAL) a'" using busy_add_from_user[OF b k] .
    show ?thesis using False k kept_external_check[OF b2 assms(2)] kept_send_rejected[OF b2]
      by (simp add: external_desired_def)
  qed
qed

lemma kept_external:
  assumes b: "busy c al s st (Some EXTERNAL) a" and t: "talking st"
  shows "post ab (handle_server_data_external_mech env a d) (kept c al s st)"
proof -
  obtain ok a' where k: "copy_identity a d = (ok, a')" by force
  have b2: "busy c al s st (Some EXTERNAL) a'" using busy_copy_identity[OF b k] .
  obtain ok3 a3 where k3: "send_data a' [] = (ok3, a3)" by force
  have b3: "busy c al s st (Some EXTERNAL) a3" using busy_send_data[OF b2 k3] .
  have "kept c al s st True (goto_state (a3\<lparr>already_asked_for_initial_response := True\<rparr>) server_state_waiting_for_data)"
    by (rule kept_wait) (use b3 in simp)
  then have "post ab (and_then (Some (send_data a' [])) (\<lambda>a.
      Some (True, goto_state (a\<lparr>already_asked_for_initial_response := True\<rparr>) server_state_waiting_for_data))) (kept c al s st)"
    unfolding k3 by (intro kept_then[OF b3]) simp
  then show ?thesis
    using kept_send_rejected[OF b] kept_then[OF b2] kept_external_desired[OF b2 t]
    by (auto simp: handle_server_data_external_mech_def k)
qed

lemma kept_anonymous:
  assumes b: "busy c al s st (Some ANONYMOUS) a" and t: "talking st"
  shows "post ab (handle_server_data_anonymous_mech a d) (kept c al s st)"
proof -
  have b2: "busy c al s st (Some ANONYMOUS) (a\<lparr>desired_identity := dbus_credentials_clear (desired_identity a)\<rparr>)"
    using b by (rule busy_desired) simp
  have "post ab (and_then (Some (authorize_from_socket CREDENTIAL_UNIX_PROCESS_ID
      (a\<lparr>desired_identity := dbus_credentials_clear (desired_identity a)\<rparr>))) (\<lambda>a. Some (send_ok a))) (kept c al s st)"
    by (intro kept_authorize_from_socket[OF b2 t] kept_send_ok) (assumption | simp add: external_authorized_def)+
  then show ?thesis using kept_send_rejected[OF b] by (simp add: handle_server_data_anonymous_mech_def Let_def)
qed

text \<open>The cookie mechanism, while no cookie has been chosen and after.\<close>

lemma busy_cookie: "busy c al s st m a \<Longrightarrow> auth_keyring a = Some k \<Longrightarrow>
    busy c al s st m (a\<lparr>auth_keyring := Some k', cookie_id := i\<rparr>)"
  by (auto simp: busy_def server_inv_def inv_keyring_def)

lemma busy_cookie_allowed: "busy c al s st (Some DBUS_COOKIE_SHA1) a \<Longrightarrow> cookie_allowed al"
  by (auto simp: busy_def server_inv_def inv_authorized_def)

lemma kept_first_send:
  assumes b: "busy c al s st (Some m) a"
  shows "post ab (first_response_send a i ch) (kept c al s st)"
  unfolding first_response_send_def
proof (rule kept_allocs)
  show "busy c al s st (Some m) (a\<lparr>challenge := ch\<rparr>)" using b by simp
  fix a' :: "'a auth_server_scheme"
  assume b': "busy c al s st (Some m) a'"
  let ?d = "cookie_context a' @ ascii '' '' @ decimal (nat i) @ ascii '' '' @ ch"
  obtain ok a2 where k: "send_data a' ?d = (ok, a2)" by (cases "send_data a' ?d")
  show "post ab (and_then (Some (send_data a' ?d)) (\<lambda>a. Some (True, goto_state a server_state_waiting_for_data))) (kept c al s st)"
    unfolding k by (rule kept_then[OF busy_send_data[OF b' k]]) (simp add: kept_wait)
qed

lemma kept_first_random:
  assumes b: "busy c al s st (Some m) a"
  shows "post ab (first_response_random env a i) (kept c al s st)"
proof -
  obtain r a1 where q: "ask_env (\<lambda>n. env_random env n N_CHALLENGE_BYTES) a = (r, a1)"
    by (cases "ask_env (\<lambda>n. env_random env n N_CHALLENGE_BYTES) a")
  have b1: "busy c al s st (Some m) a1" using busy_ask[OF b q] .
  have "post ab (and_then (Some (allocs 1 (a1\<lparr>challenge := []\<rparr>))) (\<lambda>a. first_response_send a i h)) (kept c al s st)" for h
    by (rule kept_allocs[where m = "Some m"]) (use b1 in simp, rule kept_first_send)
  then show ?thesis using q busy_kept[OF b1] by (cases r) (simp_all add: first_response_random_def)
qed

lemma kept_first_challenge:
  assumes b: "busy c al s st (Some m) a" and kr: "auth_keyring a = Some k"
  shows "post ab (first_response_challenge env a) (kept c al s st)"
proof -
  obtain i k' a1 where q: "ask_env (\<lambda>n. env_best_key env n k) a = ((i, k'), a1)"
    by (cases "ask_env (\<lambda>n. env_best_key env n k) a") auto
  have b1: "busy c al s st (Some m) a1" using busy_ask[OF b q] .
  have kr1: "auth_keyring a1 = Some k" using ask_env_same[OF q] kr by simp
  let ?a = "a1\<lparr>auth_keyring := Some k', cookie_id := i\<rparr>"
  have b2: "busy c al s st (Some m) ?a" using busy_cookie[OF b1 kr1] .
  have "post ab (and_then (Some (allocs 4 ?a)) (\<lambda>a. first_response_random env a i)) (kept c al s st)"
    by (rule kept_allocs[OF b2]) (rule kept_first_random)
  then show ?thesis
    using kr q kept_send_rejected[OF b2] by (simp add: first_response_challenge_def Let_def)
qed

lemma kept_first_keyring:
  assumes b: "busy c al s st (Some m) a" and i: "cookie_id a < 0"
  shows "post ab (first_response_keyring env a) (kept c al s st)"
proof -
  let ?a = "case auth_keyring a of
      Some k \<Rightarrow> if \<not> dbus_keyring_is_for_credentials k (desired_identity a) then a\<lparr>auth_keyring := None\<rparr> else a
    | None \<Rightarrow> a"
  have b1: "busy c al s st (Some m) ?a"
    using b i by (auto simp: busy_def server_inv_def inv_keyring_def split: option.splits)
  obtain r a2 where q: "ask_env (\<lambda>n. env_keyring env n (Some (desired_identity ?a)) (cookie_context ?a)) ?a = (r, a2)" by force
  have b2: "busy c al s st (Some m) a2" using busy_ask[OF b1 q] .
  show ?thesis
  proof (cases "auth_keyring ?a")
    case (Some k)
    then show ?thesis using kept_first_challenge[OF b1 Some] by (simp add: first_response_keyring_def Let_def)
  next
    case None
    have "post ab (first_response_challenge env (a2\<lparr>auth_keyring := Some k\<rparr>)) (kept c al s st)" for k
      by (rule kept_first_challenge[OF busy_keyring[OF b2]]) simp
    then show ?thesis using None q kept_send_rejected[OF b2] busy_kept[OF b2]
      by (cases r) (simp_all add: first_response_keyring_def Let_def)
  qed
qed

lemma kept_cookie_first:
  assumes b: "busy c al s st (Some m) a" and i: "cookie_id a < 0"
  shows "post ab (sha1_handle_first_client_response env a d) (kept c al s st)"
proof -
  let ?a = "a\<lparr>challenge := []\<rparr>"
  have b0: "busy c al s st (Some m) ?a" using b by simp
  obtain ok a1 where k: "copy_identity ?a d = (ok, a1)" by force
  have b1: "busy c al s st (Some m) a1" using busy_copy_identity[OF b0 k] .
  have i1: "cookie_id a1 < 0" using k i by (auto simp: copy_identity_def split: if_splits prod.splits dest!: allocs_same)
  obtain ok2 a2 where k2: "add_from_user env a1 d = (ok2, a2)" by force
  have b2: "busy c al s st (Some m) a2" using busy_add_from_user[OF b1 k2] .
  have i2: "cookie_id a2 < 0"
    using k2 i1 by (auto simp: add_from_user_def split: prod.splits option.splits dest!: ask_env_same)
  have "post ab (and_then (Some (allocs 2 a2)) (first_response_keyring env)) (kept c al s st)"
    using i2 by (intro kept_allocs[OF b2] kept_first_keyring) auto
  then show ?thesis
    using kept_send_rejected[OF b0] kept_send_rejected[OF b2] k k2 kept_then[OF b1]
    by (auto simp: sha1_handle_first_client_response_def Let_def)
qed

lemma busy_compute_hash:
  "busy c al s st m a \<Longrightarrow> sha1_compute_hash a i u v = Some (ok, h, a') \<Longrightarrow> busy c al s st m a'"
  by (auto simp: sha1_compute_hash_def Let_def split: option.splits prod.splits if_splits dest!: allocs_busy)

lemma kept_cookie_hash:
  assumes b: "busy c al s st (Some DBUS_COOKIE_SHA1) a" and t: "talking st"
  shows "post True (second_response_hash a u v) (kept c al s st)"
proof -
  have n: "cookie_allowed al" using busy_cookie_allowed[OF b] .
  have ok: "post True (and_then (Some (authorize_desired a)) (\<lambda>a.
      and_then (Some (authorize_from_socket CREDENTIAL_UNIX_PROCESS_ID a)) (\<lambda>a. Some (send_ok a)))) (kept c al s st)"
    if "busy c al s st (Some DBUS_COOKIE_SHA1) a" for a :: "'a auth_server_scheme"
    by (intro kept_authorize_desired[OF that t] kept_authorize_from_socket[OF _ t] kept_send_ok)
      (assumption | simp add: n external_authorized_def)+
  have "post True (case sha1_compute_hash a (cookie_id a) (challenge a) u of
          None \<Rightarrow> None
        | Some (ok, correct_hash, a) \<Rightarrow>
            if \<not> ok then Some (False, a)
            else if correct_hash = [] then Some (send_rejected a)
            else if v \<noteq> correct_hash then Some (send_rejected a)
            else
              and_then (Some (authorize_desired a)) (\<lambda>a.
              and_then (Some (authorize_from_socket CREDENTIAL_UNIX_PROCESS_ID a)) (\<lambda>a.
              Some (send_ok a)))) (kept c al s st)"
    if "busy c al s st (Some DBUS_COOKIE_SHA1) a" for a :: "'a auth_server_scheme"
  proof (cases "sha1_compute_hash a (cookie_id a) (challenge a) u")
    case (Some p)
    obtain ok h a' where p: "p = (ok, h, a')" by (cases p)
    have b': "busy c al s st (Some DBUS_COOKIE_SHA1) a'" using busy_compute_hash[OF that] Some p by blast
    show ?thesis using Some p ok[OF b'] kept_send_rejected[OF b'] busy_kept[OF b'] by simp
  qed simp
  then show ?thesis using kept_send_rejected[OF b]
    by (auto simp: second_response_hash_def intro!: kept_allocs[OF b])
qed

lemma kept_cookie_second:
  assumes b: "busy c al s st (Some DBUS_COOKIE_SHA1) a" and t: "talking st"
  shows "post True (sha1_handle_second_client_response a d) (kept c al s st)"
  using kept_send_rejected[OF b]
  by (auto simp: sha1_handle_second_client_response_def split: prod.splits option.splits
      intro!: kept_allocs[OF b] kept_allocs[where m = "Some DBUS_COOKIE_SHA1"] kept_cookie_hash[OF _ t])

lemma kept_data_func:
  assumes b: "busy c al s st (Some m) a" and t: "talking st" and ab: "m = DBUS_COOKIE_SHA1 \<Longrightarrow> ab"
  shows "post ab (server_data_func env m a d) (kept c al s st)"
  using assms kept_external[of c al s st a] kept_anonymous[of c al s st a] kept_cookie_first[of c al s st m a ab]
    kept_cookie_second[of c al s st a]
  by (cases m) (auto simp: handle_server_data_cookie_sha1_mech_def)

section \<open>The handlers of the server\<close>

text \<open>Lines over which the whitespace assertion of \<open>_dbus_string_skip_blank\<close> cannot fail.\<close>

definition one_line :: "byte list \<Rightarrow> bool" where
  "one_line s \<longleftrightarrow> 0x0a \<notin> set s \<and> 0x0d \<notin> set s"

lemma skip_blank_loop_bound: "skip_blank_loop s i \<le> i + length s"
  by (induction s i rule: skip_blank_loop.induct) auto

lemma skip_blank_loop_nonblank:
  "skip_blank_loop s i < i + length s \<Longrightarrow> \<not> IS_ASCII_BLANK (s ! (skip_blank_loop s i - i))"
proof (induction s i rule: skip_blank_loop.induct)
  case (2 c cs i)
  show ?case
  proof (cases "IS_ASCII_BLANK c")
    case True
    have "i + 1 \<le> skip_blank_loop cs (i + 1)" by (rule skip_blank_loop_ge)
    then show ?thesis using 2 True by (simp add: nth_Cons')
  qed simp
qed simp

lemma skip_blank_total:
  assumes "one_line s" "i \<le> length s"
  shows "dbus_string_skip_blank s i \<noteq> None"
proof -
  define j where "j = skip_blank_loop (drop i s) i"
  have b: "i \<le> j" "j \<le> length s"
    using skip_blank_loop_ge[of i "drop i s"] skip_blank_loop_bound[of "drop i s" i] assms(2) by (auto simp: j_def)
  have "\<not> IS_ASCII_WHITE (s ! j)" if l: "j < length s"
  proof -
    have "\<not> IS_ASCII_BLANK (s ! j)"
      using skip_blank_loop_nonblank[of "drop i s" i] l b by (simp add: j_def)
    then show ?thesis using assms(1) nth_mem[OF l] by (auto simp: IS_ASCII_BLANK_def IS_ASCII_WHITE_def one_line_def simp del: nth_mem)
  qed
  then show ?thesis using b by (auto simp: dbus_string_skip_blank_def j_def[symmetric] Let_def)
qed

lemma find_blank_bound: "i \<le> length s \<Longrightarrow> snd (dbus_string_find_blank s i) \<le> length s"
proof -
  have "snd (find_blank_loop t k) \<le> k + length t" for t k
    by (induction t k rule: find_blank_loop.induct) auto
  from this[of "drop i s" i] show "i \<le> length s \<Longrightarrow> snd (dbus_string_find_blank s i) \<le> length s"
    by (simp add: dbus_string_find_blank_def)
qed

lemma kept_process_data:
  assumes b: "busy c al s st m a" and f: "\<And>a d. busy c al s st m a \<Longrightarrow> post ab (f a d) (kept c al s st)"
  shows "post ab (process_data a args f) (kept c al s st)"
  unfolding process_data_def
  by (rule kept_allocs[OF b]) (auto split: prod.splits intro: f kept_send_error)

lemma busy_find_mech:
  assumes "busy c al s server_state_waiting_for_auth m a"
  shows "busy c al s server_state_waiting_for_auth (find_mech n al) (a\<lparr>mech := find_mech n al\<rparr>)"
proof -
  have "find_mech n al \<noteq> Some DBUS_COOKIE_SHA1" if "\<not> cookie_allowed al"
    using that by (auto simp: cookie_allowed_def find_mech_def all_mechanisms_def split: option.splits if_splits)
  then show ?thesis using assms by (auto simp: busy_def server_inv_def inv_state_def inv_authorized_def)
qed

lemma kept_forget:
  assumes "post ab r (kept c al s server_state_waiting_for_auth)"
  shows "post ab (forget_mech r) (kept c al s server_state_waiting_for_auth)"
proof (rule post_forget, rule post_mono[OF assms])
  fix ok a
  assume k: "kept c al s server_state_waiting_for_auth ok (a :: 'a auth_server_scheme)"
  then have "\<not> ok \<Longrightarrow> kept c al s server_state_waiting_for_auth False (a\<lparr>mech := None\<rparr>)"
    by (auto simp: kept_def server_inv_def inv_state_def inv_authorized_def)
  then show "if ok then kept c al s server_state_waiting_for_auth True a
      else kept c al s server_state_waiting_for_auth False (a\<lparr>mech := None\<rparr>)"
    using k by (cases ok) auto
qed

lemma kept_handle_auth:
  assumes b: "busy c al s server_state_waiting_for_auth m a" and ab: "ab \<or> one_line args \<and> \<not> cookie_allowed al"
  shows "post ab (handle_auth env a args) (kept c al s server_state_waiting_for_auth)"
proof -
  let ?st = server_state_waiting_for_auth
  define i where "i = snd (dbus_string_find_blank args 0)"
  have i: "i \<le> length args" unfolding i_def by (rule find_blank_bound) simp
  have mech_part: "post ab (auth_by_mech env a n d) (kept c al s ?st)"
    if b: "busy c al s ?st m a" for a :: "'a auth_server_scheme" and n d
  proof -
    have al: "allowed_mechs a = al" using b by (simp add: busy_def server_inv_def)
    note b' = busy_find_mech[OF b, of n]
    show ?thesis
    proof (cases "find_mech n al")
      case None
      then show ?thesis using kept_send_rejected[OF b'] al by (simp add: auth_by_mech_def Let_def)
    next
      case (Some m')
      have c: "m' = DBUS_COOKIE_SHA1 \<Longrightarrow> ab" using ab busy_cookie_allowed[of c al s ?st] b' Some by auto
      have "post ab (process_data (a\<lparr>mech := Some m'\<rparr>) d (server_data_func env m')) (kept c al s ?st)"
        by (rule kept_process_data[where m = "Some m'"])
          (use b' Some in simp, rule kept_data_func[OF _ _ c], auto simp: talking_def)
      then show ?thesis using Some al by (simp add: auth_by_mech_def Let_def)
    qed
  qed
  have "post ab (case dbus_string_skip_blank args i of None \<Rightarrow> None
      | Some j \<Rightarrow> and_then (Some (allocs 1 a)) (\<lambda>a. auth_by_mech env a (take i args) (drop j args)))
      (kept c al s ?st)" if "busy c al s ?st m a" for a :: "'a auth_server_scheme"
    using ab skip_blank_total[OF _ i] by (auto split: option.splits intro!: kept_allocs[OF that] mech_part)
  then show ?thesis using kept_send_rejected[OF b]
    by (auto simp: handle_auth_def i_def[symmetric] Let_def intro!: kept_allocs[OF b] kept_allocs[where m = m] kept_forget)
qed

lemma kept_server_handler:
  assumes b: "busy c al s st m a" and ab: "ab \<or> one_line args \<and> \<not> cookie_allowed al"
  shows "post ab (server_handler env a cmd args) (kept c al s st)"
proof -
  have st: "state a = st" "waiting st" "mech a = m" using b by (auto simp: busy_def)
  consider "st = server_state_waiting_for_auth" | "st = server_state_waiting_for_data" | "st = server_state_waiting_for_begin"
    using st(2) by (auto simp: waiting_def)
  then show ?thesis
  proof cases
    case 1
    then show ?thesis
      using st b kept_handle_auth[of c al s m a ab args] ab
      by (cases cmd) (auto simp: server_handler_def intro: post_rules)
  next
    case 2
    then obtain k where k: "m = Some k" using b by (auto simp: busy_def server_inv_def inv_state_def)
    have c: "k = DBUS_COOKIE_SHA1 \<Longrightarrow> ab" using ab busy_cookie_allowed[of c al s st] b k by auto
    have "post ab (process_data a args (server_data_func env k)) (kept c al s st)"
      using b k 2 by (intro kept_process_data[OF b] kept_data_func[OF _ _ c]) (auto simp: talking_def)
    then show ?thesis using 2 st b k by (cases cmd) (auto simp: server_handler_def intro: post_rules)
  next
    case 3
    then show ?thesis using st b by (cases cmd) (auto simp: server_handler_def intro: post_rules)
  qed
qed

end
