(* ===== verification/AuthRuns.thy ===== *)
theory AuthRuns
  imports AuthInv
begin

text \<open>
  Conversations: what taking a line, the work loop and a whole run keep, once for both sides in a
  locale that asks of a side what its handler promises; and the theorems about the server.
\<close>

section \<open>Lines of the input\<close>

text \<open>The input up to the first line end, and the rest: what \<open>process_command\<close> works with.\<close>

fun split_line :: "byte list \<Rightarrow> (byte list \<times> byte list) option" where
  "split_line [] = None"
| "split_line (c # cs) =
     (if c = 0x0d \<and> cs \<noteq> [] \<and> hd cs = 0x0a then Some ([], tl cs)
      else case split_line cs of None \<Rightarrow> None | Some (l, r) \<Rightarrow> Some (c # l, r))"

lemma occurs_CRLF_0: "occurs_at (c # cs) (Suc (length cs)) CRLF 0 \<longleftrightarrow> c = 0x0d \<and> cs \<noteq> [] \<and> hd cs = 0x0a"
  by (cases cs) (auto simp: occurs_at_def CRLF_def)

lemma occurs_Suc: "occurs_at (c # cs) (Suc n) sub (Suc k) \<longleftrightarrow> occurs_at cs n sub k"
  by (auto simp: occurs_at_def)

lemma split_line_first:
  "case split_line s of
     None \<Rightarrow> \<forall>k. \<not> occurs_at s (length s) CRLF k
   | Some (l, r) \<Rightarrow> s = l @ CRLF @ r \<and> occurs_at s (length s) CRLF (length l) \<and>
       (\<forall>k < length l. \<not> occurs_at s (length s) CRLF k)"
proof (induction s)
  case Nil
  show ?case by (simp add: occurs_at_def CRLF_def)
next
  case (Cons c cs)
  show ?case
  proof (cases "c = 0x0d \<and> cs \<noteq> [] \<and> hd cs = 0x0a")
    case True
    then obtain r where "cs = 0x0a # r" by (cases cs) auto
    then show ?thesis using True occurs_CRLF_0[of c cs] by (simp add: CRLF_def)
  next
    case False
    have all: "(\<forall>k. P k) \<longleftrightarrow> P 0 \<and> (\<forall>k. P (Suc k))" for P :: "nat \<Rightarrow> bool" by (metis not0_implies_Suc)
    have bounded: "(\<forall>k < Suc n. P k) \<longleftrightarrow> P 0 \<and> (\<forall>k < n. P (Suc k))" for P :: "nat \<Rightarrow> bool" and n
      using less_Suc_eq_0_disj by auto
    show ?thesis
      using Cons.IH False occurs_CRLF_0[of c cs]
      by (cases "split_line cs") (auto simp: all[of "\<lambda>k. \<not> occurs_at (c # cs) n CRLF k" for n] bounded occurs_Suc)
  qed
qed

lemma find_line:
  "dbus_string_find s 0 CRLF =
     (case split_line s of None \<Rightarrow> (False, length s) | Some (l, r) \<Rightarrow> (True, length l))"
proof -
  have nz: "CRLF \<noteq> []" "0 \<notin> set CRLF" "str_byte CRLF 0 \<noteq> 0" by (simp_all add: CRLF_def)
  obtain b k where f: "find_to_loop s (length s) CRLF 0 = (b, k)" by (cases "find_to_loop s (length s) CRLF 0")
  have "dbus_string_find s 0 CRLF = (b, k)" using nz(3) f by (simp add: dbus_string_find_def dbus_string_find_to_def)
  moreover have "case (b, k) of
      (True, k) \<Rightarrow> 0 \<le> k \<and> occurs_at s (length s) CRLF k \<and> (\<forall>m. 0 \<le> m \<and> m < k \<longrightarrow> \<not> occurs_at s (length s) CRLF m)
    | (False, k) \<Rightarrow> k = length s \<and> (\<forall>m \<ge> 0. \<not> occurs_at s (length s) CRLF m)"
    using find_to_loop_spec[OF nz(1,2), of "length s" s 0] f by simp
  ultimately show ?thesis
    using split_line_first[of s] by (cases b; cases "split_line s") (auto intro: linorder_cases[of k])
qed

lemma split_line_join: "split_line s = Some (l, r) \<Longrightarrow> s = l @ CRLF @ r"
  using split_line_first[of s] by simp

lemma split_line_shorter: "split_line s = Some (l, r) \<Longrightarrow> length r < length s"
  by (auto dest!: split_line_join simp: CRLF_def)

text \<open>\<open>process_command\<close> in these terms.\<close>

lemma process_command_line:
  "process_command handler a =
     (case split_line (incoming a) of
        None \<Rightarrow> Some (False, a)
      | Some (line, rest) \<Rightarrow>
          (case and_then (Some (allocs 3 a)) (\<lambda>b. process_line handler b line) of
             None \<Rightarrow> None
           | Some (ok, a) \<Rightarrow>
               if ok then Some (True, a\<lparr>incoming := drop (length line + 2) (incoming a), needed_memory := False\<rparr>)
               else Some (False, a\<lparr>needed_memory := True\<rparr>)))"
proof (cases "split_line (incoming a)")
  case (Some p)
  obtain line rest where p: "p = (line, rest)" by (cases p)
  have "incoming a = line @ CRLF @ rest" using Some p split_line_join by blast
  then have t: "take (length line) (incoming a) = line" by simp
  show ?thesis using Some p t by (simp add: process_command_def find_line add.commute split: option.splits)
qed (simp add: process_command_def find_line)

section \<open>A side of a conversation\<close>

datatype auth_event = Read "byte list" | Work | Sent nat | Discard

definition auth_step :: "('z auth_scheme) command_handler \<Rightarrow> 'z auth_scheme option \<Rightarrow> auth_event \<Rightarrow> 'z auth_scheme option" where
  "auth_step handler x e =
     (case x of
        None \<Rightarrow> None
      | Some a \<Rightarrow>
          (case e of
             Read bytes \<Rightarrow> Some (dbus_auth_read a bytes)
           | Work \<Rightarrow> map_option snd (dbus_auth_do_work handler a)
           | Sent n \<Rightarrow> dbus_auth_bytes_sent a n
           | Discard \<Rightarrow> Some (dbus_auth_delete_unused_bytes a)))"

locale conversation =
  fixes handler :: "('z auth_scheme) command_handler" and inv :: "'z auth_scheme \<Rightarrow> bool"
  assumes handler_keeps: "inv a \<Longrightarrow> \<not> in_end_state a \<Longrightarrow>
      post True (handler a cmd args) (\<lambda>ok a'. inv a' \<and> incoming a' = incoming a)"
    and inv_frame: "inv (a\<lparr>incoming := i\<rparr>) = inv a" "inv (a\<lparr>outgoing := out\<rparr>) = inv a"
      "inv (a\<lparr>auth_mem := m\<rparr>) = inv a" "inv (a\<lparr>needed_memory := n\<rparr>) = inv a"
    and inv_disconnect: "inv a \<Longrightarrow> \<not> in_end_state a \<Longrightarrow> inv (goto_state a common_state_need_disconnect)"
begin

lemma send_error_inv: "inv a \<Longrightarrow> inv (snd (send_error a t)) \<and> incoming (snd (send_error a t)) = incoming a"
  by (auto simp: send_error_def inv_frame split: prod.splits dest!: allocs_same)

lemma line_keeps:
  assumes "inv a" "\<not> in_end_state a"
  shows "post True (process_line handler a line) (\<lambda>ok a'. inv a' \<and> incoming a' = incoming a)"
proof -
  have "post True (and_then (Some (allocs 1 a)) (\<lambda>a. handler a cmd args)) (\<lambda>ok a'. inv a' \<and> incoming a' = incoming a)" for cmd args
  proof (rule post_and_then, rule post_allocs)
    fix ok m
    have "inv (a\<lparr>auth_mem := m\<rparr>)" "\<not> in_end_state (a\<lparr>auth_mem := m\<rparr>)"
      using assms by (simp_all add: inv_frame in_end_state_def)
    then show "if ok then post True (handler (a\<lparr>auth_mem := m\<rparr>) cmd args) (\<lambda>ok a'. inv a' \<and> incoming a' = incoming a)
        else inv (a\<lparr>auth_mem := m\<rparr>) \<and> incoming (a\<lparr>auth_mem := m\<rparr>) = incoming a"
      using handler_keeps[of "a\<lparr>auth_mem := m\<rparr>"] by simp
  qed
  then show ?thesis using send_error_inv[OF assms(1)]
    by (auto simp: process_line_def post_pair Let_def split: option.splits)
qed

lemma command_keeps:
  assumes "inv a" "\<not> in_end_state a" "process_command handler a = Some (again, a')"
  shows "inv a' \<and> (if again then (\<exists>l. split_line (incoming a) = Some (l, incoming a')) else incoming a' = incoming a)"
proof (cases "split_line (incoming a)")
  case None
  then show ?thesis using assms by (simp add: process_command_line)
next
  case (Some p)
  obtain l r where p: "p = (l, r)" by (cases p)
  then have "incoming a = l @ CRLF @ r" using Some split_line_join by blast
  then have d: "drop (length l + 2) (incoming a) = r" by (simp add: CRLF_def)
  have "post True (and_then (Some (allocs 3 a)) (\<lambda>b. process_line handler b l)) (\<lambda>ok a'. inv a' \<and> incoming a' = incoming a)"
  proof (rule post_and_then, rule post_allocs)
    fix ok m
    have "inv (a\<lparr>auth_mem := m\<rparr>)" "\<not> in_end_state (a\<lparr>auth_mem := m\<rparr>)"
      using assms by (simp_all add: inv_frame in_end_state_def)
    then show "if ok then post True (process_line handler (a\<lparr>auth_mem := m\<rparr>) l) (\<lambda>ok a'. inv a' \<and> incoming a' = incoming a)
        else inv (a\<lparr>auth_mem := m\<rparr>) \<and> incoming (a\<lparr>auth_mem := m\<rparr>) = incoming a"
      using line_keeps[of "a\<lparr>auth_mem := m\<rparr>"] by simp
  qed
  then show ?thesis using assms(3) Some p d
    by (auto simp: process_command_line inv_frame split: option.splits prod.splits if_splits)
qed

text \<open>The work loop ends, and what it leaves of the input is what follows the lines it took.\<close>

lemma loop_keeps:
  "inv a \<Longrightarrow> do_work_loop fuel handler a = Some a' \<Longrightarrow>
   inv a' \<and> (\<exists>lines. incoming a = concat (map (\<lambda>l. l @ CRLF) lines) @ incoming a')"
proof (induction fuel arbitrary: a)
  case (Suc fuel)
  show ?case
  proof (cases "in_end_state a \<or> buffer_overrun a")
    case True
    have "incoming a = concat (map (\<lambda>l. l @ CRLF) []) @ incoming a" by simp
    then show ?thesis using True Suc.prems inv_disconnect[of a]
      by (auto simp: goto_state_def simp del: concat.simps list.map intro!: exI[of _ "[]"] split: if_splits)
  next
    case False
    then obtain again b where b: "process_command handler a = Some (again, b)"
      and rec: "if again then do_work_loop fuel handler b = Some a' else a' = b"
      using Suc.prems(2) by (auto split: option.splits prod.splits if_splits)
    have k: "inv b" "if again then (\<exists>l. split_line (incoming a) = Some (l, incoming b)) else incoming b = incoming a"
      using command_keeps[OF Suc.prems(1) _ b] False by auto
    show ?thesis
    proof (cases again)
      case True
      then obtain l where l: "incoming a = l @ CRLF @ incoming b" using k(2) split_line_join by auto
      obtain ls where "inv a'" "incoming b = concat (map (\<lambda>l. l @ CRLF) ls) @ incoming a'"
        using Suc.IH[OF k(1)] rec True by auto
      then have "inv a' \<and> incoming a = concat (map (\<lambda>l. l @ CRLF) (l # ls)) @ incoming a'" using l by simp
      then show ?thesis by blast
    next
      case again: False
      have "incoming a = concat (map (\<lambda>l. l @ CRLF) []) @ incoming a'" using k again rec by simp
      then show ?thesis using k(1) again rec by (metis (full_types))
    qed
  qed
qed simp

lemma loop_fuel:
  "inv a \<Longrightarrow> length (incoming a) < fuel \<Longrightarrow> length (incoming a) < fuel' \<Longrightarrow>
   do_work_loop fuel handler a = do_work_loop fuel' handler a"
proof (induction fuel arbitrary: a fuel')
  case (Suc fuel)
  obtain k where k: "fuel' = Suc k" using Suc.prems(3) by (cases fuel') auto
  have "do_work_loop fuel handler b = do_work_loop k handler b"
    if "process_command handler a = Some (True, b)" "\<not> in_end_state a" for b
  proof -
    have "inv b" "length (incoming b) < length (incoming a)"
      using command_keeps[OF Suc.prems(1) that(2,1)] split_line_shorter by auto
    then show ?thesis using Suc.IH[of b k] Suc.prems k by simp
  qed
  then show ?case unfolding k by (auto split: option.splits)
qed simp

lemma step_keeps:
  assumes "inv a" "auth_step handler (Some a) e = Some a'"
  shows "inv a'"
proof (cases e)
  case Work
  then obtain b where "do_work_loop (Suc (length (incoming a))) handler (a\<lparr>needed_memory := False\<rparr>) = Some b" "a' = b"
    using assms(2) by (auto simp: auth_step_def dbus_auth_do_work_def simp del: do_work_loop.simps split: option.splits)
  then show ?thesis using loop_keeps[of "a\<lparr>needed_memory := False\<rparr>"] assms(1) by (simp add: inv_frame del: do_work_loop.simps)
qed (use assms in \<open>auto simp: auth_step_def dbus_auth_read_def dbus_auth_bytes_sent_def dbus_auth_delete_unused_bytes_def
      inv_frame split: if_splits\<close>)

end

sublocale conversation \<subseteq> side: machine None "auth_step handler" "\<lambda>x. \<forall>a. x = Some a \<longrightarrow> inv a"
proof
  fix x e
  assume "\<forall>a. x = Some a \<longrightarrow> inv a"
  then show "\<forall>a. auth_step handler x e = Some a \<longrightarrow> inv a"
    using step_keeps by (cases x) (auto simp: auth_step_def[of _ None])
qed simp

end
