(* ===== verification/AuthServer.thy ===== *)
theory AuthServer
  imports AuthRuns
begin

text \<open>
  The server side of an authentication conversation: its runs keep the invariant of \<open>AuthInv\<close>, and
  what follows about users, failures, lines, aborts, memory and cookies.
\<close>

section \<open>Runs of a server\<close>

lemma inv_busy:
  "server_inv c al a \<Longrightarrow> \<not> in_end_state a \<Longrightarrow> busy c al (incoming a) (state a) (mech a) a"
  by (auto simp: busy_def server_inv_def inv_state_def in_end_state_def)

interpretation server_side: conversation "server_handler env" "server_inv c al"
proof
  fix a :: "'a auth_server_scheme" and cmd args
  assume a: "server_inv c al a" "\<not> in_end_state a"
  show "post True (server_handler env a cmd args) (\<lambda>ok a'. server_inv c al a' \<and> incoming a' = incoming a)"
    using kept_server_handler[OF inv_busy[OF a], of True args env cmd] by (auto simp: kept_def elim: post_mono)
  show "server_inv c al (goto_state a common_state_need_disconnect)"
    using kept_disconnect[OF inv_busy[OF a]] by (simp add: kept_def)
qed (simp_all add: server_inv_def)

text \<open>A server object as the transport sets it up: its mechanisms, and the credentials of the socket.\<close>

definition server_start :: "byte list \<Rightarrow> byte list list option \<Rightarrow> credentials \<Rightarrow> mem_oracle \<Rightarrow> auth_server option" where
  "server_start g al c m =
     (case dbus_auth_server_new g m of
        (None, m) \<Rightarrow> None
      | (Some a, m) \<Rightarrow>
          (case dbus_auth_set_mechanisms a al of (ok, a) \<Rightarrow>
             if \<not> ok then None
             else case dbus_auth_set_credentials a c of (ok, a) \<Rightarrow> if \<not> ok then None else Some a))"

abbreviation server_runs :: "auth_env \<Rightarrow> auth_server \<Rightarrow> auth_event list \<Rightarrow> auth_server option" where
  "server_runs env a es \<equiv> run (auth_step (server_handler env)) (Some a) es"

lemma set_credentials_all:
  assumes "dbus_auth_set_credentials a c = (True, a')"
  shows "\<exists>m. a' = a\<lparr>socket_credentials := c, auth_mem := m\<rparr>"
proof -
  obtain d m where k: "dbus_credentials_add_credentials (dbus_credentials_clear (socket_credentials a)) c (auth_mem a) = (True, d, m)"
    "a' = a\<lparr>socket_credentials := d, auth_mem := m\<rparr>"
    using assms by (auto simp: dbus_auth_set_credentials_def add_credentials_to_def split: prod.splits)
  have "d = c"
    using k(1) by (auto simp: dbus_credentials_add_credentials_def dbus_credentials_add_credential_def dbus_credentials_clear_def
        dbus_credentials_add_unix_pid_def dbus_credentials_add_unix_uid_def dbus_credentials_add_windows_sid_def
        dbus_credentials_add_adt_audit_data_def split: prod.splits if_splits option.splits intro!: credentials.equality)
  then show ?thesis using k by auto
qed

lemma server_start_inv: "server_start g al c m = Some a \<Longrightarrow> server_inv c al a \<and> incoming a = [] \<and> outgoing a = []"
  by (auto simp: server_start_def dbus_auth_server_new_def dbus_auth_new_def dbus_auth_set_mechanisms_def auth.defs auth_server.defs
      server_inv_def inv_state_def waiting_def inv_keyring_def inv_desired_def inv_authorized_def within_def dbus_credentials_new_def
      dest!: set_credentials_all allocs_same split: prod.splits option.splits if_splits)

lemma server_reachable:
  assumes "server_start g al c m = Some a0" "server_runs env a0 es = Some a"
  shows "server_inv c al a"
proof -
  have "\<forall>a. server_runs env a0 es = Some a \<longrightarrow> server_inv c al a"
    by (rule server_side.side.run_inv) (use server_start_inv[OF assms(1)] in simp)
  then show ?thesis using assms(2) by blast
qed

text \<open>
  C13. However the peer of a server that does not allow \<open>DBUS_COOKIE_SHA1\<close> behaves, whatever the
  environment answers and wherever memory runs out: the user the server has authorized is the user
  of the socket, or none.
\<close>

theorem no_forged_user:
  assumes "server_start g al c m = Some a0" "\<not> cookie_allowed al" "server_runs env a0 es = Some a"
  shows "unix_uid (authorized_identity a) \<in> {DBUS_UID_UNSET, unix_uid c}"
  using server_reachable[OF assms(1,3)] assms(2) by (auto simp: server_inv_def inv_authorized_def within_def)

text \<open>
  C22. A peer authenticated by \<open>EXTERNAL\<close> over a socket without a Windows user is authorized as the
  user of the socket, which is then known; this also where other mechanisms are allowed.
\<close>

theorem external_is_socket_user:
  assumes "server_start g al c m = Some a0" "server_runs env a0 es = Some a"
    and "state a = common_state_authenticated" "mech a = Some EXTERNAL" "windows_sid c = None"
  shows "unix_uid (authorized_identity a) = unix_uid c \<and> unix_uid c \<noteq> DBUS_UID_UNSET"
  using server_reachable[OF assms(1,2)] assms(3-) by (simp add: server_inv_def inv_authorized_def external_authorized_def)

text \<open>
  A server never counts more than its six failures, and counting the sixth it stops talking;
  while it waits for data it has a mechanism to give the data to.
\<close>

theorem server_failures_bounded:
  assumes "server_start g al c m = Some a0" "server_runs env a0 es = Some a"
  shows "failures a \<le> max_failures a \<and> (failures a = max_failures a \<longrightarrow> state a = common_state_need_disconnect) \<and>
    (state a = server_state_waiting_for_data \<longrightarrow> mech a \<noteq> None)"
  using server_reachable[OF assms] by (auto simp: server_inv_def inv_state_def)


text \<open>
  Work takes whole lines off the front of the input and leaves every byte after them.
\<close>

theorem server_takes_lines:
  assumes "server_start g al c m = Some a0" "server_runs env a0 es = Some a"
    and "dbus_auth_do_work (server_handler env) a = Some (r, a')"
  shows "\<exists>lines. incoming a = concat (map (\<lambda>l. l @ CRLF) lines) @ incoming a'"
proof -
  have "server_inv c al (a\<lparr>needed_memory := False\<rparr>)" using server_reachable[OF assms(1,2)] by (simp add: server_inv_def)
  moreover have "do_work_loop (Suc (length (incoming a))) (server_handler env) (a\<lparr>needed_memory := False\<rparr>) = Some a'"
    using assms(3) by (simp add: dbus_auth_do_work_def del: do_work_loop.simps split: option.splits)
  ultimately show ?thesis using server_side.loop_keeps by fastforce
qed

text \<open>
  C23. No peer can make such a server abort by a line without a carriage return or a line feed of its
  own: where the cookie mechanism is not allowed the handlers return on every other line.
\<close>

theorem server_never_aborts:
  assumes "server_start g al c m = Some a0" "\<not> cookie_allowed al" "server_runs env a0 es = Some a"
    and "\<not> in_end_state a" "one_line line"
  shows "process_line (server_handler env) a line \<noteq> None"
proof -
  define i where "i = snd (dbus_string_find_blank line 0)"
  have i: "i \<le> length line" unfolding i_def by (rule find_blank_bound) simp
  have b: "busy c al (incoming a) (state a) (mech a) a" using inv_busy[OF server_reachable[OF assms(1,3)] assms(4)] .
  obtain j where j: "dbus_string_skip_blank line i = Some j" using skip_blank_total[OF assms(5) i] by blast
  have l: "one_line (drop j line)" using assms(5) by (auto simp: one_line_def dest: in_set_dropD)
  have h: "post False (and_then (Some (allocs 1 a)) (\<lambda>a. server_handler env a cmd (drop j line))) (kept c al (incoming a) (state a))" for cmd
    by (rule kept_allocs[OF b]) (rule kept_server_handler, use l assms(2) in auto)
  show ?thesis
    using post_False[OF h[of "lookup_command_from_name (take i line)"]] i_def[symmetric] j by (simp add: process_line_def Let_def)
qed

section \<open>A conversation run\<close>

text \<open>The environment of a host with one user, \<open>0\<close>, who has one cookie.\<close>

definition root_credentials :: credentials where
  "root_credentials = dbus_credentials_new\<lparr>unix_uid := 0, unix_pid := 77\<rparr>"

definition root_keyring :: keyring where
  "root_keyring = \<lparr>keys = [\<lparr>key_id = 1, secret = [0xab, 0xcd]\<rparr>], keyring_credentials = root_credentials\<rparr>"

definition root_env :: auth_env where
  "root_env = \<lparr>env_user = (\<lambda>n name. if name = ascii ''0'' then Some 0 else None),
     env_random = (\<lambda>n k. Some (replicate k 7)), env_current_user = (\<lambda>n. Some (ascii ''0'')),
     env_keyring = (\<lambda>n c ctx. KeyringLoaded root_keyring), env_best_key = (\<lambda>n k. (1, k)),
     env_strtol = (\<lambda>s. if s = ascii ''1'' then Some 1 else None), env_version = ascii ''1.2.12''\<rparr>"

definition root_server :: auth_server where
  "root_server = the (server_start (ascii ''c0ffee'') (Some [ascii ''EXTERNAL'']) root_credentials [])"

lemma root_start: "server_start (ascii ''c0ffee'') (Some [ascii ''EXTERNAL'']) root_credentials [] = Some root_server"
  by (simp add: root_server_def) code_simp

section \<open>The end of the conversation\<close>

lemma mem_never_fails: "never_fails m \<Longrightarrow> \<exists>m'. mem_allocs k m = (True, m') \<and> never_fails m'"
proof (induction k arbitrary: m)
  case (Suc k)
  obtain ok m1 where "alloc m = (ok, m1)" by force
  then show ?case using alloc_never_fails[OF Suc.prems] Suc.IH by auto
qed simp

lemma allocs_never_fail: "never_fails (auth_mem a) \<Longrightarrow> \<exists>m'. allocs k a = (True, a\<lparr>auth_mem := m'\<rparr>) \<and> never_fails m'"
  using mem_never_fails[of "auth_mem a" k] by (auto simp: allocs_def)

lemma and_then_ok [simp]: "and_then (Some (True, a)) f = f a" "and_then (Some (False, a)) f = Some (False, a)"
  by (simp_all add: and_then_def)

lemma begin_line: "process_line h a (ascii ''BEGIN'') = and_then (Some (allocs 1 a)) (\<lambda>a. h a COMMAND_BEGIN [])"
proof -
  have "dbus_string_validate_ascii (ascii ''BEGIN'')" "dbus_string_find_blank (ascii ''BEGIN'') 0 = (False, 5)"
    "dbus_string_skip_blank (ascii ''BEGIN'') 5 = Some 5" "lookup_command_from_name (ascii ''BEGIN'') = COMMAND_BEGIN"
    by code_simp+
  then show ?thesis by (simp add: process_line_def)
qed

lemma split_BEGIN: "split_line (ascii ''BEGIN'' @ CRLF @ rest) = Some (ascii ''BEGIN'', rest)"
  by (simp add: CRLF_def)

lemma drop_CRLF: "length CRLF = 2" "drop 2 CRLF = []"
  by (simp_all add: CRLF_def)

text \<open>
  The peer may send its first messages together with \<open>BEGIN\<close>: every byte after the line end
  is kept for the message stream, none is taken as a command.
\<close>

theorem begin_hands_over_stream:
  fixes a :: auth_server
  assumes "state a = server_state_waiting_for_begin" "incoming a = ascii ''BEGIN'' @ CRLF @ rest"
    and "never_fails (auth_mem a)" "\<not> buffer_overrun a"
  shows "\<exists>r a'. dbus_auth_do_work (server_handler env) a = Some (r, a') \<and> state a' = common_state_authenticated \<and>
    dbus_auth_get_unused_bytes a' = Some rest"
proof -
  let ?a = "a\<lparr>needed_memory := False\<rparr>"
  obtain m1 where m1: "allocs 3 ?a = (True, ?a\<lparr>auth_mem := m1\<rparr>)" "never_fails m1"
    using allocs_never_fail[of ?a 3] assms(3) by auto
  obtain m2 where m2: "allocs 1 (?a\<lparr>auth_mem := m1\<rparr>) = (True, ?a\<lparr>auth_mem := m2\<rparr>)"
    using allocs_never_fail[of "?a\<lparr>auth_mem := m1\<rparr>" 1] m1(2) by auto
  let ?b = "?a\<lparr>auth_mem := m2, state := common_state_authenticated, incoming := rest\<rparr>"
  have d: "drop 7 (incoming a) = rest" using assms(2) by (simp add: CRLF_def)
  have "process_command (server_handler env) ?a = Some (True, ?b)"
    using assms(1) m1(1) m2 d assms(2) drop_CRLF
    by (simp add: process_command_line split_BEGIN begin_line server_handler_def goto_state_def del: ascii_Cons)
  moreover obtain k where "length (incoming a) = Suc k" using assms(2) by (cases "incoming a") (auto simp: CRLF_def)
  ultimately have "dbus_auth_do_work (server_handler env) a = Some (work_result ?b, ?b)"
    using assms(1,4) by (simp add: dbus_auth_do_work_def in_end_state_def buffer_overrun_def)
  then show ?thesis by (simp add: dbus_auth_get_unused_bytes_def in_end_state_def)
qed

theorem begin_hands_over_stream_witness:
  "\<exists>r a'. dbus_auth_do_work (server_handler root_env) (root_server\<lparr>state := server_state_waiting_for_begin,
      incoming := ascii ''BEGIN'' @ CRLF @ ascii ''l!''\<rparr>) = Some (r, a') \<and> state a' = common_state_authenticated \<and>
    dbus_auth_get_unused_bytes a' = Some (ascii ''l!'')"
  by (rule begin_hands_over_stream) (simp, simp, code_simp, code_simp)

section \<open>Cookies\<close>

lemma rejected_state: "send_rejected a = (ok, a') \<Longrightarrow>
    state a' \<in> {state a, server_state_waiting_for_auth, common_state_need_disconnect}"
  by (auto simp: send_rejected_def goto_state_def Let_def split: prod.splits if_splits dest!: allocs_same)

lemma compute_hash_result:
  assumes "sha1_compute_hash a i u v = Some (True, h, a')" "h \<noteq> []"
  shows "\<exists>k key. auth_keyring a = Some k \<and> find_key_by_id (keys k) i = Some key \<and>
    h = dbus_sha_compute (u @ ascii '':'' @ v @ ascii '':'' @ dbus_string_hex_encode (secret key)) \<and> state a' = state a"
  using assms by (auto simp: sha1_compute_hash_def Let_def split: option.splits prod.splits if_splits dest!: allocs_same)

lemma compute_hash_state: "sha1_compute_hash a i u v = Some (ok, h, a') \<Longrightarrow> state a' = state a"
  by (auto simp: sha1_compute_hash_def Let_def split: option.splits prod.splits if_splits dest!: allocs_same)

lemma second_hash_accepts:
  fixes a :: "'z auth_server_scheme"
  assumes "second_response_hash a u v = Some (ok, a')" "state a = server_state_waiting_for_data"
    and "state a' = server_state_waiting_for_begin"
  shows "u \<noteq> [] \<and> (\<exists>k key. auth_keyring a = Some k \<and> find_key_by_id (keys k) (cookie_id a) = Some key \<and>
    v = dbus_sha_compute (challenge a @ ascii '':'' @ u @ ascii '':'' @ dbus_string_hex_encode (secret key)))"
proof -
  have no_reject: False if "send_rejected b = (ok, a')" "state b = server_state_waiting_for_data"
    for b :: "'z auth_server_scheme"
    using rejected_state[OF that(1)] that(2) assms(3) by auto
  have uv: "u \<noteq> []" "v \<noteq> []" using no_reject[of a] assms by (auto simp: second_response_hash_def split: if_splits)
  obtain m where m: "allocs 1 a = (True, a\<lparr>auth_mem := m\<rparr>)"
    using assms uv by (cases "allocs 1 a"; cases "fst (allocs 1 a)") (auto simp: second_response_hash_def dest!: allocs_same)
  obtain ok2 h b where h: "sha1_compute_hash (a\<lparr>auth_mem := m\<rparr>) (cookie_id a) (challenge a) u = Some (ok2, h, b)"
    using assms(1) uv m by (auto simp: second_response_hash_def split: option.splits)
  have sb: "state b = server_state_waiting_for_data" using compute_hash_state[OF h] assms(2) by simp
  have r: "ok2" "h \<noteq> []" "v = h"
    using assms uv m h no_reject[OF _ sb] sb by (auto simp: second_response_hash_def split: if_splits)
  then obtain k key where "auth_keyring a = Some k" "find_key_by_id (keys k) (cookie_id a) = Some key"
    "h = dbus_sha_compute (challenge a @ ascii '':'' @ u @ ascii '':'' @ dbus_string_hex_encode (secret key))"
    using compute_hash_result[of "a\<lparr>auth_mem := m\<rparr>" "cookie_id a" "challenge a" u h b] h by auto
  then show ?thesis using uv r(3) by blast
qed

lemma skip_blank_blanks:
  "dbus_string_skip_blank d i = Some j \<Longrightarrow> i \<le> length d \<Longrightarrow> \<exists>bl. list_all IS_ASCII_BLANK bl \<and> drop i d = bl @ drop j d"
proof -
  have "\<exists>bl. list_all IS_ASCII_BLANK bl \<and> t = bl @ drop (skip_blank_loop t k - k) t" for t k
  proof (induction t k rule: skip_blank_loop.induct)
    case (2 c cs k)
    have g: "k + 1 \<le> skip_blank_loop cs (k + 1)" by (rule skip_blank_loop_ge)
    show ?case
    proof (cases "IS_ASCII_BLANK c")
      case True
      then obtain bl where "list_all IS_ASCII_BLANK bl" "cs = bl @ drop (skip_blank_loop cs (k + 1) - (k + 1)) cs"
        using "2.IH" by auto
      then have "list_all IS_ASCII_BLANK (c # bl) \<and> c # cs = (c # bl) @ drop (skip_blank_loop cs (k + 1) - (k + 1)) cs"
        using True by simp
      then show ?thesis using True g by (auto simp: drop_Cons' intro!: exI[of _ "c # bl"])
    qed (auto intro: exI[of _ "[]"])
  qed (auto intro: exI[of _ "[]"])
  from this[of "drop i d" i]
  show "dbus_string_skip_blank d i = Some j \<Longrightarrow> i \<le> length d \<Longrightarrow> \<exists>bl. list_all IS_ASCII_BLANK bl \<and> drop i d = bl @ drop j d"
    using skip_blank_loop_ge[of i "drop i d"] by (auto simp: dbus_string_skip_blank_def Let_def split: if_splits)
qed

text \<open>
  C14. A client that answers a \<open>DBUS_COOKIE_SHA1\<close> challenge is accepted only with the proof that it
  could read the cookie file: its answer is a challenge of its own, a blank, and the SHA-1 digest, in
  hexadecimal, of both challenges and the secret of the cookie the server chose.
\<close>

theorem cookie_proof_required:
  fixes a :: auth_server
  assumes "handle_server_data_cookie_sha1_mech env a d = Some (ok, a')" "0 \<le> cookie_id a"
    and "state a = server_state_waiting_for_data" "state a' = server_state_waiting_for_begin"
    and "length d < 2 ^ 30" "length (challenge a) < 2 ^ 30"
    and "\<And>k key. auth_keyring a = Some k \<Longrightarrow> key \<in> set (keys k) \<Longrightarrow> length (secret key) < 2 ^ 29"
  shows "\<exists>k key client_challenge blanks. auth_keyring a = Some k \<and> key \<in> set (keys k) \<and> key_id key = cookie_id a \<and>
     list_all IS_ASCII_BLANK blanks \<and> client_challenge \<noteq> [] \<and>
     d = client_challenge @ blanks @ dbus_string_hex_encode (fips_sha1
       (challenge a @ ascii '':'' @ client_challenge @ ascii '':'' @ dbus_string_hex_encode (secret key)))"
proof -
  obtain i where i: "dbus_string_find_blank d 0 = (True, i)"
    using assms(1-4) rejected_state[of a ok a']
    by (cases "dbus_string_find_blank d 0"; cases "fst (dbus_string_find_blank d 0)")
      (auto simp: handle_server_data_cookie_sha1_mech_def sha1_handle_second_client_response_def)
  have il: "i \<le> length d" using find_blank_bound[of 0 d] i by simp
  obtain ok1 m1 where m1: "allocs 3 a = (ok1, a\<lparr>auth_mem := m1\<rparr>)" by (cases "allocs 3 a") (use allocs_same in blast)
  obtain ok2 m2 where m2: "allocs 1 (a\<lparr>auth_mem := m1\<rparr>) = (ok2, a\<lparr>auth_mem := m2\<rparr>)"
    by (cases "allocs 1 (a\<lparr>auth_mem := m1\<rparr>)") (use allocs_same in force)
  obtain j where j: "dbus_string_skip_blank d i = Some j"
    and hash: "second_response_hash (a\<lparr>auth_mem := m2\<rparr>) (take i d) (drop j d) = Some (ok, a')"
    using assms(1-4) i m1 m2
    by (cases ok1; cases ok2) (auto simp: handle_server_data_cookie_sha1_mech_def sha1_handle_second_client_response_def split: option.splits)
  obtain k key where k: "take i d \<noteq> []" "auth_keyring a = Some k" "find_key_by_id (keys k) (cookie_id a) = Some key"
    "drop j d = dbus_sha_compute (challenge a @ ascii '':'' @ take i d @ ascii '':'' @ dbus_string_hex_encode (secret key))"
    using second_hash_accepts[OF hash] assms(3,4) by auto
  have key: "key \<in> set (keys k)" "key_id key = cookie_id a"
    using k(3) by (auto simp: find_key_by_id_def find_Some_iff)
  have "length (challenge a @ ascii '':'' @ take i d @ ascii '':'' @ dbus_string_hex_encode (secret key)) < 2 ^ 32"
    using assms(5,6) assms(7)[OF k(2) key(1)] by (simp add: hex_encode_length)
  note h = sha_compute_hex[OF this]
  obtain bl where bl: "list_all IS_ASCII_BLANK bl" "drop i d = bl @ drop j d" using skip_blank_blanks[OF j il] by blast
  have "d = take i d @ bl @ drop j d" using bl(2) append_take_drop_id[of i d] by simp
  then have "d = take i d @ bl @ dbus_string_hex_encode (fips_sha1
      (challenge a @ ascii '':'' @ take i d @ ascii '':'' @ dbus_string_hex_encode (secret key)))"
    using k(4) h by simp
  then show ?thesis using k(1,2) key bl(1) by blast
qed

lemma hexdigit_not_white: "n < 16 \<Longrightarrow> \<not> IS_ASCII_WHITE (hexdigits ! n)"
proof -
  have "list_all (\<lambda>n. \<not> IS_ASCII_WHITE (hexdigits ! n)) [0..<16]" by code_simp
  then show "n < 16 \<Longrightarrow> \<not> IS_ASCII_WHITE (hexdigits ! n)" by (simp add: list_all_iff)
qed

lemma sha_text:
  assumes "length d < 2 ^ 32"
  shows "\<exists>c t. dbus_sha_compute d = c # t \<and> \<not> IS_ASCII_WHITE c"
proof -
  obtain b bs where b: "fips_sha1 d = b # bs" using length_sha1[of d] by (cases "fips_sha1 d") auto
  have "unat (drop_bit 4 b) < 16" 
  proof -
    have "unat (drop_bit 4 b) = unat b div 16" by (simp add: drop_bit_eq_div unat_div_distrib)
    then show ?thesis using unat_byte[of b] by simp
  qed
  then show ?thesis
    using hexdigit_not_white sha_compute_hex[OF assms] b by (simp add: hex_encode_Cons byte_as_hex_def)
qed

definition cookie_server :: auth_server where
  "cookie_server = root_server\<lparr>state := server_state_waiting_for_data, mech := Some DBUS_COOKIE_SHA1, cookie_id := 1,
     challenge := ascii ''f00d'', auth_keyring := Some root_keyring, allowed_mechs := None\<rparr>"

definition cookie_answer :: "byte list" where
  "cookie_answer = ascii ''x '' @ dbus_sha_compute (ascii ''f00d'' @ ascii '':'' @ ascii ''x'' @ ascii '':'' @ dbus_string_hex_encode [0xab, 0xcd])"

lemma cookie_server_fields:
  "state cookie_server = server_state_waiting_for_data" "auth_mem cookie_server = []" "cookie_id cookie_server = 1"
  "challenge cookie_server = ascii ''f00d''" "auth_keyring cookie_server = Some root_keyring"
  by code_simp+

lemma cookie_accepted:
  "\<exists>a. handle_server_data_cookie_sha1_mech root_env cookie_server cookie_answer = Some (True, a) \<and>
     state a = server_state_waiting_for_begin"
proof -
  have len: "length (ascii ''f00d'' @ ascii '':'' @ ascii ''x'' @ ascii '':'' @ dbus_string_hex_encode [0xab, 0xcd]) < 2 ^ 32"
    by (simp add: hex_encode_length)
  obtain c t where h: "dbus_sha_compute (ascii ''f00d'' @ ascii '':'' @ ascii ''x'' @ ascii '':'' @ dbus_string_hex_encode [0xab, 0xcd]) = c # t"
    and w: "\<not> IS_ASCII_WHITE c" using sha_text[OF len] by blast
  have d: "cookie_answer = ascii ''x '' @ c # t" using h by (simp only: cookie_answer_def)
  have w': "\<not> IS_ASCII_BLANK c" using w by (auto simp: IS_ASCII_BLANK_def IS_ASCII_WHITE_def)
  have blank: "dbus_string_find_blank cookie_answer 0 = (True, 1)" "dbus_string_skip_blank cookie_answer 1 = Some 2"
    "take 1 cookie_answer = ascii ''x''" "drop 2 cookie_answer = c # t"
    using w w' by (simp_all add: d dbus_string_find_blank_def dbus_string_skip_blank_def IS_ASCII_BLANK_def IS_ASCII_WHITE_def nth_Cons')
  have key: "find_key_by_id (keys root_keyring) 1 = Some \<lparr>key_id = 1, secret = [0xab, 0xcd]\<rparr>"
    by code_simp
  have n: "dbus_string_hex_encode [0xab, 0xcd] \<noteq> []" by code_simp
  have "map_option (\<lambda>(ok, a). (ok, state a)) (and_then (Some (authorize_desired (cookie_server\<lparr>auth_mem := []\<rparr>))) (\<lambda>a.
      and_then (Some (authorize_from_socket CREDENTIAL_UNIX_PROCESS_ID a)) (\<lambda>a. Some (send_ok a)))) =
    Some (True, server_state_waiting_for_begin)" by code_simp
  then obtain a where "and_then (Some (authorize_desired (cookie_server\<lparr>auth_mem := []\<rparr>))) (\<lambda>a.
      and_then (Some (authorize_from_socket CREDENTIAL_UNIX_PROCESS_ID a)) (\<lambda>a. Some (send_ok a))) = Some (True, a)"
    "state a = server_state_waiting_for_begin" by auto
  moreover have "ascii ''x'' \<noteq> []" by simp
  ultimately show ?thesis
    using cookie_server_fields key n h blank
    by (simp add: handle_server_data_cookie_sha1_mech_def sha1_handle_second_client_response_def second_response_hash_def
        allocs_def eval_nat_numeral sha1_compute_hash_def Let_def del: ascii_Cons)
qed

theorem cookie_proof_required_witness:
  "\<exists>k key client_challenge blanks. auth_keyring cookie_server = Some k \<and> key \<in> set (keys k) \<and>
     key_id key = cookie_id cookie_server \<and> list_all IS_ASCII_BLANK blanks \<and> client_challenge \<noteq> [] \<and>
     cookie_answer = client_challenge @ blanks @ dbus_string_hex_encode (fips_sha1
       (challenge cookie_server @ ascii '':'' @ client_challenge @ ascii '':'' @ dbus_string_hex_encode (secret key)))"
proof -
  obtain a where a: "handle_server_data_cookie_sha1_mech root_env cookie_server cookie_answer = Some (True, a)"
    "state a = server_state_waiting_for_begin" using cookie_accepted by blast
  have "length (ascii ''f00d'' @ ascii '':'' @ ascii ''x'' @ ascii '':'' @ dbus_string_hex_encode [0xab, 0xcd]) < 2 ^ 32"
    by (simp add: hex_encode_length)
  then have len: "length cookie_answer < 2 ^ 30"
    by (simp only: cookie_answer_def length_append sha_compute_hex hex_encode_length length_sha1) simp
  show ?thesis
    by (rule cookie_proof_required[OF a(1) _ _ a(2) len]) (auto simp: cookie_server_fields root_keyring_def)
qed

section \<open>Instances of the theorems on runs\<close>

definition root_login :: "auth_event list" where
  "root_login = [Read (ascii ''AUTH EXTERNAL 30'' @ CRLF @ ascii ''BEGIN'' @ CRLF), Work]"

lemma root_authenticated:
  "map_option (\<lambda>a. (state a, mech a, unix_uid (authorized_identity a))) (server_runs root_env root_server root_login) =
   Some (common_state_authenticated, Some EXTERNAL, 0)"
  by code_simp

lemma root_run: "server_runs root_env root_server root_login = Some (the (server_runs root_env root_server root_login))"
  using root_authenticated by auto

lemma no_cookie: "\<not> cookie_allowed (Some [ascii ''EXTERNAL''])"
  by code_simp

theorem no_forged_user_witness:
  "unix_uid (authorized_identity (the (server_runs root_env root_server root_login))) \<in> {DBUS_UID_UNSET, unix_uid root_credentials}"
  by (rule no_forged_user[OF root_start no_cookie root_run])

theorem external_is_socket_user_witness:
  "unix_uid (authorized_identity (the (server_runs root_env root_server root_login))) = unix_uid root_credentials \<and>
   unix_uid root_credentials \<noteq> DBUS_UID_UNSET"
  by (rule external_is_socket_user[OF root_start root_run]) (use root_authenticated in auto, code_simp)

definition six_failures :: "auth_event list" where
  "six_failures = [Read (concat (replicate 6 (ascii ''AUTH'' @ CRLF))), Work]"

lemma six_failures_counted:
  "map_option (\<lambda>a. failures a = max_failures a) (server_runs root_env root_server six_failures) = Some True"
  by code_simp

lemma six_failures_run: "server_runs root_env root_server six_failures = Some (the (server_runs root_env root_server six_failures))"
  using six_failures_counted by auto

theorem server_failures_bounded_witness:
  "state (the (server_runs root_env root_server six_failures)) = common_state_need_disconnect"
  using server_failures_bounded[OF root_start six_failures_run] six_failures_counted by auto

definition root_read :: auth_server where
  "root_read = dbus_auth_read root_server (ascii ''AUTH EXTERNAL 30'' @ CRLF @ ascii ''BEG'')"

lemma root_read_run: "server_runs root_env root_server [Read (ascii ''AUTH EXTERNAL 30'' @ CRLF @ ascii ''BEG'')] = Some root_read"
  by (simp add: auth_step_def root_read_def)


theorem server_takes_lines_witness:
  "\<exists>lines. incoming root_read = concat (map (\<lambda>l. l @ CRLF) lines) @ ascii ''BEG''"
proof -
  have "map_option (\<lambda>(r, a). incoming a) (dbus_auth_do_work (server_handler root_env) root_read) = Some (ascii ''BEG'')" by code_simp
  then obtain r a where "dbus_auth_do_work (server_handler root_env) root_read = Some (r, a)" "incoming a = ascii ''BEG''" by auto
  with server_takes_lines[OF root_start root_read_run this(1)] show ?thesis by simp
qed

theorem server_never_aborts_witness: "process_line (server_handler root_env) root_read (ascii ''AUTH EXTERNAL  30'') \<noteq> None"
  by (rule server_never_aborts[OF root_start no_cookie root_read_run]) (code_simp, code_simp)

section \<open>Where the code goes wrong\<close>

text \<open>
  In a build with assertions a peer that has not authenticated aborts the server with the line
  \<open>AUTH\<close>, a blank and a line feed: \<open>_dbus_string_skip_blank\<close> asserts that the blanks end before
  something that is no white space, and the line is only checked to be ASCII.
\<close>

theorem newline_aborts_server:
  "dbus_auth_do_work (server_handler root_env) (dbus_auth_read root_server (ascii ''AUTH '' @ [0x0a] @ CRLF)) = None"
  by code_simp

text \<open>
  Running out of memory is not transparent: the line is kept to be tried again, but the identity it
  brought is kept too, so that the second attempt finds an identity already there and rejects a client
  that the same input authenticates when memory lasts.
\<close>

theorem retry_after_oom_rejects:
  "map_option outgoing (server_runs root_env (root_server\<lparr>auth_mem := replicate 11 True @ [False]\<rparr>)
      [Read (ascii ''AUTH EXTERNAL 30'' @ CRLF), Work, Work]) = Some rejected_line \<and>
   map_option outgoing (server_runs root_env root_server
      [Read (ascii ''AUTH EXTERNAL 30'' @ CRLF), Work, Work]) = Some (ascii ''OK c0ffee'' @ CRLF)"
  by code_simp

text \<open>
  \<open>_dbus_auth_set_context\<close> does not replace the context: a shorter one is followed by what the
  old one has past its length.
\<close>

theorem set_context_keeps_old_tail:
  "map_option (\<lambda>(ok, a). (ok, cookie_context a)) (dbus_auth_set_context root_server (ascii ''test'')) =
   Some (True, ascii ''testfreedesktop_general'')"
  by code_simp

end
