(* ===== verification/AuthClient.thy ===== *)
theory AuthClient
  imports AuthServer
begin

text \<open>
  The client side of an authentication conversation: its runs keep an invariant as well, and a client
  and a server that agree on \<open>EXTERNAL\<close> complete the conversation.
\<close>

section \<open>The invariant of the client side\<close>

definition client_inv :: "'z auth_client_scheme \<Rightarrow> bool" where
  "client_inv a \<longleftrightarrow>
     state a \<in> {client_state_waiting_for_data, client_state_waiting_for_ok, client_state_waiting_for_reject,
       common_state_authenticated, common_state_need_disconnect} \<and>
     mech a \<noteq> None \<and>
     (if state a = common_state_authenticated
      then guid_from_server a \<noteq> [] \<and> snd (dbus_string_hex_decode (guid_from_server a)) = length (guid_from_server a)
      else guid_from_server a = [])"

definition talks :: "byte list \<Rightarrow> 'z auth_client_scheme \<Rightarrow> bool" where
  "talks s a \<longleftrightarrow> client_inv a \<and> \<not> in_end_state a \<and> incoming a = s"

definition client_kept :: "byte list \<Rightarrow> bool \<Rightarrow> 'z auth_client_scheme \<Rightarrow> bool" where
  "client_kept s ok a \<longleftrightarrow> client_inv a \<and> incoming a = s"

lemma talks_frame [simp]:
  "talks s (a\<lparr>auth_mem := x1\<rparr>) = talks s a"
  "talks s (a\<lparr>env_calls := x2\<rparr>) = talks s a"
  "talks s (a\<lparr>outgoing := x3\<rparr>) = talks s a"
  "talks s (a\<lparr>auth_keyring := x4\<rparr>) = talks s a"
  "talks s (a\<lparr>mechs_to_try := x5\<rparr>) = talks s a"
  "talks s (a\<lparr>already_got_mechanisms := x6\<rparr>) = talks s a"
  by (simp_all add: talks_def client_inv_def in_end_state_def)

lemma talks_kept: "talks s a \<Longrightarrow> client_kept s ok a"
  by (simp add: talks_def client_kept_def)

lemma allocs_talks: "allocs k a = (ok, a') \<Longrightarrow> talks s a \<Longrightarrow> talks s a'"
  by (auto dest: allocs_same)

lemma client_allocs:
  assumes "talks s a" "\<And>a'. talks s a' \<Longrightarrow> (\<exists>m. a' = a\<lparr>auth_mem := m\<rparr>) \<Longrightarrow> post True (f a') (client_kept s)"
  shows "post True (and_then (Some (allocs k a)) f) (client_kept s)"
proof (rule post_and_then, rule post_allocs)
  fix ok m
  have k: "talks s (a\<lparr>auth_mem := m\<rparr>)" using assms(1) by simp
  have "post True (f (a\<lparr>auth_mem := m\<rparr>)) (client_kept s)" by (rule assms(2)) (rule k, blast)
  then show "if ok then post True (f (a\<lparr>auth_mem := m\<rparr>)) (client_kept s) else client_kept s False (a\<lparr>auth_mem := m\<rparr>)"
    using talks_kept[OF k] by simp
qed

lemma client_send_error: "talks s a \<Longrightarrow> post True (Some (send_error a t)) (client_kept s)"
  by (cases "allocs 1 a") (auto simp: post_pair send_error_def dest!: allocs_talks intro!: talks_kept)

lemma client_goto: "talks s a \<Longrightarrow> st \<in> {client_state_waiting_for_reject, common_state_need_disconnect} \<Longrightarrow>
    client_kept s ok (goto_state a st)"
  by (auto simp: talks_def client_kept_def client_inv_def goto_state_def in_end_state_def)

lemma client_send_cancel: "talks s a \<Longrightarrow> post True (Some (send_cancel a)) (client_kept s)"
  by (cases "allocs 1 a") (auto simp: post_pair send_cancel_def dest!: allocs_talks intro: talks_kept client_goto)

lemma talks_send_data: "talks s a \<Longrightarrow> send_data a d = (ok, a') \<Longrightarrow> talks s a'"
  by (cases "allocs (if d = [] then 1 else 3) a") (auto simp: send_data_def split: if_splits dest!: allocs_talks)

lemma client_send_begin:
  assumes "talks s a"
  shows "post b (send_begin a args) (client_kept s)"
proof -
  have g: "guid_from_server a = []" using assms by (auto simp: talks_def client_inv_def in_end_state_def)
  obtain ok m where k: "allocs 1 a = (ok, a\<lparr>auth_mem := m\<rparr>)" by (cases "allocs 1 a") (use allocs_same in blast)
  obtain ok2 m2 where k2: "allocs 2 (a\<lparr>auth_mem := m\<rparr>) = (ok2, a\<lparr>auth_mem := m2\<rparr>)"
    by (cases "allocs 2 (a\<lparr>auth_mem := m\<rparr>)") (use allocs_same in force)
  have t: "talks s (a\<lparr>auth_mem := x\<rparr>)" for x using assms by simp
  have fin: "client_kept s True (goto_state (a\<lparr>auth_mem := m2, guid_from_server := args,
      outgoing := outgoing a @ ascii ''BEGIN'' @ CRLF\<rparr>) common_state_authenticated)"
    if "snd (dbus_string_hex_decode args) = length args" "args \<noteq> []"
    using assms that by (simp add: client_kept_def client_inv_def talks_def goto_state_def)
  have undo: "client_kept s False (a\<lparr>auth_mem := m2, guid_from_server := []\<rparr>)"
    using assms g by (auto simp: client_kept_def client_inv_def talks_def in_end_state_def)
  show ?thesis
    using g k k2 talks_kept[OF t] client_goto[OF t] fin undo by (auto simp: send_begin_def Let_def)
qed

lemma client_shutdown [simp]:
  fixes a :: "'z auth_client_scheme"
  shows "state (shutdown_mech a) = state a" "guid_from_server (shutdown_mech a) = guid_from_server a"
    "incoming (shutdown_mech a) = incoming a" "mechs_to_try (shutdown_mech a) = mechs_to_try a"
    "outgoing (shutdown_mech a) = outgoing a" "auth_mem (shutdown_mech a) = auth_mem a"
  by (simp_all add: shutdown_mech_def Let_def split: option.splits mechanism.splits)

lemma ask_talks: "ask_env f a = (x, a') \<Longrightarrow> talks s a \<Longrightarrow> talks s a'"
  by (auto dest: ask_env_same)

lemma initial_response_talks:
  assumes "talks s a" "client_initial_response env m a = (r, a')"
  shows "talks s a'"
proof -
  have "initial_response_user env a = (r, a') \<Longrightarrow> talks s a'"
    using assms(1) by (auto simp: initial_response_user_def split: prod.splits if_splits option.splits dest!: allocs_talks ask_talks)
  moreover have "initial_response_anonymous env a = (r, a') \<Longrightarrow> talks s a'"
    using assms(1) by (auto simp: initial_response_anonymous_def split: prod.splits if_splits dest!: allocs_talks)
  ultimately show ?thesis using assms(2) by (cases m) auto
qed

lemma talks_auth:
  "talks s a \<Longrightarrow> client_kept s ok (goto_state (shutdown_mech (a\<lparr>outgoing := x\<rparr>)\<lparr>mech := Some m\<rparr>) client_state_waiting_for_data)"
  by (auto simp: client_kept_def client_inv_def talks_def in_end_state_def goto_state_def)

lemma client_send_auth:
  assumes "talks s a"
  shows "client_kept s (fst (send_auth env a m)) (snd (send_auth env a m))"
proof -
  obtain ok a1 where 1: "allocs 4 a = (ok, a1)" by force
  obtain r a2 where 2: "client_initial_response env m a1 = (r, a2)" by force
  obtain ok3 a3 where 3: "allocs 2 a2 = (ok3, a3)" by force
  have t1: "talks s a1" using allocs_talks[OF 1 assms] .
  have t2: "talks s a2" using initial_response_talks[OF t1 2] .
  have t3: "talks s a3" using allocs_talks[OF 3 t2] .
  show ?thesis
    using 1 2 3 talks_kept[OF t1] talks_kept[OF t2] talks_kept[OF t3] talks_auth[OF t3]
    by (auto simp: send_auth_def Let_def simp del: ascii_Cons split: option.splits)
qed

lemma client_kept_mechs [simp]: "client_kept s ok (a\<lparr>mechs_to_try := x\<rparr>) = client_kept s ok a"
  by (simp add: client_kept_def client_inv_def)

lemma record_talks: "talks s a \<Longrightarrow> post True (record_loop a args pos) (\<lambda>ok a'. talks s a')"
proof (induction a args pos rule: record_loop.induct)
  case (1 a args pos)
  show ?case
  proof (cases "pos < length args")
    case True
    obtain ok a1 where k: "allocs 2 a = (ok, a1)" by force
    have t: "talks s a1" using allocs_talks[OF k "1.prems"] .
    show ?thesis
    proof (cases ok)
      case ok: True
      show ?thesis
      proof (cases "get_word args pos")
        case None
        then show ?thesis using True k ok by (simp add: record_loop.simps[of a])
      next
        case (Some w)
        obtain m pos' where w: "w = (m, pos')" by (cases w)
        obtain ok2 a2 where k2: "allocs 1 a1 = (ok2, a2)" by force
        have t2: "talks s a2" using allocs_talks[OF k2 t] .
        have none: "find_mech m (allowed_mechs a1) = None \<Longrightarrow> post True (record_loop a1 args pos') (\<lambda>ok. talks s)"
          using "1.IH"(1)[OF True k[symmetric] _ Some w[symmetric]] t ok by simp
        have ext: "find_mech m (allowed_mechs a1) = Some x \<Longrightarrow> x = hd all_mechanisms \<Longrightarrow>
            post True (record_loop a1 args pos') (\<lambda>ok. talks s)" for x
          using "1.IH"(2)[OF True k[symmetric] _ Some w[symmetric]] t ok by simp
        have app: "find_mech m (allowed_mechs a1) = Some x \<Longrightarrow> x \<noteq> hd all_mechanisms \<Longrightarrow> ok2 \<Longrightarrow>
            post True (record_loop (a2\<lparr>mechs_to_try := mechs_to_try a2 @ [x]\<rparr>) args pos') (\<lambda>ok. talks s)" for x
          using "1.IH"(3)[OF True k[symmetric] _ Some w[symmetric] _ _ k2[symmetric]] t2 ok by simp
        show ?thesis
          using True k ok Some w k2 none ext app t2
          by (cases "find_mech m (allowed_mechs a1)") (auto simp: record_loop.simps[of a])
      qed
    qed (use True k t in \<open>simp add: record_loop.simps[of a]\<close>)
  qed (use "1.prems" in \<open>simp add: record_loop.simps[of a]\<close>)
qed

lemma client_process_rejected:
  assumes "talks s a"
  shows "post True (process_rejected env a args) (client_kept s)"
  unfolding process_rejected_def
proof (rule post_and_then)
  have "post True (if \<not> already_got_mechanisms a then record_mechanisms a args else Some (True, a)) (\<lambda>ok. talks s)"
    using assms record_talks[OF assms] by (simp add: record_mechanisms_def)
  then show "post True (if \<not> already_got_mechanisms a then record_mechanisms a args else Some (True, a))
     (\<lambda>ok a. if ok then post True (case mechs_to_try a of
         m # _ \<Rightarrow> and_then (Some (send_auth env a m)) (\<lambda>a. Some (True, a\<lparr>mechs_to_try := tl (mechs_to_try a)\<rparr>))
       | [] \<Rightarrow> Some (True, goto_state a common_state_need_disconnect)) (client_kept s) else client_kept s False a)"
  proof (rule post_mono)
    fix ok and a :: "'a auth_client_scheme"
    assume t: "talks s a"
    have "post True (and_then (Some (send_auth env a m)) (\<lambda>a. Some (True, a\<lparr>mechs_to_try := tl (mechs_to_try a)\<rparr>))) (client_kept s)" for m
      using client_send_auth[OF t, of env m]
      by (cases "send_auth env a m"; cases "fst (send_auth env a m)") (auto simp: client_kept_def client_inv_def)
    then show "if ok then post True (case mechs_to_try a of
         m # _ \<Rightarrow> and_then (Some (send_auth env a m)) (\<lambda>a. Some (True, a\<lparr>mechs_to_try := tl (mechs_to_try a)\<rparr>))
       | [] \<Rightarrow> Some (True, goto_state a common_state_need_disconnect)) (client_kept s) else client_kept s False a"
      using talks_kept[OF t] client_goto[OF t] by (auto split: list.splits)
  qed
qed

lemma compute_hash_talks: "sha1_compute_hash a i u v = Some (ok, h, a') \<Longrightarrow> talks s a \<Longrightarrow> talks s a'"
  by (auto simp: sha1_compute_hash_def Let_def split: option.splits prod.splits if_splits dest!: allocs_talks)

lemma client_then:
  assumes "talks s a" "talks s a \<Longrightarrow> post True (f a) (client_kept s)"
  shows "post True (and_then (Some (ok, a)) f) (client_kept s)"
  using assms talks_kept[OF assms(1)] by (cases ok) auto

lemma client_send_data: "talks s a \<Longrightarrow> post True (Some (send_data a d)) (client_kept s)"
  by (cases "send_data a d") (auto dest: talks_send_data intro: talks_kept)

lemma client_hash_answer:
  assumes "talks s a"
  shows "post True (case sha1_compute_hash a i u v of
      None \<Rightarrow> None
    | Some (ok, correct_hash, a) \<Rightarrow>
        if \<not> ok then Some (False, a)
        else if correct_hash = [] then Some (send_error a t)
        else and_then (Some (allocs 3 a)) (\<lambda>a. Some (send_data a (g correct_hash)))) (client_kept s)"
proof (cases "sha1_compute_hash a i u v")
  case (Some p)
  obtain ok h b where p: "p = (ok, h, b)" by (cases p)
  have b: "talks s b" using compute_hash_talks[OF _ assms] Some p by blast
  have "post True (and_then (Some (allocs 3 b)) (\<lambda>a. Some (send_data a (g h)))) (client_kept s)"
    by (rule client_allocs[OF b]) (rule client_send_data)
  then show ?thesis using Some p client_send_error[OF b] talks_kept[OF b] by simp
qed simp

lemma client_challenge_kept:
  assumes "talks s a"
  shows "post True (client_answer_challenge env a val ch) (client_kept s)"
  unfolding client_answer_challenge_def
proof (rule client_allocs[OF assms])
  fix b :: "'a auth_client_scheme"
  assume b: "talks s b"
  obtain r b1 where q: "ask_env (\<lambda>n. env_random env n N_CHALLENGE_BYTES) b = (r, b1)"
    by (cases "ask_env (\<lambda>n. env_random env n N_CHALLENGE_BYTES) b")
  have b1: "talks s b1" using ask_talks[OF q b] .
  show "post True (case ask_env (\<lambda>n. env_random env n N_CHALLENGE_BYTES) b of
       (None, a) \<Rightarrow> Some (False, a)
     | (Some r, a) \<Rightarrow>
         and_then (Some (allocs 3 a)) (\<lambda>a.
         case sha1_compute_hash a (long_to_int val) ch (dbus_string_hex_encode r) of
           None \<Rightarrow> None
         | Some (ok, correct_hash, a) \<Rightarrow>
             if \<not> ok then Some (False, a)
             else if correct_hash = []
             then Some (send_error a ''Don't have the requested cookie ID'')
             else
               and_then (Some (allocs 3 a)) (\<lambda>a.
               Some (send_data a (dbus_string_hex_encode r @ ascii '' '' @ correct_hash))))) (client_kept s)"
  proof (cases r)
    case None
    then show ?thesis using q talks_kept[OF b1] by simp
  next
    case (Some x)
    show ?thesis unfolding q Some prod.case option.case
      by (rule client_allocs[OF b1]) (rule client_hash_answer)
  qed
qed

lemma client_load_kept:
  assumes "talks s a"
  shows "post True (client_load_keyring env a ctx val ch) (client_kept s)"
proof -
  obtain r a1 where q: "ask_env (\<lambda>n. env_keyring env n None ctx) a = (r, a1)"
    by (cases "ask_env (\<lambda>n. env_keyring env n None ctx) a")
  have a1: "talks s a1" using ask_talks[OF q assms] .
  have "post True (client_answer_challenge env (a1\<lparr>auth_keyring := Some k\<rparr>) val ch) (client_kept s)" for k
    by (rule client_challenge_kept) (use a1 in simp)
  then show ?thesis
    using q client_challenge_kept[OF assms] client_send_error[OF a1] talks_kept[OF a1]
    by (cases r) (auto simp: client_load_keyring_def)
qed

lemma client_cookie_data:
  assumes a: "talks s a"
  shows "post True (handle_client_data_cookie_sha1_mech env a d) (client_kept s)"
proof -
  have parsed: "talks s b \<Longrightarrow> post True (client_parsed_challenge env b ctx i ch) (client_kept s)" for b :: "'a auth_client_scheme" and ctx i ch
    using client_send_error[of s b] client_load_kept[of s b] by (auto simp: client_parsed_challenge_def split: option.splits)
  show ?thesis
    using client_send_error[OF a]
    by (auto simp: handle_client_data_cookie_sha1_mech_def split: prod.splits option.splits
        intro!: client_allocs[OF a] client_allocs parsed client_send_error)
qed

lemma client_handler_kept:
  assumes a: "talks s a"
  shows "post True (client_handler env a cmd args) (client_kept s)"
proof -
  obtain m where m: "mech a = Some m" using a by (auto simp: talks_def client_inv_def)
  have data: "post True (process_data a args (client_data_func env m)) (client_kept s)"
    unfolding process_data_def
    by (rule client_allocs[OF a]) (cases m; auto split: prod.splits intro: client_send_error client_cookie_data talks_kept)
  have "state a \<in> {client_state_waiting_for_data, client_state_waiting_for_ok, client_state_waiting_for_reject}"
    using a by (auto simp: talks_def client_inv_def in_end_state_def)
  then show ?thesis
    using m data client_process_rejected[OF a] client_send_begin[OF a] client_send_cancel[OF a] client_send_error[OF a] client_goto[OF a]
    by (cases cmd) (auto simp: client_handler_def)
qed

interpretation client_side: conversation "client_handler env" client_inv
proof
  fix a :: "'a auth_client_scheme" and cmd args
  assume a: "client_inv a" "\<not> in_end_state a"
  then have t: "talks (incoming a) a" by (simp add: talks_def)
  show "post True (client_handler env a cmd args) (\<lambda>ok a'. client_inv a' \<and> incoming a' = incoming a)"
    by (rule post_mono[OF client_handler_kept[OF t]]) (simp add: client_kept_def)
  show "client_inv (goto_state a common_state_need_disconnect)"
    using client_goto[OF t] by (simp add: client_kept_def)
qed (simp_all add: client_inv_def)

abbreviation client_runs :: "auth_env \<Rightarrow> auth_client \<Rightarrow> auth_event list \<Rightarrow> auth_client option" where
  "client_runs env a es \<equiv> run (auth_step (client_handler env)) (Some a) es"

lemma initial_response_frame:
  fixes a :: "'z auth_client_scheme"
  assumes "client_initial_response env m a = (r, a')"
  shows "guid_from_server a' = guid_from_server a"
  using assms
  by (cases m) (auto simp: initial_response_user_def initial_response_anonymous_def split: prod.splits if_splits option.splits
      dest!: allocs_same ask_env_same)

lemma send_auth_result:
  fixes a :: "'z auth_client_scheme"
  assumes "send_auth env a m = (True, a')"
  shows "state a' = client_state_waiting_for_data \<and> mech a' = Some m \<and> guid_from_server a' = guid_from_server a"
  using assms by (auto simp: send_auth_def Let_def goto_state_def split: prod.splits if_splits option.splits
      dest!: allocs_same initial_response_frame)

lemma client_new_inv:
  assumes "dbus_auth_client_new env m = (Some a, m')"
  shows "client_inv a"
  using assms
  by (auto simp: dbus_auth_client_new_def dbus_auth_new_def auth.defs auth_client.defs client_inv_def
      split: prod.splits option.splits if_splits dest!: send_auth_result)

text \<open>
  A client is authenticated only after a server has named itself by a string of hexadecimal
  digits; before that it knows of no server, and it always has a mechanism to give the data of the
  server to.
\<close>

theorem client_knows_server:
  assumes "dbus_auth_client_new env m = (Some a0, m')" "client_runs env a0 es = Some a"
  shows "mech a \<noteq> None \<and>
    (if state a = common_state_authenticated
     then guid_from_server a \<noteq> [] \<and> snd (dbus_string_hex_decode (guid_from_server a)) = length (guid_from_server a)
     else guid_from_server a = [])"
proof -
  have "\<forall>a. client_runs env a0 es = Some a \<longrightarrow> client_inv a"
    by (rule client_side.side.run_inv) (use client_new_inv[OF assms(1)] in simp)
  then show ?thesis using assms(2) by (simp add: client_inv_def)
qed

definition root_client :: auth_client where
  "root_client = the (fst (dbus_auth_client_new root_env []))"

lemma root_client_new: "dbus_auth_client_new root_env [] = (Some root_client, [])"
  by (simp add: root_client_def) code_simp

lemma root_client_run: "client_runs root_env root_client [Read (ascii ''OK c0ffee'' @ CRLF), Work] =
    Some (the (client_runs root_env root_client [Read (ascii ''OK c0ffee'' @ CRLF), Work]))"
proof -
  have "client_runs root_env root_client [Read (ascii ''OK c0ffee'' @ CRLF), Work] \<noteq> None" by code_simp
  then show ?thesis by auto
qed

theorem client_knows_server_witness:
  "mech (the (client_runs root_env root_client [Read (ascii ''OK c0ffee'' @ CRLF), Work])) \<noteq> None \<and>
   (if state (the (client_runs root_env root_client [Read (ascii ''OK c0ffee'' @ CRLF), Work])) = common_state_authenticated
    then guid_from_server (the (client_runs root_env root_client [Read (ascii ''OK c0ffee'' @ CRLF), Work])) \<noteq> [] \<and>
      snd (dbus_string_hex_decode (guid_from_server (the (client_runs root_env root_client [Read (ascii ''OK c0ffee'' @ CRLF), Work])))) =
      length (guid_from_server (the (client_runs root_env root_client [Read (ascii ''OK c0ffee'' @ CRLF), Work])))
    else guid_from_server (the (client_runs root_env root_client [Read (ascii ''OK c0ffee'' @ CRLF), Work])) = [])"
  by (rule client_knows_server[OF root_client_new root_client_run])

end
