(* ===== verification/AuthLogin.thy ===== *)
theory AuthLogin
  imports AuthClient
begin

text \<open>
  A client and a server in conversation: with memory enough and a user database that agrees with the
  socket, \<open>EXTERNAL\<close> authenticates, in one exchange, the user the client runs as.
\<close>

section \<open>Working with enough memory\<close>

lemma allocs_nil [simp]: "auth_mem a = [] \<Longrightarrow> allocs k a = (True, a)"
proof -
  have "mem_allocs k [] = (True, [])" by (induction k) simp_all
  then show "auth_mem a = [] \<Longrightarrow> allocs k a = (True, a)" by (cases a) (simp add: allocs_def)
qed

lemma hex_chars: "set (dbus_string_hex_encode u) \<subseteq> set hexdigits"
proof -
  have "unat (drop_bit 4 b) < length hexdigits" "unat (b AND 0x0f) < length hexdigits" for b :: byte
  proof -
    have l: "length hexdigits = 16" by code_simp
    have "unat (drop_bit 4 b) = unat b div 16" by (simp add: drop_bit_eq_div unat_div_distrib)
    then show "unat (drop_bit 4 b) < length hexdigits" using unat_byte[of b] l by simp
    have "b AND 0x0f \<le> 0x0f" by (rule word_and_le1)
    then show "unat (b AND 0x0f) < length hexdigits" using l by (simp add: word_le_nat_alt)
  qed
  then show ?thesis by (auto simp: dbus_string_hex_encode_def byte_as_hex_def)
qed

lemma hexdigit_class: "c \<in> set hexdigits \<Longrightarrow> ISASCII c \<and> \<not> IS_ASCII_WHITE c \<and> \<not> IS_ASCII_BLANK c \<and> c \<noteq> 0x0d"
proof -
  have "list_all (\<lambda>c. ISASCII c \<and> \<not> IS_ASCII_WHITE c \<and> \<not> IS_ASCII_BLANK c \<and> c \<noteq> 0x0d) hexdigits" by code_simp
  then show "c \<in> set hexdigits \<Longrightarrow> ISASCII c \<and> \<not> IS_ASCII_WHITE c \<and> \<not> IS_ASCII_BLANK c \<and> c \<noteq> 0x0d"
    by (auto simp: list_all_iff)
qed

lemma split_line_whole: "0x0d \<notin> set l \<Longrightarrow> split_line (l @ CRLF @ r) = Some (l, r)"
  by (induction l) (auto simp: CRLF_def)

lemma find_blank_word:
  "list_all (\<lambda>c. \<not> IS_ASCII_BLANK c) w \<Longrightarrow> dbus_string_find_blank (w @ 0x20 # r) 0 = (True, length w)"
proof -
  have "list_all (\<lambda>c. \<not> IS_ASCII_BLANK c) w \<Longrightarrow> find_blank_loop (w @ 0x20 # r) k = (True, k + length w)" for k
    by (induction w arbitrary: k) (auto simp: IS_ASCII_BLANK_def)
  from this[of 0] show "list_all (\<lambda>c. \<not> IS_ASCII_BLANK c) w \<Longrightarrow> dbus_string_find_blank (w @ 0x20 # r) 0 = (True, length w)"
    by (simp add: dbus_string_find_blank_def)
qed

lemma skip_blank_word:
  "r \<noteq> [] \<Longrightarrow> \<not> IS_ASCII_WHITE (hd r) \<Longrightarrow> dbus_string_skip_blank (w @ 0x20 # r) (length w) = Some (length w + 1)"
  by (cases r) (auto simp: dbus_string_skip_blank_def IS_ASCII_BLANK_def IS_ASCII_WHITE_def nth_append)

lemma process_words:
  assumes "list_all ISASCII (w @ 0x20 # r)" "list_all (\<lambda>c. \<not> IS_ASCII_BLANK c) w" "r \<noteq> []" "\<not> IS_ASCII_WHITE (hd r)"
    and "auth_mem a = []"
  shows "process_line h a (w @ 0x20 # r) = h a (lookup_command_from_name w) r"
  using assms find_blank_word[OF assms(2), of r] skip_blank_word[OF assms(3,4), of w]
  by (simp add: process_line_def dbus_string_validate_ascii_def)

lemma command_one:
  assumes "incoming a = line @ CRLF" "0x0d \<notin> set line" "auth_mem a = []" "process_line h a line = Some (True, b)"
    and "incoming b = incoming a"
  shows "process_command h a = Some (True, b\<lparr>incoming := [], needed_memory := False\<rparr>)"
  using assms split_line_whole[of line "[]"] by (simp add: process_command_line CRLF_def)

lemma work_one:
  assumes "process_command h (a\<lparr>needed_memory := False\<rparr>) = Some (True, b)" "\<not> in_end_state a" "\<not> buffer_overrun a"
    and "incoming a \<noteq> []" "incoming b = []" "\<not> buffer_overrun b"
  shows "dbus_auth_do_work h a = Some (work_result b, b)"
proof -
  obtain k where k: "length (incoming a) = Suc k" using assms(4) by (cases "incoming a") auto
  have "process_command h b = Some (False, b)" using assms(5) by (simp add: process_command_line)
  then show ?thesis
    using assms by (simp add: dbus_auth_do_work_def k in_end_state_def buffer_overrun_def)
qed

section \<open>The three lines\<close>

lemma external_check_accepts:
  assumes "auth_mem a = []" "unix_uid (desired_identity a) = unix_uid (socket_credentials a)"
    and "unix_uid (socket_credentials a) \<noteq> DBUS_UID_UNSET"
    and "unix_pid (desired_identity a) = DBUS_PID_UNSET" "windows_sid (desired_identity a) = None"
    and "adt_audit_data (desired_identity a) = None"
  shows "\<exists>d. external_check a = Some (True, goto_state (a\<lparr>authorized_identity := d, auth_mem := [],
      outgoing := outgoing a @ ascii ''OK '' @ guid a @ CRLF\<rparr>) server_state_waiting_for_begin) \<and>
    unix_uid d = unix_uid (socket_credentials a)"
  using assms
  by (cases "unix_pid (socket_credentials a) = DBUS_PID_UNSET"; cases "adt_audit_data (socket_credentials a)")
    (simp_all add: external_check_def dbus_credentials_are_anonymous_def dbus_credentials_are_superset_def
      authorize_desired_def authorize_from_socket_def add_credentials_to_def dbus_credentials_add_credentials_def
      dbus_credentials_add_credential_def dbus_credentials_add_unix_pid_def dbus_credentials_add_unix_uid_def
      dbus_credentials_add_adt_audit_data_def send_ok_def del: ascii_Cons, (rule exI, rule conjI, rule refl, simp)+)

lemma hex_decode_encode: "dbus_string_hex_decode (dbus_string_hex_encode bs) = (bs, length (dbus_string_hex_encode bs))"
  using hex_decode_encode_loop[of bs "[]" 0 "[]"] by (simp add: dbus_string_hex_decode_def hex_encode_length)

lemma external_data_accepts:
  assumes "auth_mem a = []" "identity a = []" "u \<noteq> []"
    and "env_user env (env_calls a) u = Some (unix_uid (socket_credentials a))" "unix_uid (socket_credentials a) \<noteq> DBUS_UID_UNSET"
  shows "\<exists>b. handle_server_data_external_mech env a u = Some (True, b) \<and> state b = server_state_waiting_for_begin \<and>
    mech b = mech a \<and> incoming b = incoming a \<and> auth_mem b = [] \<and> needed_memory b = needed_memory a \<and>
    outgoing b = outgoing a @ ascii ''OK '' @ guid a @ CRLF \<and> unix_uid (authorized_identity b) = unix_uid (socket_credentials a)"
proof -
  let ?a = "a\<lparr>identity := u, env_calls := env_calls a + 1,
    desired_identity := dbus_credentials_add_unix_uid (dbus_credentials_clear (desired_identity a)) (unix_uid (socket_credentials a))\<rparr>"
  have d: "external_desired env (a\<lparr>identity := u\<rparr>) = external_check ?a"
    using assms by (simp add: external_desired_def add_from_user_def ask_env_def)
  obtain e where e: "external_check ?a = Some (True, goto_state (?a\<lparr>authorized_identity := e, auth_mem := [],
      outgoing := outgoing a @ ascii ''OK '' @ guid a @ CRLF\<rparr>) server_state_waiting_for_begin)"
    "unix_uid e = unix_uid (socket_credentials a)"
    using external_check_accepts[of ?a] assms(1,5) by (auto simp: dbus_credentials_add_unix_uid_def dbus_credentials_clear_def)
  have n: "\<not> dbus_credentials_are_anonymous (socket_credentials a)"
    using assms(5) by (simp add: dbus_credentials_are_anonymous_def)
  show ?thesis
    using assms n d e by (simp add: handle_server_data_external_mech_def copy_identity_def goto_state_def)
qed

lemma server_takes_auth:
  fixes a :: auth_server
  assumes st: "state a = server_state_waiting_for_auth" and mem: "auth_mem a = []" and i: "identity a = []" and u: "u \<noteq> []"
    and env: "\<And>n. env_user env n u = Some (unix_uid (socket_credentials a))" "unix_uid (socket_credentials a) \<noteq> DBUS_UID_UNSET"
    and m: "find_mech (ascii ''EXTERNAL'') (allowed_mechs a) = Some EXTERNAL"
    and inc: "incoming a = ascii ''AUTH EXTERNAL '' @ dbus_string_hex_encode u @ CRLF" "outgoing a = []"
    and len: "length u \<le> 1000" "length (guid a) \<le> 1000"
  shows "\<exists>r b. dbus_auth_do_work (server_handler env) a = Some (r, b) \<and> state b = server_state_waiting_for_begin \<and>
    mech b = Some EXTERNAL \<and> incoming b = [] \<and> auth_mem b = [] \<and> outgoing b = ascii ''OK '' @ guid a @ CRLF \<and>
    unix_uid (authorized_identity b) = unix_uid (socket_credentials a)"
proof -
  let ?h = "dbus_string_hex_encode u"
  let ?a = "a\<lparr>needed_memory := False\<rparr>"
  let ?r = "ascii ''EXTERNAL'' @ 0x20 # ?h"
  have line: "ascii ''AUTH EXTERNAL '' @ ?h @ CRLF = (ascii ''AUTH'' @ 0x20 # ?r) @ CRLF" by simp
  have h: "?h \<noteq> []" using u hex_encode_length[of u] by auto
  have hc: "c \<in> set ?h \<Longrightarrow> ISASCII c \<and> \<not> IS_ASCII_WHITE c \<and> \<not> IS_ASCII_BLANK c \<and> c \<noteq> 0x0d" for c
    using hex_chars hexdigit_class by blast
  have words: "list_all ISASCII (ascii ''AUTH'' @ 0x20 # ascii ''EXTERNAL'' @ [0x20])" "list_all (\<lambda>c. \<not> IS_ASCII_BLANK c) (ascii ''AUTH'')"
    "list_all (\<lambda>c. \<not> IS_ASCII_BLANK c) (ascii ''EXTERNAL'')" "lookup_command_from_name (ascii ''AUTH'') = COMMAND_AUTH"
    "0x0d \<notin> set (ascii ''AUTH'' @ 0x20 # ascii ''EXTERNAL'' @ [0x20])" "\<not> IS_ASCII_WHITE (hd ?r)"
    by (code_simp, code_simp, code_simp, code_simp, code_simp, simp add: IS_ASCII_WHITE_def)
  have asc: "list_all ISASCII (ascii ''AUTH'' @ 0x20 # ?r)" using words(1) hc by (auto simp: list_all_iff simp del: ascii_Cons)
  have cr: "0x0d \<notin> set (ascii ''AUTH'' @ 0x20 # ?r)" using words(5) hc by (auto simp del: ascii_Cons)
  have args: "dbus_string_find_blank ?r 0 = (True, length (ascii ''EXTERNAL''))"
    "dbus_string_skip_blank ?r (length (ascii ''EXTERNAL'')) = Some (length (ascii ''EXTERNAL'') + 1)"
    using find_blank_word[OF words(3)] skip_blank_word[OF h, of "ascii ''EXTERNAL''"] hc[of "hd ?h"] h by auto
  let ?m = "?a\<lparr>mech := Some EXTERNAL\<rparr>"
  obtain b where b: "handle_server_data_external_mech env ?m u = Some (True, b)" "state b = server_state_waiting_for_begin"
    "mech b = Some EXTERNAL" "incoming b = incoming a" "auth_mem b = []" "outgoing b = ascii ''OK '' @ guid a @ CRLF"
    "unix_uid (authorized_identity b) = unix_uid (socket_credentials a)"
    using external_data_accepts[of ?m u env] mem i u env inc(2) by auto
  have "handle_auth env ?a ?r = Some (True, b)"
    using mem m args b(1) hex_decode_encode[of u]
    by (simp add: handle_auth_def auth_by_mech_def process_data_def forget_mech_def Let_def del: ascii_Cons)
  then have "process_line (server_handler env) ?a (ascii ''AUTH'' @ 0x20 # ?r) = Some (True, b)"
    using process_words[OF asc words(2) _ words(6), of ?a "server_handler env"] st mem words(4) by (simp add: server_handler_def del: ascii_Cons)
  then have "process_command (server_handler env) ?a = Some (True, b\<lparr>incoming := [], needed_memory := False\<rparr>)"
    using inc(1) line cr mem b(4) by (intro command_one) (simp_all del: ascii_Cons append_assoc append_Cons)
  then have "dbus_auth_do_work (server_handler env) a =
      Some (work_result (b\<lparr>incoming := [], needed_memory := False\<rparr>), b\<lparr>incoming := [], needed_memory := False\<rparr>)"
    using st inc len b(6) by (intro work_one) (simp_all add: in_end_state_def buffer_overrun_def MAX_BUFFER_def hex_encode_length CRLF_def)
  then show ?thesis using b by simp
qed

lemma server_takes_begin:
  fixes a :: auth_server
  assumes "state a = server_state_waiting_for_begin" "auth_mem a = []" "incoming a = ascii ''BEGIN'' @ CRLF" "outgoing a = []"
  shows "\<exists>r b. dbus_auth_do_work (server_handler env) a = Some (r, b) \<and> state b = common_state_authenticated \<and>
    authorized_identity b = authorized_identity a"
proof -
  let ?b = "a\<lparr>needed_memory := False, state := common_state_authenticated\<rparr>"
  have "process_line (server_handler env) (a\<lparr>needed_memory := False\<rparr>) (ascii ''BEGIN'') = Some (True, ?b)"
    using assms by (simp add: begin_line server_handler_def goto_state_def del: ascii_Cons)
  then have "process_command (server_handler env) (a\<lparr>needed_memory := False\<rparr>) = Some (True, ?b\<lparr>incoming := [], needed_memory := False\<rparr>)"
    using assms by (intro command_one) simp_all
  then have "dbus_auth_do_work (server_handler env) a =
      Some (work_result (?b\<lparr>incoming := [], needed_memory := False\<rparr>), ?b\<lparr>incoming := [], needed_memory := False\<rparr>)"
    using assms by (intro work_one) (simp_all add: in_end_state_def buffer_overrun_def MAX_BUFFER_def CRLF_def)
  then show ?thesis by simp
qed

lemma client_takes_ok:
  fixes a :: auth_client
  assumes st: "state a = client_state_waiting_for_data" "mech a = Some EXTERNAL" "guid_from_server a = []" and mem: "auth_mem a = []"
    and inc: "incoming a = ascii ''OK '' @ dbus_string_hex_encode raw @ CRLF" "outgoing a = []"
    and raw: "raw \<noteq> []" "length raw \<le> 500"
  shows "\<exists>r b. dbus_auth_do_work (client_handler env) a = Some (r, b) \<and> state b = common_state_authenticated \<and>
    outgoing b = ascii ''BEGIN'' @ CRLF \<and> guid_from_server b = dbus_string_hex_encode raw"
proof -
  let ?h = "dbus_string_hex_encode raw"
  let ?a = "a\<lparr>needed_memory := False\<rparr>"
  let ?b = "?a\<lparr>guid_from_server := ?h, outgoing := ascii ''BEGIN'' @ CRLF, state := common_state_authenticated\<rparr>"
  have line: "ascii ''OK '' @ ?h @ CRLF = (ascii ''OK'' @ 0x20 # ?h) @ CRLF" by simp
  have h: "?h \<noteq> []" using raw hex_encode_length[of raw] by auto
  have hc: "c \<in> set ?h \<Longrightarrow> ISASCII c \<and> \<not> IS_ASCII_WHITE c \<and> \<not> IS_ASCII_BLANK c \<and> c \<noteq> 0x0d" for c
    using hex_chars hexdigit_class by blast
  have words: "list_all ISASCII (ascii ''OK'' @ [0x20])" "list_all (\<lambda>c. \<not> IS_ASCII_BLANK c) (ascii ''OK'')"
    "lookup_command_from_name (ascii ''OK'') = COMMAND_OK" "0x0d \<notin> set (ascii ''OK'' @ [0x20])"
    by code_simp+
  have asc: "list_all ISASCII (ascii ''OK'' @ 0x20 # ?h)" using words(1) hc by (auto simp: list_all_iff simp del: ascii_Cons)
  have cr: "0x0d \<notin> set (ascii ''OK'' @ 0x20 # ?h)" using words(4) hc by (auto simp del: ascii_Cons)
  have hd: "\<not> IS_ASCII_WHITE (hd ?h)" using hc[of "hd ?h"] h by auto
  have "client_handler env ?a COMMAND_OK ?h = Some (True, ?b)"
    using st mem inc(2) h hex_decode_encode[of raw] by (simp add: client_handler_def send_begin_def goto_state_def del: ascii_Cons)
  then have "process_line (client_handler env) ?a (ascii ''OK'' @ 0x20 # ?h) = Some (True, ?b)"
    using process_words[OF asc words(2) h hd, of ?a "client_handler env"] mem words(3) by simp
  then have "process_command (client_handler env) ?a = Some (True, ?b\<lparr>incoming := [], needed_memory := False\<rparr>)"
    using inc(1) line cr mem by (intro command_one) (simp_all del: ascii_Cons append_assoc append_Cons)
  then have "dbus_auth_do_work (client_handler env) a =
      Some (work_result (?b\<lparr>incoming := [], needed_memory := False\<rparr>), ?b\<lparr>incoming := [], needed_memory := False\<rparr>)"
    using st inc raw by (intro work_one) (simp_all add: in_end_state_def buffer_overrun_def MAX_BUFFER_def hex_encode_length CRLF_def)
  then show ?thesis by simp
qed

lemma client_says_hello:
  assumes "\<And>n. env_current_user env n = Some u"
  shows "\<exists>a m. dbus_auth_client_new env [] = (Some a, m) \<and> state a = client_state_waiting_for_data \<and> mech a = Some EXTERNAL \<and>
    guid_from_server a = [] \<and> auth_mem a = [] \<and> incoming a = [] \<and>
    outgoing a = ascii ''AUTH EXTERNAL '' @ dbus_string_hex_encode u @ CRLF"
proof -
  have m: "mem_allocs k [] = (True, [])" for k by (induction k) simp_all
  show ?thesis
    using assms
    by (simp add: dbus_auth_client_new_def dbus_auth_new_def m all_mechanisms_def auth.defs auth_client.defs send_auth_def
        initial_response_user_def ask_env_def shutdown_mech_def goto_state_def Let_def)
qed

lemma server_start_fields:
  assumes "server_start g al c [] = Some a"
  shows "state a = server_state_waiting_for_auth \<and> identity a = [] \<and> allowed_mechs a = al \<and> socket_credentials a = c \<and>
    guid a = g \<and> incoming a = [] \<and> outgoing a = [] \<and> auth_mem a = []"
proof -
  have m: "mem_allocs k [] = (True, [])" for k by (induction k) simp_all
  obtain b where b: "dbus_auth_set_credentials b c = (True, a)" "state b = server_state_waiting_for_auth" "identity b = []"
    "allowed_mechs b = al" "guid b = g" "incoming b = []" "outgoing b = []" "auth_mem b = []"
    using assms by (auto simp: server_start_def dbus_auth_server_new_def dbus_auth_new_def dbus_auth_set_mechanisms_def m
        auth.defs auth_server.defs split: option.splits prod.splits if_splits)
  have "auth_mem a = []"
    using b(1,8) by (auto simp: dbus_auth_set_credentials_def add_credentials_to_def dbus_credentials_add_credentials_def
        dbus_credentials_add_credential_def dbus_credentials_add_windows_sid_def dbus_credentials_add_adt_audit_data_def
        split: if_splits)
  then show ?thesis using b set_credentials_all[OF b(1)] by auto
qed

section \<open>The whole conversation\<close>

text \<open>
  One exchange: the server reads and works on what the client has to send, the client on the answer of
  the server, and the server again.
\<close>

definition login :: "auth_env \<Rightarrow> auth_env \<Rightarrow> auth_client \<Rightarrow> auth_server \<Rightarrow> (auth_client \<times> auth_server) option" where
  "login envc envs cl sv =
     (case server_runs envs sv [Read (outgoing cl), Work] of
        None \<Rightarrow> None
      | Some sv1 \<Rightarrow>
          (case client_runs envc cl [Sent (length (outgoing cl)), Read (outgoing sv1), Work] of
             None \<Rightarrow> None
           | Some cl1 \<Rightarrow>
               (case server_runs envs sv1 [Sent (length (outgoing sv1)), Read (outgoing cl1), Work] of
                  None \<Rightarrow> None
                | Some sv2 \<Rightarrow> Some (cl1, sv2))))"

lemma run_work: "dbus_auth_do_work h a = Some (r, b) \<Longrightarrow> run (auth_step h) (Some a) [Work] = Some b"
  by (simp add: auth_step_def)

lemma run_read_work: "run (auth_step h) (Some a) [Read s, Work] = run (auth_step h) (Some (a\<lparr>incoming := incoming a @ s\<rparr>)) [Work]"
  by (simp add: auth_step_def dbus_auth_read_def)

lemma run_sent_read_work:
  "run (auth_step h) (Some a) [Sent (length (outgoing a)), Read s, Work] =
   run (auth_step h) (Some (a\<lparr>outgoing := [], incoming := incoming a @ s\<rparr>)) [Work]"
  by (simp add: auth_step_def dbus_auth_read_def dbus_auth_bytes_sent_def)

text \<open>
  C12. A client whose environment calls its user \<open>u\<close>, and a server that allows \<open>EXTERNAL\<close>, whose user
  database maps \<open>u\<close> to the user of the socket, and whose GUID is a hexadecimal string, authenticate
  each other in one exchange, when memory lasts: both end authenticated, the client knows the GUID of
  the server, and the server has authorized the user of the socket.
\<close>

theorem external_login_completes:
  assumes "\<And>n. env_current_user envc n = Some u" "\<And>n. env_user envs n u = Some (unix_uid c)" "unix_uid c \<noteq> DBUS_UID_UNSET"
    and "u \<noteq> []" "length u \<le> 1000" "raw \<noteq> []" "length raw \<le> 500" "find_mech (ascii ''EXTERNAL'') al = Some EXTERNAL"
    and "dbus_auth_client_new envc [] = (Some cl, m)" "server_start (dbus_string_hex_encode raw) al c [] = Some sv"
  shows "\<exists>cl' sv'. login envc envs cl sv = Some (cl', sv') \<and>
    state cl' = common_state_authenticated \<and> state sv' = common_state_authenticated \<and>
    dbus_auth_get_guid_from_server cl' = Some (dbus_string_hex_encode raw) \<and>
    map_option unix_uid (dbus_auth_get_identity sv') = Some (unix_uid c)"
proof -
  have cl: "state cl = client_state_waiting_for_data" "mech cl = Some EXTERNAL" "guid_from_server cl = []" "auth_mem cl = []"
    "incoming cl = []" "outgoing cl = ascii ''AUTH EXTERNAL '' @ dbus_string_hex_encode u @ CRLF"
    using client_says_hello[OF assms(1)] assms(9) by auto
  note sv = server_start_fields[OF assms(10)]
  obtain r1 sv1 where sv1: "dbus_auth_do_work (server_handler envs) (sv\<lparr>incoming := outgoing cl\<rparr>) = Some (r1, sv1)"
    "state sv1 = server_state_waiting_for_begin" "incoming sv1 = []" "auth_mem sv1 = []"
    "outgoing sv1 = ascii ''OK '' @ dbus_string_hex_encode raw @ CRLF" "unix_uid (authorized_identity sv1) = unix_uid c"
    using server_takes_auth[of "sv\<lparr>incoming := outgoing cl\<rparr>" u envs] sv cl(6) assms(2-8) by (auto simp: hex_encode_length)
  obtain r2 cl1 where cl1: "dbus_auth_do_work (client_handler envc) (cl\<lparr>outgoing := [], incoming := outgoing sv1\<rparr>) = Some (r2, cl1)"
    "state cl1 = common_state_authenticated" "outgoing cl1 = ascii ''BEGIN'' @ CRLF" "guid_from_server cl1 = dbus_string_hex_encode raw"
    using client_takes_ok[of "cl\<lparr>outgoing := [], incoming := outgoing sv1\<rparr>" raw envc] cl sv1(5) assms(6,7) by auto
  obtain r3 sv2 where sv2: "dbus_auth_do_work (server_handler envs) (sv1\<lparr>outgoing := [], incoming := outgoing cl1\<rparr>) = Some (r3, sv2)"
    "state sv2 = common_state_authenticated" "authorized_identity sv2 = authorized_identity sv1"
    using server_takes_begin[of "sv1\<lparr>outgoing := [], incoming := outgoing cl1\<rparr>" envs] sv1 cl1(3) by auto
  have "login envc envs cl sv = Some (cl1, sv2)"
    using sv cl(5) sv1(3) run_work[OF sv1(1)] run_work[OF cl1(1)] run_work[OF sv2(1)]
    by (simp only: login_def run_read_work run_sent_read_work append_Nil option.case)
  then show ?thesis
    using cl1 sv2 sv1(6) by (simp add: dbus_auth_get_guid_from_server_def dbus_auth_get_identity_def)
qed

theorem external_login_completes_witness:
  "\<exists>cl' sv'. login root_env root_env root_client root_server = Some (cl', sv') \<and>
    state cl' = common_state_authenticated \<and> state sv' = common_state_authenticated \<and>
    dbus_auth_get_guid_from_server cl' = Some (dbus_string_hex_encode [0xc0, 0xff, 0xee]) \<and>
    map_option unix_uid (dbus_auth_get_identity sv') = Some (unix_uid root_credentials)"
proof (rule external_login_completes[where u = "ascii ''0''"])
  show "dbus_auth_client_new root_env [] = (Some root_client, [])" by (rule root_client_new)
  have "dbus_string_hex_encode [0xc0, 0xff, 0xee] = ascii ''c0ffee''" by code_simp
  then show "server_start (dbus_string_hex_encode [0xc0, 0xff, 0xee]) (Some [ascii ''EXTERNAL'']) root_credentials [] = Some root_server"
    using root_start by simp
  show "find_mech (ascii ''EXTERNAL'') (Some [ascii ''EXTERNAL'']) = Some EXTERNAL" by code_simp
  show "unix_uid root_credentials \<noteq> DBUS_UID_UNSET" by code_simp
qed (simp_all add: root_env_def root_credentials_def)

end
