(* ===== verification/Marshal.thy ===== *)
theory Marshal
  imports Protocol ByteOrder
begin

text \<open>
  Basic values on the wire: \<open>dbus/dbus-marshal-basic.c\<close> and the operations of
  \<open>dbus/dbus-string.c\<close> it inserts with. A string is its bytes, its buffer is aligned to 8
  bytes as \<open>fixup_alignment\<close> makes it, so that an address is aligned iff its position is.
  None is a failed assertion, a read outside the string, or a position above the range of
  \<open>int\<close>; a failing operation answers False with the string unchanged, as is shown.
\<close>

unbundle bit_operations_syntax

section \<open>Alignment\<close>

definition ALIGN_VALUE :: "nat \<Rightarrow> nat \<Rightarrow> nat" where
  "ALIGN_VALUE this boundary = (this + (boundary - 1)) div boundary * boundary"

text \<open>On a power of two this is the masking of the macro.\<close>

lemma align_is_masked:
  assumes "boundary = 2 ^ k" "this + boundary \<le> 2 ^ LENGTH('a)" "k < LENGTH('a)"
  shows "(word_of_nat (ALIGN_VALUE this boundary) :: 'a :: len word) =
    (word_of_nat this + (word_of_nat boundary - 1)) AND NOT (word_of_nat boundary - 1)"
proof -
  let ?w = "word_of_nat this + (word_of_nat boundary - 1) :: 'a word"
  have b: "word_of_nat boundary - 1 = (mask k :: 'a word)" using assms(1) by (simp add: mask_eq_exp_minus_1)
  have "word_of_nat (boundary - 1) = (word_of_nat boundary - 1 :: 'a word)"
    using assms(1) by (simp add: of_nat_diff)
  then have w: "?w = word_of_nat (this + (boundary - 1))" by simp
  have u: "unat ?w = this + (boundary - 1)"
  proof -
    have "this + (boundary - 1) < 2 ^ LENGTH('a)" using assms(1,2) by (simp add: Suc_le_lessD)
    then show ?thesis unfolding w by (simp only: unat_of_nat mod_less)
  qed
  have m: "?w AND NOT (mask k) = push_bit k (drop_bit k ?w)"
    by (rule bit_word_eqI) (auto simp: bit_simps)
  have "drop_bit k ?w = word_of_nat (drop_bit k (this + (boundary - 1)))"
    by (simp only: u[symmetric] unat_drop_bit_eq[symmetric] of_nat_unat ucast_id)
  then have "word_of_nat (ALIGN_VALUE this boundary) = (push_bit k (drop_bit k ?w) :: 'a word)"
    by (simp add: ALIGN_VALUE_def push_bit_eq_mult drop_bit_eq_div assms(1))
  then show ?thesis using b m by simp
qed

lemma align_facts:
  assumes "0 < b" shows "n \<le> ALIGN_VALUE n b" "ALIGN_VALUE n b < n + b" "b dvd ALIGN_VALUE n b"
proof -
  let ?q = "(n + (b - 1)) div b" and ?r = "(n + (b - 1)) mod b"
  have "?q * b + ?r = n + (b - 1)" "?r < b" using assms by simp_all
  then show "n \<le> ALIGN_VALUE n b" "ALIGN_VALUE n b < n + b" unfolding ALIGN_VALUE_def using assms by linarith+
qed (simp add: ALIGN_VALUE_def)

lemma align_self: "0 < b \<Longrightarrow> b dvd n \<Longrightarrow> ALIGN_VALUE n b = n"
proof -
  assume b: "0 < b" "b dvd n"
  note a = align_facts[OF b(1), of n]
  have "b dvd ALIGN_VALUE n b - n" using a(3) b(2) by (rule dvd_diff_nat)
  moreover have "ALIGN_VALUE n b - n < b" using a(1,2) by linarith
  ultimately have "ALIGN_VALUE n b - n = 0" using nat_dvd_not_less by blast
  then show ?thesis using a(1) by simp
qed

lemma align_1 [simp]: "ALIGN_VALUE n 1 = n" "ALIGN_VALUE n (Suc 0) = n"
  by (simp_all add: ALIGN_VALUE_def)

lemma align_again [simp]: "0 < b \<Longrightarrow> ALIGN_VALUE (ALIGN_VALUE n b) b = ALIGN_VALUE n b"
  by (rule align_self) (simp_all add: align_facts)

section \<open>Byte orders\<close>

abbreviation DBUS_LITTLE_ENDIAN :: byte where "DBUS_LITTLE_ENDIAN \<equiv> 0x6c"
abbreviation DBUS_BIG_ENDIAN :: byte where "DBUS_BIG_ENDIAN \<equiv> 0x42"
abbreviation DBUS_COMPILER_BYTE_ORDER :: byte where "DBUS_COMPILER_BYTE_ORDER \<equiv> DBUS_LITTLE_ENDIAN"
abbreviation DBUS_MAXIMUM_ARRAY_LENGTH :: nat where "DBUS_MAXIMUM_ARRAY_LENGTH \<equiv> 67108864"
abbreviation INT_MAX :: nat where "INT_MAX \<equiv> 2147483647"

definition known_order :: "byte \<Rightarrow> bool" where
  "known_order byte_order \<longleftrightarrow> byte_order = DBUS_LITTLE_ENDIAN \<or> byte_order = DBUS_BIG_ENDIAN"

definition pack_2_octets :: "16 word \<Rightarrow> byte \<Rightarrow> byte list" where
  "pack_2_octets value byte_order =
     store_le 2 (if byte_order = DBUS_LITTLE_ENDIAN then value else UINT16_SWAP_LE_BE value)"

definition pack_4_octets :: "32 word \<Rightarrow> byte \<Rightarrow> byte list" where
  "pack_4_octets value byte_order =
     store_le 4 (if byte_order = DBUS_LITTLE_ENDIAN then value else UINT32_SWAP_LE_BE value)"

definition pack_8_octets :: "64 word \<Rightarrow> byte \<Rightarrow> byte list" where
  "pack_8_octets value byte_order =
     store_le 8 (if byte_order = DBUS_LITTLE_ENDIAN then value else UINT64_SWAP_LE_BE value)"

definition swap_8_octets :: "64 word \<Rightarrow> byte \<Rightarrow> 64 word" where
  "swap_8_octets value byte_order =
     (if byte_order \<noteq> DBUS_COMPILER_BYTE_ORDER then UINT64_SWAP_LE_BE value else value)"

definition dbus_unpack_uint16 :: "byte \<Rightarrow> byte list \<Rightarrow> 16 word" where
  "dbus_unpack_uint16 byte_order data =
     (if byte_order = DBUS_LITTLE_ENDIAN then load_le data else UINT16_SWAP_LE_BE (load_le data))"

definition dbus_unpack_uint32 :: "byte \<Rightarrow> byte list \<Rightarrow> 32 word" where
  "dbus_unpack_uint32 byte_order data =
     (if byte_order = DBUS_LITTLE_ENDIAN then load_le data else UINT32_SWAP_LE_BE (load_le data))"

section \<open>Access to a string\<close>

text \<open>
  The octets of a position, \<open>_dbus_string_get_const_data_len\<close> with its assertions; the
  bytes stored over those of a position; a segment deleted.
\<close>

definition const_data_len :: "byte list \<Rightarrow> nat \<Rightarrow> nat \<Rightarrow> byte list option" where
  "const_data_len str start len =
     (if start \<le> length str \<and> len \<le> length str - start then Some (take len (drop start str)) else None)"

definition overwrite :: "byte list \<Rightarrow> nat \<Rightarrow> byte list \<Rightarrow> byte list" where
  "overwrite str start bs = take start str @ bs @ drop (start + length bs) str"

definition set_data_len :: "byte list \<Rightarrow> nat \<Rightarrow> byte list \<Rightarrow> byte list option" where
  "set_data_len str start bs =
     (if start \<le> length str \<and> length bs \<le> length str - start then Some (overwrite str start bs) else None)"

definition dbus_string_get_byte :: "byte list \<Rightarrow> nat \<Rightarrow> byte option" where
  "dbus_string_get_byte str start = (if start \<le> length str then Some (str_byte str start) else None)"

definition dbus_string_set_byte :: "byte list \<Rightarrow> nat \<Rightarrow> byte \<Rightarrow> byte list option" where
  "dbus_string_set_byte str i b = (if i < length str then Some (str[i := b]) else None)"

definition dbus_string_delete :: "byte list \<Rightarrow> nat \<Rightarrow> nat \<Rightarrow> byte list option" where
  "dbus_string_delete str start len =
     (if start \<le> length str \<and> len \<le> length str - start
      then Some (if len = 0 then str else take start str @ drop (start + len) str) else None)"

text \<open>
  \<open>open_gap\<close>: room for more bytes, unless the string becomes too long or the reallocation
  fails. The bytes of the gap are those the caller stores into it next.
\<close>

abbreviation STRING_MAX_MAX_LENGTH :: nat where "STRING_MAX_MAX_LENGTH \<equiv> INT_MAX - 8"

definition open_gap :: "nat \<Rightarrow> byte list \<Rightarrow> mem_oracle \<Rightarrow> bool \<times> mem_oracle" where
  "open_gap len dest m =
     (if len = 0 then (True, m)
      else if len > STRING_MAX_MAX_LENGTH - length dest then (False, m)
      else alloc m)"

definition dbus_string_insert_byte ::
  "byte list \<Rightarrow> nat \<Rightarrow> byte \<Rightarrow> mem_oracle \<Rightarrow> (bool \<times> byte list \<times> mem_oracle) option" where
  "dbus_string_insert_byte str i b m =
     (if i > length str then None
      else case open_gap 1 str m of
          (False, m) \<Rightarrow> Some (False, str, m)
        | (True, m) \<Rightarrow> Some (True, take i str @ [b] @ drop i str, m))"

text \<open>\<open>_dbus_string_copy_len\<close> and \<open>_dbus_string_copy\<close> of a whole source string.\<close>

definition dbus_string_copy ::
  "byte list \<Rightarrow> byte list \<Rightarrow> nat \<Rightarrow> mem_oracle \<Rightarrow> (bool \<times> byte list \<times> mem_oracle) option" where
  "dbus_string_copy source dest insert_at m =
     (if insert_at > length dest then None
      else if source = [] then Some (True, dest, m)
      else case open_gap (length source) dest m of
          (False, m) \<Rightarrow> Some (False, dest, m)
        | (True, m) \<Rightarrow> Some (True, take insert_at dest @ source @ drop insert_at dest, m))"

definition dbus_string_replace_len ::
  "byte list \<Rightarrow> byte list \<Rightarrow> nat \<Rightarrow> nat \<Rightarrow> mem_oracle \<Rightarrow> (bool \<times> byte list \<times> mem_oracle) option" where
  "dbus_string_replace_len source dest replace_at replace_len m =
     (if replace_at > length dest \<or> replace_len > length dest - replace_at then None
      else case dbus_string_copy source dest replace_at m of
          None \<Rightarrow> None
        | Some (False, dest, m) \<Rightarrow> Some (False, dest, m)
        | Some (True, dest, m) \<Rightarrow>
            map_option (\<lambda>dest. (True, dest, m)) (dbus_string_delete dest (replace_at + length source) replace_len))"

text \<open>
  \<open>align_insert_point_then_open_gap\<close>, with the bytes \<open>gap\<close> that its callers store into
  the gap; the result carries \<open>*insert_at_p\<close>.
\<close>

definition align_insert_point_then_open_gap ::
  "byte list \<Rightarrow> nat \<Rightarrow> nat \<Rightarrow> byte list \<Rightarrow> mem_oracle \<Rightarrow> (bool \<times> byte list \<times> nat \<times> mem_oracle) option" where
  "align_insert_point_then_open_gap str insert_at alignment gap m =
     (if \<not> (alignment \<ge> 1 \<and> alignment \<le> 8 \<and> insert_at \<le> length str) then None
      else let gap_pos = ALIGN_VALUE insert_at alignment;
               new_len = length str + (gap_pos - insert_at) + length gap
        in if new_len > STRING_MAX_MAX_LENGTH then Some (False, str, insert_at, m)
           else let delta = new_len - length str
             in if delta = 0 then Some (True, str, insert_at, m)
                else case open_gap (new_len - length str) str m of
                    (False, m) \<Rightarrow> Some (False, str, insert_at, m)
                  | (True, m) \<Rightarrow>
                      Some (True, take insert_at str @ replicate (gap_pos - insert_at) 0 @ gap @ drop insert_at str,
                            gap_pos, m))"

text \<open>\<open>_dbus_string_insert_2_aligned\<close>, \<open>_4_aligned\<close> and \<open>_8_aligned\<close>: the alignment is the number of octets.\<close>

definition dbus_string_insert_aligned ::
  "byte list \<Rightarrow> nat \<Rightarrow> byte list \<Rightarrow> mem_oracle \<Rightarrow> (bool \<times> byte list \<times> mem_oracle) option" where
  "dbus_string_insert_aligned str insert_at octets m =
     map_option (\<lambda>(ok, str, _, m). (ok, str, m))
       (align_insert_point_then_open_gap str insert_at (length octets) octets m)"

definition dbus_string_insert_alignment ::
  "byte list \<Rightarrow> nat \<Rightarrow> nat \<Rightarrow> mem_oracle \<Rightarrow> (bool \<times> byte list \<times> nat \<times> mem_oracle) option" where
  "dbus_string_insert_alignment str insert_at alignment m =
     (case align_insert_point_then_open_gap str insert_at alignment [] m of
        Some (True, str, insert_at, m) \<Rightarrow>
          if ALIGN_VALUE insert_at alignment = insert_at then Some (True, str, insert_at, m) else None
      | r \<Rightarrow> r)"

section \<open>Basic values\<close>

text \<open>
  \<open>DBusBasicValue\<close>: the member of the union that is in use; an access to another member is
  None. \<open>V_str\<close> is a C string, without its nul; 8 octets are also those of a double.
\<close>

datatype DBusBasicValue =
    V_byt byte
  | V_u16 "16 word"
  | V_u32 "32 word"
  | V_u64 "64 word"
  | V_str "byte list"

text \<open>\<open>_dbus_marshal_set_uint32\<close> is \<open>set_4_octets\<close>.\<close>

definition set_2_octets :: "byte list \<Rightarrow> nat \<Rightarrow> 16 word \<Rightarrow> byte \<Rightarrow> byte list option" where
  "set_2_octets str offset value byte_order =
     (if \<not> known_order byte_order \<or> ALIGN_VALUE offset 2 \<noteq> offset then None
      else set_data_len str offset (pack_2_octets value byte_order))"

definition set_4_octets :: "byte list \<Rightarrow> nat \<Rightarrow> 32 word \<Rightarrow> byte \<Rightarrow> byte list option" where
  "set_4_octets str offset value byte_order =
     (if \<not> known_order byte_order \<or> ALIGN_VALUE offset 4 \<noteq> offset then None
      else set_data_len str offset (pack_4_octets value byte_order))"

definition set_8_octets :: "byte list \<Rightarrow> nat \<Rightarrow> 64 word \<Rightarrow> byte \<Rightarrow> byte list option" where
  "set_8_octets str offset value byte_order =
     (if \<not> known_order byte_order \<or> ALIGN_VALUE offset 8 \<noteq> offset then None
      else set_data_len str offset (pack_8_octets value byte_order))"

text \<open>
  The setters return whether memory sufficed, the string, \<open>*old_end_pos\<close>,
  \<open>*new_end_pos\<close> (meaningless after a failure) and the oracle.
\<close>

type_synonym set_result = "(bool \<times> byte list \<times> nat \<times> nat \<times> mem_oracle) option"

definition set_string :: "byte list \<Rightarrow> nat \<Rightarrow> byte list \<Rightarrow> byte \<Rightarrow> mem_oracle \<Rightarrow> set_result" where
  "set_string str pos value byte_order m =
     (if ALIGN_VALUE pos 4 \<noteq> pos then None
      else case const_data_len str pos 4 of None \<Rightarrow> None
      | Some octets \<Rightarrow>
          let old_len = unat (dbus_unpack_uint32 byte_order octets); new_len = length value
          in if old_len > INT_MAX then None
             else case dbus_string_replace_len value str (pos + 4) old_len m of
                 None \<Rightarrow> None
               | Some (False, str, m) \<Rightarrow> Some (False, str, pos, pos, m)
               | Some (True, str, m) \<Rightarrow>
                   map_option (\<lambda>str. (True, str, pos + 4 + old_len + 1, pos + 4 + new_len + 1, m))
                     (set_4_octets str pos (word_of_nat new_len) byte_order))"

definition set_signature :: "byte list \<Rightarrow> nat \<Rightarrow> byte list \<Rightarrow> mem_oracle \<Rightarrow> set_result" where
  "set_signature str pos value m =
     (case dbus_string_get_byte str pos of None \<Rightarrow> None
      | Some b \<Rightarrow>
          let old_len = unat b; new_len = length value
          in case dbus_string_replace_len value str (pos + 1) old_len m of
              None \<Rightarrow> None
            | Some (False, str, m) \<Rightarrow> Some (False, str, pos, pos, m)
            | Some (True, str, m) \<Rightarrow>
                map_option (\<lambda>str. (True, str, pos + 1 + old_len + 1, pos + 1 + new_len + 1, m))
                  (dbus_string_set_byte str pos (word_of_nat new_len)))"

definition set_result_of :: "nat \<Rightarrow> mem_oracle \<Rightarrow> byte list option \<Rightarrow> set_result" where
  "set_result_of end_pos m = map_option (\<lambda>str. (True, str, end_pos, end_pos, m))"

definition dbus_marshal_set_basic ::
  "byte list \<Rightarrow> nat \<Rightarrow> byte \<Rightarrow> DBusBasicValue \<Rightarrow> byte \<Rightarrow> mem_oracle \<Rightarrow> set_result" where
  "dbus_marshal_set_basic str pos type vp byte_order m =
     (if type = DBUS_TYPE_BYTE then
        (case vp of V_byt b \<Rightarrow> set_result_of (pos + 1) m (dbus_string_set_byte str pos b) | _ \<Rightarrow> None)
      else if type = DBUS_TYPE_INT16 \<or> type = DBUS_TYPE_UINT16 then
        let pos = ALIGN_VALUE pos 2
        in (case vp of V_u16 v \<Rightarrow> set_result_of (pos + 2) m (set_2_octets str pos v byte_order) | _ \<Rightarrow> None)
      else if type = DBUS_TYPE_BOOLEAN \<or> type = DBUS_TYPE_INT32 \<or> type = DBUS_TYPE_UINT32 then
        let pos = ALIGN_VALUE pos 4
        in (case vp of V_u32 v \<Rightarrow> set_result_of (pos + 4) m (set_4_octets str pos v byte_order) | _ \<Rightarrow> None)
      else if type = DBUS_TYPE_INT64 \<or> type = DBUS_TYPE_UINT64 \<or> type = DBUS_TYPE_DOUBLE then
        let pos = ALIGN_VALUE pos 8
        in (case vp of V_u64 v \<Rightarrow> set_result_of (pos + 8) m (set_8_octets str pos v byte_order) | _ \<Rightarrow> None)
      else if type = DBUS_TYPE_STRING \<or> type = DBUS_TYPE_OBJECT_PATH then
        (case vp of V_str s \<Rightarrow> set_string str (ALIGN_VALUE pos 4) s byte_order m | _ \<Rightarrow> None)
      else if type = DBUS_TYPE_SIGNATURE then
        (case vp of V_str s \<Rightarrow> set_signature str pos s m | _ \<Rightarrow> None)
      else None)"

section \<open>Reading\<close>

definition dbus_marshal_read_uint32 :: "byte list \<Rightarrow> nat \<Rightarrow> byte \<Rightarrow> (32 word \<times> nat) option" where
  "dbus_marshal_read_uint32 str pos byte_order =
     (let pos = ALIGN_VALUE pos 4
      in if pos + 4 \<le> length str then Some (dbus_unpack_uint32 byte_order (take 4 (drop pos str)), pos + 4)
         else None)"

text \<open>
  Where a pointer into the string leads; the C string there ends before the first nul. A position
  after a length of the wire is an \<open>int\<close>.
\<close>

definition c_string_at :: "byte list \<Rightarrow> nat \<Rightarrow> byte list" where
  "c_string_at str pos = takeWhile (\<lambda>b. b \<noteq> 0) (drop pos str)"

definition int_pos :: "nat \<Rightarrow> nat option" where
  "int_pos pos = (if pos \<le> INT_MAX then Some pos else None)"

definition dbus_marshal_read_basic ::
  "byte list \<Rightarrow> nat \<Rightarrow> byte \<Rightarrow> byte \<Rightarrow> (DBusBasicValue \<times> nat) option" where
  "dbus_marshal_read_basic str pos type byte_order =
     (if type = DBUS_TYPE_BYTE then
        map_option (\<lambda>b. (V_byt b, pos + 1)) (dbus_string_get_byte str pos)
      else if type = DBUS_TYPE_INT16 \<or> type = DBUS_TYPE_UINT16 then
        let pos = ALIGN_VALUE pos 2
        in map_option (\<lambda>octets. let v = load_le octets
               in (V_u16 (if byte_order \<noteq> DBUS_COMPILER_BYTE_ORDER then UINT16_SWAP_LE_BE v else v), pos + 2))
             (const_data_len str pos 2)
      else if type = DBUS_TYPE_INT32 \<or> type = DBUS_TYPE_UINT32 \<or> type = DBUS_TYPE_BOOLEAN then
        let pos = ALIGN_VALUE pos 4
        in map_option (\<lambda>octets. let v = load_le octets
               in (V_u32 (if byte_order \<noteq> DBUS_COMPILER_BYTE_ORDER then UINT32_SWAP_LE_BE v else v), pos + 4))
             (const_data_len str pos 4)
      else if type = DBUS_TYPE_INT64 \<or> type = DBUS_TYPE_UINT64 \<or> type = DBUS_TYPE_DOUBLE then
        let pos = ALIGN_VALUE pos 8
        in map_option (\<lambda>octets. let v = load_le octets
               in (V_u64 (if byte_order \<noteq> DBUS_COMPILER_BYTE_ORDER then UINT64_SWAP_LE_BE v else v), pos + 8))
             (const_data_len str pos 8)
      else if type = DBUS_TYPE_STRING \<or> type = DBUS_TYPE_OBJECT_PATH then
        (case dbus_marshal_read_uint32 str pos byte_order of None \<Rightarrow> None
         | Some (len, pos) \<Rightarrow> map_option (Pair (V_str (c_string_at str pos))) (int_pos (pos + (unat len + 1))))
      else if type = DBUS_TYPE_SIGNATURE then
        (case dbus_string_get_byte str pos of None \<Rightarrow> None
         | Some len \<Rightarrow> let pos = pos + 1
             in map_option (Pair (V_str (c_string_at str pos))) (int_pos (pos + (unat len + 1))))
      else None)"

definition dbus_marshal_skip_basic :: "byte list \<Rightarrow> byte \<Rightarrow> byte \<Rightarrow> nat \<Rightarrow> nat option" where
  "dbus_marshal_skip_basic str type byte_order pos =
     (if \<not> known_order byte_order then None
      else if type = DBUS_TYPE_BYTE then Some (pos + 1)
      else if type = DBUS_TYPE_INT16 \<or> type = DBUS_TYPE_UINT16 then Some (ALIGN_VALUE pos 2 + 2)
      else if type = DBUS_TYPE_BOOLEAN \<or> type = DBUS_TYPE_INT32 \<or> type = DBUS_TYPE_UINT32 then
        Some (ALIGN_VALUE pos 4 + 4)
      else if type = DBUS_TYPE_INT64 \<or> type = DBUS_TYPE_UINT64 \<or> type = DBUS_TYPE_DOUBLE then
        Some (ALIGN_VALUE pos 8 + 8)
      else if type = DBUS_TYPE_STRING \<or> type = DBUS_TYPE_OBJECT_PATH then
        (case dbus_marshal_read_uint32 str pos byte_order of None \<Rightarrow> None
         | Some (len, pos) \<Rightarrow> int_pos (pos + (unat len + 1)))
      else if type = DBUS_TYPE_SIGNATURE then
        (case dbus_string_get_byte str pos of None \<Rightarrow> None
         | Some len \<Rightarrow> int_pos (pos + (unat len + 2)))
      else None)"

definition dbus_marshal_skip_array :: "byte list \<Rightarrow> byte \<Rightarrow> byte \<Rightarrow> nat \<Rightarrow> nat option" where
  "dbus_marshal_skip_array str element_type byte_order pos =
     (case dbus_marshal_read_uint32 str (ALIGN_VALUE pos 4) byte_order of None \<Rightarrow> None
      | Some (array_len, i) \<Rightarrow>
          let alignment = dbus_type_get_alignment element_type
          in if alignment = 0 then None else int_pos (ALIGN_VALUE i alignment + unat array_len))"

section \<open>Writing\<close>

text \<open>The writers return whether memory sufficed, the string, \<open>*pos_after\<close> and the oracle.\<close>

type_synonym write_result = "(bool \<times> byte list \<times> nat \<times> mem_oracle) option"

definition inserted_aligned :: "byte list \<Rightarrow> nat \<Rightarrow> byte list \<Rightarrow> mem_oracle \<Rightarrow> write_result" where
  "inserted_aligned str insert_at octets m =
     map_option (\<lambda>(retval, str', m). (retval, str', insert_at + (length str' - length str), m))
       (dbus_string_insert_aligned str insert_at octets m)"

definition marshal_2_octets :: "byte list \<Rightarrow> nat \<Rightarrow> 16 word \<Rightarrow> byte \<Rightarrow> mem_oracle \<Rightarrow> write_result" where
  "marshal_2_octets str insert_at value byte_order m =
     (let value = if byte_order \<noteq> DBUS_COMPILER_BYTE_ORDER then UINT16_SWAP_LE_BE value else value
      in inserted_aligned str insert_at (store_le 2 value) m)"

definition marshal_4_octets :: "byte list \<Rightarrow> nat \<Rightarrow> 32 word \<Rightarrow> byte \<Rightarrow> mem_oracle \<Rightarrow> write_result" where
  "marshal_4_octets str insert_at value byte_order m =
     (let value = if byte_order \<noteq> DBUS_COMPILER_BYTE_ORDER then UINT32_SWAP_LE_BE value else value
      in inserted_aligned str insert_at (store_le 4 value) m)"

definition marshal_8_octets :: "byte list \<Rightarrow> nat \<Rightarrow> 64 word \<Rightarrow> byte \<Rightarrow> mem_oracle \<Rightarrow> write_result" where
  "marshal_8_octets str insert_at value byte_order m =
     inserted_aligned str insert_at (store_le 8 (swap_8_octets value byte_order)) m"

datatype marshal_as = MARSHAL_AS_STRING | MARSHAL_AS_SIGNATURE | MARSHAL_AS_BYTE_ARRAY

text \<open>The label \<open>oom\<close>: what was inserted is deleted.\<close>

definition marshal_oom :: "byte list \<Rightarrow> nat \<Rightarrow> nat \<Rightarrow> mem_oracle \<Rightarrow> write_result" where
  "marshal_oom str insert_at pos m =
     map_option (\<lambda>str. (False, str, insert_at, m)) (dbus_string_delete str insert_at (pos - insert_at))"

definition marshal_len_prefix ::
  "marshal_as \<Rightarrow> byte list \<Rightarrow> nat \<Rightarrow> nat \<Rightarrow> byte \<Rightarrow> mem_oracle \<Rightarrow> write_result" where
  "marshal_len_prefix as str pos data_len byte_order m =
     (if as = MARSHAL_AS_SIGNATURE then
        if data_len > DBUS_MAXIMUM_SIGNATURE_LENGTH then None
        else map_option (\<lambda>(ok, str, m). (ok, str, if ok then pos + 1 else pos, m))
               (dbus_string_insert_byte str pos (word_of_nat data_len) m)
      else marshal_4_octets str pos (word_of_nat data_len) byte_order m)"

definition marshal_len_followed_by_bytes ::
  "marshal_as \<Rightarrow> byte list \<Rightarrow> nat \<Rightarrow> byte list \<Rightarrow> byte \<Rightarrow> mem_oracle \<Rightarrow> write_result" where
  "marshal_len_followed_by_bytes as str insert_at value byte_order m =
     (let value_str = if as = MARSHAL_AS_BYTE_ARRAY then value else value @ [0]
      in if \<not> known_order byte_order \<or> length value_str > STRING_MAX_MAX_LENGTH then None
         else case marshal_len_prefix as str insert_at (length value) byte_order m of
             None \<Rightarrow> None
           | Some (False, str, pos, m) \<Rightarrow> marshal_oom str insert_at pos m
           | Some (True, str, pos, m) \<Rightarrow>
               (case dbus_string_copy value_str str pos m of
                  None \<Rightarrow> None
                | Some (False, str, m) \<Rightarrow> marshal_oom str insert_at pos m
                | Some (True, str, m) \<Rightarrow> Some (True, str, pos + length value_str, m)))"

definition marshal_string :: "byte list \<Rightarrow> nat \<Rightarrow> byte list \<Rightarrow> byte \<Rightarrow> mem_oracle \<Rightarrow> write_result" where
  "marshal_string = marshal_len_followed_by_bytes MARSHAL_AS_STRING"

definition marshal_signature :: "byte list \<Rightarrow> nat \<Rightarrow> byte list \<Rightarrow> mem_oracle \<Rightarrow> write_result" where
  "marshal_signature str insert_at value m =
     marshal_len_followed_by_bytes MARSHAL_AS_SIGNATURE str insert_at value DBUS_COMPILER_BYTE_ORDER m"

definition dbus_marshal_write_basic ::
  "byte list \<Rightarrow> nat \<Rightarrow> byte \<Rightarrow> DBusBasicValue \<Rightarrow> byte \<Rightarrow> mem_oracle \<Rightarrow> write_result" where
  "dbus_marshal_write_basic str insert_at type vp byte_order m =
     (if \<not> dbus_type_is_basic type then None
      else if type = DBUS_TYPE_BYTE then
        (case vp of V_byt b \<Rightarrow>
             map_option (\<lambda>(ok, str, m). (ok, str, if ok then insert_at + 1 else insert_at, m))
               (dbus_string_insert_byte str insert_at b m)
         | _ \<Rightarrow> None)
      else if type = DBUS_TYPE_INT16 \<or> type = DBUS_TYPE_UINT16 then
        (case vp of V_u16 v \<Rightarrow> marshal_2_octets str insert_at v byte_order m | _ \<Rightarrow> None)
      else if type = DBUS_TYPE_BOOLEAN then
        (case vp of V_u32 v \<Rightarrow> marshal_4_octets str insert_at (if v \<noteq> 0 then 1 else 0) byte_order m | _ \<Rightarrow> None)
      else if type = DBUS_TYPE_INT32 \<or> type = DBUS_TYPE_UINT32 then
        (case vp of V_u32 v \<Rightarrow> marshal_4_octets str insert_at v byte_order m | _ \<Rightarrow> None)
      else if type = DBUS_TYPE_INT64 \<or> type = DBUS_TYPE_UINT64 \<or> type = DBUS_TYPE_DOUBLE then
        (case vp of V_u64 v \<Rightarrow> marshal_8_octets str insert_at v byte_order m | _ \<Rightarrow> None)
      else if type = DBUS_TYPE_STRING \<or> type = DBUS_TYPE_OBJECT_PATH then
        (case vp of V_str s \<Rightarrow> marshal_string str insert_at s byte_order m | _ \<Rightarrow> None)
      else
        (case vp of V_str s \<Rightarrow> marshal_signature str insert_at s m | _ \<Rightarrow> None))"

section \<open>Arrays of fixed-size elements\<close>

definition marshal_1_octets_array ::
  "byte list \<Rightarrow> nat \<Rightarrow> byte list \<Rightarrow> mem_oracle \<Rightarrow> write_result" where
  "marshal_1_octets_array str insert_at value m =
     (if length value > STRING_MAX_MAX_LENGTH then None
      else map_option (\<lambda>(ok, str, m). (ok, str, if ok then insert_at + length value else insert_at, m))
             (dbus_string_copy value str insert_at m))"

text \<open>
  \<open>_dbus_swap_array\<close> on the bytes from \<open>data\<close> on: the three loops, one element each
  time.
\<close>

fun swap_loop :: "(byte list \<Rightarrow> byte list) \<Rightarrow> nat \<Rightarrow> nat \<Rightarrow> byte list \<Rightarrow> byte list" where
  "swap_loop swap width 0 d = d"
| "swap_loop swap width (Suc n) d = swap (take width d) @ swap_loop swap width n (drop width d)"

definition dbus_swap_array :: "byte list \<Rightarrow> nat \<Rightarrow> nat \<Rightarrow> byte list option" where
  "dbus_swap_array data n_elements alignment =
     (if n_elements * alignment > length data then None
      else if alignment = 8 then
        Some (swap_loop (\<lambda>d. store_le 8 (UINT64_SWAP_LE_BE (load_le d))) 8 n_elements data)
      else if alignment = 4 then
        Some (swap_loop (\<lambda>d. store_le 4 (UINT32_SWAP_LE_BE (load_le d))) 4 n_elements data)
      else if alignment = 2 then
        Some (swap_loop (\<lambda>d. store_le 2 (UINT16_SWAP_LE_BE (load_le d))) 2 n_elements data)
      else None)"

definition swap_array :: "byte list \<Rightarrow> nat \<Rightarrow> nat \<Rightarrow> byte \<Rightarrow> nat \<Rightarrow> byte list option" where
  "swap_array str array_start n_elements byte_order alignment =
     (if ALIGN_VALUE array_start alignment \<noteq> array_start then None
      else if byte_order \<noteq> DBUS_COMPILER_BYTE_ORDER then
        map_option (\<lambda>d. take array_start str @ d) (dbus_swap_array (drop array_start str) n_elements alignment)
      else Some str)"

definition marshal_fixed_error :: "byte list \<Rightarrow> nat \<Rightarrow> nat \<Rightarrow> mem_oracle \<Rightarrow> write_result" where
  "marshal_fixed_error str insert_at old_string_len m =
     map_option (\<lambda>str. (False, str, insert_at, m))
       (dbus_string_delete str insert_at (length str - old_string_len))"

text \<open>The elements are the bytes \<open>value\<close> of the host's array.\<close>

definition marshal_fixed_multi ::
  "byte list \<Rightarrow> nat \<Rightarrow> byte list \<Rightarrow> nat \<Rightarrow> byte \<Rightarrow> nat \<Rightarrow> mem_oracle \<Rightarrow> write_result" where
  "marshal_fixed_multi str insert_at value n_elements byte_order alignment m =
     (if n_elements > DBUS_MAXIMUM_ARRAY_LENGTH div alignment \<or> length value \<noteq> n_elements * alignment then None
      else let old_string_len = length str; len_in_bytes = n_elements * alignment
        in case dbus_string_insert_alignment str insert_at alignment m of
            None \<Rightarrow> None
          | Some (False, str, _, m) \<Rightarrow> marshal_fixed_error str insert_at old_string_len m
          | Some (True, str, array_start, m) \<Rightarrow>
              (case dbus_string_copy value str array_start m of
                 None \<Rightarrow> None
               | Some (False, str, m) \<Rightarrow> marshal_fixed_error str insert_at old_string_len m
               | Some (True, str, m) \<Rightarrow>
                   map_option (\<lambda>str. (True, str, array_start + len_in_bytes, m))
                     (swap_array str array_start n_elements byte_order alignment)))"

definition dbus_marshal_write_fixed_multi ::
  "byte list \<Rightarrow> nat \<Rightarrow> byte \<Rightarrow> byte list \<Rightarrow> nat \<Rightarrow> byte \<Rightarrow> mem_oracle \<Rightarrow> write_result" where
  "dbus_marshal_write_fixed_multi str insert_at element_type vp n_elements byte_order m =
     (if \<not> dbus_type_is_fixed element_type then None
      else if element_type = DBUS_TYPE_BYTE then
        if length vp \<noteq> n_elements then None else marshal_1_octets_array str insert_at vp m
      else if element_type = DBUS_TYPE_INT16 \<or> element_type = DBUS_TYPE_UINT16 then
        marshal_fixed_multi str insert_at vp n_elements byte_order 2 m
      else if element_type = DBUS_TYPE_BOOLEAN \<or> element_type = DBUS_TYPE_INT32 \<or>
              element_type = DBUS_TYPE_UINT32 then
        marshal_fixed_multi str insert_at vp n_elements byte_order 4 m
      else marshal_fixed_multi str insert_at vp n_elements byte_order 8 m)"

end
