(* ===== verification/MarshalBasic.thy ===== *)
theory MarshalBasic
  imports Marshal
begin

text \<open>
  The marshalling of basic values refines a reference encoding: padding to the alignment of the
  type, then the octets in the byte order. What is written is read back and skipped exactly, in
  both byte orders, and a failed allocation leaves the string as it was.
\<close>

section \<open>The reference encoding\<close>

definition octets_of :: "byte \<Rightarrow> nat \<Rightarrow> 'a :: len word \<Rightarrow> byte list" where
  "octets_of byte_order n w = (if byte_order = DBUS_LITTLE_ENDIAN then store_le n w else rev (store_le n w))"

definition word_of :: "byte \<Rightarrow> byte list \<Rightarrow> 'a :: len word" where
  "word_of byte_order bs = load_le (if byte_order = DBUS_LITTLE_ENDIAN then bs else rev bs)"

definition raw_basic :: "byte \<Rightarrow> byte \<Rightarrow> DBusBasicValue \<Rightarrow> byte list" where
  "raw_basic byte_order c v =
     (case v of
        V_byt b \<Rightarrow> [b]
      | V_u16 w \<Rightarrow> octets_of byte_order 2 w
      | V_u32 w \<Rightarrow> octets_of byte_order 4 w
      | V_u64 w \<Rightarrow> octets_of byte_order 8 w
      | V_str s \<Rightarrow>
          (if c = DBUS_TYPE_SIGNATURE then [word_of_nat (length s)]
           else octets_of byte_order 4 (word_of_nat (length s) :: 32 word)) @ s @ [0])"

definition padding :: "nat \<Rightarrow> nat \<Rightarrow> byte list" where
  "padding n b = replicate (ALIGN_VALUE n b - n) 0"

definition encode_basic :: "byte \<Rightarrow> byte \<Rightarrow> DBusBasicValue \<Rightarrow> nat \<Rightarrow> byte list" where
  "encode_basic byte_order c v n = padding n (dbus_type_get_alignment c) @ raw_basic byte_order c v"

text \<open>The member of the union a type code uses, and the values the writers take.\<close>

definition member_of :: "byte \<Rightarrow> DBusBasicValue \<Rightarrow> bool" where
  "member_of c v \<longleftrightarrow>
     (case v of
        V_byt b \<Rightarrow> c = DBUS_TYPE_BYTE
      | V_u16 w \<Rightarrow> c = DBUS_TYPE_INT16 \<or> c = DBUS_TYPE_UINT16
      | V_u32 w \<Rightarrow> c = DBUS_TYPE_BOOLEAN \<or> c = DBUS_TYPE_INT32 \<or> c = DBUS_TYPE_UINT32
      | V_u64 w \<Rightarrow> c = DBUS_TYPE_INT64 \<or> c = DBUS_TYPE_UINT64 \<or> c = DBUS_TYPE_DOUBLE
      | V_str s \<Rightarrow> c = DBUS_TYPE_STRING \<or> c = DBUS_TYPE_OBJECT_PATH \<or> c = DBUS_TYPE_SIGNATURE)"

definition fits_basic :: "byte \<Rightarrow> DBusBasicValue \<Rightarrow> bool" where
  "fits_basic c v \<longleftrightarrow> member_of c v \<and>
     (case v of
        V_u32 w \<Rightarrow> c = DBUS_TYPE_BOOLEAN \<longrightarrow> w = 0 \<or> w = 1
      | V_str s \<Rightarrow> 0 \<notin> set s \<and>
          (if c = DBUS_TYPE_SIGNATURE then length s \<le> DBUS_MAXIMUM_SIGNATURE_LENGTH
           else length s < STRING_MAX_MAX_LENGTH)
      | _ \<Rightarrow> True)"

section \<open>Words and octets\<close>

lemma length_octets [simp]: "length (octets_of e n w) = n"
  by (simp add: octets_of_def)

lemma word_of_octets: "n * 8 = LENGTH('a) \<Longrightarrow> word_of e (octets_of e n w) = (w :: 'a :: len word)"
  by (simp add: word_of_def octets_of_def load_store_le)

lemma octets_of_word: "length bs * 8 = LENGTH('a) \<Longrightarrow> octets_of e (length bs) (word_of e bs :: 'a :: len word) = bs"
  using store_load_le[of bs, where 'a = 'a] store_load_le[of "rev bs", where 'a = 'a]
  by (simp add: word_of_def octets_of_def)

lemma swap_store:
  "store_le 2 (UINT16_SWAP_LE_BE v) = rev (store_le 2 v)"
  "store_le 4 (UINT32_SWAP_LE_BE w) = rev (store_le 4 w)"
  "store_le 8 (UINT64_SWAP_LE_BE x) = rev (store_le 8 x)"
proof -
  have "UINT16_SWAP_LE_BE v = load_le (rev (store_le 2 v))"
    using swap16_load[of "store_le 2 v"] by (simp add: load_store_le)
  then show "store_le 2 (UINT16_SWAP_LE_BE v) = rev (store_le 2 v)"
    using store_load_le[of "rev (store_le 2 v)", where 'a = 16] by simp
  have "UINT32_SWAP_LE_BE w = load_le (rev (store_le 4 w))"
    using swap32_load[of "store_le 4 w"] by (simp add: load_store_le)
  then show "store_le 4 (UINT32_SWAP_LE_BE w) = rev (store_le 4 w)"
    using store_load_le[of "rev (store_le 4 w)", where 'a = 32] by simp
  have "UINT64_SWAP_LE_BE x = load_le (rev (store_le 8 x))"
    using swap64_load[of "store_le 8 x"] by (simp add: load_store_le)
  then show "store_le 8 (UINT64_SWAP_LE_BE x) = rev (store_le 8 x)"
    using store_load_le[of "rev (store_le 8 x)", where 'a = 64] by simp
qed

lemma pack_octets:
  "pack_2_octets v e = octets_of e 2 v" "pack_4_octets w e = octets_of e 4 w" "pack_8_octets x e = octets_of e 8 x"
  by (simp_all add: pack_2_octets_def pack_4_octets_def pack_8_octets_def octets_of_def swap_store)

lemma unpack_word:
  "length bs = 2 \<Longrightarrow> dbus_unpack_uint16 e bs = word_of e bs"
  "length cs = 4 \<Longrightarrow> dbus_unpack_uint32 e cs = word_of e cs"
  by (simp_all add: dbus_unpack_uint16_def dbus_unpack_uint32_def word_of_def swap16_load swap32_load)

lemma swapped_load:
  "length bs = 2 \<Longrightarrow> (if e \<noteq> DBUS_LITTLE_ENDIAN then UINT16_SWAP_LE_BE (load_le bs) else load_le bs) = word_of e bs"
  "length cs = 4 \<Longrightarrow> (if e \<noteq> DBUS_LITTLE_ENDIAN then UINT32_SWAP_LE_BE (load_le cs) else load_le cs) = word_of e cs"
  "length ds = 8 \<Longrightarrow> (if e \<noteq> DBUS_LITTLE_ENDIAN then UINT64_SWAP_LE_BE (load_le ds) else load_le ds) = word_of e ds"
  by (simp_all add: word_of_def swap16_load swap32_load swap64_load)

lemma swapped_store:
  "store_le 2 (if e \<noteq> DBUS_LITTLE_ENDIAN then UINT16_SWAP_LE_BE v else v) = octets_of e 2 v"
  "store_le 4 (if e \<noteq> DBUS_LITTLE_ENDIAN then UINT32_SWAP_LE_BE w else w) = octets_of e 4 w"
  "store_le 8 (if e \<noteq> DBUS_LITTLE_ENDIAN then UINT64_SWAP_LE_BE x else x) = octets_of e 8 x"
  by (simp_all add: octets_of_def swap_store)

section \<open>Inserting\<close>

text \<open>
  An insertion of \<open>bs\<close> at \<open>at\<close>: with memory it is done and the position after it is
  reported, without memory nothing happens.
\<close>

definition inserts :: "byte list \<Rightarrow> nat \<Rightarrow> byte list \<Rightarrow> write_result \<Rightarrow> bool" where
  "inserts str at bs r \<longleftrightarrow>
     (\<exists>m. r = Some (True, take at str @ bs @ drop at str, at + length bs, m)) \<or>
     (\<exists>m. r = Some (False, str, at, m))"

lemma insertsE:
  assumes "inserts str at bs r"
  obtains m where "r = Some (True, take at str @ bs @ drop at str, at + length bs, m)"
    | m where "r = Some (False, str, at, m)"
  using assms by (auto simp: inserts_def)

lemma gap_cases:
  assumes "insert_at \<le> length str" "1 \<le> alignment" "alignment \<le> 8"
  shows "(\<exists>m'. align_insert_point_then_open_gap str insert_at alignment gap m =
       Some (True, take insert_at str @ padding insert_at alignment @ gap @ drop insert_at str,
         ALIGN_VALUE insert_at alignment, m')) \<or>
     (\<exists>m'. align_insert_point_then_open_gap str insert_at alignment gap m = Some (False, str, insert_at, m'))"
proof -
  have "insert_at \<le> ALIGN_VALUE insert_at alignment" using align_facts assms(2) by simp
  then have "length gap = 0 \<and> ALIGN_VALUE insert_at alignment = insert_at \<or>
      length str + (ALIGN_VALUE insert_at alignment - insert_at) + length gap - length str \<noteq> 0"
    by (cases gap) auto
  then show ?thesis using assms
    by (auto simp: align_insert_point_then_open_gap_def padding_def Let_def split: prod.split bool.split)
qed

lemma inserted_aligned:
  assumes "at \<le> length str" "1 \<le> length bs" "length bs \<le> 8"
  shows "inserts str at (padding at (length bs) @ bs) (inserted_aligned str at bs m)"
  using gap_cases[OF assms, of bs m] assms(1)
  by (auto simp: inserts_def inserted_aligned_def dbus_string_insert_aligned_def padding_def)

lemma marshal_octets:
  assumes "at \<le> length str"
  shows "inserts str at (padding at 2 @ octets_of e 2 v) (marshal_2_octets str at v e m)"
    and "inserts str at (padding at 4 @ octets_of e 4 w) (marshal_4_octets str at w e m)"
    and "inserts str at (padding at 8 @ octets_of e 8 x) (marshal_8_octets str at x e m)"
  using inserted_aligned[OF assms, of "octets_of e 2 v" m] inserted_aligned[OF assms, of "octets_of e 4 w" m]
    inserted_aligned[OF assms, of "octets_of e 8 x" m]
  by (simp_all add: marshal_2_octets_def marshal_4_octets_def marshal_8_octets_def swap_8_octets_def Let_def swapped_store
     del: if_not_P if_P)

lemma insert_then_copy:
  assumes "inserts str at bs (marshal_len_prefix as str at (length value) e m)" "at \<le> length str" "known_order e"
    "vs = (if as = MARSHAL_AS_BYTE_ARRAY then value else value @ [0])" "length vs \<le> STRING_MAX_MAX_LENGTH"
  shows "inserts str at (bs @ vs) (marshal_len_followed_by_bytes as str at value e m)"
  using assms(1)
proof (cases rule: insertsE)
  case (1 m1)
  then show ?thesis using assms(2-5)
    by (auto simp: inserts_def marshal_len_followed_by_bytes_def Let_def dbus_string_copy_def marshal_oom_def
        dbus_string_delete_def open_gap_def split: prod.split bool.split)
next
  case (2 m1)
  then show ?thesis using assms(2-5)
    by (auto simp: inserts_def marshal_len_followed_by_bytes_def Let_def marshal_oom_def dbus_string_delete_def)
qed

lemma marshal_string_inserts:
  assumes "at \<le> length str" "known_order e" "length s < STRING_MAX_MAX_LENGTH"
  shows "inserts str at (padding at 4 @ octets_of e 4 (word_of_nat (length s) :: 32 word) @ s @ [0])
    (marshal_string str at s e m)"
  using insert_then_copy[OF _ assms(1,2) refl, of "padding at 4 @ octets_of e 4 (word_of_nat (length s) :: 32 word)"
      MARSHAL_AS_STRING s m] marshal_octets(2)[OF assms(1), of e "word_of_nat (length s)" m] assms(3)
  by (simp add: marshal_string_def marshal_len_prefix_def)

lemma marshal_signature_inserts:
  assumes "at \<le> length str" "length s \<le> DBUS_MAXIMUM_SIGNATURE_LENGTH"
  shows "inserts str at ([word_of_nat (length s)] @ s @ [0]) (marshal_signature str at s m)"
proof -
  have "inserts str at [word_of_nat (length s)]
      (marshal_len_prefix MARSHAL_AS_SIGNATURE str at (length s) DBUS_COMPILER_BYTE_ORDER m)"
    using assms by (auto simp: inserts_def marshal_len_prefix_def dbus_string_insert_byte_def split: prod.split bool.split)
  from insert_then_copy[OF this assms(1) _ refl] show ?thesis using assms(2)
    by (simp add: marshal_signature_def known_order_def)
qed

lemma member_cases:
  assumes "member_of c v"
  obtains (byt) b where "v = V_byt b" "c = DBUS_TYPE_BYTE"
  | (u16) w where "v = V_u16 w" "c = DBUS_TYPE_INT16 \<or> c = DBUS_TYPE_UINT16"
  | (u32) w where "v = V_u32 w" "c = DBUS_TYPE_BOOLEAN \<or> c = DBUS_TYPE_INT32 \<or> c = DBUS_TYPE_UINT32"
  | (u64) w where "v = V_u64 w" "c = DBUS_TYPE_INT64 \<or> c = DBUS_TYPE_UINT64 \<or> c = DBUS_TYPE_DOUBLE"
  | (str) s where "v = V_str s" "c = DBUS_TYPE_STRING \<or> c = DBUS_TYPE_OBJECT_PATH"
  | (sig) s where "v = V_str s" "c = DBUS_TYPE_SIGNATURE"
  using assms by (auto simp: member_of_def split: DBusBasicValue.splits)

lemma member_basic: "member_of c v \<Longrightarrow> dbus_type_is_basic c"
  by (auto simp: member_of_def basic_cases split: DBusBasicValue.splits)

lemma write_basic_inserts:
  assumes at: "at \<le> length str" and e: "known_order e" and f: "fits_basic c v"
  shows "inserts str at (encode_basic e c v at) (dbus_marshal_write_basic str at c v e m)"
proof -
  have m: "member_of c v" using f by (simp add: fits_basic_def)
  from m show ?thesis
  proof (cases rule: member_cases)
    case (byt b)
    then show ?thesis using at member_basic[OF m]
      by (auto simp: inserts_def encode_basic_def raw_basic_def padding_def dbus_type_get_alignment_def
          dbus_marshal_write_basic_def dbus_string_insert_byte_def split: prod.split bool.split)
  next
    case (u16 w)
    then show ?thesis using marshal_octets(1)[OF at, of e w m] member_basic[OF m]
      by (auto simp: encode_basic_def raw_basic_def dbus_type_get_alignment_def dbus_marshal_write_basic_def)
  next
    case (u32 w)
    then have "c = DBUS_TYPE_BOOLEAN \<longrightarrow> w = 0 \<or> w = 1" using f by (simp add: fits_basic_def)
    then show ?thesis using u32 marshal_octets(2)[OF at, of e w m] member_basic[OF m]
      by (auto simp: encode_basic_def raw_basic_def dbus_type_get_alignment_def dbus_marshal_write_basic_def)
  next
    case (u64 w)
    then show ?thesis using marshal_octets(3)[OF at, of e w m] member_basic[OF m]
      by (auto simp: encode_basic_def raw_basic_def dbus_type_get_alignment_def dbus_marshal_write_basic_def)
  next
    case (str s)
    then show ?thesis using marshal_string_inserts[OF at e, of s m] member_basic[OF m] f
      by (auto simp: encode_basic_def raw_basic_def dbus_type_get_alignment_def dbus_marshal_write_basic_def fits_basic_def)
  next
    case (sig s)
    then show ?thesis using marshal_signature_inserts[OF at, of s m] member_basic[OF m] f
      by (simp add: encode_basic_def raw_basic_def padding_def dbus_type_get_alignment_def dbus_marshal_write_basic_def
          fits_basic_def)
  qed
qed

section \<open>Reading\<close>

text \<open>The octets found at a position of a string.\<close>

definition found_at :: "byte list \<Rightarrow> nat \<Rightarrow> byte list \<Rightarrow> bool" where
  "found_at str p bs \<longleftrightarrow> p + length bs \<le> length str \<and> take (length bs) (drop p str) = bs"

lemma found_append: "found_at str p (as @ bs) \<longleftrightarrow> found_at str p as \<and> found_at str (p + length as) bs"
proof -
  have "take (length as + length bs) (drop p str) =
      take (length as) (drop p str) @ take (length bs) (drop (p + length as) str)"
    by (simp add: take_add add.commute)
  then show ?thesis unfolding found_at_def
    by (auto simp: append_eq_append_conv)
qed

lemma found_const: "found_at str p bs \<Longrightarrow> const_data_len str p (length bs) = Some bs"
  by (auto simp: found_at_def const_data_len_def)

lemma found_byte: "found_at str p (b # bs) \<longleftrightarrow> p < length str \<and> str ! p = b \<and> found_at str (Suc p) bs"
  using found_append[of str p "[b]" bs] by (auto simp: found_at_def take_Suc_conv_app_nth hd_drop_conv_nth take_Suc)

lemma found_Nil [simp]: "found_at str p [] \<longleftrightarrow> p \<le> length str"
  by (simp add: found_at_def)

lemma found_inserted: "at \<le> length str \<Longrightarrow> found_at (take at str @ bs @ drop at str) at bs"
  by (simp add: found_at_def)

lemma found_padding: "0 < b \<Longrightarrow> found_at str n (padding n b @ bs) \<Longrightarrow> found_at str (ALIGN_VALUE n b) bs"
  using align_facts(1)[of b n] by (simp add: found_append padding_def)

lemma found_c_string: "found_at str p (s @ [0]) \<Longrightarrow> 0 \<notin> set s \<Longrightarrow> c_string_at str p = s"
proof -
  assume f: "found_at str p (s @ [0])" and z: "0 \<notin> set s"
  have "drop p str = (s @ [0]) @ drop (length (s @ [0])) (drop p str)"
    using f by (metis append_take_drop_id found_at_def)
  then show ?thesis unfolding c_string_at_def using z
    by (metis (mono_tags, lifting) append.assoc append_Cons takeWhile_append2 takeWhile.simps(2) append_Nil2)
qed

lemma read_uint32_found:
  assumes "found_at str (ALIGN_VALUE pos 4) (octets_of e 4 (w :: 32 word))"
  shows "dbus_marshal_read_uint32 str pos e = Some (w, ALIGN_VALUE pos 4 + 4)"
  using assms by (auto simp: dbus_marshal_read_uint32_def found_at_def Let_def unpack_word word_of_octets)

lemma length_raw_string: "length s < 2 ^ 32 \<Longrightarrow> unat (word_of_nat (length s) :: 32 word) = length s"
  by (simp add: unat_of_nat)

lemma read_basic_found:
  assumes f: "fits_basic c v" and d: "found_at str (ALIGN_VALUE pos (dbus_type_get_alignment c)) (raw_basic e c v)"
    and b: "length str \<le> INT_MAX"
  shows "dbus_marshal_read_basic str pos c e =
    Some (v, ALIGN_VALUE pos (dbus_type_get_alignment c) + length (raw_basic e c v))"
proof -
  have "member_of c v" using f by (simp add: fits_basic_def)
  then show ?thesis
  proof (cases rule: member_cases)
    case (byt b)
    then show ?thesis using d
      by (simp add: dbus_marshal_read_basic_def raw_basic_def dbus_type_get_alignment_def found_byte
          dbus_string_get_byte_def str_byte_def)
  next
    case (u16 w)
    then have "const_data_len str (ALIGN_VALUE pos 2) 2 = Some (octets_of e 2 w)"
      using found_const[of str "ALIGN_VALUE pos 2" "octets_of e 2 w"] d
      by (auto simp: raw_basic_def dbus_type_get_alignment_def)
    then show ?thesis using u16 swapped_load(1)[of "octets_of e 2 w" e]
      by (auto simp: dbus_marshal_read_basic_def raw_basic_def dbus_type_get_alignment_def word_of_octets)
  next
    case (u32 w)
    then have "const_data_len str (ALIGN_VALUE pos 4) 4 = Some (octets_of e 4 w)"
      using found_const[of str "ALIGN_VALUE pos 4" "octets_of e 4 w"] d
      by (auto simp: raw_basic_def dbus_type_get_alignment_def)
    then show ?thesis using u32 swapped_load(2)[of "octets_of e 4 w" e]
      by (auto simp: dbus_marshal_read_basic_def raw_basic_def dbus_type_get_alignment_def word_of_octets)
  next
    case (u64 w)
    then have "const_data_len str (ALIGN_VALUE pos 8) 8 = Some (octets_of e 8 w)"
      using found_const[of str "ALIGN_VALUE pos 8" "octets_of e 8 w"] d
      by (auto simp: raw_basic_def dbus_type_get_alignment_def)
    then show ?thesis using u64 swapped_load(3)[of "octets_of e 8 w" e]
      by (auto simp: dbus_marshal_read_basic_def raw_basic_def dbus_type_get_alignment_def word_of_octets)
  next
    case (str s)
    then have n: "length s < STRING_MAX_MAX_LENGTH" "0 \<notin> set s" using f by (auto simp: fits_basic_def)
    from str d have p: "found_at str (ALIGN_VALUE pos 4) (octets_of e 4 (word_of_nat (length s) :: 32 word) @ s @ [0])"
      by (auto simp: raw_basic_def dbus_type_get_alignment_def)
    then have "ALIGN_VALUE pos 4 + 4 + length s + 1 \<le> INT_MAX" using b by (auto simp: found_at_def)
    moreover have "c_string_at str (ALIGN_VALUE pos 4 + 4) = s"
      using p n(2) found_c_string[of str "ALIGN_VALUE pos 4 + 4" s] by (simp add: found_append)
    moreover have "dbus_marshal_read_uint32 str pos e = Some (word_of_nat (length s), ALIGN_VALUE pos 4 + 4)"
      using p by (intro read_uint32_found) (simp add: found_append)
    ultimately show ?thesis using str n(1)
      by (auto simp: dbus_marshal_read_basic_def raw_basic_def dbus_type_get_alignment_def int_pos_def length_raw_string)
  next
    case (sig s)
    then have n: "length s \<le> DBUS_MAXIMUM_SIGNATURE_LENGTH" "0 \<notin> set s" using f by (auto simp: fits_basic_def)
    from sig d have p: "found_at str pos (word_of_nat (length s) # s @ [0])"
      by (auto simp: raw_basic_def dbus_type_get_alignment_def)
    then have "pos + 1 + length s + 1 \<le> INT_MAX" using b by (auto simp: found_at_def)
    moreover have "c_string_at str (pos + 1) = s"
      using p n(2) found_c_string[of str "pos + 1" s] by (simp add: found_byte)
    moreover have "dbus_string_get_byte str pos = Some (word_of_nat (length s))"
      using p by (simp add: found_byte dbus_string_get_byte_def str_byte_def)
    ultimately show ?thesis using sig n(1)
      by (simp add: dbus_marshal_read_basic_def raw_basic_def dbus_type_get_alignment_def int_pos_def unat_of_nat)
  qed
qed

lemma skip_as_read:
  assumes "dbus_marshal_read_basic str pos c e = Some (v, p)" "known_order e"
  shows "dbus_marshal_skip_basic str c e pos = Some p"
proof -
  have "dbus_type_is_basic c" using assms(1)
    by (auto simp: dbus_marshal_read_basic_def basic_cases split: if_splits)
  then show ?thesis using assms unfolding basic_cases dbus_marshal_read_basic_def dbus_marshal_skip_basic_def
    by (elim disjE; simp add: Let_def split: option.splits prod.splits; elim exE conjE; simp)
qed

lemma skip_basic_found:
  assumes f: "fits_basic c v" and d: "found_at str (ALIGN_VALUE pos (dbus_type_get_alignment c)) (raw_basic e c v)"
    and b: "length str \<le> INT_MAX" and e: "known_order e"
  shows "dbus_marshal_skip_basic str c e pos =
    Some (ALIGN_VALUE pos (dbus_type_get_alignment c) + length (raw_basic e c v))"
  by (rule skip_as_read[OF read_basic_found[OF f d b] e])

section \<open>Replacing\<close>

lemma overwrite_found:
  assumes "found_at str p old" "length bs = length old"
  shows "set_data_len str p bs = Some (take p str @ bs @ drop (p + length old) str)"
  using assms by (auto simp: set_data_len_def overwrite_def found_at_def)

text \<open>
  A length \<open>l\<close>, a string and its nul are replaced in place: the string first, then the
  length before it.
\<close>

lemma replace_len_found:
  assumes "found_at str p (l @ old @ [0])"
  shows "\<exists>m'. dbus_string_replace_len new str (p + length l) (length old) m = Some (False, str, m') \<or>
    dbus_string_replace_len new str (p + length l) (length old) m =
      Some (True, take p str @ l @ new @ [0] @ drop (p + length (l @ old @ [0])) str, m')"
proof -
  note f = assms[unfolded found_append]
  have split: "drop (p + length l + length old) str = 0 # drop (p + length (l @ old @ [0])) str"
    using f by (simp add: found_byte Cons_nth_drop_Suc[symmetric] add.commute add.left_commute)
  have pre: "take (p + length l) str = take p str @ l" using f by (simp add: found_at_def take_add)
  have len: "p + length l + length old \<le> length str" using f by (simp add: found_at_def)
  show ?thesis
  proof (cases "new = []")
    case True
    have "str = take p str @ l @ drop (p + length l) str"
      using pre by (metis append.assoc append_take_drop_id)
    then show ?thesis using True split pre len
      unfolding dbus_string_replace_len_def dbus_string_copy_def dbus_string_delete_def
      by (cases "old = []") (simp_all add: add.commute add.left_commute)
  next
    case False
    then show ?thesis using split pre len
      unfolding dbus_string_replace_len_def dbus_string_copy_def dbus_string_delete_def
      by (auto split: prod.split bool.split simp: add.commute add.left_commute)
  qed
qed

lemma set_prefix:
  assumes "found_at str p (l @ rest)" "length l' = length l"
  shows "set_data_len (take p str @ l @ more) p l' = Some (take p str @ l' @ more)"
  using assms by (simp add: set_data_len_def overwrite_def found_at_def)

text \<open>What a setter answers when the old value is replaced by the new one, or memory runs out.\<close>

definition replaces :: "byte list \<Rightarrow> nat \<Rightarrow> byte list \<Rightarrow> byte list \<Rightarrow> set_result \<Rightarrow> bool" where
  "replaces str p old new r \<longleftrightarrow>
     (\<exists>m. r = Some (True, take p str @ new @ drop (p + length old) str, p + length old, p + length new, m)) \<or>
     (\<exists>q q' m. r = Some (False, str, q, q', m))"

lemma set_string_replaces:
  fixes l :: "32 word"
  assumes f: "found_at str p (octets_of e 4 l @ old @ [0])" and l: "unat l = length old" "length old \<le> INT_MAX"
    and p: "ALIGN_VALUE p 4 = p" and e: "known_order e"
  shows "replaces str p (octets_of e 4 l @ old @ [0]) (octets_of e 4 (word_of_nat (length new) :: 32 word) @ new @ [0])
    (set_string str p new e m)"
proof -
  have "const_data_len str p 4 = Some (octets_of e 4 l)"
    using found_const[of str p "octets_of e 4 l"] f by (simp add: found_append)
  moreover obtain m' where "dbus_string_replace_len new str (p + 4) (length old) m = Some (False, str, m') \<or>
      dbus_string_replace_len new str (p + 4) (length old) m = Some (True,
        take p str @ octets_of e 4 l @ new @ [0] @ drop (p + length (octets_of e 4 l @ old @ [0])) str, m')"
    using replace_len_found[OF f, of new m] by auto
  ultimately show ?thesis using p e l set_prefix[OF f, of "octets_of e 4 (word_of_nat (length new) :: 32 word)"]
    by (auto simp: set_string_def replaces_def unpack_word word_of_octets set_4_octets_def pack_octets Let_def)
qed

lemma set_signature_replaces:
  assumes f: "found_at str p ([l] @ old @ [0])" and l: "unat l = length old"
  shows "replaces str p ([l] @ old @ [0]) ([word_of_nat (length new)] @ new @ [0]) (set_signature str p new m)"
proof -
  have "dbus_string_get_byte str p = Some l"
    using f by (simp add: found_byte dbus_string_get_byte_def str_byte_def)
  moreover obtain m' where "dbus_string_replace_len new str (p + 1) (length old) m = Some (False, str, m') \<or>
      dbus_string_replace_len new str (p + 1) (length old) m = Some (True,
        take p str @ [l] @ new @ [0] @ drop (p + length ([l] @ old @ [0])) str, m')"
    using replace_len_found[OF f, of new m] by auto
  moreover have "p < length str" using f by (simp add: found_byte)
  ultimately show ?thesis using l
    by (auto simp: set_signature_def replaces_def dbus_string_set_byte_def Let_def list_update_append)
qed

lemma set_octets_replaces:
  assumes "found_at str p old" "length bs = length old"
  shows "replaces str p old bs (set_result_of (p + length old) m (set_data_len str p bs))"
  using overwrite_found[OF assms] assms(2) by (simp add: replaces_def set_result_of_def)

text \<open>
  The positions of the old and the new value are aligned alike, so the rest of the string is
  untouched.
\<close>

lemma set_basic_replaces:
  assumes o: "fits_basic c old" and n: "fits_basic c new" and e: "known_order e"
    and f: "found_at str (ALIGN_VALUE pos (dbus_type_get_alignment c)) (raw_basic e c old)"
  shows "replaces str (ALIGN_VALUE pos (dbus_type_get_alignment c)) (raw_basic e c old) (raw_basic e c new)
    (dbus_marshal_set_basic str pos c new e m)"
proof -
  have mo: "member_of c old" and mn: "member_of c new" using o n by (simp_all add: fits_basic_def)
  from mo show ?thesis
  proof (cases rule: member_cases)
    case (byt b)
    then obtain b' where new: "new = V_byt b'" using mn by (auto elim: member_cases)
    have "p < length str \<Longrightarrow> str[p := b'] = take p str @ [b'] @ drop (Suc p) str" for p by (simp add: upd_conv_take_nth_drop)
    then show ?thesis using byt new f
      by (simp add: dbus_marshal_set_basic_def raw_basic_def dbus_type_get_alignment_def replaces_def set_result_of_def
          dbus_string_set_byte_def found_byte)
  next
    case (u16 w)
    then obtain w' where new: "new = V_u16 w'" using mn by (auto elim: member_cases)
    have g: "found_at str (ALIGN_VALUE pos 2) (octets_of e 2 w)"
      using u16 f by (auto simp: raw_basic_def dbus_type_get_alignment_def)
    show ?thesis using u16 new e set_octets_replaces[OF g, of "octets_of e 2 w'" m]
      by (auto simp: dbus_marshal_set_basic_def raw_basic_def dbus_type_get_alignment_def set_2_octets_def pack_octets Let_def)
  next
    case (u32 w)
    then obtain w' where new: "new = V_u32 w'" using mn by (auto elim: member_cases)
    have g: "found_at str (ALIGN_VALUE pos 4) (octets_of e 4 w)"
      using u32 f by (auto simp: raw_basic_def dbus_type_get_alignment_def)
    show ?thesis using u32 new e set_octets_replaces[OF g, of "octets_of e 4 w'" m]
      by (auto simp: dbus_marshal_set_basic_def raw_basic_def dbus_type_get_alignment_def set_4_octets_def pack_octets Let_def)
  next
    case (u64 w)
    then obtain w' where new: "new = V_u64 w'" using mn by (auto elim: member_cases)
    have g: "found_at str (ALIGN_VALUE pos 8) (octets_of e 8 w)"
      using u64 f by (auto simp: raw_basic_def dbus_type_get_alignment_def)
    show ?thesis using u64 new e set_octets_replaces[OF g, of "octets_of e 8 w'" m]
      by (auto simp: dbus_marshal_set_basic_def raw_basic_def dbus_type_get_alignment_def set_8_octets_def pack_octets Let_def)
  next
    case (str s)
    then obtain s' where new: "new = V_str s'" using mn by (auto elim: member_cases)
    have g: "found_at str (ALIGN_VALUE pos 4) (octets_of e 4 (word_of_nat (length s) :: 32 word) @ s @ [0])"
      using str f by (auto simp: raw_basic_def dbus_type_get_alignment_def)
    have "length s < STRING_MAX_MAX_LENGTH" using str o by (auto simp: fits_basic_def)
    then show ?thesis using str new set_string_replaces[OF g _ _ _ e, of s' m]
      by (auto simp: dbus_marshal_set_basic_def raw_basic_def dbus_type_get_alignment_def length_raw_string)
  next
    case (sig s)
    then obtain s' where new: "new = V_str s'" using mn by (auto elim: member_cases)
    have g: "found_at str pos ([word_of_nat (length s)] @ s @ [0])"
      using sig f by (simp add: raw_basic_def dbus_type_get_alignment_def)
    have "length s \<le> DBUS_MAXIMUM_SIGNATURE_LENGTH" using sig o by (simp add: fits_basic_def)
    then show ?thesis using sig new set_signature_replaces[OF g, of s' m]
      by (simp add: dbus_marshal_set_basic_def raw_basic_def dbus_type_get_alignment_def unat_of_nat)
  qed
qed

section \<open>Arrays of fixed-size elements\<close>

lemma swap_loop_rev:
  assumes "\<And>d. length d = n \<Longrightarrow> swap d = rev d"
  shows "swap_loop swap n (length ws) (concat (map (store_le n) ws) @ rest) =
    concat (map (\<lambda>w. rev (store_le n w)) ws) @ rest"
  by (induction ws) (simp_all add: assms)

lemma length_stores: "length (concat (map (store_le n) ws)) = length ws * n"
  by (induction ws) simp_all

lemma swap_array_octets:
  fixes ws :: "'a :: len word list"
  assumes n: "n = 2 \<or> n = 4 \<or> n = 8" and p: "ALIGN_VALUE (length pre) n = length pre"
  shows "swap_array (pre @ concat (map (store_le n) ws) @ rest) (length pre) (length ws) e n =
    Some (pre @ concat (map (octets_of e n) ws) @ rest)"
proof (cases "e = DBUS_LITTLE_ENDIAN")
  case True
  then have "octets_of e n = (store_le n :: 'a word \<Rightarrow> byte list)" by (intro ext) (simp add: octets_of_def)
  then show ?thesis using p True by (simp add: swap_array_def)
next
  case False
  have swaps: "length d = 2 \<Longrightarrow> store_le 2 (UINT16_SWAP_LE_BE (load_le d)) = rev d"
    "length d = 4 \<Longrightarrow> store_le 4 (UINT32_SWAP_LE_BE (load_le d)) = rev d"
    "length d = 8 \<Longrightarrow> store_le 8 (UINT64_SWAP_LE_BE (load_le d)) = rev d" for d
    using store_load_le[of d, where 'a = 16] store_load_le[of d, where 'a = 32] store_load_le[of d, where 'a = 64]
    by (simp_all add: swap_store)
  have "dbus_swap_array (concat (map (store_le n) ws) @ rest) (length ws) n =
      Some (concat (map (\<lambda>w. rev (store_le n w)) ws) @ rest)"
    using n by (elim disjE) (simp_all add: dbus_swap_array_def length_stores swap_loop_rev swaps)
  moreover have "octets_of e n = (\<lambda>w :: 'a word. rev (store_le n w))" using False by (intro ext) (simp add: octets_of_def)
  ultimately show ?thesis using p False by (simp add: swap_array_def)
qed

lemma fixed_error_restores:
  "at \<le> length str \<Longrightarrow> marshal_fixed_error (take at str @ xs @ drop at str) at (length str) m = Some (False, str, at, m)"
  by (auto simp: marshal_fixed_error_def dbus_string_delete_def)

lemma marshal_fixed_inserts:
  fixes ws :: "'a :: len word list"
  assumes at: "at \<le> length str" and n: "n = 2 \<or> n = 4 \<or> n = 8"
    and l: "length ws \<le> DBUS_MAXIMUM_ARRAY_LENGTH div n"
  shows "inserts str at (padding at n @ concat (map (octets_of e n) ws))
    (marshal_fixed_multi str at (concat (map (store_le n) ws)) (length ws) e n m)"
proof -
  have n8: "1 \<le> n" "n \<le> 8" using n by auto
  let ?v = "concat (map (store_le n) ws)" and ?p = "ALIGN_VALUE at n"
  have ge: "at \<le> ?p" using align_facts(1) n8 by simp
  have len: "length (concat (map (octets_of e n) ws)) = length ws * n" by (induction ws) simp_all
  from gap_cases[OF at n8, of "[]" m] obtain m1 where
    "dbus_string_insert_alignment str at n m = Some (True, take at str @ padding at n @ drop at str, ?p, m1) \<or>
     dbus_string_insert_alignment str at n m = Some (False, str, at, m1)"
    using n8 by (auto simp: dbus_string_insert_alignment_def)
  then show ?thesis
  proof
    assume a: "dbus_string_insert_alignment str at n m = Some (True, take at str @ padding at n @ drop at str, ?p, m1)"
    let ?pre = "take at str @ padding at n"
    have pre: "length ?pre = ?p" using at ge by (simp add: padding_def)
    have sw: "swap_array (?pre @ ?v @ drop at str) ?p (length ws) e n =
        Some (?pre @ concat (map (octets_of e n) ws) @ drop at str)"
      using swap_array_octets[OF n, of ?pre ws "drop at str" e] n8 unfolding pre by simp
    show ?thesis
    proof (cases "dbus_string_copy ?v (take at str @ padding at n @ drop at str) ?p m1")
      case None
      then show ?thesis using at ge by (auto simp: dbus_string_copy_def padding_def split: if_splits prod.splits bool.splits)
    next
      case (Some r)
      then consider m2 where "r = (True, ?pre @ ?v @ drop at str, m2)"
        | m2 where "r = (False, take at str @ padding at n @ drop at str, m2)"
        using at ge by (auto simp: dbus_string_copy_def padding_def split: if_splits prod.splits bool.splits)
      then show ?thesis
      proof cases
        case 1
        then show ?thesis using a Some sw l at ge n8 len
          by (simp add: inserts_def marshal_fixed_multi_def length_stores padding_def)
      next
        case 2
        then show ?thesis using a Some l at ge n8
          by (simp add: inserts_def marshal_fixed_multi_def length_stores fixed_error_restores)
      qed
    qed
  next
    assume "dbus_string_insert_alignment str at n m = Some (False, str, at, m1)"
    then show ?thesis using at l
      by (simp add: inserts_def marshal_fixed_multi_def length_stores marshal_fixed_error_def dbus_string_delete_def)
  qed
qed

lemma marshal_1_inserts:
  assumes "at \<le> length str" "length bs \<le> STRING_MAX_MAX_LENGTH"
  shows "inserts str at bs (marshal_1_octets_array str at bs m)"
proof (cases "bs = []")
  case True
  then show ?thesis using assms by (simp add: marshal_1_octets_array_def dbus_string_copy_def inserts_def)
next
  case False
  then show ?thesis using assms
    by (cases "open_gap (length bs) str m"; cases "fst (open_gap (length bs) str m)")
      (simp_all add: marshal_1_octets_array_def dbus_string_copy_def inserts_def)
qed

lemma fixed_cases:
  assumes "dbus_type_is_fixed c"
  obtains "c = DBUS_TYPE_BYTE" "dbus_type_get_alignment c = 1"
  | "c = DBUS_TYPE_INT16 \<or> c = DBUS_TYPE_UINT16" "dbus_type_get_alignment c = 2"
  | "c = DBUS_TYPE_BOOLEAN \<or> c = DBUS_TYPE_INT32 \<or> c = DBUS_TYPE_UINT32" "dbus_type_get_alignment c = 4"
  | "c = DBUS_TYPE_INT64 \<or> c = DBUS_TYPE_UINT64 \<or> c = DBUS_TYPE_DOUBLE" "dbus_type_get_alignment c = 8"
proof -
  have "c = DBUS_TYPE_BYTE \<or> (c = DBUS_TYPE_INT16 \<or> c = DBUS_TYPE_UINT16) \<or>
      (c = DBUS_TYPE_BOOLEAN \<or> c = DBUS_TYPE_INT32 \<or> c = DBUS_TYPE_UINT32) \<or>
      (c = DBUS_TYPE_INT64 \<or> c = DBUS_TYPE_UINT64 \<or> c = DBUS_TYPE_DOUBLE)"
    using assms unfolding dbus_type_is_fixed_def by (metis (full_types))
  then show ?thesis using that by (elim disjE) (simp_all add: dbus_type_get_alignment_def)
qed

lemma write_fixed_inserts:
  fixes ws :: "'a :: len word list"
  assumes at: "at \<le> length str" and c: "dbus_type_is_fixed c" "dbus_type_get_alignment c = n" "n * 8 = LENGTH('a)"
    and l: "length ws \<le> DBUS_MAXIMUM_ARRAY_LENGTH div n"
  shows "inserts str at (padding at n @ concat (map (octets_of e n) ws))
    (dbus_marshal_write_fixed_multi str at c (concat (map (store_le n) ws)) (length ws) e m)"
  using c(1)
proof (cases rule: fixed_cases)
  case 1
  then have n: "n = 1" using c(2) by simp
  have o: "octets_of e 1 = (store_le 1 :: 'a word \<Rightarrow> byte list)" by (intro ext) (simp add: octets_of_def store_le_def)
  have k: "length (concat (map (store_le 1) ws)) = length ws" using length_stores[of 1 ws] by simp
  have "length ws \<le> STRING_MAX_MAX_LENGTH" using l n by simp
  then have "inserts str at (concat (map (store_le 1) ws)) (marshal_1_octets_array str at (concat (map (store_le 1) ws)) m)"
    using marshal_1_inserts[OF at, of "concat (map (store_le 1) ws)" m] unfolding k by blast
  moreover have "dbus_marshal_write_fixed_multi str at c (concat (map (store_le 1) ws)) (length ws) e m =
      marshal_1_octets_array str at (concat (map (store_le 1) ws)) m"
    using 1(1) c(1) k unfolding dbus_marshal_write_fixed_multi_def
    by (simp only: if_True not_True_eq_False if_False simp_thms)
  ultimately show ?thesis unfolding n o by (simp add: padding_def)
next
  case 2
  then show ?thesis using marshal_fixed_inserts[OF at _ l, of e m] c(1,2)
    by (elim disjE) (simp_all add: dbus_marshal_write_fixed_multi_def)
next
  case 3
  then show ?thesis using marshal_fixed_inserts[OF at _ l, of e m] c(1,2)
    by (elim disjE) (simp_all add: dbus_marshal_write_fixed_multi_def)
next
  case 4
  then show ?thesis using marshal_fixed_inserts[OF at _ l, of e m] c(1,2)
    by (elim disjE) (simp_all add: dbus_marshal_write_fixed_multi_def)
qed

section \<open>The properties of marshalling\<close>

lemma swap_loop_numeral:
  "swap_loop f w (numeral k) d = f (take w d) @ swap_loop f w (pred_numeral k) (drop w d)"
  by (simp add: numeral_eq_Suc)

lemmas marshal_eval = marshal_string_def marshal_signature_def marshal_len_followed_by_bytes_def marshal_len_prefix_def
  marshal_4_octets_def inserted_aligned_def dbus_string_insert_aligned_def align_insert_point_then_open_gap_def
  open_gap_def dbus_string_copy_def ALIGN_VALUE_def known_order_def swap_store store_le_def upt_rec Let_def
  UINT32_SWAP_LE_BE_def UINT16_SWAP_LE_BE_def swap_loop_numeral
  set_signature_def dbus_string_get_byte_def dbus_string_replace_len_def dbus_string_delete_def dbus_string_set_byte_def
  marshal_fixed_multi_def dbus_string_insert_alignment_def swap_array_def dbus_swap_array_def marshal_1_octets_array_def
  str_byte_def

text \<open>
  C21. A basic value written anywhere in a string, in either byte order, is read back from there and
  skipped: reader and skipper end where the writer ended. When memory runs out the string is
  unchanged.
\<close>

theorem basic_round_trip:
  assumes "at \<le> length str" "known_order e" "fits_basic c v"
    and "dbus_marshal_write_basic str at c v e m = Some (ok, str', p, m')" "length str' \<le> INT_MAX"
  shows "if ok then dbus_marshal_read_basic str' at c e = Some (v, p) \<and> dbus_marshal_skip_basic str' c e at = Some p \<and>
      take at str' = take at str \<and> drop p str' = drop at str
    else str' = str"
proof -
  let ?a = "dbus_type_get_alignment c"
  have "dbus_type_is_valid c" using assms(3) member_basic[of c v]
    by (auto simp: fits_basic_def basic_cases dbus_type_is_valid_def)
  then have a: "0 < ?a" using alignment_values by fastforce
  note i = write_basic_inserts[OF assms(1-3), of m, unfolded assms(4)]
  show ?thesis
  proof (cases ok)
    case True
    then have s: "str' = take at str @ encode_basic e c v at @ drop at str" "p = at + length (encode_basic e c v at)"
      using i by (auto simp: inserts_def)
    have "found_at str' at (encode_basic e c v at)" unfolding s(1) by (rule found_inserted[OF assms(1)])
    then have g: "found_at str' (ALIGN_VALUE at ?a) (raw_basic e c v)"
      unfolding encode_basic_def by (rule found_padding[OF a])
    moreover have "p = ALIGN_VALUE at ?a + length (raw_basic e c v)"
      using align_facts(1)[OF a, of at] by (simp add: s(2) encode_basic_def padding_def)
    ultimately show ?thesis
      using read_basic_found[OF assms(3) g assms(5)] skip_basic_found[OF assms(3) g assms(5,2)] True s assms(1) by simp
  next
    case False
    then show ?thesis using i by (auto simp: inserts_def)
  qed
qed

theorem basic_round_trip_witness:
  "dbus_marshal_read_basic (ascii ''l'' @ [0, 0, 0, 0, 0, 0, 2] @ ascii ''ok'' @ [0]) 1 DBUS_TYPE_STRING DBUS_BIG_ENDIAN =
     Some (V_str (ascii ''ok''), 11)"
proof -
  have "dbus_marshal_write_basic (ascii ''l'') 1 DBUS_TYPE_STRING (V_str (ascii ''ok'')) DBUS_BIG_ENDIAN [] =
      Some (True, ascii ''l'' @ [0, 0, 0, 0, 0, 0, 2] @ ascii ''ok'' @ [0], 11, [])"
    by (simp add: dbus_marshal_write_basic_def dbus_type_is_basic_def dbus_type_is_valid_def TYPE_IS_CONTAINER_def marshal_eval)
  from basic_round_trip[OF _ _ _ this] show ?thesis by (simp add: known_order_def fits_basic_def member_of_def)
qed

text \<open>
  Replacing a basic value by another of its type changes exactly its octets: what precedes and
  what follows the value stays, the reported ends are those of the old and the new value, and a
  failed allocation changes nothing.
\<close>

theorem set_basic_in_place:
  assumes "fits_basic c old" "fits_basic c new" "known_order e"
    and "str = pre @ raw_basic e c old @ rest" "ALIGN_VALUE pos (dbus_type_get_alignment c) = length pre"
  shows "\<exists>oe ne m'. dbus_marshal_set_basic str pos c new e m =
      Some (True, pre @ raw_basic e c new @ rest, length (pre @ raw_basic e c old),
        length (pre @ raw_basic e c new), m') \<or>
    dbus_marshal_set_basic str pos c new e m = Some (False, str, oe, ne, m')"
proof -
  have "found_at str (length pre) (raw_basic e c old)" by (simp add: assms(4) found_at_def)
  from set_basic_replaces[OF assms(1-3), of str pos m] this
  show ?thesis unfolding assms(5) by (auto simp: replaces_def assms(4))
qed

theorem set_basic_in_place_witness:
  "dbus_marshal_set_basic [7, 2, 0x78, 0x79, 0, 9] 1 DBUS_TYPE_SIGNATURE (V_str [0x7a]) DBUS_LITTLE_ENDIAN [] =
     Some (True, [7, 1, 0x7a, 0, 9], 5, 4, [])"
proof -
  have "\<exists>oe ne m'. dbus_marshal_set_basic [7, 2, 0x78, 0x79, 0, 9] 1 DBUS_TYPE_SIGNATURE (V_str [0x7a]) DBUS_LITTLE_ENDIAN [] =
      Some (True, [7] @ raw_basic DBUS_LITTLE_ENDIAN DBUS_TYPE_SIGNATURE (V_str [0x7a]) @ [9],
        length ([7] @ raw_basic DBUS_LITTLE_ENDIAN DBUS_TYPE_SIGNATURE (V_str [0x78, 0x79])),
        length ([7] @ raw_basic DBUS_LITTLE_ENDIAN DBUS_TYPE_SIGNATURE (V_str [0x7a])), m') \<or>
    dbus_marshal_set_basic [7, 2, 0x78, 0x79, 0, 9] 1 DBUS_TYPE_SIGNATURE (V_str [0x7a]) DBUS_LITTLE_ENDIAN [] =
      Some (False, [7, 2, 0x78, 0x79, 0, 9], oe, ne, m')"
    by (rule set_basic_in_place) (simp_all add: fits_basic_def member_of_def known_order_def raw_basic_def
        dbus_type_get_alignment_def)
  moreover have "dbus_marshal_set_basic [7, 2, 0x78, 0x79, 0, 9] 1 DBUS_TYPE_SIGNATURE (V_str [0x7a]) DBUS_LITTLE_ENDIAN [] =
     Some (True, [7, 1, 0x7a, 0, 9], 5, 4, [])" by (simp add: dbus_marshal_set_basic_def marshal_eval)
  ultimately show ?thesis by simp
qed

text \<open>
  Writing a block of fixed-size elements at once gives the elements' octets in the byte order
  asked for, after the padding to their alignment, or leaves the string when memory runs out.
\<close>

theorem write_fixed_multi_elements:
  fixes ws :: "'a :: len word list"
  assumes "at \<le> length str" "dbus_type_is_fixed c" "dbus_type_get_alignment c * 8 = LENGTH('a)"
    and "length ws \<le> DBUS_MAXIMUM_ARRAY_LENGTH div dbus_type_get_alignment c"
    and "host = concat (map (store_le (dbus_type_get_alignment c)) ws)"
    and "elements = concat (map (octets_of e (dbus_type_get_alignment c)) ws)"
  shows "\<exists>m'. dbus_marshal_write_fixed_multi str at c host (length ws) e m =
      Some (True, take at str @ padding at (dbus_type_get_alignment c) @ elements @ drop at str,
        at + length (padding at (dbus_type_get_alignment c) @ elements), m') \<or>
    dbus_marshal_write_fixed_multi str at c host (length ws) e m = Some (False, str, at, m')"
  using write_fixed_inserts[OF assms(1,2) refl assms(3,4), of e m] unfolding assms(5,6)
  by (auto simp: inserts_def)

theorem write_fixed_multi_elements_witness:
  "dbus_marshal_write_fixed_multi [1] 1 DBUS_TYPE_UINT16 [1, 2, 3, 4] 2 DBUS_BIG_ENDIAN [] =
     Some (True, [1, 0, 2, 1, 4, 3], 6, [])"
proof -
  let ?ws = "[0x0201, 0x0403] :: 16 word list"
  have "\<exists>m'. dbus_marshal_write_fixed_multi [1] 1 DBUS_TYPE_UINT16 [1, 2, 3, 4] (length ?ws) DBUS_BIG_ENDIAN [] =
      Some (True, take 1 [1] @ padding 1 (dbus_type_get_alignment DBUS_TYPE_UINT16) @ [2, 1, 4, 3] @ drop 1 [1],
        1 + length (padding 1 (dbus_type_get_alignment DBUS_TYPE_UINT16) @ [2, 1, 4, 3 :: byte]), m') \<or>
    dbus_marshal_write_fixed_multi [1] 1 DBUS_TYPE_UINT16 [1, 2, 3, 4] (length ?ws) DBUS_BIG_ENDIAN [] =
      Some (False, [1], 1, m')"
    by (rule write_fixed_multi_elements)
      (simp_all add: dbus_type_get_alignment_def dbus_type_is_fixed_def dbus_type_is_valid_def octets_of_def store_le_def
        upt_rec unsigned_drop_bit_eq drop_bit_eq_div)
  moreover have "dbus_marshal_write_fixed_multi [1] 1 DBUS_TYPE_UINT16 [1, 2, 3, 4] 2 DBUS_BIG_ENDIAN [] =
     Some (True, [1, 0, 2, 1, 4, 3], 6, [])"
    by (simp add: dbus_marshal_write_fixed_multi_def dbus_type_is_fixed_def dbus_type_is_valid_def marshal_eval)
  ultimately show ?thesis by simp
qed

end
