(* ===== verification/TypeReader.thy ===== *)
theory TypeReader
  imports SigIter Marshal
begin

text \<open>
  Iterating over a block of values or over a signature: \<open>DBusTypeReader\<close> of
  \<open>dbus/dbus-marshal-recursive.c\<close>. The virtual tables of the reader classes are resolved by
  cases on the class. An operation stops with \<open>Aborted\<close> at a failed assertion or a read outside
  its strings. Stepping over a container recurses and loops; \<open>No_fuel\<close> marks that the fuel did
  not suffice, and is shown not to occur from a bound on.
\<close>

section \<open>Results\<close>

datatype halt = Invalid DBusValidity | Aborted | No_fuel

type_synonym 'a result = "halt + 'a"

fun and_then :: "'a result \<Rightarrow> ('a \<Rightarrow> 'b result) \<Rightarrow> 'b result" where
  "and_then (Inl e) f = Inl e"
| "and_then (Inr x) f = f x"

definition asserted :: "'a option \<Rightarrow> 'a result" where
  "asserted r = (case r of None \<Rightarrow> Inl Aborted | Some x \<Rightarrow> Inr x)"

definition require :: "bool \<Rightarrow> unit result" where
  "require b = (if b then Inr () else Inl Aborted)"

lemma and_then_Inr [simp]: "and_then r f = Inr y \<longleftrightarrow> (\<exists>x. r = Inr x \<and> f x = Inr y)"
  by (cases r) simp_all

lemma asserted_Inr [simp]: "asserted r = Inr x \<longleftrightarrow> r = Some x"
  by (simp add: asserted_def split: option.split)

lemma asserted_Some [simp]: "asserted (Some x) = Inr x" "asserted None = Inl Aborted"
  by (simp_all add: asserted_def)

lemma require_True [simp]: "require True = Inr ()" "require False = Inl Aborted"
  by (simp_all add: require_def)

section \<open>Readers\<close>

datatype DBusTypeReaderClass =
    body_reader_class
  | body_types_only_reader_class
  | struct_reader_class
  | struct_types_only_reader_class
  | dict_entry_reader_class
  | dict_entry_types_only_reader_class
  | array_reader_class
  | array_types_only_reader_class
  | variant_reader_class

fun types_only :: "DBusTypeReaderClass \<Rightarrow> bool" where
  "types_only body_types_only_reader_class = True"
| "types_only struct_types_only_reader_class = True"
| "types_only dict_entry_types_only_reader_class = True"
| "types_only array_types_only_reader_class = True"
| "types_only _ = False"

text \<open>
  \<open>value_str\<close> is None for a types-only reader (\<open>NULL\<close>). A variant reader has its
  \<open>type_str\<close> inside the values.
\<close>

record DBusTypeReader =
  byte_order :: byte
  finished :: bool
  array_len_offset :: nat
  type_str :: "byte list"
  type_pos :: nat
  value_str :: "byte list option"
  value_pos :: nat
  klass :: DBusTypeReaderClass
  start_pos :: nat

text \<open>\<open>_dbus_first_type_in_signature\<close> with the assertion of \<open>_dbus_string_get_byte\<close> and its own.\<close>

definition first_type :: "byte list \<Rightarrow> nat \<Rightarrow> byte result" where
  "first_type str pos =
     and_then (asserted (dbus_string_get_byte str pos)) (\<lambda>t.
       if is_closing t then Inl Aborted else Inr (map_type_char_to_type t))"

definition get_alignment :: "byte \<Rightarrow> nat result" where
  "get_alignment typecode =
     (let a = dbus_type_get_alignment typecode in if a = 0 then Inl Aborted else Inr a)"

definition element_type_get_alignment :: "byte list \<Rightarrow> nat \<Rightarrow> nat result" where
  "element_type_get_alignment str pos = and_then (first_type str pos) get_alignment"

text \<open>\<open>reader_init\<close>; the fields it does not set keep their values.\<close>

definition reader_init ::
  "DBusTypeReader \<Rightarrow> byte \<Rightarrow> byte list \<Rightarrow> nat \<Rightarrow> byte list option \<Rightarrow> nat \<Rightarrow> DBusTypeReader" where
  "reader_init reader order tstr tpos vstr vpos = reader\<lparr>byte_order := order, finished := False, type_str := tstr,
     type_pos := tpos, value_str := vstr, value_pos := vpos\<rparr>"

definition fresh_reader :: "DBusTypeReaderClass \<Rightarrow> DBusTypeReader" where
  "fresh_reader c = \<lparr>byte_order = 0, finished = False, array_len_offset = 0, type_str = [], type_pos = 0,
     value_str = None, value_pos = 0, klass = c, start_pos = 0\<rparr>"

definition dbus_type_reader_init :: "byte \<Rightarrow> byte list \<Rightarrow> nat \<Rightarrow> byte list \<Rightarrow> nat \<Rightarrow> DBusTypeReader" where
  "dbus_type_reader_init order tstr tpos vstr vpos =
     reader_init (fresh_reader body_reader_class) order tstr tpos (Some vstr) vpos"

definition dbus_type_reader_init_types_only :: "byte list \<Rightarrow> nat \<Rightarrow> DBusTypeReader" where
  "dbus_type_reader_init_types_only tstr tpos =
     reader_init (fresh_reader body_types_only_reader_class) DBUS_COMPILER_BYTE_ORDER tstr tpos None INT_MAX"

section \<open>Descending\<close>

definition base_reader_recurse :: "DBusTypeReader \<Rightarrow> DBusTypeReader \<Rightarrow> DBusTypeReader" where
  "base_reader_recurse sub parent =
     reader_init sub (byte_order parent) (type_str parent) (type_pos parent) (value_str parent) (value_pos parent)"

definition struct_or_dict_entry_types_only_reader_recurse ::
  "DBusTypeReader \<Rightarrow> DBusTypeReader \<Rightarrow> DBusTypeReader result" where
  "struct_or_dict_entry_types_only_reader_recurse sub parent =
     (let sub = base_reader_recurse sub parent
      in and_then (asserted (dbus_string_get_byte (type_str sub) (type_pos sub))) (\<lambda>b.
           if b = DBUS_STRUCT_BEGIN_CHAR \<or> b = DBUS_DICT_ENTRY_BEGIN_CHAR
           then Inr (sub\<lparr>type_pos := type_pos sub + 1\<rparr>) else Inl Aborted))"

definition struct_or_dict_entry_reader_recurse :: "DBusTypeReader \<Rightarrow> DBusTypeReader \<Rightarrow> DBusTypeReader result" where
  "struct_or_dict_entry_reader_recurse sub parent =
     and_then (struct_or_dict_entry_types_only_reader_recurse sub parent) (\<lambda>sub.
       Inr (sub\<lparr>value_pos := ALIGN_VALUE (value_pos sub) 8\<rparr>))"

definition array_types_only_reader_recurse :: "DBusTypeReader \<Rightarrow> DBusTypeReader \<Rightarrow> DBusTypeReader" where
  "array_types_only_reader_recurse sub parent =
     (let sub = base_reader_recurse sub parent
      in sub\<lparr>type_pos := type_pos sub + 1, start_pos := INT_MAX, array_len_offset := 7\<rparr>)"

definition ARRAY_READER_LEN_POS :: "DBusTypeReader \<Rightarrow> nat option" where
  "ARRAY_READER_LEN_POS reader =
     (if start_pos reader < array_len_offset reader + 4 then None
      else Some (start_pos reader - array_len_offset reader - 4))"

definition array_reader_get_array_len :: "DBusTypeReader \<Rightarrow> nat result" where
  "array_reader_get_array_len reader =
     and_then (asserted (ARRAY_READER_LEN_POS reader)) (\<lambda>len_pos.
     and_then (asserted (value_str reader)) (\<lambda>str.
     and_then (require (ALIGN_VALUE len_pos 4 = len_pos)) (\<lambda>_.
     and_then (asserted (const_data_len str len_pos 4)) (\<lambda>octets.
     and_then (require (start_pos reader - len_pos - 4 < 8)) (\<lambda>_.
     let array_len = unat (dbus_unpack_uint32 (byte_order reader) octets)
     in if array_len \<le> INT_MAX then Inr array_len else Inl Aborted)))))"

definition array_reader_recurse :: "DBusTypeReader \<Rightarrow> DBusTypeReader \<Rightarrow> DBusTypeReader result" where
  "array_reader_recurse sub parent =
     (let sub = array_types_only_reader_recurse sub parent;
          len_pos = ALIGN_VALUE (value_pos sub) 4
      in and_then (element_type_get_alignment (type_str sub) (type_pos sub)) (\<lambda>alignment.
           let vpos = ALIGN_VALUE (len_pos + 4) alignment
           in and_then (require (vpos - (len_pos + 4) < 8)) (\<lambda>_.
                Inr (sub\<lparr>value_pos := vpos, start_pos := vpos, array_len_offset := vpos - (len_pos + 4)\<rparr>))))"

definition variant_reader_recurse :: "DBusTypeReader \<Rightarrow> DBusTypeReader \<Rightarrow> DBusTypeReader result" where
  "variant_reader_recurse sub parent =
     (let sub = base_reader_recurse sub parent
      in and_then (asserted (value_str sub)) (\<lambda>str.
         and_then (asserted (dbus_string_get_byte str (value_pos sub))) (\<lambda>sig_len.
           let tpos = value_pos sub + 1; vpos = tpos + unat sig_len + 1
           in and_then (first_type str tpos) (\<lambda>t.
              and_then (get_alignment t) (\<lambda>contained_alignment.
                Inr (sub\<lparr>type_str := str, type_pos := tpos, value_pos := ALIGN_VALUE vpos contained_alignment\<rparr>))))))"

text \<open>\<open>_dbus_type_reader_recurse\<close>: the class of the new reader, then its \<open>recurse\<close>.\<close>

definition dbus_type_reader_recurse :: "DBusTypeReader \<Rightarrow> DBusTypeReader result" where
  "dbus_type_reader_recurse reader =
     and_then (first_type (type_str reader) (type_pos reader)) (\<lambda>t.
       if t = DBUS_TYPE_STRUCT then
         (if types_only (klass reader)
          then struct_or_dict_entry_types_only_reader_recurse (fresh_reader struct_types_only_reader_class) reader
          else struct_or_dict_entry_reader_recurse (fresh_reader struct_reader_class) reader)
       else if t = DBUS_TYPE_DICT_ENTRY then
         (if types_only (klass reader)
          then struct_or_dict_entry_types_only_reader_recurse (fresh_reader dict_entry_types_only_reader_class) reader
          else struct_or_dict_entry_reader_recurse (fresh_reader dict_entry_reader_class) reader)
       else if t = DBUS_TYPE_ARRAY then
         (if types_only (klass reader)
          then Inr (array_types_only_reader_recurse (fresh_reader array_types_only_reader_class) reader)
          else array_reader_recurse (fresh_reader array_reader_class) reader)
       else if t = DBUS_TYPE_VARIANT then
         (if types_only (klass reader) then Inl Aborted
          else variant_reader_recurse (fresh_reader variant_reader_class) reader)
       else Inl Aborted)"

section \<open>Looking\<close>

definition array_reader_check_finished :: "DBusTypeReader \<Rightarrow> bool result" where
  "array_reader_check_finished reader =
     and_then (array_reader_get_array_len reader) (\<lambda>len.
       let end_pos = start_pos reader + len
       in and_then (require (value_pos reader \<le> end_pos)) (\<lambda>_.
          and_then (require (value_pos reader \<ge> start_pos reader)) (\<lambda>_.
          Inr (value_pos reader = end_pos))))"

definition dbus_type_reader_get_current_type :: "DBusTypeReader \<Rightarrow> byte result" where
  "dbus_type_reader_get_current_type reader =
     and_then (if finished reader then Inr True
               else if klass reader = array_reader_class then array_reader_check_finished reader
               else Inr False)
       (\<lambda>at_end. if at_end then Inr DBUS_TYPE_INVALID else first_type (type_str reader) (type_pos reader))"

definition dbus_type_reader_get_element_type :: "DBusTypeReader \<Rightarrow> byte result" where
  "dbus_type_reader_get_element_type reader =
     and_then (dbus_type_reader_get_current_type reader) (\<lambda>t.
     and_then (require (t = DBUS_TYPE_ARRAY)) (\<lambda>_.
     first_type (type_str reader) (type_pos reader + 1)))"

definition dbus_type_reader_read_basic :: "DBusTypeReader \<Rightarrow> DBusBasicValue result" where
  "dbus_type_reader_read_basic reader =
     and_then (require (\<not> types_only (klass reader))) (\<lambda>_.
     and_then (dbus_type_reader_get_current_type reader) (\<lambda>t.
     and_then (asserted (value_str reader)) (\<lambda>str.
     and_then (asserted (dbus_marshal_read_basic str (value_pos reader) t (byte_order reader))) (\<lambda>(v, _).
     Inr v))))"

definition dbus_type_reader_get_array_length :: "DBusTypeReader \<Rightarrow> nat result" where
  "dbus_type_reader_get_array_length reader =
     and_then (require (klass reader = array_reader_class)) (\<lambda>_. array_reader_get_array_len reader)"

text \<open>The block in place, empty for \<open>NULL\<close>, and the number of elements.\<close>

definition dbus_type_reader_read_fixed_multi :: "DBusTypeReader \<Rightarrow> (byte list \<times> nat) result" where
  "dbus_type_reader_read_fixed_multi reader =
     and_then (require (klass reader = array_reader_class)) (\<lambda>_.
     and_then (first_type (type_str reader) (type_pos reader)) (\<lambda>element_type.
     and_then (require (element_type \<noteq> DBUS_TYPE_INVALID \<and> dbus_type_is_fixed element_type)) (\<lambda>_.
     and_then (get_alignment element_type) (\<lambda>alignment.
     and_then (require (value_pos reader \<ge> start_pos reader)) (\<lambda>_.
     and_then (array_reader_get_array_len reader) (\<lambda>total_len.
       let end_pos = start_pos reader + total_len; remaining_len = end_pos - value_pos reader
       in and_then (require (value_pos reader \<le> end_pos \<and> remaining_len \<le> total_len)) (\<lambda>_.
          and_then (asserted (value_str reader)) (\<lambda>str.
          and_then (if remaining_len = 0 then Inr []
                    else asserted (const_data_len str (value_pos reader) remaining_len)) (\<lambda>block.
          and_then (require (remaining_len mod alignment = 0)) (\<lambda>_.
          Inr (block, remaining_len div alignment)))))))))))"

section \<open>Stepping\<close>

definition skip_one_complete_type :: "byte list \<Rightarrow> nat \<Rightarrow> nat result" where
  "skip_one_complete_type tstr tpos =
     and_then (asserted (dbus_type_signature_next (drop tpos tstr))) (\<lambda>rest. Inr (length tstr - length rest))"

definition dbus_type_reader_get_signature :: "DBusTypeReader \<Rightarrow> (nat \<times> nat) result" where
  "dbus_type_reader_get_signature reader =
     and_then (skip_one_complete_type (type_str reader) (type_pos reader)) (\<lambda>end.
       Inr (type_pos reader, end - type_pos reader))"

text \<open>
  The \<open>next\<close> of the classes; \<open>skip\<close> is the loop over everything in a subreader. The
  value position only moves when the reader is over values.
\<close>

definition skip_basic_value :: "DBusTypeReader \<Rightarrow> byte \<Rightarrow> nat result" where
  "skip_basic_value reader t =
     and_then (asserted (value_str reader)) (\<lambda>str.
       asserted (dbus_marshal_skip_basic str t (byte_order reader) (value_pos reader)))"

definition skip_array_value :: "DBusTypeReader \<Rightarrow> nat result" where
  "skip_array_value reader =
     and_then (asserted (value_str reader)) (\<lambda>str.
     and_then (first_type (type_str reader) (type_pos reader + 1)) (\<lambda>element_type.
       asserted (dbus_marshal_skip_array str element_type (byte_order reader) (value_pos reader))))"

definition base_reader_next ::
  "(DBusTypeReader \<Rightarrow> DBusTypeReader result) \<Rightarrow> DBusTypeReader \<Rightarrow> byte \<Rightarrow> DBusTypeReader result" where
  "base_reader_next skip reader current_type =
     (if current_type = DBUS_TYPE_VARIANT then
        if types_only (klass reader) then Inr (reader\<lparr>type_pos := type_pos reader + 1\<rparr>)
        else and_then (dbus_type_reader_recurse reader) (\<lambda>sub. and_then (skip sub) (\<lambda>sub.
               Inr (reader\<lparr>value_pos := value_pos sub, type_pos := type_pos reader + 1\<rparr>)))
      else if current_type = DBUS_TYPE_DICT_ENTRY \<or> current_type = DBUS_TYPE_STRUCT then
        and_then (dbus_type_reader_recurse reader) (\<lambda>sub. and_then (skip sub) (\<lambda>sub.
          Inr (reader\<lparr>value_pos := (if types_only (klass reader) then value_pos reader else value_pos sub),
                 type_pos := type_pos sub\<rparr>)))
      else if current_type = DBUS_TYPE_ARRAY then
        and_then (if types_only (klass reader) then Inr (value_pos reader) else skip_array_value reader) (\<lambda>vpos.
        and_then (skip_one_complete_type (type_str reader) (type_pos reader)) (\<lambda>tpos.
          Inr (reader\<lparr>value_pos := vpos, type_pos := tpos\<rparr>)))
      else
        and_then (if types_only (klass reader) then Inr (value_pos reader)
                  else skip_basic_value reader current_type) (\<lambda>vpos.
          Inr (reader\<lparr>value_pos := vpos, type_pos := type_pos reader + 1\<rparr>)))"

definition container_reader_next ::
  "byte \<Rightarrow> (DBusTypeReader \<Rightarrow> DBusTypeReader result) \<Rightarrow> DBusTypeReader \<Rightarrow> byte \<Rightarrow> DBusTypeReader result" where
  "container_reader_next end_char skip reader current_type =
     and_then (base_reader_next skip reader current_type) (\<lambda>reader.
     and_then (asserted (dbus_string_get_byte (type_str reader) (type_pos reader))) (\<lambda>t.
       if t = end_char then Inr (reader\<lparr>type_pos := type_pos reader + 1, finished := True\<rparr>) else Inr reader))"

definition struct_reader_next ::
  "(DBusTypeReader \<Rightarrow> DBusTypeReader result) \<Rightarrow> DBusTypeReader \<Rightarrow> byte \<Rightarrow> DBusTypeReader result" where
  "struct_reader_next = container_reader_next DBUS_STRUCT_END_CHAR"

definition dict_entry_reader_next ::
  "(DBusTypeReader \<Rightarrow> DBusTypeReader result) \<Rightarrow> DBusTypeReader \<Rightarrow> byte \<Rightarrow> DBusTypeReader result" where
  "dict_entry_reader_next = container_reader_next DBUS_DICT_ENTRY_END_CHAR"

definition array_types_only_reader_next :: "DBusTypeReader \<Rightarrow> DBusTypeReader" where
  "array_types_only_reader_next reader = reader\<lparr>finished := True\<rparr>"

definition array_reader_next ::
  "(DBusTypeReader \<Rightarrow> DBusTypeReader result) \<Rightarrow> DBusTypeReader \<Rightarrow> byte \<Rightarrow> DBusTypeReader result" where
  "array_reader_next skip reader current_type =
     and_then (array_reader_get_array_len reader) (\<lambda>len.
       let end_pos = start_pos reader + len
       in and_then (require (value_pos reader < end_pos \<and> value_pos reader \<ge> start_pos reader)) (\<lambda>_.
          and_then (first_type (type_str reader) (type_pos reader)) (\<lambda>t.
          and_then (if t = DBUS_TYPE_DICT_ENTRY \<or> t = DBUS_TYPE_STRUCT \<or> t = DBUS_TYPE_VARIANT then
                      and_then (dbus_type_reader_recurse reader) (\<lambda>sub. and_then (skip sub) (\<lambda>sub. Inr (value_pos sub)))
                    else if t = DBUS_TYPE_ARRAY then skip_array_value reader
                    else skip_basic_value reader current_type) (\<lambda>vpos.
          let reader = reader\<lparr>value_pos := vpos\<rparr>
          in and_then (require (value_pos reader \<le> end_pos)) (\<lambda>_.
             if value_pos reader = end_pos
             then and_then (skip_one_complete_type (type_str reader) (type_pos reader)) (\<lambda>tpos.
                    Inr (reader\<lparr>type_pos := tpos\<rparr>))
             else Inr reader)))))"

fun class_next ::
  "DBusTypeReaderClass \<Rightarrow> (DBusTypeReader \<Rightarrow> DBusTypeReader result) \<Rightarrow> DBusTypeReader \<Rightarrow> byte \<Rightarrow> DBusTypeReader result" where
  "class_next body_reader_class skip reader t = base_reader_next skip reader t"
| "class_next body_types_only_reader_class skip reader t = base_reader_next skip reader t"
| "class_next variant_reader_class skip reader t = base_reader_next skip reader t"
| "class_next struct_reader_class skip reader t = struct_reader_next skip reader t"
| "class_next struct_types_only_reader_class skip reader t = struct_reader_next skip reader t"
| "class_next dict_entry_reader_class skip reader t = dict_entry_reader_next skip reader t"
| "class_next dict_entry_types_only_reader_class skip reader t = dict_entry_reader_next skip reader t"
| "class_next array_reader_class skip reader t = array_reader_next skip reader t"
| "class_next array_types_only_reader_class skip reader t = Inr (array_types_only_reader_next reader)"

fun dbus_type_reader_next :: "nat \<Rightarrow> DBusTypeReader \<Rightarrow> (bool \<times> DBusTypeReader) result"
  and skip_all :: "nat \<Rightarrow> DBusTypeReader \<Rightarrow> DBusTypeReader result" where
  "dbus_type_reader_next 0 reader = Inl No_fuel"
| "dbus_type_reader_next (Suc fuel) reader =
     and_then (dbus_type_reader_get_current_type reader) (\<lambda>t.
       if t = DBUS_TYPE_INVALID then Inr (False, reader)
       else and_then (class_next (klass reader) (skip_all fuel) reader t) (\<lambda>reader.
            and_then (dbus_type_reader_get_current_type reader) (\<lambda>t.
              Inr (t \<noteq> DBUS_TYPE_INVALID, reader))))"
| "skip_all 0 sub = Inl No_fuel"
| "skip_all (Suc fuel) sub =
     and_then (dbus_type_reader_next fuel sub) (\<lambda>(more, sub). if more then skip_all fuel sub else Inr sub)"

declare dbus_type_reader_next.simps [simp del] skip_all.simps [simp del]

definition dbus_type_reader_has_next :: "nat \<Rightarrow> DBusTypeReader \<Rightarrow> bool result" where
  "dbus_type_reader_has_next fuel reader = and_then (dbus_type_reader_next fuel reader) (\<lambda>(more, _). Inr more)"

section \<open>Iterating over a signature\<close>

lemma get_byte_at: "drop p s = b # s' \<Longrightarrow> dbus_string_get_byte s p = Some b"
proof -
  assume d: "drop p s = b # s'"
  then have "p < length s" using drop_eq_Nil[of p s] by (auto simp: not_le[symmetric])
  moreover have "s ! p = b" using d calculation by (simp add: Cons_nth_drop_Suc[symmetric])
  ultimately show ?thesis by (simp add: dbus_string_get_byte_def str_byte_def)
qed

lemma first_type_at: "drop p s = b # s' \<Longrightarrow> \<not> is_closing b \<Longrightarrow> first_type s p = Inr (map_type_char_to_type b)"
  by (simp add: first_type_def get_byte_at)

lemma plain_code_facts:
  assumes "plain_code c"
  shows "c \<noteq> DBUS_TYPE_INVALID" "\<not> is_closing c" "map_type_char_to_type c = c" "c \<noteq> DBUS_TYPE_ARRAY"
    "c \<noteq> DBUS_TYPE_STRUCT" "c \<noteq> DBUS_TYPE_DICT_ENTRY"
  using assms unfolding plain_code_def
  by (elim disjE; simp add: is_closing_def map_type_char_to_type_def)+

lemma first_type_of:
  assumes "within sd dd ad t" "drop p s = sig_of t @ rest"
  shows "first_type s p = Inr (type_code t)" "type_code t \<noteq> DBUS_TYPE_INVALID"
proof -
  have "first_type s p = Inr (type_code t) \<and> type_code t \<noteq> DBUS_TYPE_INVALID"
  proof (cases t)
    case (Basic c)
    then have "plain_code c" using assms(1) by (simp add: plain_code_iff)
    then show ?thesis using Basic assms(2) first_type_at[of p s c rest] plain_code_facts[of c] by simp
  next
    case Variant
    then show ?thesis using assms(2) first_type_at[of p s DBUS_TYPE_VARIANT rest]
      by (simp add: is_closing_def map_type_char_to_type_def)
  next
    case (Array u)
    then show ?thesis using assms(2) first_type_at[of p s DBUS_TYPE_ARRAY]
      by (simp add: is_closing_def map_type_char_to_type_def)
  next
    case (Dict k u)
    then show ?thesis using assms(2) first_type_at[of p s DBUS_TYPE_ARRAY]
      by (simp add: is_closing_def map_type_char_to_type_def)
  next
    case (Struct us)
    then show ?thesis using assms(2) first_type_at[of p s DBUS_STRUCT_BEGIN_CHAR]
      by (simp add: is_closing_def map_type_char_to_type_def)
  qed
  then show "first_type s p = Inr (type_code t)" "type_code t \<noteq> DBUS_TYPE_INVALID" by simp_all
qed

lemma skip_type_of:
  assumes "within sd dd ad t" "drop p s = sig_of t @ rest"
  shows "skip_one_complete_type s p = Inr (p + length (sig_of t))"
proof -
  have "length s = p + length (sig_of t) + length rest"
    using arg_cong[OF assms(2), of length] sig_of_not_Nil[of t] by (cases "p \<le> length s") auto
  then show ?thesis using signature_next_type[OF assms(1), of rest] assms(2)
    by (simp add: skip_one_complete_type_def)
qed

lemma drop_more: "drop p s = as @ bs \<Longrightarrow> drop (p + length as) s = bs"
  by (metis add.commute append_eq_conv_conj drop_drop)

text \<open>
  The class of readers that iterate over a list of types, and the character their list ends with.
\<close>

fun list_end :: "DBusTypeReaderClass \<Rightarrow> byte option" where
  "list_end struct_types_only_reader_class = Some DBUS_STRUCT_END_CHAR"
| "list_end struct_reader_class = Some DBUS_STRUCT_END_CHAR"
| "list_end dict_entry_types_only_reader_class = Some DBUS_DICT_ENTRY_END_CHAR"
| "list_end dict_entry_reader_class = Some DBUS_DICT_ENTRY_END_CHAR"
| "list_end _ = None"

definition over_types :: "DBusTypeReader \<Rightarrow> bool" where
  "over_types r \<longleftrightarrow> types_only (klass r) \<and> klass r \<noteq> array_types_only_reader_class \<and> \<not> finished r"

lemma current_type_of:
  assumes "klass r \<noteq> array_reader_class" "\<not> finished r" "within sd dd ad t"
    "drop (type_pos r) (type_str r) = sig_of t @ rest"
  shows "dbus_type_reader_get_current_type r = Inr (type_code t)"
  using first_type_of[OF assms(3,4)] assms(1,2) by (simp add: dbus_type_reader_get_current_type_def)

text \<open>Where a reader over types goes after its current type.\<close>

definition step_over :: "nat \<Rightarrow> DBusTypeReader \<Rightarrow> DBusTypeReader" where
  "step_over n r =
     (let r = r\<lparr>type_pos := type_pos r + n\<rparr>
      in if list_end (klass r) = Some (str_byte (type_str r) (type_pos r))
         then r\<lparr>type_pos := type_pos r + 1, finished := True\<rparr> else r)"

lemma class_next_types:
  assumes "over_types r" "base_reader_next skip r t = Inr (r\<lparr>type_pos := type_pos r + n\<rparr>)"
    "type_pos r + n \<le> length (type_str r)"
  shows "class_next (klass r) skip r t = Inr (step_over n r)"
  using assms
  by (cases "klass r") (simp_all add: over_types_def step_over_def Let_def struct_reader_next_def dict_entry_reader_next_def
      container_reader_next_def dbus_string_get_byte_def)

lemma list_end_closing: "list_end k = Some c \<Longrightarrow> is_closing c"
  by (cases k) (auto simp: is_closing_def)

lemma step_over_middle:
  assumes "drop (type_pos r) (type_str r) = sig_of t @ sig_of u @ rest" "within sd dd ad u"
  shows "step_over (length (sig_of t)) r = r\<lparr>type_pos := type_pos r + length (sig_of t)\<rparr>"
proof -
  have d: "drop (type_pos r + length (sig_of t)) (type_str r) = sig_of u @ rest" by (rule drop_more[OF assms(1)])
  then obtain b s' where b: "sig_of u @ rest = b # s'" using sig_of_not_Nil[of u] by (cases "sig_of u") auto
  have "dbus_string_get_byte (type_str r) (type_pos r + length (sig_of t)) = Some b" using d b by (simp add: get_byte_at)
  moreover have "\<not> is_closing b"
    using first_type_of(1)[OF assms(2) d] calculation by (auto simp: first_type_def split: if_splits)
  ultimately show ?thesis using list_end_closing[of "klass r"]
    by (auto simp: step_over_def Let_def dbus_string_get_byte_def split: if_splits)
qed

lemma step_over_last:
  assumes "drop (type_pos r) (type_str r) = sig_of t @ c # rest" "list_end (klass r) = Some c"
  shows "step_over (length (sig_of t)) r = r\<lparr>type_pos := type_pos r + length (sig_of t) + 1, finished := True\<rparr>"
proof -
  have "dbus_string_get_byte (type_str r) (type_pos r + length (sig_of t)) = Some c"
    by (rule get_byte_at[OF drop_more[OF assms(1)]])
  then have "str_byte (type_str r) (type_pos r + length (sig_of t)) = c"
    by (simp add: dbus_string_get_byte_def split: if_splits)
  then show ?thesis using assms(2) by (simp add: step_over_def)
qed

lemma next_from_base:
  assumes "over_types r" "within sd dd ad t" "drop (type_pos r) (type_str r) = sig_of t @ rest"
    "base_reader_next (skip_all fuel) r (type_code t) = Inr (r\<lparr>type_pos := type_pos r + length (sig_of t)\<rparr>)"
  shows "dbus_type_reader_next (Suc fuel) r =
    and_then (dbus_type_reader_get_current_type (step_over (length (sig_of t)) r)) (\<lambda>t'.
      Inr (t' \<noteq> DBUS_TYPE_INVALID, step_over (length (sig_of t)) r))"
proof -
  have "type_pos r + length (sig_of t) \<le> length (type_str r)"
    using arg_cong[OF assms(3), of length] sig_of_not_Nil[of t] by (cases "type_pos r \<le> length (type_str r)") auto
  moreover have "dbus_type_reader_get_current_type r = Inr (type_code t)"
    using assms(1) by (intro current_type_of[OF _ _ assms(2,3)]) (auto simp: over_types_def)
  ultimately show ?thesis using first_type_of(2)[OF assms(2,3)] class_next_types[OF assms(1,4)]
    by (simp add: dbus_type_reader_next.simps)
qed

lemma recurse_struct_types:
  assumes "over_types r" "drop (type_pos r) (type_str r) = DBUS_STRUCT_BEGIN_CHAR # s"
  shows "\<exists>sub. dbus_type_reader_recurse r = Inr sub \<and> over_types sub \<and> klass sub = struct_types_only_reader_class \<and>
    type_str sub = type_str r \<and> type_pos sub = type_pos r + 1"
  using assms first_type_at[OF assms(2)] get_byte_at[OF assms(2)]
  by (simp add: dbus_type_reader_recurse_def over_types_def is_closing_def map_type_char_to_type_def Let_def
      struct_or_dict_entry_types_only_reader_recurse_def base_reader_recurse_def reader_init_def fresh_reader_def)

lemma base_next_types:
  "within sd dd ad t \<Longrightarrow> (\<And>r rest fuel. over_types r \<Longrightarrow> drop (type_pos r) (type_str r) = sig_of t @ rest \<Longrightarrow>
     2 * length (sig_of t) \<le> fuel + 1 \<Longrightarrow>
     base_reader_next (skip_all fuel) r (type_code t) = Inr (r\<lparr>type_pos := type_pos r + length (sig_of t)\<rparr>))"
  "withins sd dd ts \<Longrightarrow> (\<And>r c rest fuel. over_types r \<Longrightarrow> list_end (klass r) = Some c \<Longrightarrow> ts \<noteq> [] \<Longrightarrow>
     drop (type_pos r) (type_str r) = sigs_of ts @ c # rest \<Longrightarrow> 2 * length (sigs_of ts) + 1 \<le> fuel \<Longrightarrow>
     skip_all fuel r = Inr (r\<lparr>type_pos := type_pos r + length (sigs_of ts) + 1, finished := True\<rparr>))"
proof (induction sd dd ad t and sd dd ts rule: within_withins.induct)
  case (1 sd dd ad c)
  then have "plain_code c" by (simp add: plain_code_iff)
  moreover have "c \<noteq> DBUS_TYPE_VARIANT" using 1(1) by (auto simp: basic_cases)
  ultimately show ?case using plain_code_facts[of c] 1(2) by (simp add: base_reader_next_def over_types_def)
next
  case (2 sd dd ad)
  then show ?case by (simp add: base_reader_next_def over_types_def)
next
  case (3 sd dd ad t)
  then show ?case using skip_type_of[of sd dd ad "Array t" "type_pos r" "type_str r" rest]
    by (simp add: base_reader_next_def over_types_def)
next
  case (4 sd dd ad k t)
  then show ?case using skip_type_of[of sd dd ad "Dict k t" "type_pos r" "type_str r" rest]
    by (simp add: base_reader_next_def over_types_def)
next
  case (5 sd dd ad ts)
  have d: "drop (type_pos r) (type_str r) = DBUS_STRUCT_BEGIN_CHAR # sigs_of ts @ DBUS_STRUCT_END_CHAR # rest"
    using 5(4) by simp
  obtain sub where sub: "dbus_type_reader_recurse r = Inr sub" "over_types sub" "klass sub = struct_types_only_reader_class"
    "type_str sub = type_str r" "type_pos sub = type_pos r + 1"
    using recurse_struct_types[OF 5(3) d] by blast
  have "drop (type_pos sub) (type_str sub) = sigs_of ts @ DBUS_STRUCT_END_CHAR # rest"
    using drop_more[of "type_pos r" "type_str r" "[DBUS_STRUCT_BEGIN_CHAR]"] d sub(4,5) by simp
  then have "skip_all fuel sub = Inr (sub\<lparr>type_pos := type_pos sub + length (sigs_of ts) + 1, finished := True\<rparr>)"
    using 5(2,5) sub(2,3) by (intro 5(1)) auto
  then show ?case using sub 5(3) by (simp add: base_reader_next_def over_types_def)
next
  case (7 sd dd t ts)
  note r = 7(4) and fuel = 7(8)
  have w: "within sd dd 0 t" "withins sd dd ts" using 7(3) by simp_all
  obtain g where g: "fuel = Suc (Suc g)" "2 * length (sig_of t) \<le> g + 1" "ts \<noteq> [] \<longrightarrow> 2 * length (sigs_of ts) + 1 \<le> Suc g"
    using fuel sig_of_not_Nil[of t] by (cases fuel; cases "fuel - 1"; cases "sig_of t") auto
  have d: "drop (type_pos r) (type_str r) = sig_of t @ sigs_of ts @ c # rest" using 7(7) by simp
  have n: "dbus_type_reader_next (Suc g) r =
    and_then (dbus_type_reader_get_current_type (step_over (length (sig_of t)) r)) (\<lambda>t'.
      Inr (t' \<noteq> DBUS_TYPE_INVALID, step_over (length (sig_of t)) r))"
    by (rule next_from_base[OF r w(1) d 7(1)[OF w(1) r d g(2)]])
  show ?case
  proof (cases ts)
    case Nil
    then have "step_over (length (sig_of t)) r = r\<lparr>type_pos := type_pos r + length (sig_of t) + 1, finished := True\<rparr>"
      using d 7(5) by (intro step_over_last) auto
    then show ?thesis using n g(1) Nil by (simp add: dbus_type_reader_get_current_type_def skip_all.simps)
  next
    case (Cons u us)
    have wu: "within sd dd 0 u" using w(2) Cons by simp
    let ?r = "r\<lparr>type_pos := type_pos r + length (sig_of t)\<rparr>"
    have "step_over (length (sig_of t)) r = ?r"
      using d Cons by (intro step_over_middle[OF _ wu, where rest = "sigs_of us @ c # rest"]) simp
    moreover have d': "drop (type_pos ?r) (type_str ?r) = sig_of u @ sigs_of us @ c # rest"
      using drop_more[OF d] Cons by simp
    have o: "over_types ?r" using r by (simp add: over_types_def)
    have "dbus_type_reader_get_current_type ?r = Inr (type_code u)"
      using o by (intro current_type_of[OF _ _ wu d']) (auto simp: over_types_def)
    moreover have "skip_all (Suc g) ?r = Inr (?r\<lparr>type_pos := type_pos ?r + length (sigs_of ts) + 1, finished := True\<rparr>)"
      using 7(5) Cons d' g(3) by (intro 7(2)[OF w(2) o]) auto
    ultimately show ?thesis using n g(1) first_type_of(2)[OF wu d'] by (simp add: skip_all.simps(2)[of "Suc g"] add.assoc del: and_then_Inr)
  qed
qed simp_all

lemma next_over_type:
  assumes "over_types r" "within sd dd ad t" "drop (type_pos r) (type_str r) = sig_of t @ rest"
    "2 * length (sig_of t) < fuel"
  shows "dbus_type_reader_next fuel r =
    and_then (dbus_type_reader_get_current_type (step_over (length (sig_of t)) r)) (\<lambda>t'.
      Inr (t' \<noteq> DBUS_TYPE_INVALID, step_over (length (sig_of t)) r))"
proof -
  obtain f where "fuel = Suc f" "2 * length (sig_of t) \<le> f + 1" using assms(4) by (cases fuel) auto
  then show ?thesis using next_from_base[OF assms(1-3) base_next_types(1)[OF assms(2,1,3)]] by simp
qed

text \<open>
  A reader over a valid signature sees the first type and steps exactly past it, whatever
  containers the type consists of: a step needs at most twice the length of the type in fuel, and
  reports whether a type follows.
\<close>

theorem types_only_next:
  assumes "withins sd dd (t # ts)" "2 * length (sig_of t) < fuel"
    and "r = dbus_type_reader_init_types_only (pre @ sigs_of (t # ts)) (length pre)"
  shows "dbus_type_reader_get_current_type r = Inr (type_code t) \<and>
    dbus_type_reader_next fuel r =
      Inr (ts \<noteq> [], dbus_type_reader_init_types_only (pre @ sigs_of (t # ts)) (length (pre @ sig_of t)))"
proof -
  have w: "within sd dd 0 t" "withins sd dd ts" using assms(1) by simp_all
  have o: "over_types r" "klass r \<noteq> array_reader_class" "\<not> finished r"
    and d: "drop (type_pos r) (type_str r) = sig_of t @ sigs_of ts"
    by (simp_all add: assms(3) dbus_type_reader_init_types_only_def reader_init_def fresh_reader_def over_types_def)
  let ?r = "dbus_type_reader_init_types_only (pre @ sigs_of (t # ts)) (length (pre @ sig_of t))"
  have s: "step_over (length (sig_of t)) r = ?r"
    by (simp add: assms(3) step_over_def dbus_type_reader_init_types_only_def reader_init_def fresh_reader_def)
  have "dbus_type_reader_get_current_type ?r = Inr (case ts of [] \<Rightarrow> DBUS_TYPE_INVALID | u # _ \<Rightarrow> type_code u)"
  proof (cases ts)
    case Nil
    then show ?thesis
      by (simp add: dbus_type_reader_init_types_only_def reader_init_def fresh_reader_def first_type_def is_closing_def
          dbus_type_reader_get_current_type_def dbus_string_get_byte_def str_byte_def map_type_char_to_type_def)
  next
    case (Cons u us)
    then have "within sd dd 0 u" using w(2) by simp
    then show ?thesis using Cons
      by (simp, intro current_type_of)
        (simp_all add: dbus_type_reader_init_types_only_def reader_init_def fresh_reader_def)
  qed
  moreover have "case ts of [] \<Rightarrow> True | u # _ \<Rightarrow> type_code u \<noteq> DBUS_TYPE_INVALID"
    using w(2) first_type_of(2)[of sd dd 0 _ 0 _ "[]"] by (cases ts) auto
  ultimately show ?thesis
    using next_over_type[OF o(1) w(1) d assms(2)] current_type_of[OF o(2,3) w(1) d] s
    by (cases ts) auto
qed

theorem types_only_next_witness:
  "dbus_type_reader_next 13 (dbus_type_reader_init_types_only (ascii ''i(sai)y'') 1) =
     Inr (True, dbus_type_reader_init_types_only (ascii ''i(sai)y'') 6)"
  using types_only_next[of 0 0 "Struct [Basic DBUS_TYPE_STRING, Array (Basic DBUS_TYPE_INT32)]"
      "[Basic DBUS_TYPE_BYTE]" 13 _ "ascii ''i''"]
  by (simp add: basic_cases eval_nat_numeral)

end
