(* ===== verification/Values.thy ===== *)
theory Values
  imports SigIter MarshalBasic Names DString
begin

text \<open>
  The values a message body holds and their reference encoding, as the D-Bus specification
  describes the wire format: the octets of a value depend on its type and on the position it is
  written at. \<open>fits\<close> says that a value has a type and meets the rules on contents.
\<close>

section \<open>Values\<close>

text \<open>
  A variant carries the type of its contents. \<open>Raw\<close> is an array of fixed-size elements given
  by its octets, whatever their number.
\<close>

datatype val =
    Val DBusBasicValue
  | Var dtype val
  | Arr "val list"
  | Raw "byte list"
  | Dic "(DBusBasicValue \<times> val) list"
  | Str "val list"

text \<open>The alignment of the elements of an array type.\<close>

fun element_alignment :: "dtype \<Rightarrow> nat" where
  "element_alignment (Array t) = dbus_type_get_alignment (type_code t)"
| "element_alignment _ = 8"

text \<open>An array: padding, length, padding to the elements, which start at \<open>array_start\<close>.\<close>

definition array_start :: "nat \<Rightarrow> nat \<Rightarrow> nat" where
  "array_start a n = ALIGN_VALUE (ALIGN_VALUE n 4 + 4) a"

definition frame :: "byte \<Rightarrow> nat \<Rightarrow> byte list \<Rightarrow> nat \<Rightarrow> byte list" where
  "frame e a elements n =
     padding n 4 @ octets_of e 4 (word_of_nat (length elements) :: 32 word) @ padding (ALIGN_VALUE n 4 + 4) a @ elements"

definition variant_header :: "dtype \<Rightarrow> byte list" where
  "variant_header t = word_of_nat (length (sig_of t)) # sig_of t @ [0]"

fun enc :: "byte \<Rightarrow> dtype \<Rightarrow> val \<Rightarrow> nat \<Rightarrow> byte list"
  and enc_all :: "byte \<Rightarrow> dtype \<Rightarrow> val list \<Rightarrow> nat \<Rightarrow> byte list"
  and enc_seq :: "byte \<Rightarrow> dtype list \<Rightarrow> val list \<Rightarrow> nat \<Rightarrow> byte list"
  and enc_entries :: "byte \<Rightarrow> byte \<Rightarrow> dtype \<Rightarrow> (DBusBasicValue \<times> val) list \<Rightarrow> nat \<Rightarrow> byte list" where
  "enc e (Basic c) (Val v) n = encode_basic e c v n"
| "enc e Variant (Var t v) n = variant_header t @ enc e t v (n + length (variant_header t))"
| "enc e (Array t) (Arr vs) n =
     frame e (dbus_type_get_alignment (type_code t)) (enc_all e t vs (array_start (dbus_type_get_alignment (type_code t)) n)) n"
| "enc e (Array t) (Raw bs) n = frame e (dbus_type_get_alignment (type_code t)) bs n"
| "enc e (Dict k t) (Dic kvs) n = frame e 8 (enc_entries e k t kvs (array_start 8 n)) n"
| "enc e (Struct ts) (Str vs) n = padding n 8 @ enc_seq e ts vs (ALIGN_VALUE n 8)"
| "enc e _ _ n = []"
| "enc_all e t [] n = []"
| "enc_all e t (v # vs) n = (let b = enc e t v n in b @ enc_all e t vs (n + length b))"
| "enc_seq e (t # ts) (v # vs) n = (let b = enc e t v n in b @ enc_seq e ts vs (n + length b))"
| "enc_seq e _ _ n = []"
| "enc_entries e k t [] n = []"
| "enc_entries e k t ((x, v) # kvs) n =
     (let q = ALIGN_VALUE n 8; b = encode_basic e k x q; c = enc e t v (q + length b)
      in padding n 8 @ b @ c @ enc_entries e k t kvs (q + length b + length c))"

section \<open>Well-typed values\<close>

text \<open>The rules on the contents of strings.\<close>

definition contents_ok :: "byte \<Rightarrow> DBusBasicValue \<Rightarrow> bool" where
  "contents_ok c v \<longleftrightarrow>
     (case v of V_str s \<Rightarrow>
        if c = DBUS_TYPE_STRING then dbus_string_validate_utf8 s
        else if c = DBUS_TYPE_OBJECT_PATH then dbus_validate_path s 0 (length s)
        else valid_sig s
      | _ \<Rightarrow> True)"

definition basic_ok :: "byte \<Rightarrow> DBusBasicValue \<Rightarrow> bool" where
  "basic_ok c v \<longleftrightarrow> fits_basic c v \<and> contents_ok c v"

fun fits :: "byte \<Rightarrow> dtype \<Rightarrow> val \<Rightarrow> nat \<Rightarrow> bool"
  and fits_all :: "byte \<Rightarrow> dtype \<Rightarrow> val list \<Rightarrow> nat \<Rightarrow> bool"
  and fits_seq :: "byte \<Rightarrow> dtype list \<Rightarrow> val list \<Rightarrow> nat \<Rightarrow> bool"
  and fits_entries :: "byte \<Rightarrow> byte \<Rightarrow> dtype \<Rightarrow> (DBusBasicValue \<times> val) list \<Rightarrow> nat \<Rightarrow> bool" where
  "fits e (Basic c) (Val v) n \<longleftrightarrow> basic_ok c v"
| "fits e Variant (Var t v) n \<longleftrightarrow>
     within 0 0 0 t \<and> length (sig_of t) \<le> DBUS_MAXIMUM_SIGNATURE_LENGTH \<and> fits e t v (n + length (variant_header t))"
| "fits e (Array t) (Arr vs) n \<longleftrightarrow>
     (let s = array_start (dbus_type_get_alignment (type_code t)) n
      in fits_all e t vs s \<and> length (enc_all e t vs s) \<le> DBUS_MAXIMUM_ARRAY_LENGTH)"
| "fits e (Array t) (Raw bs) n \<longleftrightarrow>
     dbus_type_is_fixed (type_code t) \<and> type_code t \<noteq> DBUS_TYPE_BOOLEAN \<and> length bs \<le> DBUS_MAXIMUM_ARRAY_LENGTH"
| "fits e (Dict k t) (Dic kvs) n \<longleftrightarrow>
     (let s = array_start 8 n
      in fits_entries e k t kvs s \<and> length (enc_entries e k t kvs s) \<le> DBUS_MAXIMUM_ARRAY_LENGTH)"
| "fits e (Struct ts) (Str vs) n \<longleftrightarrow> fits_seq e ts vs (ALIGN_VALUE n 8)"
| "fits e _ _ n \<longleftrightarrow> False"
| "fits_all e t [] n \<longleftrightarrow> True"
| "fits_all e t (v # vs) n \<longleftrightarrow> fits e t v n \<and> fits_all e t vs (n + length (enc e t v n))"
| "fits_seq e [] [] n \<longleftrightarrow> True"
| "fits_seq e (t # ts) (v # vs) n \<longleftrightarrow> fits e t v n \<and> fits_seq e ts vs (n + length (enc e t v n))"
| "fits_seq e _ _ n \<longleftrightarrow> False"
| "fits_entries e k t [] n \<longleftrightarrow> True"
| "fits_entries e k t ((x, v) # kvs) n \<longleftrightarrow>
     (let q = ALIGN_VALUE n 8; b = encode_basic e k x q; r = q + length b
      in basic_ok k x \<and> fits e t v r \<and> fits_entries e k t kvs (r + length (enc e t v r)))"

end
