(* ===== verification/Body.thy ===== *)
theory Body
  imports TypeReader Names DString
begin

text \<open>
  The validation of a message body against its signature: \<open>validate_body_helper\<close> and
  \<open>_dbus_validate_body_with_reason\<close> of \<open>dbus/dbus-marshal-validate.c\<close>. The pointers
  \<open>p\<close>, \<open>end\<close> are positions in the string that holds the body, whose buffer is aligned to 8
  bytes. \<open>Invalid\<close> is a verdict, \<open>Aborted\<close> a failed assertion or a read outside the string.
  \<open>mem\<close> gives the allocation answers for the validation of the signature at a position.
\<close>

section \<open>Single values\<close>

definition peek :: "byte list \<Rightarrow> nat \<Rightarrow> byte result" where
  "peek str p = asserted (dbus_string_get_byte str p)"

text \<open>\<open>while (p != a)\<close>: \<open>n\<close> bytes of padding from \<open>p\<close> on must be nul.\<close>

fun skip_padding :: "byte list \<Rightarrow> nat \<Rightarrow> nat \<Rightarrow> nat result" where
  "skip_padding str p 0 = Inr p"
| "skip_padding str p (Suc n) =
     and_then (peek str p) (\<lambda>b.
       if b \<noteq> 0 then Inl (Invalid DBUS_INVALID_ALIGNMENT_PADDING_NOT_NUL) else skip_padding str (p + 1) n)"

text \<open>The same after the check that the aligned position \<open>a\<close> is not behind \<open>end\<close>.\<close>

definition pad_to :: "byte list \<Rightarrow> nat \<Rightarrow> nat \<Rightarrow> nat \<Rightarrow> nat result" where
  "pad_to str end p a =
     (if a > end then Inl (Invalid DBUS_INVALID_NOT_ENOUGH_DATA) else skip_padding str p (a - p))"

definition unpack_at :: "byte list \<Rightarrow> byte \<Rightarrow> nat \<Rightarrow> nat result" where
  "unpack_at str order p =
     and_then (require (ALIGN_VALUE p 4 = p)) (\<lambda>_.
     and_then (asserted (const_data_len str p 4)) (\<lambda>octets.
       Inr (unat (dbus_unpack_uint32 order octets))))"

definition check_boolean :: "byte list \<Rightarrow> byte \<Rightarrow> nat \<Rightarrow> unit result" where
  "check_boolean str order p =
     and_then (unpack_at str order p) (\<lambda>v.
       if v = 0 \<or> v = 1 then Inr () else Inl (Invalid DBUS_INVALID_BOOLEAN_NOT_ZERO_OR_ONE))"

definition validate_fixed :: "byte list \<Rightarrow> nat \<Rightarrow> byte \<Rightarrow> byte \<Rightarrow> nat \<Rightarrow> nat result" where
  "validate_fixed str end order current_type p =
     and_then (get_alignment current_type) (\<lambda>alignment.
       let a = ALIGN_VALUE p alignment
       in if a \<ge> end then Inl (Invalid DBUS_INVALID_NOT_ENOUGH_DATA)
          else and_then (skip_padding str p (a - p)) (\<lambda>p.
               and_then (if current_type = DBUS_TYPE_BOOLEAN then check_boolean str order p else Inr ()) (\<lambda>_.
               Inr (p + alignment))))"

text \<open>The length in front of a string or an array: its value and the position after it.\<close>

definition claimed_length :: "byte list \<Rightarrow> nat \<Rightarrow> byte \<Rightarrow> nat \<Rightarrow> (nat \<times> nat) result" where
  "claimed_length str end order p =
     (let a = ALIGN_VALUE p 4
      in if a + 4 > end then Inl (Invalid DBUS_INVALID_NOT_ENOUGH_DATA)
         else and_then (skip_padding str p (a - p)) (\<lambda>p.
              and_then (unpack_at str order p) (\<lambda>claimed_len. Inr (claimed_len, p + 4))))"

definition string_contents :: "byte list \<Rightarrow> byte \<Rightarrow> nat \<Rightarrow> nat \<Rightarrow> nat result" where
  "string_contents str current_type p claimed_len =
     and_then (asserted (const_data_len str p claimed_len)) (\<lambda>s.
       if current_type = DBUS_TYPE_OBJECT_PATH then
         if \<not> dbus_validate_path s 0 (length s) then Inl (Invalid DBUS_INVALID_BAD_PATH) else Inr (p + claimed_len)
       else
         if \<not> dbus_string_validate_utf8 s then Inl (Invalid DBUS_INVALID_BAD_UTF8_IN_STRING) else Inr (p + claimed_len))"

definition validate_string :: "byte list \<Rightarrow> nat \<Rightarrow> byte \<Rightarrow> byte \<Rightarrow> nat \<Rightarrow> nat result" where
  "validate_string str end order current_type p =
     and_then (claimed_length str end order p) (\<lambda>(claimed_len, p).
       if claimed_len > end - p then Inl (Invalid DBUS_INVALID_LENGTH_OUT_OF_BOUNDS)
       else and_then (string_contents str current_type p claimed_len) (\<lambda>p.
         if p = end then Inl (Invalid DBUS_INVALID_NOT_ENOUGH_DATA)
         else and_then (peek str p) (\<lambda>b.
           if b \<noteq> 0 then Inl (Invalid DBUS_INVALID_STRING_MISSING_NUL) else Inr (p + 1))))"

definition signature_verdict :: "byte list \<Rightarrow> nat \<Rightarrow> nat \<Rightarrow> mem_oracle \<Rightarrow> unit result" where
  "signature_verdict str p claimed_len m =
     (let validity = dbus_validate_signature_with_reason str p claimed_len m
      in if validity \<noteq> DBUS_VALID then Inl (Invalid validity) else Inr ())"

definition validate_signature_value :: "byte list \<Rightarrow> nat \<Rightarrow> (nat \<Rightarrow> mem_oracle) \<Rightarrow> nat \<Rightarrow> nat result" where
  "validate_signature_value str end mem p =
     and_then (peek str p) (\<lambda>b.
       let claimed_len = unat b; p = p + 1
       in if claimed_len + 1 > end - p then Inl (Invalid DBUS_INVALID_SIGNATURE_LENGTH_OUT_OF_BOUNDS)
          else and_then (signature_verdict str p claimed_len (mem p)) (\<lambda>_.
            let p = p + claimed_len
            in and_then (require (p < end)) (\<lambda>_.
               and_then (peek str p) (\<lambda>b.
                 if b \<noteq> DBUS_TYPE_INVALID then Inl (Invalid DBUS_INVALID_SIGNATURE_MISSING_NUL)
                 else Inr (p + 1)))))"

section \<open>Containers\<close>

text \<open>The recursive call on a reader, the flag \<open>walk_reader_to_end\<close> and \<open>p\<close>.\<close>

type_synonym validator = "DBusTypeReader \<Rightarrow> bool \<Rightarrow> nat \<Rightarrow> nat result"

function boolean_loop :: "byte list \<Rightarrow> byte \<Rightarrow> nat \<Rightarrow> nat \<Rightarrow> nat result" where
  "boolean_loop str order p array_end =
     (if p < array_end
      then and_then (check_boolean str order p) (\<lambda>_. boolean_loop str order (p + 4) array_end)
      else Inr p)"
  by pat_completeness auto
termination by (relation "measure (\<lambda>(_, _, p, e). e - p)") simp_all

declare boolean_loop.simps [simp del]

fun element_loop :: "nat \<Rightarrow> validator \<Rightarrow> DBusTypeReader \<Rightarrow> nat \<Rightarrow> nat \<Rightarrow> nat result" where
  "element_loop 0 rec sub p array_end = Inl No_fuel"
| "element_loop (Suc fuel) rec sub p array_end =
     (if p < array_end then and_then (rec sub False p) (\<lambda>p. element_loop fuel rec sub p array_end) else Inr p)"

definition array_elements ::
  "byte list \<Rightarrow> byte \<Rightarrow> nat \<Rightarrow> validator \<Rightarrow> DBusTypeReader \<Rightarrow> byte \<Rightarrow> nat \<Rightarrow> nat \<Rightarrow> nat result" where
  "array_elements str order fuel rec reader array_elem_type p claimed_len =
     (if claimed_len > DBUS_MAXIMUM_ARRAY_LENGTH then Inl (Invalid DBUS_INVALID_ARRAY_LENGTH_EXCEEDS_MAXIMUM)
      else and_then (dbus_type_reader_recurse reader) (\<lambda>sub.
        let array_end = p + claimed_len
        in and_then
             (if dbus_type_is_fixed array_elem_type then
                if array_elem_type = DBUS_TYPE_BOOLEAN then boolean_loop str order p array_end
                else Inr array_end
              else element_loop fuel rec sub p array_end) (\<lambda>p.
             if p \<noteq> array_end then Inl (Invalid DBUS_INVALID_ARRAY_LENGTH_INCORRECT) else Inr p)))"

text \<open>The element type of an array and its alignment.\<close>

definition array_element :: "DBusTypeReader \<Rightarrow> (byte \<times> nat) result" where
  "array_element reader =
     and_then (dbus_type_reader_get_element_type reader) (\<lambda>array_elem_type.
       if \<not> dbus_type_is_valid array_elem_type then Inl (Invalid DBUS_INVALID_UNKNOWN_TYPECODE)
       else and_then (get_alignment array_elem_type) (\<lambda>alignment. Inr (array_elem_type, alignment)))"

definition validate_array ::
  "byte list \<Rightarrow> nat \<Rightarrow> byte \<Rightarrow> nat \<Rightarrow> validator \<Rightarrow> DBusTypeReader \<Rightarrow> nat \<Rightarrow> nat result" where
  "validate_array str end order fuel rec reader p =
     and_then (claimed_length str end order p) (\<lambda>(claimed_len, p).
     and_then (array_element reader) (\<lambda>(array_elem_type, alignment).
     and_then (pad_to str end p (ALIGN_VALUE p alignment)) (\<lambda>p.
       if claimed_len > end - p then Inl (Invalid DBUS_INVALID_LENGTH_OUT_OF_BOUNDS)
       else if claimed_len > 0 then array_elements str order fuel rec reader array_elem_type p claimed_len
       else Inr p)))"

definition variant_verdict :: "byte list \<Rightarrow> nat \<Rightarrow> nat \<Rightarrow> mem_oracle \<Rightarrow> unit result" where
  "variant_verdict str p claimed_len m =
     (let reason = dbus_validate_signature_with_reason str p claimed_len m
      in if reason \<noteq> DBUS_VALID then
           Inl (Invalid (if reason = DBUS_VALIDITY_UNKNOWN_OOM_ERROR then reason else DBUS_INVALID_VARIANT_SIGNATURE_BAD))
         else Inr ())"

text \<open>The signature of a variant, the position after it and its padding.\<close>

definition variant_signature :: "byte list \<Rightarrow> nat \<Rightarrow> (nat \<Rightarrow> mem_oracle) \<Rightarrow> nat \<Rightarrow> (byte list \<times> nat) result" where
  "variant_signature str end mem p =
     and_then (peek str p) (\<lambda>b.
       let claimed_len = unat b; p = p + 1
       in if claimed_len + 1 > end - p then Inl (Invalid DBUS_INVALID_VARIANT_SIGNATURE_LENGTH_OUT_OF_BOUNDS)
          else and_then (asserted (const_data_len str p claimed_len)) (\<lambda>sig.
            and_then (variant_verdict str p claimed_len (mem p)) (\<lambda>_.
              let p = p + claimed_len
              in and_then (peek str p) (\<lambda>b.
                if b \<noteq> DBUS_TYPE_INVALID then Inl (Invalid DBUS_INVALID_VARIANT_SIGNATURE_MISSING_NUL)
                else Inr (sig, p + 1)))))"

definition contained_alignment :: "byte list \<Rightarrow> nat result" where
  "contained_alignment sig =
     and_then (first_type sig 0) (\<lambda>contained_type.
       if contained_type = DBUS_TYPE_INVALID then Inl (Invalid DBUS_INVALID_VARIANT_SIGNATURE_EMPTY)
       else get_alignment contained_type)"

text \<open>The one value in a variant, read by the reader over its signature.\<close>

definition variant_contents :: "nat \<Rightarrow> validator \<Rightarrow> DBusTypeReader \<Rightarrow> nat \<Rightarrow> nat result" where
  "variant_contents fuel rec sub p =
     and_then (dbus_type_reader_get_current_type sub) (\<lambda>t.
     and_then (require (t \<noteq> DBUS_TYPE_INVALID)) (\<lambda>_.
     and_then (rec sub False p) (\<lambda>p.
     and_then (dbus_type_reader_next fuel sub) (\<lambda>(more, sub).
       if more then Inl (Invalid DBUS_INVALID_VARIANT_SIGNATURE_SPECIFIES_MULTIPLE_VALUES)
       else and_then (dbus_type_reader_get_current_type sub) (\<lambda>t.
            and_then (require (t = DBUS_TYPE_INVALID)) (\<lambda>_. Inr p))))))"

definition validate_variant ::
  "byte list \<Rightarrow> nat \<Rightarrow> (nat \<Rightarrow> mem_oracle) \<Rightarrow> nat \<Rightarrow> validator \<Rightarrow> nat \<Rightarrow> nat result" where
  "validate_variant str end mem fuel rec p =
     and_then (variant_signature str end mem p) (\<lambda>(sig, p).
     and_then (contained_alignment sig) (\<lambda>alignment.
     and_then (pad_to str end p (ALIGN_VALUE p alignment)) (\<lambda>p.
       variant_contents fuel rec (dbus_type_reader_init_types_only sig 0) p)))"

definition validate_struct :: "byte list \<Rightarrow> nat \<Rightarrow> validator \<Rightarrow> DBusTypeReader \<Rightarrow> nat \<Rightarrow> nat result" where
  "validate_struct str end rec reader p =
     and_then (pad_to str end p (ALIGN_VALUE p 8)) (\<lambda>p.
     and_then (dbus_type_reader_recurse reader) (\<lambda>sub. rec sub True p))"

section \<open>The whole body\<close>

definition validate_value ::
  "byte list \<Rightarrow> nat \<Rightarrow> byte \<Rightarrow> (nat \<Rightarrow> mem_oracle) \<Rightarrow> nat \<Rightarrow> validator \<Rightarrow> DBusTypeReader \<Rightarrow> byte \<Rightarrow> nat \<Rightarrow>
   nat result" where
  "validate_value str end order mem fuel rec reader current_type p =
     (if current_type = DBUS_TYPE_BYTE then Inr (p + 1)
      else if current_type = DBUS_TYPE_BOOLEAN \<or> current_type = DBUS_TYPE_INT16 \<or> current_type = DBUS_TYPE_UINT16 \<or>
              current_type = DBUS_TYPE_INT32 \<or> current_type = DBUS_TYPE_UINT32 \<or> current_type = DBUS_TYPE_INT64 \<or>
              current_type = DBUS_TYPE_UINT64 \<or> current_type = DBUS_TYPE_DOUBLE then
        validate_fixed str end order current_type p
      else if current_type = DBUS_TYPE_ARRAY then validate_array str end order fuel rec reader p
      else if current_type = DBUS_TYPE_STRING \<or> current_type = DBUS_TYPE_OBJECT_PATH then
        validate_string str end order current_type p
      else if current_type = DBUS_TYPE_SIGNATURE then validate_signature_value str end mem p
      else if current_type = DBUS_TYPE_VARIANT then validate_variant str end mem fuel rec p
      else if current_type = DBUS_TYPE_DICT_ENTRY \<or> current_type = DBUS_TYPE_STRUCT then
        validate_struct str end rec reader p
      else Inl Aborted)"

definition validate_step ::
  "byte list \<Rightarrow> nat \<Rightarrow> byte \<Rightarrow> (nat \<Rightarrow> mem_oracle) \<Rightarrow> nat \<Rightarrow> validator \<Rightarrow> validator" where
  "validate_step str end order mem fuel rec reader walk_reader_to_end p =
     and_then (dbus_type_reader_get_current_type reader) (\<lambda>current_type.
       if current_type = DBUS_TYPE_INVALID then Inr p
       else if p = end then Inl (Invalid DBUS_INVALID_NOT_ENOUGH_DATA)
       else and_then (validate_value str end order mem fuel rec reader current_type p) (\<lambda>p.
         if p > end then Inl (Invalid DBUS_INVALID_NOT_ENOUGH_DATA)
         else if walk_reader_to_end
         then and_then (dbus_type_reader_next fuel reader) (\<lambda>(_, reader). rec reader True p)
         else Inr p))"

fun validate_body_helper :: "byte list \<Rightarrow> nat \<Rightarrow> byte \<Rightarrow> (nat \<Rightarrow> mem_oracle) \<Rightarrow> nat \<Rightarrow> validator" where
  "validate_body_helper str end order mem 0 reader walk_reader_to_end p = Inl No_fuel"
| "validate_body_helper str end order mem (Suc fuel) reader walk_reader_to_end p =
     validate_step str end order mem fuel (validate_body_helper str end order mem fuel)
       reader walk_reader_to_end p"

declare validate_body_helper.simps [simp del]

text \<open>
  The result is \<open>*bytes_remaining\<close> for \<open>DBUS_VALID\<close>; without the argument, no byte may be
  left over.
\<close>

definition dbus_validate_body_with_reason ::
  "nat \<Rightarrow> byte list \<Rightarrow> nat \<Rightarrow> byte \<Rightarrow> bool \<Rightarrow> byte list \<Rightarrow> nat \<Rightarrow> nat \<Rightarrow> (nat \<Rightarrow> mem_oracle) \<Rightarrow> nat result" where
  "dbus_validate_body_with_reason fuel expected_signature signature_start order bytes_remaining
       values start len mem =
     and_then (require (len \<le> length values \<and> start \<le> length values - len)) (\<lambda>_.
       let reader = dbus_type_reader_init_types_only expected_signature signature_start;
           p = start; end = p + len
       in and_then (validate_body_helper values end order mem fuel reader True p) (\<lambda>p.
            if bytes_remaining then Inr (end - p)
            else if p < end then Inl (Invalid DBUS_INVALID_TOO_MUCH_DATA)
            else and_then (require (p = end)) (\<lambda>_. Inr 0)))"

end
