(* ===== verification/BodyTerm.thy ===== *)
theory BodyTerm
  imports Body
begin

text \<open>
  The body validator returns: on every body, for every signature the signature validator accepts,
  well nested or not, the fuel that is a multiple of the number of bytes suffices, and more fuel
  changes nothing.
\<close>

section \<open>How an accepted signature ends\<close>

text \<open>No nul inside, and no opening bracket or array code at the end.\<close>

definition closed_sig :: "byte list \<Rightarrow> bool" where
  "closed_sig s \<longleftrightarrow> 0 \<notin> set s \<and>
     (s \<noteq> [] \<longrightarrow> last s \<noteq> DBUS_STRUCT_BEGIN_CHAR \<and> last s \<noteq> DBUS_DICT_ENTRY_BEGIN_CHAR)"

lemma switch_depths:
  assumes "sig_switch p st = Inr st'"
  shows "p \<noteq> 0" "p = DBUS_STRUCT_BEGIN_CHAR \<Longrightarrow> struct_depth st' \<noteq> 0"
    "p = DBUS_DICT_ENTRY_BEGIN_CHAR \<Longrightarrow> dict_entry_depth st' \<noteq> 0"
  using assms by (auto simp: sig_switch_def plain_code_def Let_def split: if_splits prod.splits dest!: push_count_Inr)

lemma step_depths:
  assumes "sig_step p q st = Inr st'"
  shows "p \<noteq> 0" "p = DBUS_STRUCT_BEGIN_CHAR \<Longrightarrow> struct_depth st' \<noteq> 0"
    "p = DBUS_DICT_ENTRY_BEGIN_CHAR \<Longrightarrow> dict_entry_depth st' \<noteq> 0"
proof -
  obtain s1 s2 where "sig_switch p st = Inr s1" "sig_count p s1 = Inr s2" "sig_checks p q s2 = Inr st'"
    using assms by (auto simp: sig_step_def split: sum.splits)
  then show "p \<noteq> 0" "p = DBUS_STRUCT_BEGIN_CHAR \<Longrightarrow> struct_depth st' \<noteq> 0"
    "p = DBUS_DICT_ENTRY_BEGIN_CHAR \<Longrightarrow> dict_entry_depth st' \<noteq> 0"
    using switch_depths sig_count_Inr sig_checks_Inr by metis+
qed

lemma loop_depths:
  assumes "sig_loop a s st = Inr st'"
  shows "0 \<notin> set s \<and> (s \<noteq> [] \<longrightarrow> (last s = DBUS_STRUCT_BEGIN_CHAR \<longrightarrow> struct_depth st' \<noteq> 0) \<and>
    (last s = DBUS_DICT_ENTRY_BEGIN_CHAR \<longrightarrow> dict_entry_depth st' \<noteq> 0))"
  using assms
proof (induction s arbitrary: st)
  case (Cons p s)
  then obtain st1 where st1: "sig_step p (case s of [] \<Rightarrow> a | q # _ \<Rightarrow> q) st = Inr st1" "sig_loop a s st1 = Inr st'"
    by (auto split: sum.splits)
  then show ?case using Cons.IH[OF st1(2)] step_depths[OF st1(1)] by (cases s) auto
qed simp

lemma accepted_closed:
  assumes "dbus_validate_signature_with_reason s p n m = DBUS_VALID"
  shows "closed_sig (take n (drop p s))" "n \<le> DBUS_MAXIMUM_SIGNATURE_LENGTH"
  using validate_loop[OF assms] loop_depths by (fastforce simp: closed_sig_def)+

section \<open>Stepping over a signature\<close>

lemma skip_arrays_length: "length (skip_arrays s) \<le> length s"
  by (induction s) auto

lemma skip_container_length: "skip_container a b d s = Some r \<Longrightarrow> length r < length s"
  by (induction a b d s rule: skip_container.induct) (fastforce split: if_splits)+

lemma signature_next_length:
  assumes "dbus_type_signature_next s = Some r" shows "length r < length s"
proof -
  obtain c s' where s': "skip_arrays s = c # s'" using assms
    by (auto simp: dbus_type_signature_next_def split: if_splits list.splits)
  then have "length r \<le> length s'"
    using assms skip_container_length less_imp_le
    by (fastforce simp: dbus_type_signature_next_def split: if_splits)
  then show ?thesis using skip_arrays_length[of s] s' by simp
qed

lemma skip_one_bounds:
  assumes "skip_one_complete_type s p = Inr q" shows "p < q" "q \<le> length s"
proof -
  obtain r where "dbus_type_signature_next (drop p s) = Some r" "q = length s - length r"
    using assms by (auto simp: skip_one_complete_type_def)
  then show "p < q" "q \<le> length s" using signature_next_length[of "drop p s" r] by auto
qed

lemma skip_one_fuel: "skip_one_complete_type s p \<noteq> Inl No_fuel"
  by (simp add: skip_one_complete_type_def asserted_def split: option.split)

lemma first_type_facts:
  "first_type s p \<noteq> Inl No_fuel" "first_type s p = Inr t \<Longrightarrow> t \<noteq> 0 \<Longrightarrow> p < length s"
  by (auto simp: first_type_def asserted_def dbus_string_get_byte_def str_byte_def map_type_char_to_type_def
      split: option.split if_splits)

text \<open>A types-only reader over a list of types; what stepping and skipping may do to it.\<close>

definition walker :: "DBusTypeReader \<Rightarrow> bool" where
  "walker r \<longleftrightarrow> types_only (klass r) \<and> klass r \<noteq> array_types_only_reader_class \<and> type_pos r \<le> length (type_str r)"

definition steps_on :: "DBusTypeReader \<Rightarrow> DBusTypeReader result \<Rightarrow> bool" where
  "steps_on r x \<longleftrightarrow> x \<noteq> Inl No_fuel \<and>
     (\<forall>r'. x = Inr r' \<longrightarrow> walker r' \<and> type_str r' = type_str r \<and> klass r' = klass r \<and> type_pos r < type_pos r')"

definition skips :: "DBusTypeReader \<Rightarrow> DBusTypeReader result \<Rightarrow> bool" where
  "skips r x \<longleftrightarrow> x \<noteq> Inl No_fuel \<and>
     (\<forall>r'. x = Inr r' \<longrightarrow> type_pos r \<le> type_pos r' \<and> type_pos r' \<le> length (type_str r))"

lemma and_then_fuel:
  "and_then r f = Inl No_fuel \<longleftrightarrow> r = Inl No_fuel \<or> (\<exists>x. r = Inr x \<and> f x = Inl No_fuel)"
  by (cases r) simp_all

lemma asserted_fuel [simp]: "asserted r \<noteq> Inl No_fuel"
  by (simp add: asserted_def split: option.split)

lemma require_fuel [simp]: "require b \<noteq> Inl No_fuel" "require b = Inr u \<longleftrightarrow> b"
  by (simp_all add: require_def)

lemma current_fuel:
  "types_only (klass r) \<Longrightarrow> dbus_type_reader_get_current_type r \<noteq> Inl No_fuel"
  by (auto simp: dbus_type_reader_get_current_type_def first_type_facts and_then_fuel split: if_splits)

lemma current_type_facts:
  assumes "types_only (klass r)" "dbus_type_reader_get_current_type r = Inr t" "t \<noteq> 0"
  shows "first_type (type_str r) (type_pos r) = Inr t" "\<not> finished r" "type_pos r < length (type_str r)"
proof -
  show f: "first_type (type_str r) (type_pos r) = Inr t" and "\<not> finished r"
    using assms by (auto simp: dbus_type_reader_get_current_type_def split: if_splits)
  show "type_pos r < length (type_str r)" using first_type_facts(2)[OF f assms(3)] .
qed

lemma recurse_types:
  assumes "types_only (klass r)" "dbus_type_reader_recurse r = Inr sub" "type_pos r < length (type_str r)"
  shows "types_only (klass sub)" "type_str sub = type_str r" "type_pos sub = type_pos r + 1" "\<not> finished sub"
    "first_type (type_str r) (type_pos r) \<noteq> Inr DBUS_TYPE_ARRAY \<Longrightarrow> walker sub"
  using assms
  by (auto simp: dbus_type_reader_recurse_def struct_or_dict_entry_types_only_reader_recurse_def base_reader_recurse_def
      reader_init_def fresh_reader_def array_types_only_reader_recurse_def Let_def walker_def split: if_splits)

lemma recurse_fuel: "types_only (klass r) \<Longrightarrow> dbus_type_reader_recurse r \<noteq> Inl No_fuel"
  by (auto simp: dbus_type_reader_recurse_def struct_or_dict_entry_types_only_reader_recurse_def Let_def first_type_facts
      and_then_fuel split: if_splits)

lemma base_steps:
  assumes w: "walker r" and t: "first_type (type_str r) (type_pos r) = Inr t" "t \<noteq> 0"
    and sub: "\<And>sub. walker sub \<Longrightarrow> type_str sub = type_str r \<Longrightarrow> type_pos sub = type_pos r + 1 \<Longrightarrow> skips sub (skip sub)"
  shows "steps_on r (base_reader_next skip r t)"
proof -
  have o: "types_only (klass r)" and l: "type_pos r < length (type_str r)"
    using w first_type_facts(2)[OF t] by (auto simp: walker_def)
  consider "t = DBUS_TYPE_DICT_ENTRY \<or> t = DBUS_TYPE_STRUCT" | "t = DBUS_TYPE_ARRAY"
    | "t \<noteq> DBUS_TYPE_DICT_ENTRY" "t \<noteq> DBUS_TYPE_STRUCT" "t \<noteq> DBUS_TYPE_ARRAY" by blast
  then show ?thesis
  proof cases
    case 1
    have "steps_on r (and_then (dbus_type_reader_recurse r) (\<lambda>sub. and_then (skip sub) (\<lambda>sub.
          Inr (r\<lparr>value_pos := value_pos r, type_pos := type_pos sub\<rparr>))))"
    proof (cases "dbus_type_reader_recurse r")
      case (Inl e)
      then show ?thesis using recurse_fuel[OF o] by (auto simp: steps_on_def)
    next
      case (Inr s)
      then have "walker s" "type_str s = type_str r" "type_pos s = type_pos r + 1"
        using recurse_types[OF o Inr l] 1 t(1) by auto
      then show ?thesis using sub[of s] Inr w
        by (auto simp: steps_on_def skips_def walker_def and_then_fuel)
    qed
    then show ?thesis using 1 o by (auto simp: base_reader_next_def)
  next
    case 2
    then show ?thesis using o w skip_one_bounds[of "type_str r" "type_pos r"] skip_one_fuel
      by (auto simp: base_reader_next_def steps_on_def walker_def and_then_fuel)
  next
    case 3
    then show ?thesis using o l w
      by (auto simp: base_reader_next_def steps_on_def walker_def and_then_fuel)
  qed
qed

lemma container_steps:
  assumes "steps_on r (base_reader_next skip r t)" "c \<noteq> 0"
  shows "steps_on r (container_reader_next c skip r t)"
  using assms
  by (auto simp: steps_on_def container_reader_next_def and_then_fuel walker_def dbus_string_get_byte_def str_byte_def
      split: if_splits)

lemma class_steps: "walker r \<Longrightarrow> steps_on r (base_reader_next skip r t) \<Longrightarrow> steps_on r (class_next (klass r) skip r t)"
  by (cases "klass r") (auto simp: walker_def struct_reader_next_def dict_entry_reader_next_def container_steps)

lemma stepping_ends:
  "(\<forall>r. walker r \<and> 2 * (length (type_str r) - type_pos r) < fuel \<longrightarrow>
      dbus_type_reader_next fuel r \<noteq> Inl No_fuel \<and>
      (\<forall>more r'. dbus_type_reader_next fuel r = Inr (more, r') \<longrightarrow>
         walker r' \<and> type_str r' = type_str r \<and> type_pos r \<le> type_pos r' \<and> (more \<longrightarrow> type_pos r < type_pos r'))) \<and>
   (\<forall>r. walker r \<and> 2 * (length (type_str r) - type_pos r) + 1 < fuel \<longrightarrow> skips r (skip_all fuel r))"
proof (induction fuel)
  case (Suc fuel)
  note N = Suc.IH[THEN conjunct1, rule_format] and S = Suc.IH[THEN conjunct2, rule_format]
  show ?case
  proof (intro conjI allI impI)
    fix r assume r: "walker r \<and> 2 * (length (type_str r) - type_pos r) < Suc fuel"
    have "types_only (klass r)" using r by (simp add: walker_def)
    note cur = current_fuel[OF this] and curf = current_type_facts[OF this]
    have st: "steps_on r (class_next (klass r) (skip_all fuel) r t)"
      if t: "dbus_type_reader_get_current_type r = Inr t" "t \<noteq> 0" for t
    proof (rule class_steps)
      show "steps_on r (base_reader_next (skip_all fuel) r t)"
      proof (rule base_steps[OF _ curf(1)[OF t] t(2)])
        fix sub assume "walker sub" "type_str sub = type_str r" "type_pos sub = type_pos r + 1"
        then show "skips sub (skip_all fuel sub)" using r curf(3)[OF t] by (intro S) auto
      qed (use r in simp)
    qed (use r in simp)
    show "dbus_type_reader_next (Suc fuel) r \<noteq> Inl No_fuel"
    proof (cases "\<exists>t. dbus_type_reader_get_current_type r = Inr t \<and> t \<noteq> 0")
      case False
      then show ?thesis using cur by (cases "dbus_type_reader_get_current_type r") (auto simp: dbus_type_reader_next.simps)
    next
      case True
      then obtain t where t: "dbus_type_reader_get_current_type r = Inr t" "t \<noteq> 0" by blast
      show ?thesis
      proof (cases "class_next (klass r) (skip_all fuel) r t")
        case (Inl e)
        then show ?thesis using st[OF t] t by (simp add: dbus_type_reader_next.simps steps_on_def)
      next
        case (Inr r')
        then have "types_only (klass r')" using st[OF t] by (auto simp: steps_on_def walker_def)
        then show ?thesis using Inr t current_fuel[of r']
          by (simp add: dbus_type_reader_next.simps and_then_fuel)
      qed
    qed
    fix more r' assume e: "dbus_type_reader_next (Suc fuel) r = Inr (more, r')"
    obtain t where t: "dbus_type_reader_get_current_type r = Inr t"
      using e cur by (cases "dbus_type_reader_get_current_type r") (auto simp: dbus_type_reader_next.simps)
    have "walker r' \<and> type_str r' = type_str r \<and> type_pos r \<le> type_pos r' \<and> (more \<longrightarrow> type_pos r < type_pos r')"
    proof (cases "t = 0")
      case True
      then show ?thesis using e t r by (simp add: dbus_type_reader_next.simps)
    next
      case False
      then have "class_next (klass r) (skip_all fuel) r t = Inr r'"
        using e t by (cases "class_next (klass r) (skip_all fuel) r t") (auto simp: dbus_type_reader_next.simps)
      then show ?thesis using st[OF t False] by (simp add: steps_on_def less_imp_le)
    qed
    then show "walker r'" "type_str r' = type_str r" "type_pos r \<le> type_pos r'" "more \<Longrightarrow> type_pos r < type_pos r'"
      by simp_all
  next
    fix r assume r: "walker r \<and> 2 * (length (type_str r) - type_pos r) + 1 < Suc fuel"
    then have "walker r \<and> 2 * (length (type_str r) - type_pos r) < fuel" by simp
    note n = N[OF this, THEN conjunct1] N[OF this, THEN conjunct2, rule_format]
    show "skips r (skip_all (Suc fuel) r)"
    proof (cases "dbus_type_reader_next fuel r")
      case (Inr x)
      obtain more r' where x: "x = (more, r')" by (cases x)
      note n' = n(2)[OF Inr[unfolded x]]
      have "skips r' (skip_all fuel r')" if more
        using n' that r by (intro S) (auto simp: walker_def)
      then show ?thesis using Inr x n' by (auto simp: skip_all.simps skips_def walker_def)
    qed (use n(1) in \<open>auto simp: skip_all.simps skips_def\<close>)
  qed
qed (simp_all add: skips_def)

section \<open>Single values\<close>

lemma peek_fuel [simp]: "peek str p \<noteq> Inl No_fuel"
  by (simp add: peek_def)

lemma alignment_fuel [simp]: "get_alignment t \<noteq> Inl No_fuel"
  by (simp add: get_alignment_def Let_def)

lemma alignment_pos: "get_alignment t = Inr a \<Longrightarrow> 0 < a \<and> a = dbus_type_get_alignment t"
  by (auto simp: get_alignment_def Let_def split: if_splits)

lemma skip_padding_facts:
  "skip_padding str p n \<noteq> Inl No_fuel" "skip_padding str p n = Inr q \<Longrightarrow> q = p + n"
proof -
  show "skip_padding str p n \<noteq> Inl No_fuel" by (induction n arbitrary: p) (auto simp: and_then_fuel split: if_splits)
  show "skip_padding str p n = Inr q \<Longrightarrow> q = p + n" by (induction n arbitrary: p) (fastforce split: if_splits)+
qed

lemma unpack_fuel [simp]: "unpack_at str order p \<noteq> Inl No_fuel"
  by (simp add: unpack_at_def and_then_fuel)

lemma check_boolean_fuel [simp]: "check_boolean str order p \<noteq> Inl No_fuel"
  by (auto simp: check_boolean_def and_then_fuel split: if_splits)

lemma fixed_facts:
  "validate_fixed str end order t p \<noteq> Inl No_fuel" "validate_fixed str end order t p = Inr q \<Longrightarrow> p < q"
  using align_facts(1)[of "dbus_type_get_alignment t" p]
  by (auto simp: validate_fixed_def Let_def and_then_fuel skip_padding_facts(1) split: if_splits
      dest!: skip_padding_facts(2) alignment_pos)

lemma claimed_facts:
  "claimed_length str end order p \<noteq> Inl No_fuel"
  "claimed_length str end order p = Inr (n, q) \<Longrightarrow> p < q \<and> q \<le> end \<and> ALIGN_VALUE q 4 = q"
  using align_facts[of 4 p]
  by (auto simp: claimed_length_def Let_def and_then_fuel skip_padding_facts(1) align_self split: if_splits
      dest!: skip_padding_facts(2))

lemma contents_facts:
  "string_contents str t p n \<noteq> Inl No_fuel" "string_contents str t p n = Inr q \<Longrightarrow> q = p + n"
  by (auto simp: string_contents_def and_then_fuel split: if_splits)

lemma string_facts:
  "validate_string str end order t p \<noteq> Inl No_fuel" "validate_string str end order t p = Inr q \<Longrightarrow> p < q"
  using claimed_facts[of str "end" order p]
  by (fastforce simp: validate_string_def and_then_fuel contents_facts(1) split: if_splits dest!: contents_facts(2))+

lemma signature_value_facts:
  "validate_signature_value str end mem p \<noteq> Inl No_fuel" "validate_signature_value str end mem p = Inr q \<Longrightarrow> p < q"
  by (auto simp: validate_signature_value_def signature_verdict_def Let_def and_then_fuel split: if_splits)

lemma variant_signature_facts:
  "variant_signature str end mem p \<noteq> Inl No_fuel"
  "p < end \<Longrightarrow> variant_signature str end mem p = Inr (s, q) \<Longrightarrow>
     p < q \<and> q \<le> end \<and> closed_sig s \<and> length s \<le> DBUS_MAXIMUM_SIGNATURE_LENGTH"
proof -
  show "variant_signature str end mem p \<noteq> Inl No_fuel"
    by (auto simp: variant_signature_def variant_verdict_def Let_def and_then_fuel split: if_splits)
  assume p: "p < end" and v: "variant_signature str end mem p = Inr (s, q)"
  then obtain n where n: "n + 1 \<le> end - (p + 1)" "q = p + 1 + n + 1" "const_data_len str (p + 1) n = Some s"
    "dbus_validate_signature_with_reason str (p + 1) n (mem (p + 1)) = DBUS_VALID"
    by (auto simp: variant_signature_def variant_verdict_def Let_def not_less split: if_splits)
  then have "s = take n (drop (p + 1) str)" by (auto simp: const_data_len_def split: if_splits)
  then show "p < q \<and> q \<le> end \<and> closed_sig s \<and> length s \<le> DBUS_MAXIMUM_SIGNATURE_LENGTH"
    using accepted_closed[OF n(4)] n(1,2) p by auto
qed

lemma boolean_loop_facts: "boolean_loop str order p e \<noteq> Inl No_fuel"
proof (induction str order p e rule: boolean_loop.induct)
  case (1 str order p e)
  then show ?case by (subst boolean_loop.simps) (auto simp: and_then_fuel)
qed

section \<open>The recursion\<close>

definition reader_ok :: "nat \<Rightarrow> DBusTypeReader \<Rightarrow> bool" where
  "reader_ok B r \<longleftrightarrow> types_only (klass r) \<and> closed_sig (type_str r) \<and> length (type_str r) \<le> B \<and>
     type_pos r \<le> length (type_str r)"

text \<open>The fuel that suffices from a reader and a position on: values shrink, then types.\<close>

definition cost :: "nat \<Rightarrow> nat \<Rightarrow> DBusTypeReader \<Rightarrow> nat \<Rightarrow> nat" where
  "cost B end r p = (end - p) * (2 * B + 3) + 2 * (length (type_str r) - type_pos r)"

definition fine :: "nat \<Rightarrow> DBusTypeReader \<Rightarrow> nat \<Rightarrow> nat result \<Rightarrow> bool" where
  "fine end r p x \<longleftrightarrow> x \<noteq> Inl No_fuel \<and>
     (\<forall>q. x = Inr q \<longrightarrow> p \<le> q \<and> q \<le> end \<and> (dbus_type_reader_get_current_type r \<noteq> Inr 0 \<longrightarrow> p < q))"

text \<open>What the recursive calls are known to satisfy below a bound.\<close>

definition fine_below :: "nat \<Rightarrow> nat \<Rightarrow> nat \<Rightarrow> validator \<Rightarrow> bool" where
  "fine_below B end bound rec \<longleftrightarrow>
     (\<forall>r w p. reader_ok B r \<and> (w \<longrightarrow> walker r) \<and> p \<le> end \<and> cost B end r p < bound \<longrightarrow> fine end r p (rec r w p))"

lemma fine_belowD:
  "fine_below B end bound rec \<Longrightarrow> reader_ok B r \<Longrightarrow> (w \<Longrightarrow> walker r) \<Longrightarrow> p \<le> end \<Longrightarrow> cost B end r p < bound \<Longrightarrow>
   fine end r p (rec r w p)"
  by (simp add: fine_below_def)

lemma element_loop_fine:
  assumes "fine_below B end bound rec" "reader_ok B sub" "cost B end sub p0 < bound"
    "dbus_type_reader_get_current_type sub \<noteq> Inr 0" "array_end \<le> end"
  shows "p0 \<le> p \<Longrightarrow> array_end - p < fuel \<Longrightarrow> element_loop fuel rec sub p array_end \<noteq> Inl No_fuel"
proof (induction fuel arbitrary: p)
  case (Suc fuel)
  show ?case
  proof (cases "p < array_end")
    case True
    have "(end - p) * (2 * B + 3) \<le> (end - p0) * (2 * B + 3)" using Suc.prems(1) by (intro mult_le_mono1) simp
    then have "cost B end sub p < bound" using assms(3) unfolding cost_def by linarith
    then have f: "fine end sub p (rec sub False p)"
      using True assms(2,5) by (intro fine_belowD[OF assms(1)]) auto
    have "element_loop fuel rec sub q array_end \<noteq> Inl No_fuel" if "rec sub False p = Inr q" for q
      using f that Suc.prems assms(4) True by (intro Suc.IH) (auto simp: fine_def)
    then show ?thesis using f True by (auto simp: fine_def and_then_fuel)
  qed simp
qed simp

lemma cost_sub:
  assumes "cost B end r p \<le> fuel" "type_str sub = type_str r" "type_pos sub = type_pos r + 1"
    "type_pos r < length (type_str r)" "p \<le> q"
  shows "cost B end sub q < fuel"
proof -
  obtain K where K: "2 * B + 3 = K" by simp
  have "(end - q) * K \<le> (end - p) * K" using assms(5) by (intro mult_le_mono1) simp
  moreover have "length (type_str sub) - type_pos sub < length (type_str r) - type_pos r" using assms(2-4) by simp
  ultimately show ?thesis using assms(1) unfolding cost_def K by linarith
qed

lemma cost_later:
  assumes "cost B end r p \<le> fuel" "p < q" "p < end" "length (type_str r') \<le> B"
  shows "cost B end r' q < fuel"
proof -
  have "Suc (end - q) \<le> end - p" using assms(2,3) by simp
  obtain K where K: "2 * B + 3 = K" by simp
  have "Suc (end - q) * K \<le> (end - p) * K" by (rule mult_le_mono1) fact
  then have "(end - q) * K + K \<le> (end - p) * K" by simp
  moreover have "2 * (length (type_str r') - type_pos r') < K" using assms(4) K by simp
  ultimately show ?thesis using assms(1) unfolding cost_def K by linarith
qed

lemma cost_room:
  assumes "cost B end r p \<le> fuel" "p < end"
  shows "2 * B + 3 \<le> fuel" "end - p < fuel"
proof -
  obtain K where K: "2 * B + 3 = K" "2 \<le> K" by simp
  have "1 * K \<le> (end - p) * K" using assms(2) by (intro mult_le_mono1) simp
  then show "2 * B + 3 \<le> fuel" using assms(1) unfolding cost_def K by linarith
  have "(end - p) * 2 \<le> (end - p) * K" using K(2) by (rule mult_le_mono2)
  then show "end - p < fuel" using assms unfolding cost_def K by linarith
qed

text \<open>A subreader has something to look at, since an accepted signature does not end with a bracket.\<close>

lemma sub_ok:
  assumes ok: "reader_ok B r" and t: "dbus_type_reader_get_current_type r = Inr t" "t \<noteq> 0"
    and s: "dbus_type_reader_recurse r = Inr sub"
  shows "reader_ok B sub" "type_str sub = type_str r" "type_pos sub = type_pos r + 1"
    "t \<noteq> DBUS_TYPE_ARRAY \<Longrightarrow> walker sub"
    "t \<noteq> DBUS_TYPE_ARRAY \<Longrightarrow> dbus_type_reader_get_current_type sub \<noteq> Inr 0"
    "dbus_type_reader_get_current_type sub = first_type (type_str r) (type_pos r + 1)"
proof -
  have o: "types_only (klass r)" using ok by (simp add: reader_ok_def)
  note c = current_type_facts[OF o t] and sub = recurse_types[OF o s]
  note sub' = sub(1-4)[OF c(3)]
  show "reader_ok B sub" using ok sub' c(3) by (simp add: reader_ok_def)
  show e: "type_str sub = type_str r" "type_pos sub = type_pos r + 1" using sub' by simp_all
  show "t \<noteq> DBUS_TYPE_ARRAY \<Longrightarrow> walker sub" using sub(5)[OF c(3)] c(1) by simp
  show f: "dbus_type_reader_get_current_type sub = first_type (type_str r) (type_pos r + 1)"
    using sub' by (auto simp: dbus_type_reader_get_current_type_def)
  assume na: "t \<noteq> DBUS_TYPE_ARRAY"
  let ?s = "type_str r" and ?p = "type_pos r"
  have b: "?s ! ?p = DBUS_STRUCT_BEGIN_CHAR \<or> ?s ! ?p = DBUS_DICT_ENTRY_BEGIN_CHAR"
    using s c(1) na o c(3)
    by (auto simp: dbus_type_reader_recurse_def struct_or_dict_entry_types_only_reader_recurse_def Let_def
        dbus_string_get_byte_def str_byte_def base_reader_recurse_def reader_init_def split: if_splits)
  have z: "0 \<notin> set ?s" "?s \<noteq> [] \<Longrightarrow> last ?s \<noteq> DBUS_STRUCT_BEGIN_CHAR \<and> last ?s \<noteq> DBUS_DICT_ENTRY_BEGIN_CHAR"
    using ok by (simp_all add: reader_ok_def closed_sig_def)
  have "Suc ?p < length ?s"
  proof (rule ccontr)
    assume "\<not> Suc ?p < length ?s"
    then have "length ?s = Suc ?p" using c(3) by simp
    then have "last ?s = ?s ! ?p" by (metis diff_Suc_1 last_conv_nth list.size(3) nat.distinct(1))
    then show False using b z(2) c(3) by (cases ?s) auto
  qed
  moreover from this have "?s ! Suc ?p \<noteq> 0" using z(1) nth_mem by metis
  ultimately show "dbus_type_reader_get_current_type sub \<noteq> Inr 0"
    unfolding f by (auto simp: first_type_def dbus_string_get_byte_def str_byte_def map_type_char_to_type_def split: if_splits)
qed

definition moves :: "nat \<Rightarrow> nat result \<Rightarrow> bool" where
  "moves p x \<longleftrightarrow> x \<noteq> Inl No_fuel \<and> (\<forall>q. x = Inr q \<longrightarrow> p < q)"

lemma moves_then:
  "x \<noteq> Inl No_fuel \<Longrightarrow> (\<And>y. x = Inr y \<Longrightarrow> moves p (f y)) \<Longrightarrow> moves p (and_then x f)"
  by (cases x) (auto simp: moves_def)

lemma moves_Inl [simp]: "moves p (Inl (Invalid v))" "moves p (Inl Aborted)"
  by (simp_all add: moves_def)

lemma fixed_not_zero: "\<not> dbus_type_is_valid 0"
  by (simp add: dbus_type_is_valid_def)

lemma element_type_facts:
  assumes "types_only (klass r)"
  shows "dbus_type_reader_get_element_type r \<noteq> Inl No_fuel"
    "dbus_type_reader_get_element_type r = Inr t \<Longrightarrow> first_type (type_str r) (type_pos r + 1) = Inr t"
  using current_fuel[OF assms]
  by (auto simp: dbus_type_reader_get_element_type_def and_then_fuel first_type_facts)

lemma array_elements_moves:
  assumes rec: "fine_below B end fuel rec" and r: "reader_ok B r" "dbus_type_reader_get_current_type r = Inr DBUS_TYPE_ARRAY"
    and c: "cost B end r p0 \<le> fuel" "p0 < p" "p + n \<le> end" "0 < n"
    and el: "first_type (type_str r) (type_pos r + 1) = Inr el" "dbus_type_is_valid el"
  shows "moves p0 (array_elements str order fuel rec r el p n)"
proof -
  have o: "types_only (klass r)" using r by (simp add: reader_ok_def)
  have m: "moves p0 (and_then x (\<lambda>q. if q \<noteq> p + n then Inl (Invalid v) else Inr q))" if "x \<noteq> Inl No_fuel" for x v
    using that c by (intro moves_then) (auto simp: moves_def)
  show ?thesis
  proof (cases "dbus_type_reader_recurse r")
    case (Inl e)
    then show ?thesis using recurse_fuel[OF o] by (auto simp: array_elements_def moves_def)
  next
    case (Inr sub)
    have nz: "(DBUS_TYPE_ARRAY :: byte) \<noteq> 0" by simp
    note s = sub_ok[OF r nz Inr]
    have "cost B end sub p < fuel"
      using current_type_facts(3)[OF o r(2) nz] c(2) by (intro cost_sub[OF c(1) s(2,3)]) simp_all
    then have "element_loop fuel rec sub p (p + n) \<noteq> Inl No_fuel"
      using s(6) el fixed_not_zero c cost_room(2)[OF c(1)]
      by (intro element_loop_fine[OF rec s(1), of p]) auto
    then show ?thesis unfolding array_elements_def Inr and_then.simps Let_def
      using m boolean_loop_facts by auto
  qed
qed

lemma pad_to_facts:
  "pad_to str end p a \<noteq> Inl No_fuel" "p \<le> a \<Longrightarrow> pad_to str end p a = Inr q \<Longrightarrow> q = a \<and> a \<le> end"
  by (auto simp: pad_to_def skip_padding_facts(1) not_less split: if_splits dest!: skip_padding_facts(2))

lemma array_element_facts:
  assumes "types_only (klass r)"
  shows "array_element r \<noteq> Inl No_fuel"
    "array_element r = Inr (el, a) \<Longrightarrow>
       first_type (type_str r) (type_pos r + 1) = Inr el \<and> dbus_type_is_valid el \<and> 0 < a \<and> a = dbus_type_get_alignment el"
  using element_type_facts[OF assms]
  by (auto simp: array_element_def and_then_fuel split: if_splits dest: alignment_pos)

lemma array_moves:
  assumes "fine_below B end fuel rec" "reader_ok B r" "dbus_type_reader_get_current_type r = Inr DBUS_TYPE_ARRAY"
    and "cost B end r p \<le> fuel"
  shows "moves p (validate_array str end order fuel rec r p)"
proof -
  have o: "types_only (klass r)" using assms(2) by (simp add: reader_ok_def)
  note e = array_element_facts[OF o]
  have el: "moves p (if n > end - x then Inl (Invalid DBUS_INVALID_LENGTH_OUT_OF_BOUNDS)
       else if n > 0 then array_elements str order fuel rec r el x n else Inr x)"
    if "claimed_length str end order p = Inr (n, q)" "array_element r = Inr (el, a)"
      "pad_to str end q (ALIGN_VALUE q a) = Inr x" for n q el a x
  proof -
    have "p < x" "x \<le> end"
      using claimed_facts(2)[OF that(1)] e(2)[OF that(2)] pad_to_facts(2)[OF _ that(3)] align_facts(1)[of a q] by auto
    then show ?thesis
      using array_elements_moves[OF assms(1-4), of x n el] e(2)[OF that(2)] by (auto simp: moves_def)
  qed
  show ?thesis unfolding validate_array_def
    using el by (auto intro!: moves_then claimed_facts(1) e(1) pad_to_facts(1) split: prod.split)
qed

lemma variant_contents_moves:
  assumes "fine_below B end fuel rec" "reader_ok B sub" "walker sub" "cost B end sub q < fuel" "p < q" "q \<le> end"
    and "2 * (length (type_str sub) - type_pos sub) < fuel"
  shows "moves p (variant_contents fuel rec sub q)"
proof -
  have w: "types_only (klass sub)" using assms(3) by (simp add: walker_def)
  have f: "fine end sub q (rec sub False q)" using assms(4,6) by (intro fine_belowD[OF assms(1,2)]) simp_all
  have a: "walker sub \<and> 2 * (length (type_str sub) - type_pos sub) < fuel" using assms(3,7) by simp
  note n = stepping_ends[of fuel, THEN conjunct1, rule_format, OF a]
  have last: "moves p (if more then Inl (Invalid DBUS_INVALID_VARIANT_SIGNATURE_SPECIFIES_MULTIPLE_VALUES)
       else and_then (dbus_type_reader_get_current_type r') (\<lambda>t. and_then (require (t = DBUS_TYPE_INVALID)) (\<lambda>_. Inr x)))"
    if "rec sub False q = Inr x" "dbus_type_reader_next fuel sub = Inr (more, r')" for x more r'
  proof -
    have "types_only (klass r')" using n[THEN conjunct2, rule_format, OF that(2)] by (simp add: walker_def)
    moreover have "p < x" using f that(1) assms(5) by (auto simp: fine_def)
    ultimately show ?thesis using current_fuel[of r'] by (auto simp: moves_def and_then_fuel)
  qed
  show ?thesis unfolding variant_contents_def
    using last f n[THEN conjunct1] by (auto intro!: moves_then current_fuel[OF w] simp: fine_def)
qed

lemma variant_moves:
  assumes "fine_below B end fuel rec" "cost B end r p \<le> fuel" "p < end" "DBUS_MAXIMUM_SIGNATURE_LENGTH \<le> B"
  shows "moves p (validate_variant str end mem fuel rec p)"
proof -
  have c: "contained_alignment s \<noteq> Inl No_fuel" "contained_alignment s = Inr a \<Longrightarrow> 0 < a" for s a
    by (auto simp: contained_alignment_def and_then_fuel first_type_facts split: if_splits dest: alignment_pos)
  have contents: "moves p (variant_contents fuel rec (dbus_type_reader_init_types_only s 0) x)"
    if "variant_signature str end mem p = Inr (s, q)" "contained_alignment s = Inr a"
      "pad_to str end q (ALIGN_VALUE q a) = Inr x" for s q a x
  proof -
    have q: "p < q" "q \<le> end" "closed_sig s" "length s \<le> DBUS_MAXIMUM_SIGNATURE_LENGTH"
      using variant_signature_facts(2)[OF assms(3) that(1)] by simp_all
    have x: "q \<le> x" "x \<le> end"
      using pad_to_facts(2)[OF _ that(3)] align_facts(1)[of a q] c(2)[OF that(2)] by auto
    let ?sub = "dbus_type_reader_init_types_only s 0"
    have ok: "reader_ok B ?sub" and w: "walker ?sub" and t: "type_str ?sub = s"
      using q(3,4) assms(4)
      by (simp_all add: reader_ok_def walker_def dbus_type_reader_init_types_only_def reader_init_def fresh_reader_def)
    have "cost B end ?sub x < fuel" using x(1) q(1,4) assms(4) t by (intro cost_later[OF assms(2) _ assms(3)]) simp_all
    moreover have "2 * (length (type_str ?sub) - type_pos ?sub) < fuel"
      using cost_room(1)[OF assms(2,3)] q(4) assms(4) t by simp
    ultimately show ?thesis using variant_contents_moves[OF assms(1) ok w] x q(1) by simp
  qed
  show ?thesis unfolding validate_variant_def
    using contents c(1) by (auto intro!: moves_then variant_signature_facts(1) pad_to_facts(1) split: prod.split)
qed

lemma struct_moves:
  assumes "fine_below B end fuel rec" "reader_ok B r" "dbus_type_reader_get_current_type r = Inr t" "t \<noteq> 0"
    "t \<noteq> DBUS_TYPE_ARRAY" and "cost B end r p \<le> fuel"
  shows "moves p (validate_struct str end rec r p)"
proof -
  have o: "types_only (klass r)" using assms(2) by (simp add: reader_ok_def)
  have sub: "moves p (rec sub True x)"
    if "pad_to str end p (ALIGN_VALUE p 8) = Inr x" "dbus_type_reader_recurse r = Inr sub" for x sub
  proof -
    note s = sub_ok[OF assms(2-4) that(2)]
    have x: "p \<le> x" "x \<le> end" using pad_to_facts(2)[OF _ that(1)] align_facts(1)[of 8 p] by auto
    have "cost B end sub x < fuel"
      using current_type_facts(3)[OF o assms(3,4)] x by (intro cost_sub[OF assms(6) s(2,3)]) simp_all
    then have "fine end sub x (rec sub True x)" using x s(4)[OF assms(5)] by (intro fine_belowD[OF assms(1) s(1)]) simp_all
    then show ?thesis using s(5)[OF assms(5)] x by (auto simp: fine_def moves_def)
  qed
  show ?thesis unfolding validate_struct_def using sub by (auto intro!: moves_then pad_to_facts(1) recurse_fuel[OF o])
qed

lemma value_moves:
  assumes "fine_below B end fuel rec" "reader_ok B r" "dbus_type_reader_get_current_type r = Inr t" "t \<noteq> 0"
    and "cost B end r p \<le> fuel" "p < end" "DBUS_MAXIMUM_SIGNATURE_LENGTH \<le> B"
  shows "moves p (validate_value str end order mem fuel rec r t p)"
proof -
  have "moves p (validate_fixed str end order t p)" "moves p (validate_string str end order t p)"
    "moves p (validate_signature_value str end mem p)"
    using fixed_facts string_facts signature_value_facts by (auto simp: moves_def)
  then show ?thesis
    using array_moves[OF assms(1,2) _ assms(5)] variant_moves[OF assms(1,5-7)] struct_moves[OF assms(1-4) _ assms(5)] assms(3)
    unfolding validate_value_def by (auto simp: moves_def[of p "Inr (Suc p)"])
qed

lemma helper_fine:
  assumes "DBUS_MAXIMUM_SIGNATURE_LENGTH \<le> B"
  shows "fine_below B end fuel (validate_body_helper str end order mem fuel)"
proof (induction fuel)
  case (Suc fuel)
  let ?rec = "validate_body_helper str end order mem fuel"
  have "fine end r p (validate_step str end order mem fuel ?rec r w p)"
    if a: "reader_ok B r" "w \<longrightarrow> walker r" "p \<le> end" "cost B end r p \<le> fuel" for r w p
  proof -
    have o: "types_only (klass r)" using a(1) by (simp add: reader_ok_def)
    show ?thesis
    proof (cases "\<exists>t. dbus_type_reader_get_current_type r = Inr t \<and> t \<noteq> 0 \<and> p \<noteq> end")
      case False
      then show ?thesis using current_fuel[OF o] a(3)
        by (cases "dbus_type_reader_get_current_type r") (auto simp: validate_step_def fine_def)
    next
      case True
      then obtain t where t: "dbus_type_reader_get_current_type r = Inr t" "t \<noteq> 0" and p: "p < end" using a(3) by auto
      have v: "moves p (validate_value str end order mem fuel ?rec r t p)"
        by (rule value_moves[OF Suc.IH a(1) t a(4) p assms])
      have step: "fine end r p (if q > end then Inl (Invalid DBUS_INVALID_NOT_ENOUGH_DATA)
         else if w then and_then (dbus_type_reader_next fuel r) (\<lambda>(_, r). ?rec r True q) else Inr q)" if q: "p < q" for q
      proof (cases "w \<and> q \<le> end")
        case False
        then show ?thesis using q by (auto simp: fine_def)
      next
        case True
        have l: "2 * (length (type_str r) - type_pos r) < fuel"
          using cost_room(1)[OF a(4) p] a(1) unfolding reader_ok_def by linarith
        then have wr: "walker r \<and> 2 * (length (type_str r) - type_pos r) < fuel" using a(2) True by simp
        note n = stepping_ends[of fuel, THEN conjunct1, rule_format, OF wr]
        show ?thesis
        proof (cases "dbus_type_reader_next fuel r")
          case (Inl e)
          then show ?thesis using n True q by (auto simp: fine_def)
        next
          case (Inr x)
          obtain more r' where x: "x = (more, r')" by (cases x)
          have r': "walker r'" "type_str r' = type_str r" using n[THEN conjunct2, rule_format, OF Inr[unfolded x]] by simp_all
          have ok: "reader_ok B r'" using r' a(1) by (simp add: reader_ok_def walker_def)
          have "cost B end r' q < fuel" using q ok by (intro cost_later[OF a(4) _ p]) (auto simp: reader_ok_def)
          then have "fine end r' q (?rec r' True q)" using True r'(1) by (intro fine_belowD[OF Suc.IH ok]) simp_all
          then show ?thesis using Inr x True q by (auto simp: fine_def)
        qed
      qed
      show ?thesis
      proof (cases "validate_value str end order mem fuel ?rec r t p")
        case (Inl e)
        then show ?thesis using v t p by (auto simp: validate_step_def moves_def fine_def)
      next
        case (Inr q)
        then show ?thesis using step[of q] v t p by (auto simp: validate_step_def moves_def)
      qed
    qed
  qed
  then show ?case by (auto simp: fine_below_def validate_body_helper.simps)
qed (simp add: fine_below_def)

lemma helper_returns:
  assumes "closed_sig sig" "length sig \<le> 255" "513 * (len + 1) \<le> fuel"
  shows "dbus_validate_body_with_reason fuel sig 0 order want_remaining values start len mem \<noteq> Inl No_fuel"
proof -
  let ?r = "dbus_type_reader_init_types_only sig 0"
  have ok: "reader_ok 255 ?r" "walker ?r" and t: "type_str ?r = sig"
    using assms
    by (simp_all add: reader_ok_def walker_def dbus_type_reader_init_types_only_def reader_init_def fresh_reader_def)
  have "cost 255 (start + len) ?r start < fuel" using assms(2,3) unfolding cost_def t by simp
  then have f: "fine (start + len) ?r start (validate_body_helper values (start + len) order mem fuel ?r True start)"
    using ok by (intro fine_belowD[OF helper_fine]) simp_all
  then show ?thesis
    by (auto simp: dbus_validate_body_with_reason_def Let_def and_then_fuel fine_def split: if_splits)
qed

text \<open>
  C19. Validation returns: for every expected signature the signature validator accepts, even one
  whose brackets cross, and for every body, whatever nesting of variants it claims, 513 units of fuel
  for every byte and one more suffice.
\<close>

theorem body_validation_returns:
  assumes "dbus_validate_signature_with_reason sig 0 (length sig) m = DBUS_VALID" and "513 * (len + 1) \<le> fuel"
  shows "dbus_validate_body_with_reason fuel sig 0 order want_remaining values start len mem \<noteq> Inl No_fuel"
  using accepted_closed[OF assms(1)] assms(2) by (intro helper_returns) simp_all

theorem body_validation_returns_witness:
  "dbus_validate_body_with_reason 2565 (ascii ''au'') 0 DBUS_LITTLE_ENDIAN False [0, 0, 0, 0] 0 4 (\<lambda>_. []) \<noteq> Inl No_fuel"
proof -
  have "dbus_validate_signature_with_reason (ascii ''au'') 0 (length (ascii ''au'')) [] = DBUS_VALID" by code_simp
  then show ?thesis by (rule body_validation_returns) simp
qed

section \<open>More fuel and less memory\<close>

text \<open>
  Two runs that agree, unless the first stops for the reason \<open>e\<close>: lack of fuel or of memory.
\<close>

definition agrees_on :: "halt \<Rightarrow> 'a result \<Rightarrow> 'a result \<Rightarrow> bool" where
  "agrees_on e x y \<longleftrightarrow> x = Inl e \<or> x = y"

lemma agrees_refl: "agrees_on e x x"
  by (simp add: agrees_on_def)

lemma agrees_then: "agrees_on e x x' \<Longrightarrow> (\<And>y. agrees_on e (f y) (f' y)) \<Longrightarrow> agrees_on e (and_then x f) (and_then x' f')"
  by (cases x) (fastforce simp: agrees_on_def)+

lemma agrees_if:
  "(b \<Longrightarrow> agrees_on e x x') \<Longrightarrow> (\<not> b \<Longrightarrow> agrees_on e y y') \<Longrightarrow> agrees_on e (if b then x else y) (if b then x' else y')"
  by simp

lemma agrees_pair:
  "(\<And>a b. agrees_on e (f a b) (g a b)) \<Longrightarrow> agrees_on e (case z of (a, b) \<Rightarrow> f a b) (case z of (a, b) \<Rightarrow> g a b)"
  by (cases z) simp

lemmas agrees_intros = agrees_then agrees_if agrees_pair

lemma base_agrees:
  "(\<And>sub. agrees_on e (skip sub) (skip' sub)) \<Longrightarrow> agrees_on e (base_reader_next skip r t) (base_reader_next skip' r t)"
  unfolding base_reader_next_def by (intro agrees_intros agrees_refl) auto

lemma class_agrees:
  "(\<And>sub. agrees_on e (skip sub) (skip' sub)) \<Longrightarrow> agrees_on e (class_next k skip r t) (class_next k skip' r t)"
  by (cases k) (auto simp: struct_reader_next_def dict_entry_reader_next_def container_reader_next_def array_reader_next_def
      Let_def intro!: base_agrees agrees_intros agrees_refl)

lemma next_agrees:
  "fuel \<le> fuel' \<Longrightarrow> agrees_on No_fuel (dbus_type_reader_next fuel r) (dbus_type_reader_next fuel' r) \<and>
     agrees_on No_fuel (skip_all fuel r) (skip_all fuel' r)"
proof (induction fuel arbitrary: fuel' r)
  case 0
  then show ?case by (simp add: agrees_on_def dbus_type_reader_next.simps skip_all.simps)
next
  case (Suc fuel)
  then obtain f where f: "fuel' = Suc f" "fuel \<le> f" by (cases fuel') auto
  then show ?case using Suc.IH[OF f(2)] unfolding f(1) dbus_type_reader_next.simps skip_all.simps
    by (intro conjI agrees_intros agrees_refl class_agrees) auto
qed

lemma element_loop_agrees:
  "fuel \<le> fuel' \<Longrightarrow> (\<And>r w p. agrees_on No_fuel (rec r w p) (rec' r w p)) \<Longrightarrow>
     agrees_on No_fuel (element_loop fuel rec sub p q) (element_loop fuel' rec' sub p q)"
proof (induction fuel arbitrary: fuel' p)
  case (Suc fuel)
  then obtain f where f: "fuel' = Suc f" "fuel \<le> f" by (cases fuel') auto
  then show ?case using Suc by (auto intro!: agrees_intros agrees_refl)
qed (simp add: agrees_on_def)

lemma value_agrees:
  assumes "fuel \<le> fuel'" "\<And>r w p. agrees_on No_fuel (rec r w p) (rec' r w p)"
  shows "agrees_on No_fuel (validate_value str end order mem fuel rec r t p) (validate_value str end order mem fuel' rec' r t p)"
proof -
  have e: "agrees_on No_fuel (array_elements str order fuel rec r el p n) (array_elements str order fuel' rec' r el p n)" for el p n
    unfolding array_elements_def Let_def by (intro agrees_intros agrees_refl element_loop_agrees assms)
  have v: "agrees_on No_fuel (variant_contents fuel rec sub p) (variant_contents fuel' rec' sub p)" for sub p
    unfolding variant_contents_def by (intro agrees_intros agrees_refl assms next_agrees[THEN conjunct1])
  show ?thesis
    unfolding validate_value_def validate_array_def validate_variant_def validate_struct_def
    by (intro agrees_intros agrees_refl e v assms)
qed

lemma helper_agrees:
  "fuel \<le> fuel' \<Longrightarrow> agrees_on No_fuel (validate_body_helper str end order mem fuel r w p) (validate_body_helper str end order mem fuel' r w p)"
proof (induction fuel arbitrary: fuel' r w p)
  case (Suc fuel)
  then obtain f where f: "fuel' = Suc f" "fuel \<le> f" by (cases fuel') auto
  show ?case unfolding f(1) validate_body_helper.simps validate_step_def
    by (intro agrees_intros agrees_refl value_agrees Suc.IH next_agrees[THEN conjunct1] f(2))
qed (simp add: agrees_on_def validate_body_helper.simps)

text \<open>
  The verdict on a body does not depend on the fuel once there is enough of it.
\<close>

theorem body_fuel_irrelevant:
  assumes "dbus_validate_signature_with_reason sig 0 (length sig) m = DBUS_VALID"
    and "513 * (len + 1) \<le> fuel" "513 * (len + 1) \<le> fuel'"
  shows "dbus_validate_body_with_reason fuel sig 0 order want_remaining values start len mem =
    dbus_validate_body_with_reason fuel' sig 0 order want_remaining values start len mem"
proof -
  have le: "agrees_on No_fuel (dbus_validate_body_with_reason f sig 0 order want_remaining values start len mem)
      (dbus_validate_body_with_reason f' sig 0 order want_remaining values start len mem)" if "f \<le> f'" for f f'
    unfolding dbus_validate_body_with_reason_def Let_def by (intro agrees_intros agrees_refl helper_agrees that)
  have "dbus_validate_body_with_reason f sig 0 order want_remaining values start len mem \<noteq> Inl No_fuel"
    if "513 * (len + 1) \<le> f" for f
  proof -
    have s: "closed_sig sig" "length sig \<le> 255" using accepted_closed[OF assms(1)] by simp_all
    then show ?thesis using that helper_returns by blast
  qed
  then show ?thesis using le[of fuel fuel'] le[of fuel' fuel] assms(2,3)
    by (metis agrees_on_def nle_le)
qed

theorem body_fuel_irrelevant_witness:
  "dbus_validate_body_with_reason 3000 (ascii ''au'') 0 DBUS_LITTLE_ENDIAN False [0, 0, 0, 0] 0 4 (\<lambda>_. []) =
   dbus_validate_body_with_reason 2565 (ascii ''au'') 0 DBUS_LITTLE_ENDIAN False [0, 0, 0, 0] 0 4 (\<lambda>_. [])"
proof -
  have "dbus_validate_signature_with_reason (ascii ''au'') 0 (length (ascii ''au'')) [] = DBUS_VALID" by code_simp
  then show ?thesis by (rule body_fuel_irrelevant) simp_all
qed

abbreviation oom :: halt where "oom \<equiv> Invalid DBUS_VALIDITY_UNKNOWN_OOM_ERROR"

lemma verdict_memory:
  "agrees_on oom (signature_verdict str p n m) (signature_verdict str p n [])"
  "agrees_on oom (variant_verdict str p n m) (variant_verdict str p n [])"
  using signature_memory[of str p n m] by (auto simp: signature_verdict_def variant_verdict_def Let_def agrees_on_def)

lemma element_loop_same:
  "(\<And>r w p. agrees_on e (rec r w p) (rec' r w p)) \<Longrightarrow>
     agrees_on e (element_loop fuel rec sub p q) (element_loop fuel rec' sub p q)"
  by (induction fuel arbitrary: p) (auto intro!: agrees_intros agrees_refl)

lemma value_memory:
  assumes "\<And>r w p. agrees_on oom (rec r w p) (rec' r w p)"
  shows "agrees_on oom (validate_value str end order mem fuel rec r t p)
    (validate_value str end order (\<lambda>_. []) fuel rec' r t p)"
proof -
  have e: "agrees_on oom (array_elements str order fuel rec r el p n) (array_elements str order fuel rec' r el p n)" for el p n
    unfolding array_elements_def Let_def by (intro agrees_intros agrees_refl element_loop_same assms)
  have s: "agrees_on oom (validate_signature_value str end mem p) (validate_signature_value str end (\<lambda>_. []) p)" for p
    unfolding validate_signature_value_def Let_def by (intro agrees_intros agrees_refl verdict_memory)
  have v: "agrees_on oom (variant_signature str end mem p) (variant_signature str end (\<lambda>_. []) p)" for p
    unfolding variant_signature_def Let_def by (intro agrees_intros agrees_refl verdict_memory)
  show ?thesis
    unfolding validate_value_def validate_array_def validate_variant_def validate_struct_def variant_contents_def
    by (intro agrees_intros agrees_refl e s v assms)
qed

lemma helper_memory:
  "agrees_on oom (validate_body_helper str end order mem fuel r w p) (validate_body_helper str end order (\<lambda>_. []) fuel r w p)"
proof (induction fuel arbitrary: r w p)
  case (Suc fuel)
  show ?case unfolding validate_body_helper.simps validate_step_def
    by (intro agrees_intros agrees_refl value_memory Suc.IH)
qed (simp add: agrees_refl validate_body_helper.simps)

lemma body_memory:
  "agrees_on oom (dbus_validate_body_with_reason fuel sig pos order want_remaining values start len mem)
     (dbus_validate_body_with_reason fuel sig pos order want_remaining values start len (\<lambda>_. []))"
  unfolding dbus_validate_body_with_reason_def Let_def by (intro agrees_intros agrees_refl helper_memory)

text \<open>
  C20. Running out of memory does not change the verdict on a body: whatever allocation fails in the
  validation of whatever signature inside it, the answer is the out-of-memory code or the one given
  with memory.
\<close>

theorem body_oom_transparent:
  "dbus_validate_body_with_reason fuel sig pos order want_remaining values start len mem =
     Inl (Invalid DBUS_VALIDITY_UNKNOWN_OOM_ERROR) \<or>
   dbus_validate_body_with_reason fuel sig pos order want_remaining values start len mem =
     dbus_validate_body_with_reason fuel sig pos order want_remaining values start len (\<lambda>_. [])"
  by (rule body_memory[unfolded agrees_on_def])

end
