(* ===== verification/BodyBasic.thy ===== *)
theory BodyBasic
  imports BodyTerm Values
begin

text \<open>
  What the body validator does on padding, lengths and basic values: it accepts a basic value exactly
  if the encoding of a value of its type with legal contents is found there.
\<close>

section \<open>Positions\<close>

definition octets_at :: "byte list \<Rightarrow> nat \<Rightarrow> nat \<Rightarrow> byte list" where
  "octets_at str p n = take n (drop p str)"

lemma found_octets_at: "p + n \<le> length str \<Longrightarrow> found_at str p (octets_at str p n) \<and> length (octets_at str p n) = n"
  by (simp add: octets_at_def found_at_def)

lemma found_unique: "found_at str p bs \<longleftrightarrow> p + length bs \<le> length str \<and> bs = octets_at str p (length bs)"
  by (auto simp: found_at_def octets_at_def)

lemma skip_padding_iff:
  "p + n \<le> length str \<Longrightarrow> skip_padding str p n = Inr q \<longleftrightarrow> q = p + n \<and> found_at str p (replicate n 0)"
proof (induction n arbitrary: p)
  case (Suc n)
  then show ?case using Suc.IH[of "Suc p"]
    by (auto simp: peek_def dbus_string_get_byte_def str_byte_def found_byte)
qed auto

lemma pad_to_iff:
  assumes "0 < a" "end \<le> length str"
  shows "pad_to str end p (ALIGN_VALUE p a) = Inr q \<longleftrightarrow>
    q = ALIGN_VALUE p a \<and> q \<le> end \<and> found_at str p (padding p a)"
  using align_facts(1)[OF assms(1), of p] assms(2) skip_padding_iff[of p "ALIGN_VALUE p a - p" str q]
  by (auto simp: pad_to_def padding_def)

lemma unpack_at_iff:
  assumes "ALIGN_VALUE p 4 = p"
  shows "unpack_at str e p = Inr n \<longleftrightarrow> (\<exists>w :: 32 word. n = unat w \<and> found_at str p (octets_of e 4 w))"
proof
  assume "unpack_at str e p = Inr n"
  then have l: "p + 4 \<le> length str" "n = unat (dbus_unpack_uint32 e (octets_at str p 4))"
    by (auto simp: unpack_at_def const_data_len_def octets_at_def split: if_splits)
  then have "found_at str p (octets_of e 4 (word_of e (octets_at str p 4) :: 32 word))"
    using octets_of_word[of "octets_at str p 4" e, where 'a = 32] found_octets_at[of p 4 str] by simp
  then show "\<exists>w :: 32 word. n = unat w \<and> found_at str p (octets_of e 4 w)"
    using l found_octets_at[of p 4 str] by (intro exI[of _ "word_of e (octets_at str p 4)"]) (simp add: unpack_word)
next
  assume "\<exists>w :: 32 word. n = unat w \<and> found_at str p (octets_of e 4 w)"
  then obtain w :: "32 word" where w: "n = unat w" "found_at str p (octets_of e 4 w)" by blast
  then show "unpack_at str e p = Inr n"
    using found_const[OF w(2)] assms by (simp add: unpack_at_def unpack_word word_of_octets)
qed

lemma claimed_length_iff:
  assumes "end \<le> length str"
  shows "claimed_length str end e p = Inr (n, q) \<longleftrightarrow>
    q = ALIGN_VALUE p 4 + 4 \<and> q \<le> end \<and> n < 2 ^ 32 \<and>
    found_at str p (padding p 4 @ octets_of e 4 (word_of_nat n :: 32 word))"
proof -
  let ?a = "ALIGN_VALUE p 4"
  have a: "p \<le> ?a" "ALIGN_VALUE ?a 4 = ?a" using align_facts(1)[of 4 p] by simp_all
  have w: "(\<exists>w :: 32 word. n = unat w \<and> found_at str ?a (octets_of e 4 w)) \<longleftrightarrow>
      n < 2 ^ 32 \<and> found_at str ?a (octets_of e 4 (word_of_nat n :: 32 word))"
  proof
    assume "\<exists>w :: 32 word. n = unat w \<and> found_at str ?a (octets_of e 4 w)"
    then obtain w :: "32 word" where "n = unat w" "found_at str ?a (octets_of e 4 w)" by blast
    then show "n < 2 ^ 32 \<and> found_at str ?a (octets_of e 4 (word_of_nat n :: 32 word))"
      using unsigned_less[of w] by simp
  next
    assume "n < 2 ^ 32 \<and> found_at str ?a (octets_of e 4 (word_of_nat n :: 32 word))"
    then show "\<exists>w :: 32 word. n = unat w \<and> found_at str ?a (octets_of e 4 w)"
      by (intro exI[of _ "word_of_nat n"]) (simp add: unat_of_nat)
  qed
  have f: "found_at str p (padding p 4 @ octets_of e 4 (word_of_nat n :: 32 word)) \<longleftrightarrow>
      found_at str p (padding p 4) \<and> found_at str ?a (octets_of e 4 (word_of_nat n :: 32 word))"
    using a(1) by (simp add: found_append padding_def)
  have s: "skip_padding str p (?a - p) = Inr x \<longleftrightarrow> x = ?a \<and> found_at str p (padding p 4)" if "?a + 4 \<le> end" for x
    using skip_padding_iff[of p "?a - p" str x] a(1) that assms by (auto simp: padding_def)
  show ?thesis unfolding f claimed_length_def Let_def
    using s unpack_at_iff[OF a(2), of str e n] w by (auto simp: not_less)
qed

section \<open>Contents without nul\<close>

lemma utf8_no_nul:
  assumes "dbus_string_validate_utf8 s" shows "0 \<notin> set s"
proof -
  obtain ns where ns: "list_all unicode_char ns" "s = concat (map utf8_encode ns)"
    using loop_sound assms by (metis dbus_string_validate_utf8_def)
  have "0 \<notin> set (utf8_encode n)" if "unicode_char n" for n
  proof -
    have nz: "word_of_nat m \<noteq> (0 :: byte)" if "0 < m" "m < 256" for m
      using that unat_small[of m] by (metis less_irrefl unsigned_0)
    have "n < 0x110000" "0 < n" using that by (simp_all add: unicode_char_def)
    then show ?thesis unfolding utf8_encode_def
      using nz[of n] nz[of "0xC0 + n div 64"] nz[of "0x80 + n mod 64"] nz[of "0xE0 + n div 4096"]
        nz[of "0x80 + n div 64 mod 64"] nz[of "0xF0 + n div 262144"] nz[of "0x80 + n div 4096 mod 64"]
      by (auto simp del: of_nat_add of_nat_Suc)
  qed
  then show ?thesis using ns by (auto simp: list_all_iff)
qed

lemma path_no_nul:
  assumes "dbus_validate_path s 0 (length s)" shows "0 \<notin> set s"
proof -
  have loop: "path_loop d t = Some d' \<Longrightarrow> 0 \<notin> set t" for d t d'
    by (induction d t rule: path_loop.induct) (auto split: if_splits simp: char_class)
  show ?thesis using assms loop by (cases s) (auto simp: dbus_validate_path_def Let_def split: if_splits option.splits)
qed

lemma signature_no_nul: "valid_sig s \<Longrightarrow> 0 \<notin> set s \<and> length s \<le> DBUS_MAXIMUM_SIGNATURE_LENGTH"
  using accepted_closed[of s 0 "length s" "[]"] by (simp add: dbus_validate_signature_def closed_sig_def)

text \<open>A signature inside a string is judged like the signature alone when a nul follows it.\<close>

lemma signature_at:
  assumes "p + n \<le> length str" "str_byte str (p + n) = 0"
  shows "dbus_validate_signature_with_reason str p n m = dbus_validate_signature_with_reason (octets_at str p n) 0 n m"
proof -
  have "str_byte (octets_at str p n) n = 0" "take n (drop 0 (octets_at str p n)) = take n (drop p str)"
    by (simp_all add: octets_at_def str_byte_def)
  then show ?thesis unfolding dbus_validate_signature_with_reason_def assms(2) add_0 by (simp only:)
qed

lemma valid_sig_at:
  assumes "p + n \<le> length str" "str_byte str (p + n) = 0"
  shows "dbus_validate_signature_with_reason str p n [] = DBUS_VALID \<longleftrightarrow> valid_sig (octets_at str p n)"
  using signature_at[OF assms] found_octets_at[OF assms(1)] by (simp add: dbus_validate_signature_def)

section \<open>Basic values\<close>

text \<open>A basic value of a type is found at a position, and ends before \<open>end\<close>.\<close>

definition basic_at :: "byte list \<Rightarrow> nat \<Rightarrow> byte \<Rightarrow> byte \<Rightarrow> nat \<Rightarrow> nat \<Rightarrow> bool" where
  "basic_at str end e c p q \<longleftrightarrow> q \<le> end \<and>
     (\<exists>v. basic_ok c v \<and> found_at str p (encode_basic e c v p) \<and> q = p + length (encode_basic e c v p))"

lemma fixed_words:
  assumes "dbus_type_is_fixed c" "found_at str p (padding p a)" "a = dbus_type_get_alignment c"
    "ALIGN_VALUE p a + a \<le> length str"
  obtains v where "member_of c v" "found_at str p (encode_basic e c v p)"
    "length (encode_basic e c v p) = ALIGN_VALUE p a - p + a" "contents_ok c v"
    "c = DBUS_TYPE_BOOLEAN \<Longrightarrow> v = V_u32 (word_of e (octets_at str (ALIGN_VALUE p a) 4))"
proof -
  let ?A = "ALIGN_VALUE p a" and ?s = "octets_at str (ALIGN_VALUE p a) a"
  have s: "found_at str ?A ?s" "length ?s = a" using found_octets_at[OF assms(4)] by simp_all
  have le: "0 < a \<Longrightarrow> p \<le> ?A" using align_facts(1) by simp
  have enc: "found_at str p (encode_basic e c v p) \<and> length (encode_basic e c v p) = ?A - p + a"
    if "raw_basic e c v = ?s" "0 < a" for v
    using that s assms(2,3) le by (simp add: encode_basic_def found_append padding_def)
  from assms(1) show ?thesis
  proof (cases rule: fixed_cases)
    case 1
    then obtain b where "?s = [b]" using s(2) assms(3) by (auto simp: length_Suc_conv)
    then show ?thesis using enc[of "V_byt b"] 1 assms(3)
      by (intro that[of "V_byt b"]) (simp_all add: member_of_def raw_basic_def contents_ok_def)
  next
    case 2
    let ?w = "word_of e ?s :: 16 word"
    have "octets_of e 2 ?w = ?s" using octets_of_word[of ?s e, where 'a = 16] s(2) 2 assms(3) by simp
    then show ?thesis using enc[of "V_u16 ?w"] 2 assms(3)
      by (intro that[of "V_u16 ?w"]) (auto simp: member_of_def raw_basic_def contents_ok_def)
  next
    case 3
    let ?w = "word_of e ?s :: 32 word"
    have "octets_of e 4 ?w = ?s" using octets_of_word[of ?s e, where 'a = 32] s(2) 3 assms(3) by simp
    then show ?thesis using enc[of "V_u32 ?w"] 3 assms(3)
      by (intro that[of "V_u32 ?w"]) (auto simp: member_of_def raw_basic_def contents_ok_def)
  next
    case 4
    let ?w = "word_of e ?s :: 64 word"
    have "octets_of e 8 ?w = ?s" using octets_of_word[of ?s e, where 'a = 64] s(2) 4 assms(3) by simp
    then show ?thesis using enc[of "V_u64 ?w"] 4 assms(3)
      by (intro that[of "V_u64 ?w"]) (auto simp: member_of_def raw_basic_def contents_ok_def)
  qed
qed

lemma bool_word: "unat (w :: 32 word) = 0 \<or> unat w = Suc 0 \<longleftrightarrow> w = 0 \<or> w = 1"
  by (metis One_nat_def unsigned_0 unsigned_1 unsigned_word_eqI)

lemma check_boolean_iff:
  assumes "ALIGN_VALUE p 4 = p"
  shows "check_boolean str e p = Inr u \<longleftrightarrow> (\<exists>w :: 32 word. found_at str p (octets_of e 4 w) \<and> (w = 0 \<or> w = 1))"
proof -
  have "check_boolean str e p = Inr u \<longleftrightarrow> (\<exists>n. unpack_at str e p = Inr n \<and> (n = 0 \<or> n = Suc 0))"
    by (cases "unpack_at str e p") (auto simp: check_boolean_def)
  also have "\<dots> \<longleftrightarrow> (\<exists>w :: 32 word. found_at str p (octets_of e 4 w) \<and> (unat w = 0 \<or> unat w = Suc 0))"
    unfolding unpack_at_iff[OF assms] by blast
  finally show ?thesis unfolding bool_word .
qed

lemma fixed_not_string:
  assumes "dbus_type_is_fixed c" shows "member_of c v \<Longrightarrow> v \<noteq> V_str s"
    "c \<noteq> DBUS_TYPE_STRING" "c \<noteq> DBUS_TYPE_OBJECT_PATH" "c \<noteq> DBUS_TYPE_SIGNATURE"
  using assms by (auto elim!: fixed_cases simp: member_of_def)

lemma fixed_at:
  assumes c: "dbus_type_is_fixed c" "c \<noteq> DBUS_TYPE_BYTE" and e: "end \<le> length str"
  shows "validate_fixed str end e c p = Inr q \<and> q \<le> end \<longleftrightarrow> basic_at str end e c p q"
proof -
  let ?a = "dbus_type_get_alignment c"
  let ?A = "ALIGN_VALUE p ?a"
  have a: "0 < ?a" using c(1) by (cases rule: fixed_cases) simp_all
  note le = align_facts(1)[OF a, of p]
  have aa: "ALIGN_VALUE ?A ?a = ?A" using a by simp
  have d: "validate_fixed str end e c p = Inr q \<and> q \<le> end \<longleftrightarrow> q = ?A + ?a \<and> q \<le> end \<and> found_at str p (padding p ?a) \<and>
      (c = DBUS_TYPE_BOOLEAN \<longrightarrow> (\<exists>w :: 32 word. found_at str ?A (octets_of e 4 w) \<and> (w = 0 \<or> w = 1)))"
  proof -
    have sp: "skip_padding str p (?A - p) = Inr x \<longleftrightarrow> x = ?A \<and> found_at str p (padding p ?a)" if "?A < end" for x
      using skip_padding_iff[of p "?A - p" str x] le that e by (auto simp: padding_def)
    have b: "check_boolean str e ?A = Inr u \<longleftrightarrow> (\<exists>w :: 32 word. found_at str ?A (octets_of e 4 w) \<and> (w = 0 \<or> w = 1))"
      if "?a = 4" for u
      using check_boolean_iff[of ?A str e u] aa that by simp
    have "c = DBUS_TYPE_BOOLEAN \<Longrightarrow> ?a = 4" by (simp add: dbus_type_get_alignment_def)
    then show ?thesis using a sp b
      by (auto simp: validate_fixed_def get_alignment_def Let_def not_le)
  qed
  show ?thesis unfolding d
  proof
    assume q: "q = ?A + ?a \<and> q \<le> end \<and> found_at str p (padding p ?a) \<and>
      (c = DBUS_TYPE_BOOLEAN \<longrightarrow> (\<exists>w :: 32 word. found_at str ?A (octets_of e 4 w) \<and> (w = 0 \<or> w = 1)))"
    then obtain v where v: "member_of c v" "found_at str p (encode_basic e c v p)"
      "length (encode_basic e c v p) = ?A - p + ?a" "contents_ok c v"
      "c = DBUS_TYPE_BOOLEAN \<Longrightarrow> v = V_u32 (word_of e (octets_at str ?A 4))"
      using fixed_words[OF c(1) _ refl, of str p e] e by auto
    have "w = 0 \<or> w = 1" if b: "c = DBUS_TYPE_BOOLEAN" "v = V_u32 w" for w
    proof -
      obtain x :: "32 word" where x: "found_at str ?A (octets_of e 4 x)" "x = 0 \<or> x = 1" using q b by blast
      then have "octets_at str ?A 4 = octets_of e 4 x" using found_unique[of str ?A "octets_of e 4 x"] by simp
      then show ?thesis using v(5) b x(2) by (auto simp: word_of_octets)
    qed
    then have "fits_basic c v" using v(1) fixed_not_string(1)[OF c(1) v(1)]
      by (auto simp: fits_basic_def split: DBusBasicValue.split)
    then show "basic_at str end e c p q" using v q le by (auto simp: basic_at_def basic_ok_def)
  next
    assume "basic_at str end e c p q"
    then obtain v where v: "basic_ok c v" "found_at str p (encode_basic e c v p)" "q \<le> end"
      "q = p + length (encode_basic e c v p)" by (auto simp: basic_at_def)
    have f: "fits_basic c v" "member_of c v" using v(1) by (simp_all add: basic_ok_def fits_basic_def)
    have "length (raw_basic e c v) = ?a" using f(2) fixed_not_string[OF c(1)]
      by (cases rule: member_cases) (auto simp: raw_basic_def dbus_type_get_alignment_def)
    moreover have "\<exists>w :: 32 word. found_at str ?A (octets_of e 4 w) \<and> (w = 0 \<or> w = 1)" if b: "c = DBUS_TYPE_BOOLEAN"
    proof -
      obtain w where w: "v = V_u32 w" using f(2) b by (auto elim: member_cases)
      have "found_at str ?A (raw_basic e c v)" using v(2) found_padding[OF a] by (simp add: encode_basic_def)
      then show ?thesis using w f(1) b by (auto simp: raw_basic_def fits_basic_def)
    qed
    ultimately show "q = ?A + ?a \<and> q \<le> end \<and> found_at str p (padding p ?a) \<and>
      (c = DBUS_TYPE_BOOLEAN \<longrightarrow> (\<exists>w :: 32 word. found_at str ?A (octets_of e 4 w) \<and> (w = 0 \<or> w = 1)))"
      using v le by (auto simp: encode_basic_def padding_def found_append)
  qed
qed

lemma string_like_at:
  assumes "c = DBUS_TYPE_STRING \<or> c = DBUS_TYPE_OBJECT_PATH \<or> c = DBUS_TYPE_SIGNATURE"
  shows "basic_at str end e c p q \<longleftrightarrow> q \<le> end \<and>
     (\<exists>s. basic_ok c (V_str s) \<and> found_at str p (encode_basic e c (V_str s) p) \<and> q = p + length (encode_basic e c (V_str s) p))"
proof -
  have "\<exists>s. v = V_str s" if "basic_ok c v" for v
    using that assms
    by (cases v) (auto simp: basic_ok_def fits_basic_def member_of_def)
  then show ?thesis unfolding basic_at_def by blast
qed

lemma peek_zero: "p < length str \<Longrightarrow> peek str p = Inr b \<longleftrightarrow> found_at str p [b]"
  by (auto simp: peek_def dbus_string_get_byte_def str_byte_def found_byte)

lemma string_at:
  assumes c: "c = DBUS_TYPE_STRING \<or> c = DBUS_TYPE_OBJECT_PATH" and e: "end \<le> length str"
    and m: "length str \<le> STRING_MAX_MAX_LENGTH"
  shows "validate_string str end e c p = Inr q \<and> q \<le> end \<longleftrightarrow> basic_at str end e c p q"
proof -
  let ?x = "ALIGN_VALUE p 4 + 4"
  have px: "p + length (padding p 4) = ALIGN_VALUE p 4" using align_facts(1)[of 4 p] by (simp add: padding_def)
  have enc: "encode_basic e c (V_str s) p = padding p 4 @ octets_of e 4 (word_of_nat (length s) :: 32 word) @ s @ [0]" for s
    using c by (auto simp: encode_basic_def raw_basic_def dbus_type_get_alignment_def)
  have f: "found_at str p (encode_basic e c (V_str s) p) \<longleftrightarrow>
      found_at str p (padding p 4 @ octets_of e 4 (word_of_nat (length s) :: 32 word)) \<and> found_at str ?x (s @ [0])" for s
    unfolding enc by (simp only: found_append append_assoc[symmetric] length_append px length_octets add.assoc[symmetric] conj_assoc)
  have len: "p + length (encode_basic e c (V_str s) p) = ?x + length s + 1" for s
    using px unfolding enc by simp
  have ok: "basic_ok c (V_str s) \<longleftrightarrow> contents_ok c (V_str s) \<and> length s < STRING_MAX_MAX_LENGTH" for s
    using c utf8_no_nul[of s] path_no_nul[of s]
    by (auto simp: basic_ok_def fits_basic_def member_of_def contents_ok_def)
  have sc: "string_contents str c x n = Inr y \<longleftrightarrow> y = x + n \<and> contents_ok c (V_str (octets_at str x n))" if "x + n \<le> length str" for x n y
    using that c by (auto simp: string_contents_def const_data_len_def octets_at_def contents_ok_def)
  show ?thesis
  proof
    assume v: "validate_string str end e c p = Inr q \<and> q \<le> end"
    then obtain n x where nx: "claimed_length str end e p = Inr (n, x)"
      by (cases "claimed_length str end e p") (auto simp: validate_string_def)
    obtain y where y: "n \<le> end - x" "string_contents str c x n = Inr y" "y \<noteq> end" "peek str y = Inr 0" "q = y + 1"
      using v nx by (auto simp: validate_string_def not_less split: if_splits)
    have n: "claimed_length str end e p = Inr (n, x)" "n \<le> end - x" "string_contents str c x n = Inr (x + n)"
      "x + n \<noteq> end" "peek str (x + n) = Inr 0" "q = x + n + 1"
      using nx y contents_facts(2)[OF y(2)] by simp_all
    note cl = n(1)[unfolded claimed_length_iff[OF e]]
    have x: "x = ?x" "x \<le> end" and cf: "found_at str p (padding p 4 @ octets_of e 4 (word_of_nat n :: 32 word))"
      using cl by simp_all
    let ?s = "octets_at str x n"
    have b: "x + n < length str" using n(2,4) x(2) e by linarith
    have s: "found_at str x ?s" "length ?s = n" using found_octets_at[of x n str] b by simp_all
    have "found_at str x (?s @ [0])" using s n(5) peek_zero[OF b] by (simp add: found_append)
    moreover have "contents_ok c (V_str ?s)" using n(3) sc b by simp
    ultimately have "basic_ok c (V_str ?s) \<and> found_at str p (encode_basic e c (V_str ?s) p)"
      using ok[of ?s] f[of ?s, folded x(1)] s(2) cf m b by simp
    then show "basic_at str end e c p q" using v len[of ?s] s(2) n(6) x(1) unfolding basic_at_def by auto
  next
    assume "basic_at str end e c p q"
    then obtain s where s: "basic_ok c (V_str s)" "found_at str p (encode_basic e c (V_str s) p)" "q \<le> end"
      "q = p + length (encode_basic e c (V_str s) p)"
      using string_like_at[of c] c by auto
    have q: "q = ?x + length s + 1" using s(4) len by simp
    note fs = s(2)[unfolded f]
    have n: "length s < 2 ^ 32" using s(1) ok by simp
    then have cl: "claimed_length str end e p = Inr (length s, ?x)"
      unfolding claimed_length_iff[OF e] using fs q s(3) by simp
    have sl: "octets_at str ?x (length s) = s" using fs found_unique[of str ?x s] by (simp add: found_append)
    have pk: "peek str (?x + length s) = Inr 0"
      using fs peek_zero[of "?x + length s" str 0] q s(3) e by (simp add: found_append)
    have "string_contents str c ?x (length s) = Inr (?x + length s)"
      using sc[of ?x "length s" "?x + length s"] s(1) ok sl q s(3) e by simp
    then show "validate_string str end e c p = Inr q \<and> q \<le> end"
      using cl pk q s(3) by (simp add: validate_string_def)
  qed
qed

lemma signature_value_at:
  assumes e: "end \<le> length str" and p: "p < end"
  shows "validate_signature_value str end (\<lambda>_. []) p = Inr q \<and> q \<le> end \<longleftrightarrow> basic_at str end e DBUS_TYPE_SIGNATURE p q"
proof -
  let ?c = DBUS_TYPE_SIGNATURE
  have enc: "encode_basic e ?c (V_str s) p = word_of_nat (length s) # s @ [0]" for s
    by (simp add: encode_basic_def raw_basic_def dbus_type_get_alignment_def padding_def)
  have ok: "basic_ok ?c (V_str s) \<longleftrightarrow> valid_sig s" for s
    using signature_no_nul[of s] by (auto simp: basic_ok_def fits_basic_def member_of_def contents_ok_def)
  show ?thesis
  proof
    assume v: "validate_signature_value str end (\<lambda>_. []) p = Inr q \<and> q \<le> end"
    define n where "n = unat (str ! p)"
    have pk: "peek str p = Inr (str ! p)" using p e by (simp add: peek_def dbus_string_get_byte_def str_byte_def)
    have n: "n + 1 \<le> end - (p + 1)" "dbus_validate_signature_with_reason str (p + 1) n [] = DBUS_VALID"
      "peek str (p + 1 + n) = Inr 0" "q = p + 1 + n + 1"
      using v pk by (auto simp: validate_signature_value_def signature_verdict_def Let_def n_def not_less split: if_splits)
    have b: "p + 1 + n < length str" using n(1) p e by linarith
    have z: "found_at str (p + 1 + n) [0]" using n(3) unfolding peek_zero[OF b] .
    then have "str_byte str (p + 1 + n) = 0" using b by (simp add: str_byte_def found_byte)
    then have "valid_sig (octets_at str (p + 1) n)" using valid_sig_at[of "p + 1" n str] n(2) b by simp
    moreover have s: "found_at str (p + 1) (octets_at str (p + 1) n)" "length (octets_at str (p + 1) n) = n"
      using found_octets_at[of "p + 1" n str] b by simp_all
    moreover have "word_of_nat n = str ! p" by (simp add: n_def)
    ultimately have "valid_sig (octets_at str (p + 1) n) \<and>
        found_at str p (word_of_nat (length (octets_at str (p + 1) n)) # octets_at str (p + 1) n @ [0])"
      using z p e by (simp add: found_byte found_append)
    then show "basic_at str end e ?c p q"
      using string_like_at[of ?c str "end" e p q, unfolded enc ok] v n(4) s(2) by (auto intro!: exI[of _ "octets_at str (p + 1) n"])
  next
    assume "basic_at str end e ?c p q"
    then obtain s where s: "valid_sig s" "found_at str p (word_of_nat (length s) # s @ [0])" "q \<le> end" "q = p + length s + 2"
      using string_like_at[of ?c str "end" e p q, unfolded enc] ok by auto
    have l: "length s \<le> 255" using signature_no_nul[OF s(1)] by simp
    have f: "p < length str" "str ! p = word_of_nat (length s)" "found_at str (p + 1) s" "found_at str (p + 1 + length s) [0]"
      using s(2) by (simp_all add: found_byte found_append)
    have pk: "peek str p = Inr (word_of_nat (length s))" "peek str (p + 1 + length s) = Inr 0"
      using f peek_zero[of "p + 1 + length s" str 0] s(3,4) e by (simp_all add: peek_def dbus_string_get_byte_def str_byte_def)
    have "str_byte str (p + 1 + length s) = 0" using f(4) s(3,4) e by (simp add: str_byte_def found_byte)
    moreover have "octets_at str (p + 1) (length s) = s" using f(3) found_unique by metis
    ultimately have "dbus_validate_signature_with_reason str (p + 1) (length s) [] = DBUS_VALID"
      using valid_sig_at[of "p + 1" "length s" str] s e by simp
    then show "validate_signature_value str end (\<lambda>_. []) p = Inr q \<and> q \<le> end"
      using pk s(3,4) l by (simp add: validate_signature_value_def signature_verdict_def Let_def)
  qed
qed

lemma basic_value_at:
  assumes "dbus_type_is_basic c" "end \<le> length str" "length str \<le> STRING_MAX_MAX_LENGTH" "p < end"
  shows "validate_value str end e (\<lambda>_. []) fuel rec r c p = Inr q \<and> q \<le> end \<longleftrightarrow> basic_at str end e c p q"
proof -
  consider "c = DBUS_TYPE_BYTE" | "dbus_type_is_fixed c" "c \<noteq> DBUS_TYPE_BYTE" | "c = DBUS_TYPE_STRING \<or> c = DBUS_TYPE_OBJECT_PATH"
    | "c = DBUS_TYPE_SIGNATURE"
    using assms(1) by (auto simp: basic_cases dbus_type_is_fixed_def dbus_type_is_valid_def)
  then show ?thesis
  proof cases
    case 1
    have "basic_at str end e DBUS_TYPE_BYTE p q \<longleftrightarrow> q = p + 1 \<and> q \<le> end"
    proof
      assume "q = p + 1 \<and> q \<le> end"
      then show "basic_at str end e DBUS_TYPE_BYTE p q" using assms(2)
        by (auto simp: basic_at_def encode_basic_def raw_basic_def dbus_type_get_alignment_def padding_def basic_ok_def
            fits_basic_def member_of_def contents_ok_def found_byte intro!: exI[of _ "V_byt (str ! p)"])
    next
      assume "basic_at str end e DBUS_TYPE_BYTE p q"
      then obtain v where v: "basic_ok DBUS_TYPE_BYTE v" "q = p + length (encode_basic e DBUS_TYPE_BYTE v p)" "q \<le> end"
        by (auto simp: basic_at_def)
      then obtain b where "v = V_byt b" by (cases v) (auto simp: basic_ok_def fits_basic_def member_of_def)
      then show "q = p + 1 \<and> q \<le> end" using v(2,3)
        by (simp add: encode_basic_def raw_basic_def dbus_type_get_alignment_def padding_def)
    qed
    then show ?thesis using 1 by (auto simp: validate_value_def)
  next
    case 2
    then have "validate_value str end e (\<lambda>_. []) fuel rec r c p = validate_fixed str end e c p"
      by (cases rule: fixed_cases) (auto simp: validate_value_def)
    then show ?thesis using fixed_at[OF 2 assms(2)] by simp
  next
    case 3
    then have "validate_value str end e (\<lambda>_. []) fuel rec r c p = validate_string str end e c p"
      by (auto simp: validate_value_def)
    then show ?thesis using string_at[OF 3 assms(2,3)] by simp
  next
    case 4
    then show ?thesis using signature_value_at[OF assms(2,4)] by (simp add: validate_value_def)
  qed
qed

end
