(* ===== verification/BodyTypes.thy ===== *)
theory BodyTypes
  imports BodyBasic
begin

text \<open>
  The body validator accepts the encoding of every list of well-typed values. Types-only readers are
  related to the types they stand at, and every operation of the validator is followed on the
  encoding of a value.
\<close>

section \<open>Readers at a type\<close>

definition reads_one :: "DBusTypeReader \<Rightarrow> dtype \<Rightarrow> bool" where
  "reads_one r t \<longleftrightarrow> types_only (klass r) \<and> \<not> finished r \<and> (\<exists>rest. drop (type_pos r) (type_str r) = sig_of t @ rest)"

definition reads_entry :: "DBusTypeReader \<Rightarrow> byte \<Rightarrow> dtype \<Rightarrow> bool" where
  "reads_entry r k t \<longleftrightarrow> types_only (klass r) \<and> \<not> finished r \<and>
     (\<exists>rest. drop (type_pos r) (type_str r) = DBUS_DICT_ENTRY_BEGIN_CHAR # k # sig_of t @ DBUS_DICT_ENTRY_END_CHAR # rest)"

text \<open>A list ends with the bracket of its reader's class, or with the signature.\<close>

definition ends_list :: "DBusTypeReader \<Rightarrow> byte list \<Rightarrow> bool" where
  "ends_list r rest \<longleftrightarrow>
     (case list_end (klass r) of Some c \<Rightarrow> (\<exists>x. rest = c # x) | None \<Rightarrow> rest = [] \<or> (\<exists>x. rest = 0 # x))"

definition reads_list :: "DBusTypeReader \<Rightarrow> dtype list \<Rightarrow> bool" where
  "reads_list r ts \<longleftrightarrow> types_only (klass r) \<and>
     (if ts = [] then dbus_type_reader_get_current_type r = Inr 0
      else over_types r \<and> (\<exists>rest. drop (type_pos r) (type_str r) = sigs_of ts @ rest \<and> ends_list r rest))"

lemma reads_list_one: "reads_list r (t # ts) \<Longrightarrow> reads_one r t"
  by (auto simp: reads_list_def reads_one_def over_types_def)

lemma types_only_class [simp]: "types_only k \<Longrightarrow> k \<noteq> array_reader_class"
  by (cases k) simp_all

lemma reads_one_type:
  "reads_one r t \<Longrightarrow> within sd dd ad t \<Longrightarrow> dbus_type_reader_get_current_type r = Inr (type_code t) \<and> type_code t \<noteq> 0"
  using current_type_of[of r sd dd ad t] first_type_of(2)[of sd dd ad t] by (auto simp: reads_one_def)

lemma reads_entry_type: "reads_entry r k t \<Longrightarrow> dbus_type_reader_get_current_type r = Inr DBUS_TYPE_DICT_ENTRY"
  using first_type_at[of "type_pos r" "type_str r" DBUS_DICT_ENTRY_BEGIN_CHAR]
  by (auto simp: reads_entry_def dbus_type_reader_get_current_type_def is_closing_def map_type_char_to_type_def)

lemma list_end_type:
  assumes "klass r \<noteq> array_reader_class" "\<not> finished r" "drop (type_pos r) (type_str r) = sig_of t @ rest" "ends_list r rest"
  shows "dbus_type_reader_get_current_type (step_over (length (sig_of t)) r) = Inr 0"
proof (cases "list_end (klass r)")
  case None
  have d: "drop (type_pos r + length (sig_of t)) (type_str r) = rest" by (rule drop_more[OF assms(3)])
  have l: "type_pos r + length (sig_of t) \<le> length (type_str r)"
    using arg_cong[OF assms(3), of length] sig_of_not_Nil[of t] by (cases "type_pos r \<le> length (type_str r)") auto
  have "first_type (type_str r) (type_pos r + length (sig_of t)) = Inr 0"
  proof (cases rest)
    case Nil
    then show ?thesis using d l
      by (simp add: first_type_def dbus_string_get_byte_def str_byte_def is_closing_def map_type_char_to_type_def)
  next
    case (Cons b x)
    then have "b = 0" using assms(4) None by (simp add: ends_list_def)
    then show ?thesis using first_type_at[OF d[unfolded Cons]] by (simp add: is_closing_def map_type_char_to_type_def)
  qed
  then show ?thesis using None assms(1,2) by (simp add: step_over_def dbus_type_reader_get_current_type_def)
next
  case (Some c)
  then obtain x where "rest = c # x" using assms(4) by (auto simp: ends_list_def)
  then show ?thesis using step_over_last[of r t c x] assms(3) Some by (simp add: dbus_type_reader_get_current_type_def)
qed

lemma reads_list_end:
  assumes "over_types r" "drop (type_pos r) (type_str r) = sig_of t @ rest" "ends_list r rest"
  shows "reads_list (step_over (length (sig_of t)) r) []"
proof -
  have "types_only (klass (step_over (length (sig_of t)) r))" using assms(1) by (simp add: step_over_def over_types_def Let_def)
  moreover have "klass r \<noteq> array_reader_class" using assms(1) by (auto simp: over_types_def)
  ultimately show ?thesis using list_end_type[OF _ _ assms(2,3)] assms(1) by (simp add: reads_list_def over_types_def)
qed

lemma reads_list_step:
  assumes "reads_list r (t # ts)" "withins sd dd (t # ts)"
  shows "reads_list (step_over (length (sig_of t)) r) ts"
    "agrees_on No_fuel (dbus_type_reader_next fuel r) (Inr (ts \<noteq> [], step_over (length (sig_of t)) r))"
proof -
  let ?s = "step_over (length (sig_of t)) r"
  have o: "over_types r" using assms(1) by (simp add: reads_list_def)
  obtain rest where d: "drop (type_pos r) (type_str r) = sig_of t @ sigs_of ts @ rest" "ends_list r rest"
    using assms(1) by (auto simp: reads_list_def)
  have w: "within sd dd 0 t" "withins sd dd ts" using assms(2) by simp_all
  show s: "reads_list ?s ts"
  proof (cases ts)
    case Nil
    then show ?thesis using reads_list_end[OF o _ d(2)] d(1) by simp
  next
    case (Cons u us)
    then have "?s = r\<lparr>type_pos := type_pos r + length (sig_of t)\<rparr>"
      using step_over_middle[of r t u "sigs_of us @ rest" sd dd 0] d(1) w(2) by simp
    then show ?thesis using drop_more[OF d(1)] d(2) o Cons
      by (auto simp: reads_list_def ends_list_def over_types_def)
  qed
  have "dbus_type_reader_get_current_type ?s = Inr (case ts of [] \<Rightarrow> 0 | u # _ \<Rightarrow> type_code u)"
    using s reads_one_type[OF reads_list_one[of ?s], of _ _ sd dd 0] w(2) by (cases ts) (auto simp: reads_list_def)
  moreover have "case ts of [] \<Rightarrow> True | u # _ \<Rightarrow> type_code u \<noteq> 0"
    using s reads_one_type[OF reads_list_one[of ?s], of _ _ sd dd 0] w(2) by (cases ts) auto
  ultimately have big: "dbus_type_reader_next (fuel + 2 * length (sig_of t) + 1) r = Inr (ts \<noteq> [], ?s)"
    using next_over_type[OF o w(1) d(1), of "fuel + 2 * length (sig_of t) + 1"] by (cases ts) auto
  show "agrees_on No_fuel (dbus_type_reader_next fuel r) (Inr (ts \<noteq> [], ?s))"
    using next_agrees[of fuel "fuel + 2 * length (sig_of t) + 1" r] big by simp
qed

section \<open>Descending\<close>

lemma recurse_struct:
  assumes "reads_one r (Struct ts)" "ts \<noteq> []"
  shows "\<exists>sub. dbus_type_reader_recurse r = Inr sub \<and> reads_list sub ts"
proof -
  obtain rest where d: "drop (type_pos r) (type_str r) = DBUS_STRUCT_BEGIN_CHAR # sigs_of ts @ DBUS_STRUCT_END_CHAR # rest"
    using assms(1) by (auto simp: reads_one_def)
  have d': "drop (type_pos r + 1) (type_str r) = sigs_of ts @ DBUS_STRUCT_END_CHAR # rest"
    using drop_more[of "type_pos r" "type_str r" "[DBUS_STRUCT_BEGIN_CHAR]"] d by simp
  show ?thesis using assms first_type_at[OF d] get_byte_at[OF d] d'
    by (auto simp: dbus_type_reader_recurse_def reads_one_def is_closing_def map_type_char_to_type_def Let_def
        struct_or_dict_entry_types_only_reader_recurse_def base_reader_recurse_def reader_init_def fresh_reader_def
        reads_list_def over_types_def ends_list_def)
qed

lemma recurse_entry:
  assumes "reads_entry r k t"
  shows "\<exists>sub. dbus_type_reader_recurse r = Inr sub \<and> reads_list sub [Basic k, t]"
proof -
  obtain rest where d: "drop (type_pos r) (type_str r) =
      DBUS_DICT_ENTRY_BEGIN_CHAR # k # sig_of t @ DBUS_DICT_ENTRY_END_CHAR # rest"
    using assms by (auto simp: reads_entry_def)
  have d': "drop (type_pos r + 1) (type_str r) = k # sig_of t @ DBUS_DICT_ENTRY_END_CHAR # rest"
    using drop_more[of "type_pos r" "type_str r" "[DBUS_DICT_ENTRY_BEGIN_CHAR]"] d by simp
  show ?thesis using assms first_type_at[OF d] get_byte_at[OF d] d'
    by (auto simp: dbus_type_reader_recurse_def reads_entry_def is_closing_def map_type_char_to_type_def Let_def
        struct_or_dict_entry_types_only_reader_recurse_def base_reader_recurse_def reader_init_def fresh_reader_def
        reads_list_def over_types_def ends_list_def)
qed

text \<open>The element type of an array type: its code, and the reader that \<open>recurse\<close> gives.\<close>

fun element_code :: "dtype \<Rightarrow> byte" where
  "element_code (Array t) = type_code t"
| "element_code _ = DBUS_TYPE_DICT_ENTRY"

fun reads_element :: "DBusTypeReader \<Rightarrow> dtype \<Rightarrow> bool" where
  "reads_element r (Array t) = reads_one r t"
| "reads_element r (Dict k t) = reads_entry r k t"
| "reads_element r _ = False"

lemma element_type_at:
  assumes "drop p s = sig_of t @ rest" "type_code t = DBUS_TYPE_ARRAY" "within sd dd ad t"
  shows "first_type s (p + 1) = Inr (element_code t)" "dbus_type_is_valid (element_code t)"
    "dbus_type_get_alignment (element_code t) = element_alignment t" "0 < element_alignment t" "element_alignment t \<le> 8"
proof -
  obtain u where s: "sig_of t = DBUS_TYPE_ARRAY # u" using assms(2,3) by (cases t) (auto simp: basic_cases)
  have d: "drop (p + 1) s = u @ rest" using drop_more[of p s "[DBUS_TYPE_ARRAY]"] assms(1) s by simp
  show "first_type s (p + 1) = Inr (element_code t)"
  proof (cases t)
    case (Array w)
    then have "drop (p + 1) s = sig_of w @ rest" using d s by simp
    from first_type_of(1)[of sd dd "ad + 1" w, OF _ this] show ?thesis using Array assms(3) by auto
  next
    case (Dict k w)
    then have "drop (p + 1) s = DBUS_DICT_ENTRY_BEGIN_CHAR # k # sig_of w @ [DBUS_DICT_ENTRY_END_CHAR] @ rest"
      using d s by simp
    from first_type_at[OF this] show ?thesis using Dict by (simp add: is_closing_def map_type_char_to_type_def)
  qed (use assms(2,3) in \<open>auto simp: basic_cases\<close>)
  have valid: "dbus_type_is_valid (type_code u)" if "within sd' dd' ad' u" for sd' dd' ad' u
    using that by (cases u) (auto simp: dbus_type_is_valid_def basic_cases)
  show v: "dbus_type_is_valid (element_code t)"
    using assms(2,3) valid by (cases t) (auto simp: dbus_type_is_valid_def basic_cases)
  show a: "dbus_type_get_alignment (element_code t) = element_alignment t"
    using assms(2,3) by (cases t) (auto simp: dbus_type_get_alignment_def basic_cases)
  show "0 < element_alignment t" "element_alignment t \<le> 8" using alignment_values[OF v] a by auto
qed

lemma recurse_array:
  assumes "reads_one r t" "type_code t = DBUS_TYPE_ARRAY" "within sd dd ad t"
  shows "\<exists>sub. dbus_type_reader_recurse r = Inr sub \<and> reads_element sub t"
    "array_element r = Inr (element_code t, element_alignment t)" "0 < element_alignment t"
    "dbus_type_is_valid (element_code t)"
proof -
  obtain s where s: "sig_of t = DBUS_TYPE_ARRAY # s" using assms(2,3) by (cases t) (auto simp: basic_cases)
  obtain rest where d: "drop (type_pos r) (type_str r) = sig_of t @ rest" using assms(1) by (auto simp: reads_one_def)
  have d': "drop (type_pos r + 1) (type_str r) = s @ rest"
    using drop_more[of "type_pos r" "type_str r" "[DBUS_TYPE_ARRAY]"] d s by simp
  have "\<exists>sub. dbus_type_reader_recurse r = Inr sub \<and> types_only (klass sub) \<and> \<not> finished sub \<and>
      type_str sub = type_str r \<and> type_pos sub = type_pos r + 1"
    using assms(1) first_type_at[OF d[unfolded s append_Cons]]
    by (auto simp: dbus_type_reader_recurse_def reads_one_def is_closing_def map_type_char_to_type_def Let_def
        array_types_only_reader_recurse_def base_reader_recurse_def reader_init_def fresh_reader_def)
  then show "\<exists>sub. dbus_type_reader_recurse r = Inr sub \<and> reads_element sub t"
    using d' s assms(2,3) by (cases t) (auto simp: reads_one_def reads_entry_def basic_cases)
  note el = element_type_at[OF d assms(2,3)]
  show "dbus_type_is_valid (element_code t)" "0 < element_alignment t" using el by simp_all
  have "dbus_type_reader_get_current_type r = Inr DBUS_TYPE_ARRAY" using reads_one_type[OF assms(1,3)] assms(2) by simp
  then show "array_element r = Inr (element_code t, element_alignment t)"
    using el by (simp add: array_element_def dbus_type_reader_get_element_type_def get_alignment_def)
qed

lemma reads_signature:
  assumes "ts \<noteq> []" shows "reads_list (dbus_type_reader_init_types_only (sigs_of ts) 0) ts"
  using assms by (auto simp: reads_list_def over_types_def ends_list_def dbus_type_reader_init_types_only_def reader_init_def
      fresh_reader_def)

section \<open>Encodings and their padding\<close>

abbreviation type_alignment :: "dtype \<Rightarrow> nat" where
  "type_alignment t \<equiv> dbus_type_get_alignment (type_code t)"

lemma type_alignment_pos:
  assumes "within sd dd ad t" shows "0 < type_alignment t"
proof -
  have "dbus_type_is_valid (type_code t)" using assms by (cases t) (auto simp: dbus_type_is_valid_def basic_cases)
  then show ?thesis using alignment_values by fastforce
qed

lemma padding_aligned: "0 < a \<Longrightarrow> padding (ALIGN_VALUE n a) a = []"
  by (simp add: padding_def)

lemma after_padding: "0 < a \<Longrightarrow> n + length (padding n a) = ALIGN_VALUE n a"
  using align_facts(1)[of a n] by (simp add: padding_def)

lemma frame_pad:
  "frame e a els n = padding n 4 @ frame e a els (ALIGN_VALUE n 4)" "array_start a (ALIGN_VALUE n 4) = array_start a n"
  by (simp_all add: frame_def padding_aligned array_start_def)

text \<open>The encoding of a value starts with the padding to the alignment of its type.\<close>

lemma enc_pad:
  assumes "within sd dd ad t" "a = type_alignment t"
  shows "fits e t v (ALIGN_VALUE n a) \<longleftrightarrow> fits e t v n"
    "fits e t v n \<Longrightarrow> enc e t v n = padding n a @ enc e t v (ALIGN_VALUE n a)"
proof -
  have a: "0 < a" using type_alignment_pos assms by simp
  have "(fits e t v (ALIGN_VALUE n a) \<longleftrightarrow> fits e t v n) \<and>
      (fits e t v n \<longrightarrow> enc e t v n = padding n a @ enc e t v (ALIGN_VALUE n a))"
  proof (cases t)
    case (Basic c)
    then show ?thesis using a assms(2) by (cases v) (simp_all add: encode_basic_def padding_aligned)
  next
    case Variant
    then have "a = 1" using assms(2) by (simp add: dbus_type_get_alignment_def)
    then show ?thesis by (simp add: padding_def)
  next
    case (Array u)
    then have "a = 4" using assms(2) by (simp add: dbus_type_get_alignment_def)
    then show ?thesis using Array frame_pad(1)[of e _ _ n] frame_pad(2)[of _ n] by (cases v) (simp_all add: Let_def)
  next
    case (Dict k u)
    then have "a = 4" using assms(2) by (simp add: dbus_type_get_alignment_def)
    then show ?thesis using Dict frame_pad(1)[of e _ _ n] frame_pad(2)[of _ n] by (cases v) (simp_all add: Let_def)
  next
    case (Struct ts)
    then have "a = 8" using assms(2) by (simp add: dbus_type_get_alignment_def)
    then show ?thesis using Struct by (cases v) (simp_all add: padding_aligned)
  qed
  then show "fits e t v (ALIGN_VALUE n a) \<longleftrightarrow> fits e t v n"
    "fits e t v n \<Longrightarrow> enc e t v n = padding n a @ enc e t v (ALIGN_VALUE n a)" by simp_all
qed

lemma octets_not_Nil: "0 < n \<Longrightarrow> octets_of e n w \<noteq> []"
  by (metis length_octets less_irrefl list.size(3))

lemma pieces_not_Nil: "encode_basic e c v n \<noteq> []" "frame e a els n \<noteq> []" "variant_header t \<noteq> []"
  by (cases v) (simp_all add: encode_basic_def raw_basic_def frame_def variant_header_def octets_not_Nil)

lemma fits_struct:
  assumes "fits e (Struct ts) v n"
  obtains vs where "v = Str vs" "fits_seq e ts vs (ALIGN_VALUE n 8)"
  using assms by (cases v) auto

lemma fits_seq_Cons:
  assumes "fits_seq e (t # ts) vs n"
  obtains w ws where "vs = w # ws" "fits e t w n" "fits_seq e ts ws (n + length (enc e t w n))"
  using assms by (cases vs) auto

lemma enc_not_Nil: "within sd dd ad t \<Longrightarrow> fits e t v n \<Longrightarrow> enc e t v n \<noteq> []"
proof (induction t arbitrary: v n sd dd ad)
  case (Struct ts)
  then obtain u us where ts: "ts = u # us" by (cases ts) auto
  obtain vs where v: "v = Str vs" "fits_seq e ts vs (ALIGN_VALUE n 8)" by (rule fits_struct[OF Struct.prems(2)])
  obtain w ws where "vs = w # ws" "fits e u w (ALIGN_VALUE n 8)" using fits_seq_Cons[OF v(2)[unfolded ts]] .
  then show ?case using Struct.IH[of u "Suc sd" dd 0 w "ALIGN_VALUE n 8"] Struct.prems(1) ts v(1) by (auto simp: Let_def)
next
  case (Basic c)
  then show ?case by (cases v) (simp_all add: pieces_not_Nil)
next
  case Variant
  then show ?case by (cases v) (simp_all add: pieces_not_Nil)
next
  case (Array t)
  then show ?case by (cases v) (simp_all add: pieces_not_Nil)
next
  case (Dict k t)
  then show ?case by (cases v) (simp_all add: pieces_not_Nil)
qed

section \<open>Completeness\<close>

definition holds_one :: "byte list \<Rightarrow> nat \<Rightarrow> byte \<Rightarrow> dtype \<Rightarrow> val \<Rightarrow> nat \<Rightarrow> bool" where
  "holds_one str end e t v p \<longleftrightarrow> fits e t v p \<and> found_at str p (enc e t v p) \<and> p + length (enc e t v p) \<le> end"

definition holds_list :: "byte list \<Rightarrow> nat \<Rightarrow> byte \<Rightarrow> dtype list \<Rightarrow> val list \<Rightarrow> nat \<Rightarrow> bool" where
  "holds_list str end e ts vs p \<longleftrightarrow>
     fits_seq e ts vs p \<and> found_at str p (enc_seq e ts vs p) \<and> p + length (enc_seq e ts vs p) \<le> end"

definition complete :: "byte list \<Rightarrow> nat \<Rightarrow> byte \<Rightarrow> validator \<Rightarrow> bool" where
  "complete str end e rec \<longleftrightarrow>
     (\<forall>r t v p sd dd ad. reads_one r t \<and> within sd dd ad t \<and> holds_one str end e t v p \<longrightarrow>
        agrees_on No_fuel (rec r False p) (Inr (p + length (enc e t v p)))) \<and>
     (\<forall>r ts vs p sd dd. reads_list r ts \<and> withins sd dd ts \<and> holds_list str end e ts vs p \<longrightarrow>
        agrees_on No_fuel (rec r True p) (Inr (p + length (enc_seq e ts vs p)))) \<and>
     (\<forall>r k t x v p sd dd. reads_entry r k t \<and> withins sd dd [Basic k, t] \<and> found_at str p (padding p 8) \<and>
        holds_list str end e [Basic k, t] [Val x, v] (ALIGN_VALUE p 8) \<longrightarrow>
        agrees_on No_fuel (rec r False p) (Inr (ALIGN_VALUE p 8 + length (enc_seq e [Basic k, t] [Val x, v] (ALIGN_VALUE p 8)))))"

lemma complete_one:
  "complete str end e rec \<Longrightarrow> reads_one r t \<Longrightarrow> within sd dd ad t \<Longrightarrow> holds_one str end e t v p \<Longrightarrow>
     agrees_on No_fuel (rec r False p) (Inr (p + length (enc e t v p)))"
  unfolding complete_def by (elim conjE) metis

lemma complete_list:
  "complete str end e rec \<Longrightarrow> reads_list r ts \<Longrightarrow> withins sd dd ts \<Longrightarrow> holds_list str end e ts vs p \<Longrightarrow>
     agrees_on No_fuel (rec r True p) (Inr (p + length (enc_seq e ts vs p)))"
  unfolding complete_def by (elim conjE) metis

lemma complete_entry:
  "complete str end e rec \<Longrightarrow> reads_entry r k t \<Longrightarrow> withins sd dd [Basic k, t] \<Longrightarrow> found_at str p (padding p 8) \<Longrightarrow>
     holds_list str end e [Basic k, t] [Val x, v] (ALIGN_VALUE p 8) \<Longrightarrow>
     agrees_on No_fuel (rec r False p) (Inr (ALIGN_VALUE p 8 + length (enc_seq e [Basic k, t] [Val x, v] (ALIGN_VALUE p 8))))"
  unfolding complete_def by (elim conjE) metis

text \<open>Results up to lack of fuel, in sequence.\<close>

lemma yields_then:
  "agrees_on No_fuel x (Inr y) \<Longrightarrow> agrees_on No_fuel (f y) z \<Longrightarrow> agrees_on No_fuel (and_then x f) z"
  by (cases x) (auto simp: agrees_on_def)

lemma yields_eq: "x = y \<Longrightarrow> agrees_on No_fuel x y"
  by (simp add: agrees_on_def)

lemma holds_list_Cons:
  assumes "holds_list str end e (t # ts) vs p"
  obtains w ws where "vs = w # ws" "holds_one str end e t w p" "holds_list str end e ts ws (p + length (enc e t w p))"
    "p + length (enc_seq e (t # ts) vs p) = p + length (enc e t w p) + length (enc_seq e ts ws (p + length (enc e t w p)))"
proof -
  obtain w ws where "vs = w # ws" "fits e t w p" "fits_seq e ts ws (p + length (enc e t w p))"
    using assms fits_seq_Cons unfolding holds_list_def by metis
  then show ?thesis using assms that by (auto simp: holds_list_def holds_one_def Let_def found_append)
qed

lemma boolean_loop_complete:
  "ALIGN_VALUE p 4 = p \<Longrightarrow> fits_all e (Basic DBUS_TYPE_BOOLEAN) vs p \<Longrightarrow>
   found_at str p (enc_all e (Basic DBUS_TYPE_BOOLEAN) vs p) \<Longrightarrow>
   boolean_loop str e p (p + length (enc_all e (Basic DBUS_TYPE_BOOLEAN) vs p)) =
     Inr (p + length (enc_all e (Basic DBUS_TYPE_BOOLEAN) vs p))"
proof (induction vs arbitrary: p)
  case Nil
  then show ?case by (simp add: boolean_loop.simps)
next
  case (Cons v vs)
  obtain x where "v = Val x" "basic_ok DBUS_TYPE_BOOLEAN x" using Cons.prems(2) by (cases v) auto
  then obtain w where v: "v = Val (V_u32 w)" "w = 0 \<or> w = 1"
    by (cases x) (auto simp: basic_ok_def fits_basic_def member_of_def)
  have enc: "enc e (Basic DBUS_TYPE_BOOLEAN) v p = octets_of e 4 w"
    using Cons.prems(1) v(1) by (simp add: encode_basic_def dbus_type_get_alignment_def padding_def raw_basic_def)
  have "4 dvd p + 4" using Cons.prems(1) align_facts(3)[of 4 p] by simp
  then have a: "ALIGN_VALUE (p + 4) 4 = p + 4" by (simp add: align_self)
  have f: "found_at str p (octets_of e 4 w)" "found_at str (p + 4) (enc_all e (Basic DBUS_TYPE_BOOLEAN) vs (p + 4))"
    "fits_all e (Basic DBUS_TYPE_BOOLEAN) vs (p + 4)"
    using Cons.prems(2,3) enc by (simp_all add: Let_def found_append)
  have "check_boolean str e p = Inr ()" using check_boolean_iff[OF Cons.prems(1)] f(1) v(2) by blast
  then show ?case using Cons.IH[OF a f(3,2)] enc
    by (subst boolean_loop.simps) (simp add: Let_def add.assoc)
qed

lemma element_loop_array:
  assumes "complete str end e rec" "reads_one sub t" "within sd dd ad t"
  shows "fits_all e t vs p \<Longrightarrow> found_at str p (enc_all e t vs p) \<Longrightarrow> p + length (enc_all e t vs p) \<le> end \<Longrightarrow>
    agrees_on No_fuel (element_loop fuel rec sub p (p + length (enc_all e t vs p))) (Inr (p + length (enc_all e t vs p)))"
proof (induction fuel arbitrary: vs p)
  case (Suc fuel)
  show ?case
  proof (cases vs)
    case Nil
    then show ?thesis by (simp add: agrees_refl)
  next
    case (Cons w ws)
    let ?q = "p + length (enc e t w p)"
    have h: "holds_one str end e t w p" "fits_all e t ws ?q" "found_at str ?q (enc_all e t ws ?q)"
      "?q + length (enc_all e t ws ?q) \<le> end"
      using Suc.prems Cons by (simp_all add: holds_one_def Let_def found_append)
    have "0 < length (enc e t w p)" using enc_not_Nil[OF assms(3)] h(1) by (simp add: holds_one_def)
    then show ?thesis using complete_one[OF assms(1-3) h(1)] Suc.IH[OF h(2-4)] Cons
      by (simp add: Let_def add.assoc yields_then)
  qed
qed (simp add: agrees_on_def)

lemma element_loop_entries:
  assumes "complete str end e rec" "reads_entry sub k t" "withins sd dd [Basic k, t]"
  shows "fits_entries e k t kvs p \<Longrightarrow> found_at str p (enc_entries e k t kvs p) \<Longrightarrow> p + length (enc_entries e k t kvs p) \<le> end \<Longrightarrow>
    agrees_on No_fuel (element_loop fuel rec sub p (p + length (enc_entries e k t kvs p)))
      (Inr (p + length (enc_entries e k t kvs p)))"
proof (induction fuel arbitrary: kvs p)
  case (Suc fuel)
  show ?case
  proof (cases kvs)
    case Nil
    then show ?thesis by (simp add: agrees_refl)
  next
    case (Cons w ws)
    obtain x v where w: "w = (x, v)" by (cases w)
    let ?a = "ALIGN_VALUE p 8"
    let ?q = "?a + length (enc_seq e [Basic k, t] [Val x, v] ?a)"
    have l: "p + length (padding p 8) = ?a" using after_padding by simp
    have h: "found_at str p (padding p 8)" "holds_list str end e [Basic k, t] [Val x, v] ?a" "fits_entries e k t ws ?q"
      "found_at str ?q (enc_entries e k t ws ?q)" "?q + length (enc_entries e k t ws ?q) \<le> end"
      "p + length (enc_entries e k t kvs p) = ?q + length (enc_entries e k t ws ?q)"
      using Suc.prems Cons w l by (simp_all add: holds_list_def Let_def found_append add.assoc)
    have "0 < length (encode_basic e k x ?a)" using pieces_not_Nil(1) by blast
    then have "p < ?q + length (enc_entries e k t ws ?q)"
      using align_facts(1)[of 8 p] by (simp add: Let_def del: length_greater_0_conv)
    then show ?thesis using complete_entry[OF assms h(1,2)] Suc.IH[OF h(3-5)] unfolding h(6) by (simp add: yields_then)
  qed
qed (simp add: agrees_on_def)

text \<open>An array as the validator reads it: the length, the padding and the contents.\<close>

lemma frame_length: "0 < a \<Longrightarrow> p + length (frame e a els p) = array_start a p + length els"
  using after_padding[of 4 p] after_padding[of a "ALIGN_VALUE p 4 + 4"] by (simp add: frame_def array_start_def)

lemma found_frame:
  assumes "0 < a"
  shows "found_at str p (frame e a els p) \<longleftrightarrow>
    found_at str p (padding p 4 @ octets_of e 4 (word_of_nat (length els) :: 32 word)) \<and>
    found_at str (ALIGN_VALUE p 4 + 4) (padding (ALIGN_VALUE p 4 + 4) a) \<and> found_at str (array_start a p) els"
  using after_padding[of 4 p] after_padding[of a "ALIGN_VALUE p 4 + 4"] assms
  by (simp add: frame_def array_start_def found_append add.assoc[symmetric] conj_assoc)

lemma frame_at:
  assumes "0 < a" "end \<le> length str"
  shows "claimed_length str end e p = Inr (n, q) \<and> pad_to str end q (ALIGN_VALUE q a) = Inr x \<and> n \<le> end - x \<longleftrightarrow>
    q = ALIGN_VALUE p 4 + 4 \<and> x = array_start a p \<and> x + n \<le> end \<and> n < 2 ^ 32 \<and>
    found_at str p (frame e a (octets_at str x n) p)" (is "?l \<longleftrightarrow> ?r")
proof
  assume l: ?l
  note c = l[THEN conjunct1, unfolded claimed_length_iff[OF assms(2)]]
  have d: "x = ALIGN_VALUE q a" "x \<le> end" "found_at str q (padding q a)" "n \<le> end - x"
    using l unfolding pad_to_iff[OF assms] by auto
  have x: "x = array_start a p" using c d(1) by (simp add: array_start_def)
  have n: "x + n \<le> end" using d(2,4) by simp
  then have "found_at str x (octets_at str x n) \<and> length (octets_at str x n) = n" using assms(2) found_octets_at[of x n str] by simp
  then show ?r using c d(3) n x by (simp add: found_frame[OF assms(1)])
next
  assume r: ?r
  then have len: "length (octets_at str x n) = n" using assms(2) found_octets_at[of x n str] by simp
  moreover have "ALIGN_VALUE p 4 + 4 \<le> x" using r align_facts(1)[OF assms(1)] by (simp add: array_start_def)
  moreover have "n \<le> end - x" using r by linarith
  ultimately show ?l using r[unfolded found_frame[OF assms(1)] len]
    unfolding claimed_length_iff[OF assms(2)] pad_to_iff[OF assms] by (simp add: array_start_def)
qed

lemma fixed_type:
  assumes "within sd dd ad t" "dbus_type_is_fixed (type_code t)" shows "t = Basic (type_code t)"
  using assms by (cases t) (auto simp: dbus_type_is_fixed_def dbus_type_is_valid_def)

text \<open>The contents of an array are read as its elements, one after the other.\<close>

fun elements :: "byte \<Rightarrow> dtype \<Rightarrow> val \<Rightarrow> nat \<Rightarrow> byte list" where
  "elements e (Array t) (Arr vs) s = enc_all e t vs s"
| "elements e (Array t) (Raw bs) s = bs"
| "elements e (Dict k t) (Dic kvs) s = enc_entries e k t kvs s"
| "elements e _ _ s = []"

fun fits_elements :: "byte \<Rightarrow> dtype \<Rightarrow> val \<Rightarrow> nat \<Rightarrow> bool" where
  "fits_elements e (Array t) (Arr vs) s \<longleftrightarrow> fits_all e t vs s"
| "fits_elements e (Array t) (Raw bs) s \<longleftrightarrow> dbus_type_is_fixed (type_code t) \<and> type_code t \<noteq> DBUS_TYPE_BOOLEAN"
| "fits_elements e (Dict k t) (Dic kvs) s \<longleftrightarrow> fits_entries e k t kvs s"
| "fits_elements e _ _ s \<longleftrightarrow> False"

lemma array_framed:
  assumes "type_code t = DBUS_TYPE_ARRAY" "within sd dd ad t"
  shows "fits e t v p \<longleftrightarrow> fits_elements e t v (array_start (element_alignment t) p) \<and>
      length (elements e t v (array_start (element_alignment t) p)) \<le> DBUS_MAXIMUM_ARRAY_LENGTH"
    "fits e t v p \<Longrightarrow> enc e t v p = frame e (element_alignment t) (elements e t v (array_start (element_alignment t) p)) p"
  using assms by (cases t; cases v; simp add: Let_def; auto simp: basic_cases)+

lemma elements_aligned:
  assumes "within sd dd ad t" "type_code t = DBUS_TYPE_ARRAY" "element_code t = DBUS_TYPE_BOOLEAN"
  shows "t = Array (Basic DBUS_TYPE_BOOLEAN) \<and> ALIGN_VALUE (array_start (element_alignment t) p) 4 = array_start (element_alignment t) p"
proof (cases t)
  case (Array u)
  then have "u = Basic DBUS_TYPE_BOOLEAN" using assms fixed_type[of sd dd "ad + 1" u] by (auto simp: dbus_type_is_fixed_def dbus_type_is_valid_def)
  then show ?thesis using Array by (simp add: array_start_def dbus_type_get_alignment_def)
qed (use assms in \<open>auto simp: basic_cases\<close>)

lemma array_complete:
  assumes rec: "complete str end e rec" and r: "reads_one r t" "type_code t = DBUS_TYPE_ARRAY" "within sd dd ad t"
    and h: "holds_one str end e t v p" and l: "end \<le> length str"
  shows "agrees_on No_fuel (validate_array str end e fuel rec r p) (Inr (p + length (enc e t v p)))"
proof -
  let ?a = "element_alignment t"
  let ?x = "array_start ?a p"
  let ?els = "elements e t v ?x"
  let ?n = "length ?els"
  note el = recurse_array[OF r]
  note ok = array_framed[OF r(2,3), of e v p]
  have enc: "enc e t v p = frame e ?a ?els p" and f: "fits_elements e t v ?x" "?n \<le> DBUS_MAXIMUM_ARRAY_LENGTH"
    using h ok by (simp_all add: holds_one_def)
  have q: "p + length (enc e t v p) = ?x + ?n" using frame_length[OF el(3)] enc by simp
  have found: "found_at str p (frame e ?a ?els p)" "?x + ?n \<le> end" using h enc q by (simp_all add: holds_one_def)
  then have els: "found_at str ?x ?els" using found_frame[OF el(3)] by simp
  then have "octets_at str ?x ?n = ?els" using found_unique by metis
  then have read: "claimed_length str end e p = Inr (?n, ALIGN_VALUE p 4 + 4)"
    "pad_to str end (ALIGN_VALUE p 4 + 4) (ALIGN_VALUE (ALIGN_VALUE p 4 + 4) ?a) = Inr ?x" "?n \<le> end - ?x"
    using frame_at[OF el(3) l, of e p ?n "ALIGN_VALUE p 4 + 4" ?x] found f(2) by simp_all
  obtain sub where sub: "dbus_type_reader_recurse r = Inr sub" "reads_element sub t" using el(1) by blast
  have contents: "agrees_on No_fuel
      (if dbus_type_is_fixed (element_code t) then
         if element_code t = DBUS_TYPE_BOOLEAN then boolean_loop str e ?x (?x + ?n) else Inr (?x + ?n)
       else element_loop fuel rec sub ?x (?x + ?n)) (Inr (?x + ?n))"
  proof (cases "dbus_type_is_fixed (element_code t)")
    case True
    then show ?thesis
    proof (cases "element_code t = DBUS_TYPE_BOOLEAN")
      case True
      note b = elements_aligned[OF r(3,2) True, of p]
      then obtain vs where "v = Arr vs" using f(1) by (cases v) (auto simp: dbus_type_is_fixed_def)
      then have "boolean_loop str e ?x (?x + ?n) = Inr (?x + ?n)"
        using b f(1) els boolean_loop_complete[of ?x e vs str] by (elim conjE) simp
      then show ?thesis using True by (auto simp: agrees_refl dbus_type_is_fixed_def dbus_type_is_valid_def)
    qed (simp add: agrees_refl)
  next
    case False
    have "agrees_on No_fuel (element_loop fuel rec sub ?x (?x + ?n)) (Inr (?x + ?n))"
    proof (cases t)
      case (Array u)
      then obtain vs where v: "v = Arr vs" using f(1) False by (cases v) auto
      show ?thesis using element_loop_array[OF rec, of sub u sd dd "ad + 1" vs ?x fuel] Array v f(1) sub(2) r(3) els found(2) by simp
    next
      case (Dict k u)
      then obtain kvs where v: "v = Dic kvs" using f(1) by (cases v) auto
      show ?thesis using element_loop_entries[OF rec, of sub k u sd "dd + 1" kvs ?x fuel] Dict v f(1) sub(2) r(3) els found(2) by simp
    qed (use f(1) in \<open>cases v; simp\<close>)+
    then show ?thesis using False by simp
  qed
  have "agrees_on No_fuel (array_elements str e fuel rec r (element_code t) ?x ?n) (Inr (?x + ?n))"
    unfolding array_elements_def Let_def sub(1) and_then.simps
    using f(2) by (simp add: yields_then[OF contents] agrees_refl)
  then show ?thesis unfolding q validate_array_def read(1) el(2) and_then.simps prod.case
    using read(2,3) by (auto simp: agrees_refl)
qed

text \<open>The other containers.\<close>

lemma struct_complete:
  assumes "complete str end e rec" "reads_one r (Struct ts)" "within sd dd ad (Struct ts)"
    and "holds_one str end e (Struct ts) v p" "end \<le> length str"
  shows "agrees_on No_fuel (validate_struct str end rec r p) (Inr (p + length (enc e (Struct ts) v p)))"
proof -
  let ?a = "ALIGN_VALUE p 8"
  obtain vs where v: "v = Str vs" "fits_seq e ts vs ?a" using assms(4) fits_struct unfolding holds_one_def by metis
  have l: "p + length (padding p 8) = ?a" using after_padding by simp
  have h: "found_at str p (padding p 8)" "holds_list str end e ts vs ?a" "p + length (enc e (Struct ts) v p) = ?a + length (enc_seq e ts vs ?a)"
    using assms(4) v l by (simp_all add: holds_one_def holds_list_def found_append add.assoc)
  have pad: "pad_to str end p ?a = Inr ?a" using h(1,2) assms(5) by (subst pad_to_iff) (simp_all add: holds_list_def)
  obtain sub where "dbus_type_reader_recurse r = Inr sub" "reads_list sub ts" using recurse_struct[OF assms(2)] assms(3) by auto
  then show ?thesis using complete_list[OF assms(1), of sub ts "sd + 1" dd vs ?a] assms(3) h(2) pad unfolding h(3)
    by (simp add: validate_struct_def)
qed

lemma entry_complete:
  assumes "complete str end e rec" "reads_entry r k t" "withins sd dd [Basic k, t]" "found_at str p (padding p 8)"
    and "holds_list str end e [Basic k, t] [Val x, v] (ALIGN_VALUE p 8)" "end \<le> length str"
  shows "agrees_on No_fuel (validate_struct str end rec r p)
    (Inr (ALIGN_VALUE p 8 + length (enc_seq e [Basic k, t] [Val x, v] (ALIGN_VALUE p 8))))"
proof -
  let ?a = "ALIGN_VALUE p 8"
  have pad: "pad_to str end p ?a = Inr ?a" using assms(4-6) by (subst pad_to_iff) (simp_all add: holds_list_def)
  obtain sub where "dbus_type_reader_recurse r = Inr sub" "reads_list sub [Basic k, t]" using recurse_entry[OF assms(2)] by blast
  then show ?thesis using complete_list[OF assms(1) _ assms(3,5), of sub] pad by (simp add: validate_struct_def)
qed

lemma variant_signature_iff:
  assumes e: "end \<le> length str" and p: "p < end"
  shows "variant_signature str end (\<lambda>_. []) p = Inr (s, q) \<longleftrightarrow>
    valid_sig s \<and> found_at str p (word_of_nat (length s) # s @ [0]) \<and> q = p + length s + 2 \<and> q \<le> end"
proof
  assume v: "variant_signature str end (\<lambda>_. []) p = Inr (s, q)"
  define n where "n = unat (str ! p)"
  have pk: "peek str p = Inr (str ! p)" using p e by (simp add: peek_def dbus_string_get_byte_def str_byte_def)
  have n: "n + 1 \<le> end - (p + 1)" "const_data_len str (p + 1) n = Some s"
    "dbus_validate_signature_with_reason str (p + 1) n [] = DBUS_VALID" "peek str (p + 1 + n) = Inr 0" "q = p + 1 + n + 1"
    using v pk by (auto simp: variant_signature_def variant_verdict_def Let_def n_def not_less split: if_splits)
  have b: "p + 1 + n < length str" using n(1) p e by linarith
  have z: "found_at str (p + 1 + n) [0]" using n(4) unfolding peek_zero[OF b] .
  then have "str_byte str (p + 1 + n) = 0" using b by (simp add: str_byte_def found_byte)
  then have "valid_sig (octets_at str (p + 1) n)" using valid_sig_at[of "p + 1" n str] n(3) b by simp
  moreover have s: "s = octets_at str (p + 1) n" "found_at str (p + 1) s" "length s = n"
    using n(2) found_octets_at[of "p + 1" n str] b by (auto simp: const_data_len_def octets_at_def split: if_splits)
  moreover have "word_of_nat n = str ! p" by (simp add: n_def)
  ultimately show "valid_sig s \<and> found_at str p (word_of_nat (length s) # s @ [0]) \<and> q = p + length s + 2 \<and> q \<le> end"
    using z p e n(1,5) by (simp add: found_byte found_append)
next
  assume s: "valid_sig s \<and> found_at str p (word_of_nat (length s) # s @ [0]) \<and> q = p + length s + 2 \<and> q \<le> end"
  have l: "length s \<le> 255" using signature_no_nul s by simp
  have f: "p < length str" "str ! p = word_of_nat (length s)" "found_at str (p + 1) s" "found_at str (p + 1 + length s) [0]"
    using s by (simp_all add: found_byte found_append)
  have pk: "peek str p = Inr (word_of_nat (length s))" "peek str (p + 1 + length s) = Inr 0"
    using f peek_zero[of "p + 1 + length s" str 0] s e by (simp_all add: peek_def dbus_string_get_byte_def str_byte_def)
  have c: "const_data_len str (p + 1) (length s) = Some s" using found_const[OF f(3)] .
  have "str_byte str (p + 1 + length s) = 0" using f(4) s e by (simp add: str_byte_def found_byte)
  moreover have "octets_at str (p + 1) (length s) = s" using f(3) found_unique by metis
  ultimately have "dbus_validate_signature_with_reason str (p + 1) (length s) [] = DBUS_VALID"
    using valid_sig_at[of "p + 1" "length s" str] s e by simp
  moreover have "length s + 1 \<le> end - (p + 1)" using s by linarith
  ultimately show "variant_signature str end (\<lambda>_. []) p = Inr (s, q)"
    using pk c s l by (simp add: variant_signature_def variant_verdict_def Let_def)
qed

lemma contained_type:
  assumes "within sd dd ad t"
  shows "contained_alignment (sig_of t) = Inr (type_alignment t)"
proof -
  have "first_type (sig_of t) 0 = Inr (type_code t)" "type_code t \<noteq> 0"
    using first_type_of[OF assms, of 0 "sig_of t" "[]"] by simp_all
  then show ?thesis using type_alignment_pos[OF assms] by (simp add: contained_alignment_def get_alignment_def Let_def)
qed

lemma header_length: "length (variant_header t) = length (sig_of t) + 2"
  by (simp add: variant_header_def)

lemma variant_contents_complete:
  assumes "complete str end e rec" "within 0 0 0 t" "holds_one str end e t w q"
  shows "agrees_on No_fuel (variant_contents fuel rec (dbus_type_reader_init_types_only (sig_of t) 0) q) (Inr (q + length (enc e t w q)))"
proof -
  let ?sub = "dbus_type_reader_init_types_only (sig_of t) 0"
  have r: "reads_list ?sub [t]" using reads_signature[of "[t]"] by simp
  note o = reads_list_one[OF r]
  note ty = reads_one_type[OF o assms(2)]
  note step = reads_list_step[OF r, of 0 0]
  have "dbus_type_reader_get_current_type (step_over (length (sig_of t)) ?sub) = Inr 0"
    using step(1) assms(2) by (simp add: reads_list_def)
  then show ?thesis
    unfolding variant_contents_def ty[THEN conjunct1] and_then.simps
    using ty step(2)[of fuel] assms(2)
    by (auto intro!: yields_then[OF complete_one[OF assms(1) o assms(2,3)]] yields_then simp: agrees_refl)
qed

lemma variant_complete:
  assumes "complete str end e rec" "holds_one str end e Variant v p" "end \<le> length str"
  shows "agrees_on No_fuel (validate_variant str end (\<lambda>_. []) fuel rec p) (Inr (p + length (enc e Variant v p)))"
proof -
  obtain t w where v: "v = Var t w" using assms(2) by (cases v) (auto simp: holds_one_def)
  let ?q = "p + length (variant_header t)"
  let ?a = "type_alignment t"
  have f: "within 0 0 0 t" "length (sig_of t) \<le> DBUS_MAXIMUM_SIGNATURE_LENGTH" "fits e t w ?q"
    and found: "found_at str p (variant_header t)" "found_at str ?q (enc e t w ?q)"
    and le: "?q + length (enc e t w ?q) \<le> end"
    using assms(2) v by (simp_all add: holds_one_def found_append add.assoc)
  have "valid_sig (sig_of t)"
    using sigs_of_valid[of "[t]"] f by (simp add: dbus_validate_signature_def)
  then have sig: "variant_signature str end (\<lambda>_. []) p = Inr (sig_of t, ?q)"
    using found(1) le by (subst variant_signature_iff[OF assms(3)]) (simp_all add: variant_header_def header_length)
  note a = type_alignment_pos[OF f(1)]
  note e = enc_pad[OF f(1) refl, of e w ?q]
  have enc: "enc e t w ?q = padding ?q ?a @ enc e t w (ALIGN_VALUE ?q ?a)" using e(2)[OF f(3)] .
  have al: "?q + length (padding ?q ?a) = ALIGN_VALUE ?q ?a" by (rule after_padding[OF a])
  have h: "holds_one str end e t w (ALIGN_VALUE ?q ?a)" "found_at str ?q (padding ?q ?a)"
    "?q + length (enc e t w ?q) = ALIGN_VALUE ?q ?a + length (enc e t w (ALIGN_VALUE ?q ?a))"
    using found(2) le e(1) f(3) al unfolding enc holds_one_def by (simp_all add: found_append add.assoc[symmetric])
  have pad: "pad_to str end ?q (ALIGN_VALUE ?q ?a) = Inr (ALIGN_VALUE ?q ?a)"
    using h by (subst pad_to_iff[OF a assms(3)]) (simp add: holds_one_def)
  show ?thesis using variant_contents_complete[OF assms(1) f(1) h(1), of fuel] h(3) v
    by (simp add: validate_variant_def sig contained_type[OF f(1)] pad add.assoc)
qed

lemma value_complete:
  assumes "complete str end e rec" "reads_one r t" "within sd dd ad t" "holds_one str end e t v p"
    and "end \<le> length str" "length str \<le> STRING_MAX_MAX_LENGTH"
  shows "agrees_on No_fuel (validate_value str end e (\<lambda>_. []) fuel rec r (type_code t) p) (Inr (p + length (enc e t v p)))"
proof (cases t)
  case (Basic c)
  then obtain x where v: "v = Val x" "basic_ok c x" using assms(4) by (cases v) (auto simp: holds_one_def)
  have c: "dbus_type_is_basic c" using Basic assms(3) by simp
  have "0 < length (enc e t v p)" using enc_not_Nil[OF assms(3), of e v p] assms(4) by (simp add: holds_one_def)
  then have "p < end" using assms(4) unfolding holds_one_def by linarith
  moreover have "basic_at str end e c p (p + length (enc e t v p))"
    using assms(4) v Basic by (auto simp: holds_one_def basic_at_def)
  ultimately have "validate_value str end e (\<lambda>_. []) fuel rec r c p = Inr (p + length (enc e t v p))"
    using basic_value_at[OF c assms(5,6)] by blast
  then show ?thesis using Basic by (simp add: agrees_refl)
next
  case Variant
  then show ?thesis using variant_complete[OF assms(1) _ assms(5)] assms(4) by (simp add: validate_value_def)
next
  case (Array u)
  then show ?thesis using array_complete[OF assms(1,2) _ assms(3-5)] by (simp add: validate_value_def)
next
  case (Dict k u)
  then show ?thesis using array_complete[OF assms(1,2) _ assms(3-5)] by (simp add: validate_value_def)
next
  case (Struct ts)
  then show ?thesis using struct_complete[OF assms(1), of r ts sd dd ad v p] assms(2-5) by (simp add: validate_value_def)
qed

lemma step_one:
  assumes "dbus_type_reader_get_current_type r = Inr c" "c \<noteq> 0" "p < q" "q \<le> end"
    and "agrees_on No_fuel (validate_value str end e mem fuel rec r c p) (Inr q)"
  shows "agrees_on No_fuel (validate_step str end e mem fuel rec r False p) (Inr q)"
    "dbus_type_reader_next fuel r = Inr (m, r') \<Longrightarrow> agrees_on No_fuel (rec r' True q) (Inr x) \<Longrightarrow>
       agrees_on No_fuel (validate_step str end e mem fuel rec r True p) (Inr x)"
    "dbus_type_reader_next fuel r = Inl No_fuel \<Longrightarrow> agrees_on No_fuel (validate_step str end e mem fuel rec r True p) (Inr x)"
  using assms by (auto simp: validate_step_def agrees_refl intro!: yields_then[OF assms(5)]) (simp_all add: agrees_on_def)

lemma helper_complete:
  assumes "end \<le> length str" "length str \<le> STRING_MAX_MAX_LENGTH"
  shows "complete str end e (validate_body_helper str end e (\<lambda>_. []) fuel)"
proof (induction fuel)
  case 0
  then show ?case by (simp add: complete_def validate_body_helper.simps agrees_on_def)
next
  case (Suc fuel)
  let ?rec = "validate_body_helper str end e (\<lambda>_. []) fuel"
  have one: "p < p + length (enc e t v p) \<and> p + length (enc e t v p) \<le> end"
    if "within sd dd ad t" "holds_one str end e t v p" for t v p sd dd ad
    using enc_not_Nil[OF that(1), of e v p] that(2) unfolding holds_one_def by simp
  have v: "agrees_on No_fuel (validate_step str end e (\<lambda>_. []) fuel ?rec r False p) (Inr (p + length (enc e t v p)))"
    if "reads_one r t" "within sd dd ad t" "holds_one str end e t v p" for r t v p sd dd ad
    using one[OF that(2,3)]
    by (intro step_one(1)[OF reads_one_type[OF that(1,2), THEN conjunct1] reads_one_type[OF that(1,2), THEN conjunct2]]
        value_complete[OF Suc.IH that assms]) simp_all
  have l: "agrees_on No_fuel (validate_step str end e (\<lambda>_. []) fuel ?rec r True p) (Inr (p + length (enc_seq e ts vs p)))"
    if a: "reads_list r ts" "withins sd dd ts" "holds_list str end e ts vs p" for r ts vs p sd dd
  proof (cases ts)
    case Nil
    then show ?thesis using a by (simp add: validate_step_def reads_list_def agrees_refl)
  next
    case (Cons t us)
    obtain w ws where w: "vs = w # ws" "holds_one str end e t w p" "holds_list str end e us ws (p + length (enc e t w p))"
      "p + length (enc_seq e ts vs p) = p + length (enc e t w p) + length (enc_seq e us ws (p + length (enc e t w p)))"
      using holds_list_Cons a(3) Cons by metis
    have wi: "within sd dd 0 t" "withins sd dd us" using a(2) Cons by simp_all
    note o = reads_list_one[OF a(1)[unfolded Cons]]
    note st = reads_list_step[OF a(1)[unfolded Cons] a(2)[unfolded Cons]]
    have val: "agrees_on No_fuel (validate_value str end e (\<lambda>_. []) fuel ?rec r (type_code t) p) (Inr (p + length (enc e t w p)))"
      by (rule value_complete[OF Suc.IH o wi(1) w(2) assms])
    note ty = reads_one_type[OF o wi(1)]
    note s = step_one[OF ty[THEN conjunct1] ty[THEN conjunct2] one[OF wi(1) w(2), THEN conjunct1] one[OF wi(1) w(2), THEN conjunct2] val]
    show ?thesis unfolding w(4)
      using st(2)[of fuel] s(2) s(3) complete_list[OF Suc.IH st(1) wi(2) w(3)]
      by (auto simp: agrees_on_def[of _ "dbus_type_reader_next fuel r"])
  qed
  have d: "agrees_on No_fuel (validate_step str end e (\<lambda>_. []) fuel ?rec r False p)
      (Inr (ALIGN_VALUE p 8 + length (enc_seq e [Basic k, t] [Val x, v] (ALIGN_VALUE p 8))))"
    if "reads_entry r k t" "withins sd dd [Basic k, t]" "found_at str p (padding p 8)"
      "holds_list str end e [Basic k, t] [Val x, v] (ALIGN_VALUE p 8)" for r k t x v p sd dd
  proof (rule step_one(1)[OF reads_entry_type[OF that(1)]])
    have "0 < length (encode_basic e k x (ALIGN_VALUE p 8))" using pieces_not_Nil(1) by blast
    then show "p < ALIGN_VALUE p 8 + length (enc_seq e [Basic k, t] [Val x, v] (ALIGN_VALUE p 8))"
      using align_facts(1)[of 8 p] by (simp add: Let_def del: length_greater_0_conv)
    show "ALIGN_VALUE p 8 + length (enc_seq e [Basic k, t] [Val x, v] (ALIGN_VALUE p 8)) \<le> end"
      using that(4) by (simp add: holds_list_def)
    show "agrees_on No_fuel (validate_value str end e (\<lambda>_. []) fuel ?rec r DBUS_TYPE_DICT_ENTRY p)
        (Inr (ALIGN_VALUE p 8 + length (enc_seq e [Basic k, t] [Val x, v] (ALIGN_VALUE p 8))))"
      using entry_complete[OF Suc.IH that assms(1)] by (simp add: validate_value_def)
  qed simp
  show ?case unfolding complete_def validate_body_helper.simps
    by (intro conjI allI impI; elim conjE) (rule v, assumption+ | rule l, assumption+ | rule d, assumption+)+
qed

lemma empty_list: "reads_list (dbus_type_reader_init_types_only (sigs_of []) 0) []"
  by (simp add: reads_list_def dbus_type_reader_init_types_only_def reader_init_def fresh_reader_def
      dbus_type_reader_get_current_type_def first_type_def dbus_string_get_byte_def str_byte_def is_closing_def
      map_type_char_to_type_def)

lemma helper_accepts:
  assumes "withins 0 0 ts" "holds_list values end e ts vs p" "end \<le> length values" "length values \<le> STRING_MAX_MAX_LENGTH"
  shows "agrees_on No_fuel (validate_body_helper values end e (\<lambda>_. []) fuel (dbus_type_reader_init_types_only (sigs_of ts) 0) True p)
    (Inr (p + length (enc_seq e ts vs p)))"
proof -
  have "reads_list (dbus_type_reader_init_types_only (sigs_of ts) 0) ts"
    using reads_signature[of ts] empty_list by (cases "ts = []") simp_all
  then show ?thesis by (rule complete_list[OF helper_complete[OF assms(3,4)] _ assms(1,2)])
qed

lemma body_complete:
  assumes "withins 0 0 ts" "length (sigs_of ts) \<le> DBUS_MAXIMUM_SIGNATURE_LENGTH"
    and "fits_seq e ts vs (length pre)" "body = enc_seq e ts vs (length pre)"
    and "length (pre @ body @ rest) \<le> STRING_MAX_MAX_LENGTH" "513 * (length body + extra + 1) \<le> fuel" "extra \<le> length rest"
  shows "dbus_validate_body_with_reason fuel (sigs_of ts) 0 e want_remaining (pre @ body @ rest) (length pre)
      (length body + extra) (\<lambda>_. []) =
    (if want_remaining then Inr extra else if 0 < extra then Inl (Invalid DBUS_INVALID_TOO_MUCH_DATA) else Inr 0)"
proof -
  let ?vals = "pre @ body @ rest"
  let ?stop = "length pre + (length body + extra)"
  let ?run = "validate_body_helper ?vals ?stop e (\<lambda>_. []) fuel (dbus_type_reader_init_types_only (sigs_of ts) 0) True (length pre)"
  have "dbus_validate_signature_with_reason (sigs_of ts) 0 (length (sigs_of ts)) [] = DBUS_VALID"
    by (rule sigs_of_valid[OF assms(1,2)])
  then have "dbus_validate_body_with_reason fuel (sigs_of ts) 0 e want_remaining ?vals (length pre) (length body + extra) (\<lambda>_. [])
      \<noteq> Inl No_fuel"
    using accepted_closed assms(6) by (intro helper_returns) fastforce+
  moreover have pos: "length pre \<le> length pre + length rest - extra" "extra \<le> length pre + length rest"
    using assms(7) by simp_all
  ultimately have "?run \<noteq> Inl No_fuel"
    unfolding dbus_validate_body_with_reason_def Let_def by (auto simp: require_def)
  moreover have "holds_list ?vals ?stop e ts vs (length pre)"
    using assms(3,4) by (simp add: holds_list_def found_at_def)
  then have "agrees_on No_fuel ?run (Inr (length pre + length body))"
    using helper_accepts[OF assms(1) _ _ assms(5), of ?stop e vs "length pre" fuel] assms(4,7) by simp
  ultimately have "?run = Inr (length pre + length body)" by (simp add: agrees_on_def)
  then show ?thesis using pos by (simp add: dbus_validate_body_with_reason_def Let_def)
qed

text \<open>
  C18. The body validator accepts every encoding of well-typed values: of basic values, arrays,
  dictionaries, structs and variants in any nesting the signature allows, in either byte order and
  from any position on. What follows the encoding in the range is reported as remaining, or rejected
  as too much.
\<close>

theorem body_validator_complete:
  assumes "withins 0 0 ts" "length (sigs_of ts) \<le> DBUS_MAXIMUM_SIGNATURE_LENGTH"
    and "fits_seq e ts vs (length pre)" "body = enc_seq e ts vs (length pre)"
    and "length (pre @ body @ rest) \<le> STRING_MAX_MAX_LENGTH" "513 * (length body + extra + 1) \<le> fuel" "extra \<le> length rest"
  shows "dbus_validate_body_with_reason fuel (sigs_of ts) 0 e want_remaining (pre @ body @ rest) (length pre)
      (length body + extra) (\<lambda>_. []) =
    (if want_remaining then Inr extra else if 0 < extra then Inl (Invalid DBUS_INVALID_TOO_MUCH_DATA) else Inr 0)"
  using assms by (rule body_complete)

theorem body_validator_complete_witness:
  "dbus_validate_body_with_reason 17000 (ascii ''a{sv}(yb)'') 0 DBUS_LITTLE_ENDIAN False
     [12, 0, 0, 0, 0, 0, 0, 0, 1, 0, 0, 0, 0x61, 0, 1, 0x71, 0, 0, 7, 0, 0, 0, 0, 0, 5, 0, 0, 0, 1, 0, 0, 0] 0 32 (\<lambda>_. []) = Inr 0"
proof -
  let ?ts = "[Dict DBUS_TYPE_STRING Variant, Struct [Basic DBUS_TYPE_BYTE, Basic DBUS_TYPE_BOOLEAN]]"
  let ?vs = "[Dic [(V_str [0x61], Var (Basic DBUS_TYPE_UINT16) (Val (V_u16 7)))], Str [Val (V_byt 5), Val (V_u32 1)]]"
  let ?body = "[12, 0, 0, 0, 0, 0, 0, 0, 1, 0, 0, 0, 0x61, 0, 1, 0x71, 0, 0, 7, 0, 0, 0, 0, 0, 5, 0, 0, 0, 1, 0, 0, 0] :: byte list"
  have t: "withins 0 0 ?ts" "sigs_of ?ts = ascii ''a{sv}(yb)''" by code_simp+
  have u: "dbus_string_validate_utf8 [0x61]" by code_simp
  have k: "length (enc_entries DBUS_LITTLE_ENDIAN DBUS_TYPE_STRING Variant [(V_str [0x61], Var (Basic DBUS_TYPE_UINT16) (Val (V_u16 7)))]
    (array_start 8 0)) = 12" by code_simp
  have f: "fits_seq DBUS_LITTLE_ENDIAN ?ts ?vs (length ([] :: byte list))"
    using u k by (simp add: basic_ok_def fits_basic_def member_of_def contents_ok_def Let_def basic_cases)
  have b: "?body = enc_seq DBUS_LITTLE_ENDIAN ?ts ?vs (length ([] :: byte list))" by code_simp
  have l: "length (sigs_of ?ts) \<le> DBUS_MAXIMUM_SIGNATURE_LENGTH" by simp
  have "dbus_validate_body_with_reason 17000 (sigs_of ?ts) 0 DBUS_LITTLE_ENDIAN False ([] @ ?body @ []) (length ([] :: byte list))
      (length ?body + 0) (\<lambda>_. []) =
    (if False then Inr 0 else if 0 < (0 :: nat) then Inl (Invalid DBUS_INVALID_TOO_MUCH_DATA) else Inr 0)"
    by (rule body_validator_complete[OF t(1) l f b]) simp_all
  moreover have "length ?body + 0 = 32" by simp
  ultimately show ?thesis unfolding t(2) by (simp only: append_Nil append_Nil2 list.size(3) if_False less_irrefl)
qed

end
