(* ===== verification/BodySound.thy ===== *)
theory BodySound
  imports BodyTypes
begin

text \<open>
  What the body validator accepts is the encoding of a list of well-typed values. The claim is made
  for bodies in which no signature of a variant can have crossed brackets: those without the opening
  bracket of a dict entry, and those of types without variants.
\<close>

section \<open>Sound calls\<close>

fun variant_free :: "dtype \<Rightarrow> bool" where
  "variant_free (Basic c) = True"
| "variant_free Variant = False"
| "variant_free (Array t) = variant_free t"
| "variant_free (Dict k t) = variant_free t"
| "variant_free (Struct ts) = list_all variant_free ts"

definition nested :: "byte list \<Rightarrow> dtype \<Rightarrow> bool" where
  "nested str t \<longleftrightarrow> variant_free t \<or> DBUS_DICT_ENTRY_BEGIN_CHAR \<notin> set str"

lemma nested_parts [simp]:
  "nested str (Basic c)" "nested str (Array t) = nested str t" "nested str (Dict k t) = nested str t"
  by (simp_all add: nested_def)

lemma nested_struct [simp]: "nested str (Struct ts) = list_all (nested str) ts"
  by (cases "DBUS_DICT_ENTRY_BEGIN_CHAR \<in> set str") (auto simp: nested_def list_all_iff)

definition sound_one :: "byte list \<Rightarrow> nat \<Rightarrow> byte \<Rightarrow> dtype \<Rightarrow> nat \<Rightarrow> nat result \<Rightarrow> bool" where
  "sound_one str end e t p x \<longleftrightarrow>
     (\<forall>q. x = Inr q \<longrightarrow> (\<exists>v. holds_one str end e t v p \<and> q = p + length (enc e t v p)))"

definition sound_list :: "byte list \<Rightarrow> nat \<Rightarrow> byte \<Rightarrow> dtype list \<Rightarrow> nat \<Rightarrow> nat result \<Rightarrow> bool" where
  "sound_list str end e ts p x \<longleftrightarrow>
     (\<forall>q. x = Inr q \<longrightarrow> (\<exists>vs. holds_list str end e ts vs p \<and> q = p + length (enc_seq e ts vs p)))"

definition sound_entry :: "byte list \<Rightarrow> nat \<Rightarrow> byte \<Rightarrow> byte \<Rightarrow> dtype \<Rightarrow> nat \<Rightarrow> nat result \<Rightarrow> bool" where
  "sound_entry str end e k t p x \<longleftrightarrow>
     (\<forall>q. x = Inr q \<longrightarrow> found_at str p (padding p 8) \<and>
        (\<exists>y v. holds_list str end e [Basic k, t] [Val y, v] (ALIGN_VALUE p 8) \<and>
           q = ALIGN_VALUE p 8 + length (enc_seq e [Basic k, t] [Val y, v] (ALIGN_VALUE p 8))))"

definition sound :: "byte list \<Rightarrow> nat \<Rightarrow> byte \<Rightarrow> validator \<Rightarrow> bool" where
  "sound str end e rec \<longleftrightarrow>
     (\<forall>r t p sd dd ad. reads_one r t \<and> within sd dd ad t \<and> nested str t \<and> p \<le> end \<longrightarrow>
        sound_one str end e t p (rec r False p)) \<and>
     (\<forall>r ts p sd dd. reads_list r ts \<and> withins sd dd ts \<and> list_all (nested str) ts \<and> p \<le> end \<longrightarrow>
        sound_list str end e ts p (rec r True p)) \<and>
     (\<forall>r k t p sd dd. reads_entry r k t \<and> withins sd dd [Basic k, t] \<and> nested str t \<and> p \<le> end \<longrightarrow>
        sound_entry str end e k t p (rec r False p))"

lemma soundD:
  assumes "sound str end e rec" "p \<le> end"
  shows "reads_one r t \<Longrightarrow> within sd dd ad t \<Longrightarrow> nested str t \<Longrightarrow> sound_one str end e t p (rec r False p)"
    "reads_list r ts \<Longrightarrow> withins sd dd ts \<Longrightarrow> list_all (nested str) ts \<Longrightarrow> sound_list str end e ts p (rec r True p)"
    "reads_entry r k t \<Longrightarrow> withins sd dd [Basic k, t] \<Longrightarrow> nested str t \<Longrightarrow> sound_entry str end e k t p (rec r False p)"
  using assms unfolding sound_def by (elim conjE, metis)+

section \<open>Arrays\<close>

lemma boolean_loop_sound:
  "ALIGN_VALUE p 4 = p \<Longrightarrow> p \<le> q \<Longrightarrow> boolean_loop str e p q = Inr q \<Longrightarrow> q \<le> length str \<Longrightarrow>
   \<exists>vs. fits_all e (Basic DBUS_TYPE_BOOLEAN) vs p \<and> found_at str p (enc_all e (Basic DBUS_TYPE_BOOLEAN) vs p) \<and>
     q = p + length (enc_all e (Basic DBUS_TYPE_BOOLEAN) vs p)"
proof (induction str e p q rule: boolean_loop.induct)
  case (1 str e p q)
  show ?case
  proof (cases "p < q")
    case False
    then show ?thesis using "1.prems"(2,4) by (intro exI[of _ "[]"]) (simp add: found_at_def)
  next
    case True
    have "\<exists>u. check_boolean str e p = Inr u \<and> boolean_loop str e (p + 4) q = Inr q"
      using "1.prems"(3) True by (subst (asm) boolean_loop.simps) auto
    then have c: "check_boolean str e p = Inr ()" "boolean_loop str e (p + 4) q = Inr q" by auto
    then obtain w :: "32 word" where w: "w = 0 \<or> w = 1" "found_at str p (octets_of e 4 w)"
      using check_boolean_iff[OF "1.prems"(1)] by blast
    have "4 dvd p + 4" using "1.prems"(1) align_facts(3)[of 4 p] by simp
    then have a: "ALIGN_VALUE (p + 4) 4 = p + 4" by (simp add: align_self)
    have "p + 4 \<le> q"
      using c(2) by (cases "p + 4 \<le> q") (simp_all add: boolean_loop.simps[of _ _ "p + 4"])
    then obtain vs where vs: "fits_all e (Basic DBUS_TYPE_BOOLEAN) vs (p + 4)"
      "found_at str (p + 4) (enc_all e (Basic DBUS_TYPE_BOOLEAN) vs (p + 4))"
      "q = p + 4 + length (enc_all e (Basic DBUS_TYPE_BOOLEAN) vs (p + 4))"
      using "1.IH"[OF True a _ c(2) "1.prems"(4)] by blast
    have "encode_basic e DBUS_TYPE_BOOLEAN (V_u32 w) p = octets_of e 4 w"
      using "1.prems"(1) by (simp add: encode_basic_def dbus_type_get_alignment_def padding_def raw_basic_def)
    moreover have "basic_ok DBUS_TYPE_BOOLEAN (V_u32 w)"
      using w(1) by (auto simp: basic_ok_def fits_basic_def member_of_def contents_ok_def)
    ultimately show ?thesis using vs w(2)
      by (intro exI[of _ "Val (V_u32 w) # vs"]) (simp add: Let_def found_append)
  qed
qed

lemma element_loop_sound:
  assumes "sound str end e rec" "reads_one sub t" "within sd dd ad t" "nested str t" "q \<le> end" "end \<le> length str"
  shows "element_loop fuel rec sub p q = Inr q \<Longrightarrow> p \<le> q \<Longrightarrow>
    \<exists>vs. fits_all e t vs p \<and> found_at str p (enc_all e t vs p) \<and> q = p + length (enc_all e t vs p)"
proof (induction fuel arbitrary: p)
  case (Suc fuel)
  show ?case
  proof (cases "p < q")
    case False
    then show ?thesis using Suc.prems assms(5,6) by (intro exI[of _ "[]"]) (simp add: found_at_def)
  next
    case True
    then obtain x where x: "rec sub False p = Inr x" "element_loop fuel rec sub x q = Inr q" using Suc.prems(1) by auto
    then obtain v where v: "holds_one str end e t v p" "x = p + length (enc e t v p)"
      using soundD(1)[OF assms(1) _ assms(2-4), of p] True assms(5) unfolding sound_one_def by auto
    have "x \<le> q" using x(2) by (cases fuel) (auto split: if_splits)
    then obtain vs where "fits_all e t vs x \<and> found_at str x (enc_all e t vs x) \<and> q = x + length (enc_all e t vs x)"
      using Suc.IH[OF x(2)] by blast
    then show ?thesis using v by (intro exI[of _ "v # vs"]) (simp add: holds_one_def Let_def found_append)
  qed
qed simp

lemma entry_loop_sound:
  assumes "sound str end e rec" "reads_entry sub k t" "withins sd dd [Basic k, t]" "nested str t" "q \<le> end" "end \<le> length str"
  shows "element_loop fuel rec sub p q = Inr q \<Longrightarrow> p \<le> q \<Longrightarrow>
    \<exists>kvs. fits_entries e k t kvs p \<and> found_at str p (enc_entries e k t kvs p) \<and> q = p + length (enc_entries e k t kvs p)"
proof (induction fuel arbitrary: p)
  case (Suc fuel)
  show ?case
  proof (cases "p < q")
    case False
    then show ?thesis using Suc.prems assms(5,6) by (intro exI[of _ "[]"]) (simp add: found_at_def)
  next
    case True
    let ?a = "ALIGN_VALUE p 8"
    obtain x where x: "rec sub False p = Inr x" "element_loop fuel rec sub x q = Inr q" using True Suc.prems(1) by auto
    then obtain y v where v: "found_at str p (padding p 8)" "holds_list str end e [Basic k, t] [Val y, v] ?a"
      "x = ?a + length (enc_seq e [Basic k, t] [Val y, v] ?a)"
      using soundD(3)[OF assms(1) _ assms(2-4), of p] True assms(5) unfolding sound_entry_def by auto
    have "x \<le> q" using x(2) by (cases fuel) (auto split: if_splits)
    then obtain kvs where "fits_entries e k t kvs x \<and> found_at str x (enc_entries e k t kvs x) \<and> q = x + length (enc_entries e k t kvs x)"
      using Suc.IH[OF x(2)] by blast
    then show ?thesis using v after_padding[of 8 p]
      by (intro exI[of _ "(y, v) # kvs"]) (simp add: holds_list_def Let_def found_append add.assoc)
  qed
qed simp

lemma contents_sound:
  assumes "sound str end e rec" "reads_element sub t" "type_code t = DBUS_TYPE_ARRAY" "within sd dd ad t" "nested str t"
    and "end \<le> length str" "x = array_start (element_alignment t) p" "x + n \<le> end"
    and loop: "(if dbus_type_is_fixed (element_code t) then
         if element_code t = DBUS_TYPE_BOOLEAN then boolean_loop str e x (x + n) else Inr (x + n)
       else element_loop fuel rec sub x (x + n)) = Inr (x + n)"
  shows "\<exists>v. fits_elements e t v x \<and> elements e t v x = octets_at str x n"
proof -
  have found: "bs = octets_at str x n" if "found_at str x bs" "x + n = x + length bs" for bs
    using that found_unique by simp
  consider "dbus_type_is_fixed (element_code t)" "element_code t \<noteq> DBUS_TYPE_BOOLEAN"
    | "element_code t = DBUS_TYPE_BOOLEAN" | "\<not> dbus_type_is_fixed (element_code t)" by blast
  then show ?thesis
  proof cases
    case 1
    then obtain u where "t = Array u"
      using assms(2) by (cases t) (auto simp: dbus_type_is_fixed_def dbus_type_is_valid_def)
    then show ?thesis using 1 by (intro exI[of _ "Raw (octets_at str x n)"]) simp
  next
    case 2
    then have t: "t = Array (Basic DBUS_TYPE_BOOLEAN)" "ALIGN_VALUE x 4 = x"
      using elements_aligned[OF assms(4,3) 2, of p] unfolding assms(7) by blast+
    have "dbus_type_is_fixed DBUS_TYPE_BOOLEAN" by (simp add: dbus_type_is_fixed_def dbus_type_is_valid_def)
    then have "boolean_loop str e x (x + n) = Inr (x + n)" using loop 2 by simp
    then obtain vs where "fits_all e (Basic DBUS_TYPE_BOOLEAN) vs x"
      "found_at str x (enc_all e (Basic DBUS_TYPE_BOOLEAN) vs x)" "x + n = x + length (enc_all e (Basic DBUS_TYPE_BOOLEAN) vs x)"
      using boolean_loop_sound[OF t(2), of "x + n" str e] assms(6,8) by auto
    then show ?thesis using found t(1) by (intro exI[of _ "Arr vs"]) simp
  next
    case 3
    then have l: "element_loop fuel rec sub x (x + n) = Inr (x + n)" using loop by simp
    show ?thesis
    proof (cases t)
      case (Array u)
      then obtain vs where "fits_all e u vs x" "found_at str x (enc_all e u vs x)" "x + n = x + length (enc_all e u vs x)"
        using element_loop_sound[OF assms(1) _ _ _ assms(8,6) l, of u sd dd "ad + 1"] assms(2,4,5) by auto
      then show ?thesis using found Array by (intro exI[of _ "Arr vs"]) simp
    next
      case (Dict k u)
      then obtain kvs where "fits_entries e k u kvs x" "found_at str x (enc_entries e k u kvs x)"
        "x + n = x + length (enc_entries e k u kvs x)"
        using entry_loop_sound[OF assms(1) _ _ _ assms(8,6) l, of k u sd "dd + 1"] assms(2,4,5) by auto
      then show ?thesis using found Dict by (intro exI[of _ "Dic kvs"]) simp
    qed (use assms(2) in simp_all)
  qed
qed

lemma array_sound:
  assumes "sound str end e rec" "reads_one r t" "type_code t = DBUS_TYPE_ARRAY" "within sd dd ad t" "nested str t"
    and "end \<le> length str" "validate_array str end e fuel rec r p = Inr q"
  shows "\<exists>v. holds_one str end e t v p \<and> q = p + length (enc e t v p)"
proof -
  let ?a = "element_alignment t"
  note el = recurse_array[OF assms(2-4)]
  obtain n y x where nx: "claimed_length str end e p = Inr (n, y)" "pad_to str end y (ALIGN_VALUE y ?a) = Inr x" "n \<le> end - x"
    "(if n > 0 then array_elements str e fuel rec r (element_code t) x n else Inr x) = Inr q"
    using assms(7) el(2) by (auto simp: validate_array_def not_less split: if_splits)
  note f = frame_at[OF el(3) assms(6), of e p n y x, THEN iffD1, OF conjI[OF nx(1) conjI[OF nx(2,3)]]]
  have x: "x = array_start ?a p" "x + n \<le> end" and len: "length (octets_at str x n) = n"
    using f assms(6) found_octets_at[of x n str] by simp_all
  have "q = x + n \<and> n \<le> DBUS_MAXIMUM_ARRAY_LENGTH \<and> (\<exists>v. fits_elements e t v x \<and> elements e t v x = octets_at str x n)"
  proof (cases "n = 0")
    case True
    have "\<exists>v. fits_elements e t v x \<and> elements e t v x = []"
    proof (cases t)
      case (Array u)
      then show ?thesis by (intro exI[of _ "Arr []"]) simp
    next
      case (Dict k u)
      then show ?thesis by (intro exI[of _ "Dic []"]) simp
    qed (use assms(3,4) in \<open>auto simp: basic_cases\<close>)
    then show ?thesis using True nx(4) by (simp add: octets_at_def)
  next
    case False
    obtain sub where sub: "dbus_type_reader_recurse r = Inr sub" "reads_element sub t" using el(1) by blast
    have "array_elements str e fuel rec r (element_code t) x n = Inr q" using nx(4) False by simp
    then have e: "n \<le> DBUS_MAXIMUM_ARRAY_LENGTH" "q = x + n"
      "(if dbus_type_is_fixed (element_code t) then
         if element_code t = DBUS_TYPE_BOOLEAN then boolean_loop str e x (x + n) else Inr (x + n)
       else element_loop fuel rec sub x (x + n)) = Inr (x + n)"
      unfolding array_elements_def sub(1) and_then.simps Let_def by (auto split: if_splits)
    then show ?thesis using contents_sound[OF assms(1) sub(2) assms(3-6) x e(3)] by blast
  qed
  then obtain v where v: "q = x + n" "fits_elements e t v x" "elements e t v x = octets_at str x n" "n \<le> DBUS_MAXIMUM_ARRAY_LENGTH"
    by blast
  note fr = array_framed[OF assms(3,4), of e v p]
  have "fits e t v p" using fr(1) v len x(1) by simp
  moreover have "enc e t v p = frame e ?a (octets_at str x n) p" using fr(2) \<open>fits e t v p\<close> v(3) x(1) by simp
  ultimately show ?thesis using f v(1) len frame_length[OF el(3), of p e "octets_at str x n"] x
    by (intro exI[of _ v]) (simp add: holds_one_def)
qed

section \<open>Structs and variants\<close>

lemma struct_pad:
  assumes "end \<le> length str" "validate_struct str end rec r p = Inr q"
  obtains sub where "found_at str p (padding p 8)" "ALIGN_VALUE p 8 \<le> end" "dbus_type_reader_recurse r = Inr sub"
    "rec sub True (ALIGN_VALUE p 8) = Inr q"
  using assms(2) that by (auto simp: validate_struct_def pad_to_iff[OF _ assms(1)])

lemma struct_sound:
  assumes "sound str end e rec" "reads_one r (Struct ts)" "within sd dd ad (Struct ts)" "nested str (Struct ts)"
    and "end \<le> length str" "validate_struct str end rec r p = Inr q"
  shows "\<exists>v. holds_one str end e (Struct ts) v p \<and> q = p + length (enc e (Struct ts) v p)"
proof -
  let ?a = "ALIGN_VALUE p 8"
  obtain sub where sub: "found_at str p (padding p 8)" "?a \<le> end" "dbus_type_reader_recurse r = Inr sub" "rec sub True ?a = Inr q"
    using struct_pad[OF assms(5,6)] .
  have "reads_list sub ts" using recurse_struct[OF assms(2)] assms(3) sub(3) by auto
  then obtain vs where "holds_list str end e ts vs ?a" "q = ?a + length (enc_seq e ts vs ?a)"
    using soundD(2)[OF assms(1) sub(2), of sub ts "sd + 1" dd] assms(3,4) sub(4) unfolding sound_list_def by auto
  then show ?thesis using sub(1) after_padding[of 8 p]
    by (intro exI[of _ "Str vs"]) (simp add: holds_one_def holds_list_def found_append add.assoc[symmetric])
qed

lemma entry_sound:
  assumes "sound str end e rec" "reads_entry r k t" "withins sd dd [Basic k, t]" "nested str t"
    and "end \<le> length str" "validate_struct str end rec r p = Inr q"
  shows "found_at str p (padding p 8) \<and> (\<exists>y v. holds_list str end e [Basic k, t] [Val y, v] (ALIGN_VALUE p 8) \<and>
    q = ALIGN_VALUE p 8 + length (enc_seq e [Basic k, t] [Val y, v] (ALIGN_VALUE p 8)))"
proof -
  let ?a = "ALIGN_VALUE p 8"
  obtain sub where sub: "found_at str p (padding p 8)" "?a \<le> end" "dbus_type_reader_recurse r = Inr sub" "rec sub True ?a = Inr q"
    using struct_pad[OF assms(5,6)] .
  have "reads_list sub [Basic k, t]" using recurse_entry[OF assms(2)] sub(3) by auto
  then obtain vs where vs: "holds_list str end e [Basic k, t] vs ?a" "q = ?a + length (enc_seq e [Basic k, t] vs ?a)"
    using soundD(2)[OF assms(1) sub(2), of sub "[Basic k, t]" sd dd] assms(3,4) sub(4) unfolding sound_list_def by auto
  obtain w ws where w: "vs = w # ws" "fits e (Basic k) w ?a" "fits_seq e [t] ws (?a + length (enc e (Basic k) w ?a))"
    using vs(1) fits_seq_Cons unfolding holds_list_def by metis
  obtain v zs where v: "ws = v # zs" "fits_seq e [] zs (?a + length (enc e (Basic k) w ?a) + length (enc e t v (?a + length (enc e (Basic k) w ?a))))"
    using w(3) fits_seq_Cons by metis
  have "zs = []" using v(2) by (cases zs) simp_all
  moreover obtain y where "w = Val y" using w(2) by (cases w) simp_all
  ultimately show ?thesis using vs sub(1) w(1) v(1) by blast
qed

lemma variant_sound:
  assumes "sound str end e rec" "nested str Variant" "end \<le> length str" "p < end"
    and "validate_variant str end (\<lambda>_. []) fuel rec p = Inr q"
  shows "\<exists>v. holds_one str end e Variant v p \<and> q = p + length (enc e Variant v p)"
proof -
  obtain s y a x where h: "variant_signature str end (\<lambda>_. []) p = Inr (s, y)" "contained_alignment s = Inr a"
    "pad_to str end y (ALIGN_VALUE y a) = Inr x" "variant_contents fuel rec (dbus_type_reader_init_types_only s 0) x = Inr q"
    using assms(5) by (auto simp: validate_variant_def)
  have sig: "valid_sig s" "found_at str p (word_of_nat (length s) # s @ [0])" "y = p + length s + 2" "y \<le> end"
    using h(1) unfolding variant_signature_iff[OF assms(3,4)] by simp_all
  have "set s \<subseteq> set str" using sig(2) by (auto simp: found_at_def dest!: in_set_takeD in_set_dropD arg_cong[of _ _ set])
  then have "DBUS_DICT_ENTRY_BEGIN_CHAR \<notin> set s" using assms(2) by (auto simp: nested_def)
  then obtain ts where ts: "s = sigs_of ts" "withins 0 0 ts"
    using accepted_is_types[of s "[]"] sig(1) by (auto simp: dbus_validate_signature_def)
  have "ts \<noteq> []"
  proof
    assume "ts = []"
    then show False using h(2) ts(1)
      by (simp add: contained_alignment_def first_type_def dbus_string_get_byte_def str_byte_def is_closing_def map_type_char_to_type_def)
  qed
  then obtain t us where t: "ts = t # us" by (cases ts) auto
  have w: "within 0 0 0 t" "withins 0 0 us" using ts(2) t by simp_all
  let ?sub = "dbus_type_reader_init_types_only s 0"
  have r: "reads_list ?sub (t # us)" using reads_signature[OF \<open>ts \<noteq> []\<close>] ts(1) t by simp
  have a: "a = type_alignment t"
    using first_type_of(1)[OF w(1), of 0 s "sigs_of us"] ts(1) t h(2)
    by (auto simp: contained_alignment_def get_alignment_def Let_def split: if_splits)
  note ap = type_alignment_pos[OF w(1), folded a]
  have x: "x = ALIGN_VALUE y a" "x \<le> end" "found_at str y (padding y a)"
    using h(3) unfolding pad_to_iff[OF ap assms(3)] by simp_all
  obtain z more r' where z: "rec ?sub False x = Inr z" "dbus_type_reader_next fuel ?sub = Inr (more, r')" "\<not> more" "z = q"
    using h(4) by (auto simp: variant_contents_def split: if_splits)
  have "nested str t" using assms(2) by (simp add: nested_def)
  then obtain v where v: "holds_one str end e t v x" "q = x + length (enc e t v x)"
    using soundD(1)[OF assms(1) x(2) reads_list_one[OF r] w(1)] z(1,4) unfolding sound_one_def by auto
  have "us = []" using reads_list_step(2)[OF r, of 0 0 fuel] z(2,3) ts(2) t by (auto simp: agrees_on_def)
  then have s: "s = sig_of t" using ts(1) t by simp
  have ft: "fits e t v y" using enc_pad(1)[OF w(1) a, of e v y] v(1) x(1) by (simp add: holds_one_def)
  have enc: "enc e t v y = padding y a @ enc e t v x" using enc_pad(2)[OF w(1) a ft] x(1) by simp
  have l: "y + length (padding y a) = x" using after_padding[OF ap] x(1) by simp
  have hd: "p + length (variant_header t) = y" "found_at str p (variant_header t)"
    using sig(2,3) s by (simp_all add: header_length variant_header_def)
  have "length (sig_of t) \<le> DBUS_MAXIMUM_SIGNATURE_LENGTH" using signature_no_nul[OF sig(1)] s by simp
  then have "fits e Variant (Var t v) p" using w(1) ft hd(1) by simp
  moreover have "found_at str p (enc e Variant (Var t v) p)" "q = p + length (enc e Variant (Var t v) p)"
    using hd v x(3) l by (simp_all add: enc holds_one_def found_append add.assoc[symmetric])
  moreover have "q \<le> end" using v by (simp add: holds_one_def)
  ultimately show ?thesis by (intro exI[of _ "Var t v"]) (simp add: holds_one_def)
qed

section \<open>The recursion\<close>

lemma value_sound:
  assumes "sound str end e rec" "reads_one r t" "within sd dd ad t" "nested str t"
    and "end \<le> length str" "length str \<le> STRING_MAX_MAX_LENGTH" "p < end"
    and "validate_value str end e (\<lambda>_. []) fuel rec r (type_code t) p = Inr q" "q \<le> end"
  shows "\<exists>v. holds_one str end e t v p \<and> q = p + length (enc e t v p)"
proof (cases t)
  case (Basic c)
  then have c: "dbus_type_is_basic c" "validate_value str end e (\<lambda>_. []) fuel rec r c p = Inr q" using assms(3,8) by simp_all
  have "basic_at str end e c p q"
    using basic_value_at[OF c(1) assms(5-7), THEN iffD1, OF conjI[OF c(2) assms(9)]] .
  then obtain y where "basic_ok c y" "found_at str p (encode_basic e c y p)" "q = p + length (encode_basic e c y p)"
    unfolding basic_at_def by blast
  then show ?thesis using Basic assms(9) by (intro exI[of _ "Val y"]) (simp add: holds_one_def)
next
  case Variant
  then show ?thesis using variant_sound[OF assms(1) _ assms(5,7)] assms(4,8) by (simp add: validate_value_def)
next
  case (Array u)
  then show ?thesis using array_sound[OF assms(1,2) _ assms(3-5)] assms(8) by (simp add: validate_value_def)
next
  case (Dict k u)
  then show ?thesis using array_sound[OF assms(1,2) _ assms(3-5)] assms(8) by (simp add: validate_value_def)
next
  case (Struct ts)
  then show ?thesis using struct_sound[OF assms(1) _ _ _ assms(5), of r ts sd dd ad p q] assms(2-4,8) by (simp add: validate_value_def)
qed

lemma step_Inr:
  assumes "validate_step str end e mem fuel rec r w p = Inr q" "dbus_type_reader_get_current_type r = Inr c" "c \<noteq> 0" "p \<le> end"
  obtains x where "p < end" "validate_value str end e mem fuel rec r c p = Inr x" "x \<le> end"
    "if w then \<exists>m r'. dbus_type_reader_next fuel r = Inr (m, r') \<and> rec r' True x = Inr q else q = x"
proof -
  have "\<exists>x. p < end \<and> validate_value str end e mem fuel rec r c p = Inr x \<and> x \<le> end \<and>
      (if w then \<exists>m r'. dbus_type_reader_next fuel r = Inr (m, r') \<and> rec r' True x = Inr q else q = x)"
    using assms by (auto simp: validate_step_def not_less split: if_splits)
  then show ?thesis using that by blast
qed

lemma helper_sound:
  assumes "end \<le> length str" "length str \<le> STRING_MAX_MAX_LENGTH"
  shows "sound str end e (validate_body_helper str end e (\<lambda>_. []) fuel)"
proof (induction fuel)
  case 0
  then show ?case by (simp add: sound_def sound_one_def sound_list_def sound_entry_def validate_body_helper.simps)
next
  case (Suc fuel)
  let ?rec = "validate_body_helper str end e (\<lambda>_. []) fuel"
  let ?step = "validate_step str end e (\<lambda>_. []) fuel ?rec"
  have one: "sound_one str end e t p (?step r False p)"
    if a: "reads_one r t" "within sd dd ad t" "nested str t" "p \<le> end" for r t p sd dd ad
    unfolding sound_one_def
  proof (intro allI impI)
    fix q assume "?step r False p = Inr q"
    note ty = reads_one_type[OF a(1,2)]
    obtain x where x: "p < end" "validate_value str end e (\<lambda>_. []) fuel ?rec r (type_code t) p = Inr x" "x \<le> end" "q = x"
      using step_Inr[OF \<open>?step r False p = Inr q\<close> ty[THEN conjunct1] ty[THEN conjunct2] a(4)] by auto
    show "\<exists>v. holds_one str end e t v p \<and> q = p + length (enc e t v p)"
      unfolding x(4) by (rule value_sound[OF Suc.IH a(1-3) assms x(1-3)])
  qed
  have list: "sound_list str end e ts p (?step r True p)"
    if a: "reads_list r ts" "withins sd dd ts" "list_all (nested str) ts" "p \<le> end" for r ts p sd dd
    unfolding sound_list_def
  proof (intro allI impI)
    fix q assume s: "?step r True p = Inr q"
    show "\<exists>vs. holds_list str end e ts vs p \<and> q = p + length (enc_seq e ts vs p)"
    proof (cases ts)
      case Nil
      then show ?thesis using s a(1,4) assms(1)
        by (intro exI[of _ "[]"]) (simp add: validate_step_def reads_list_def holds_list_def found_at_def)
    next
      case (Cons t us)
      note l = a(1)[unfolded Cons] and w = a(2)[unfolded Cons]
      have wt: "within sd dd 0 t" "withins sd dd us" "nested str t" "list_all (nested str) us" using w a(3) Cons by simp_all
      note o = reads_list_one[OF l]
      note ty = reads_one_type[OF o wt(1)]
      obtain x where x: "p < end" "validate_value str end e (\<lambda>_. []) fuel ?rec r (type_code t) p = Inr x" "x \<le> end"
        "\<exists>m r'. dbus_type_reader_next fuel r = Inr (m, r') \<and> ?rec r' True x = Inr q"
        using step_Inr[OF s ty[THEN conjunct1] ty[THEN conjunct2] a(4), unfolded if_True] .
      then obtain m r' where n: "dbus_type_reader_next fuel r = Inr (m, r')" "?rec r' True x = Inr q" by blast
      obtain v where v: "holds_one str end e t v p" "x = p + length (enc e t v p)"
        using value_sound[OF Suc.IH o wt(1,3) assms x(1-3)] by blast
      have "reads_list r' us"
        using reads_list_step(1)[OF l w] reads_list_step(2)[OF l w, of fuel] n(1) by (auto simp: agrees_on_def)
      then obtain vs where "holds_list str end e us vs x" "q = x + length (enc_seq e us vs x)"
        using soundD(2)[OF Suc.IH x(3) _ wt(2,4)] n(2) unfolding sound_list_def by blast
      then show ?thesis using v Cons
        by (intro exI[of _ "v # vs"]) (simp add: holds_one_def holds_list_def Let_def found_append)
    qed
  qed
  have entry: "sound_entry str end e k t p (?step r False p)"
    if a: "reads_entry r k t" "withins sd dd [Basic k, t]" "nested str t" "p \<le> end" for r k t p sd dd
    unfolding sound_entry_def
  proof (intro allI impI)
    fix q assume "?step r False p = Inr q"
    then obtain x where "validate_value str end e (\<lambda>_. []) fuel ?rec r DBUS_TYPE_DICT_ENTRY p = Inr x" "q = x"
      using step_Inr[OF _ reads_entry_type[OF a(1)] _ a(4)] by fastforce
    then have "validate_struct str end ?rec r p = Inr q" by (simp add: validate_value_def)
    then show "found_at str p (padding p 8) \<and> (\<exists>y v. holds_list str end e [Basic k, t] [Val y, v] (ALIGN_VALUE p 8) \<and>
        q = ALIGN_VALUE p 8 + length (enc_seq e [Basic k, t] [Val y, v] (ALIGN_VALUE p 8)))"
      by (rule entry_sound[OF Suc.IH a(1-3) assms(1)])
  qed
  show ?case unfolding sound_def validate_body_helper.simps
    by (intro conjI allI impI; elim conjE) (rule one, assumption+ | rule list, assumption+ | rule entry, assumption+)+
qed

section \<open>Evaluation\<close>

text \<open>What evaluates the validator on a concrete body.\<close>

lemma validate_body_helper_numeral:
  "validate_body_helper str end e mem (numeral n) r w p =
    validate_step str end e mem (pred_numeral n) (validate_body_helper str end e mem (pred_numeral n)) r w p"
  by (simp add: numeral_eq_Suc validate_body_helper.simps)

lemma next_numeral:
  "dbus_type_reader_next (numeral n) r =
     and_then (dbus_type_reader_get_current_type r) (\<lambda>t.
       if t = DBUS_TYPE_INVALID then Inr (False, r)
       else and_then (class_next (klass r) (skip_all (pred_numeral n)) r t) (\<lambda>r.
            and_then (dbus_type_reader_get_current_type r) (\<lambda>t. Inr (t \<noteq> DBUS_TYPE_INVALID, r))))"
  "skip_all (numeral n) r = and_then (dbus_type_reader_next (pred_numeral n) r)
     (\<lambda>(more, r). if more then skip_all (pred_numeral n) r else Inr r)"
  "element_loop (numeral n) rec r p q =
     (if p < q then and_then (rec r False p) (\<lambda>p. element_loop (pred_numeral n) rec r p q) else Inr p)"
  by (simp_all add: numeral_eq_Suc dbus_type_reader_next.simps skip_all.simps)

lemma and_then_weak: "x = y \<Longrightarrow> and_then x f = and_then y f"
  by simp

lemmas body_eval = dbus_validate_body_with_reason_def Let_def validate_body_helper_numeral validate_step_def
  dbus_type_reader_init_types_only_def reader_init_def fresh_reader_def dbus_type_reader_get_current_type_def first_type_def
  dbus_string_get_byte_def str_byte_def is_closing_def map_type_char_to_type_def validate_value_def require_def
  validate_array_def ALIGN_VALUE_def peek_def pad_to_def unpack_at_def const_data_len_def dbus_unpack_uint32_def
  array_element_def dbus_type_reader_get_element_type_def get_alignment_def dbus_type_get_alignment_def dbus_type_is_valid_def
  array_elements_def validate_variant_def validate_struct_def validate_fixed_def contained_alignment_def variant_contents_def
  dbus_type_reader_recurse_def base_reader_recurse_def array_types_only_reader_recurse_def
  struct_or_dict_entry_types_only_reader_recurse_def struct_reader_next_def container_reader_next_def
  array_reader_recurse_def element_type_get_alignment_def dbus_type_reader_read_fixed_multi_def dbus_type_reader_init_def
  array_reader_get_array_len_def ARRAY_READER_LEN_POS_def dbus_type_is_fixed_def next_numeral skip_one_complete_type_def base_reader_next_def

section \<open>Soundness\<close>

lemma accepted_is_encoding:
  assumes "dbus_validate_body_with_reason fuel (sigs_of ts) 0 e False values start len mem = Inr n"
    and "withins 0 0 ts" "list_all variant_free ts \<or> DBUS_DICT_ENTRY_BEGIN_CHAR \<notin> set values"
    and "length values \<le> STRING_MAX_MAX_LENGTH"
  shows "start + len \<le> length values"
    "\<exists>vs. fits_seq e ts vs start \<and> take len (drop start values) = enc_seq e ts vs start"
proof -
  let ?r = "dbus_type_reader_init_types_only (sigs_of ts) 0"
  let ?run = "\<lambda>mem. validate_body_helper values (start + len) e mem fuel ?r True start"
  have le: "start + len \<le> length values" and run: "?run mem = Inr (start + len)"
    using assms(1) by (auto simp: dbus_validate_body_with_reason_def Let_def not_less split: if_splits)
  have "?run (\<lambda>_. []) = Inr (start + len)"
    using helper_memory[of "values" "start + len" e mem fuel ?r True start] run by (simp add: agrees_on_def)
  moreover have "reads_list ?r ts" using reads_signature[of ts] empty_list by (cases "ts = []") simp_all
  moreover have "list_all (nested values) ts" using assms(3) by (auto simp: nested_def list_all_iff)
  ultimately obtain vs where vs: "holds_list values (start + len) e ts vs start" "len = length (enc_seq e ts vs start)"
    using soundD(2)[OF helper_sound[OF le assms(4)] _ _ assms(2), of start ?r e fuel] unfolding sound_list_def by auto
  show "start + len \<le> length values" by (rule le)
  show "\<exists>vs. fits_seq e ts vs start \<and> take len (drop start values) = enc_seq e ts vs start"
    using vs by (auto simp: holds_list_def found_at_def)
qed

text \<open>
  C17. What the body validator accepts is the encoding of well-typed values: if it accepts a range as
  the body of a signature, under any pattern of allocation failures, then the range holds exactly the
  octets of a list of values of the types of the signature, each with legal contents, legal booleans
  and zero padding, whose elements, structs and variants follow one another without gap or overlap
  and nowhere reach over the end. An array of fixed-size elements other than booleans is only known
  to hold the octets it claims.
\<close>

theorem body_validator_sound:
  assumes "dbus_validate_body_with_reason fuel (sigs_of ts) 0 e False values start len mem = Inr n"
    and "withins 0 0 ts" "list_all variant_free ts \<or> DBUS_DICT_ENTRY_BEGIN_CHAR \<notin> set values"
    and "length values \<le> STRING_MAX_MAX_LENGTH"
  shows "\<exists>vs. fits_seq e ts vs start \<and> take len (drop start values) = enc_seq e ts vs start"
  by (rule accepted_is_encoding(2)[OF assms])

lemma sample_body_accepted:
  "dbus_validate_body_with_reason 12 (sigs_of [Struct [Basic DBUS_TYPE_BYTE, Basic DBUS_TYPE_BOOLEAN], Variant]) 0
     DBUS_LITTLE_ENDIAN False [5, 0, 0, 0, 1, 0, 0, 0, 1, 0x79, 0, 9] 0 12 (\<lambda>_. []) = Inr 0"
proof -
  let ?b = "[5, 0, 0, 0, 1, 0, 0, 0, 1, 0x79, 0, 9] :: byte list"
  have "check_boolean ?b DBUS_LITTLE_ENDIAN 4 = Inr ()" "skip_padding ?b 1 3 = Inr 4"
    "variant_signature ?b 12 (\<lambda>_. []) 8 = Inr ([0x79], 11)" by code_simp+
  then show ?thesis by (simp add: body_eval cong: and_then_weak)
qed

theorem body_validator_sound_witness:
  "\<exists>vs. fits_seq DBUS_LITTLE_ENDIAN [Struct [Basic DBUS_TYPE_BYTE, Basic DBUS_TYPE_BOOLEAN], Variant] vs 0 \<and>
    take 12 (drop 0 [5, 0, 0, 0, 1, 0, 0, 0, 1, 0x79, 0, 9]) =
    enc_seq DBUS_LITTLE_ENDIAN [Struct [Basic DBUS_TYPE_BYTE, Basic DBUS_TYPE_BOOLEAN], Variant] vs 0"
  by (rule body_validator_sound[OF sample_body_accepted]) (simp_all add: basic_cases)

section \<open>What the validator lets through\<close>

text \<open>
  Two defects of the program. The length of an array of fixed-size elements need not be a multiple
  of the size of an element: a body of three octets of 32-bit integers is accepted, and reading the
  block as the client does fails an assertion.
\<close>

lemma ragged_array_accepted:
  "dbus_validate_body_with_reason 8 (ascii ''au'') 0 DBUS_LITTLE_ENDIAN False [3, 0, 0, 0, 1, 2, 3] 0 7 (\<lambda>_. []) = Inr 0"
proof -
  have "claimed_length [3, 0, 0, 0, 1, 2, 3] 7 DBUS_LITTLE_ENDIAN 0 = Inr (3, 4)" by code_simp
  moreover have "dbus_type_signature_next (ascii ''au'') = Some []" by code_simp
  ultimately show ?thesis by (simp add: body_eval cong: and_then_weak)
qed

lemma ragged_array_aborts_reader:
  "and_then (dbus_type_reader_recurse (dbus_type_reader_init DBUS_LITTLE_ENDIAN (ascii ''au'') 0 [3, 0, 0, 0, 1, 2, 3] 0))
    dbus_type_reader_read_fixed_multi = Inl Aborted"
  by (simp add: body_eval cong: and_then_weak)

text \<open>
  A variant whose signature has crossed brackets, which the signature validator accepts, makes the
  body validator itself fail an assertion; and a boolean is unpacked before it is known that its four
  octets are there.
\<close>

lemma misnested_variant_aborts:
  "dbus_validate_body_with_reason 12 (ascii ''v'') 0 DBUS_LITTLE_ENDIAN False
     ([8] @ ascii ''a{s(ss})'' @ [0, 0, 0, 0, 0, 0, 0]) 0 16 (\<lambda>_. []) = Inl Aborted"
proof -
  let ?v = "[8] @ ascii ''a{s(ss})'' @ [0, 0, 0, 0, 0, 0, 0]"
  have "variant_signature ?v 16 (\<lambda>_. []) 0 = Inr (ascii ''a{s(ss})'', 10)" by code_simp
  moreover have "skip_padding ?v 10 2 = Inr 12" by code_simp
  moreover have "claimed_length ?v 16 DBUS_LITTLE_ENDIAN 12 = Inr (0, 16)" by code_simp
  moreover have "dbus_type_signature_next (ascii ''a{s(ss})'') = Some [41]" by code_simp
  ultimately show ?thesis by (simp add: body_eval cong: and_then_weak)
qed

lemma boolean_read_past_end:
  "dbus_validate_body_with_reason 4 (ascii ''b'') 0 DBUS_LITTLE_ENDIAN False [1] 0 1 (\<lambda>_. []) = Inl Aborted"
  by (simp add: body_eval check_boolean_def cong: and_then_weak)

end
