(* ===== verification/ReaderWalk.thy ===== *)
theory ReaderWalk
  imports BodySound
begin

text \<open>
  Readers over values: on the encoding of a value a reader steps exactly past it, and a client that
  descends, reads and steps gets back the values. With the soundness of the body validator this is
  what \<open>_dbus_validate_body_with_reason\<close> promises: its values can be iterated over.
\<close>

section \<open>Readers at a value\<close>

definition over_values :: "byte list \<Rightarrow> byte \<Rightarrow> DBusTypeReader \<Rightarrow> bool" where
  "over_values str e r \<longleftrightarrow> \<not> types_only (klass r) \<and> \<not> finished r \<and> value_str r = Some str \<and> byte_order r = e"

definition stands_at :: "byte list \<Rightarrow> byte \<Rightarrow> DBusTypeReader \<Rightarrow> dtype \<Rightarrow> val \<Rightarrow> bool" where
  "stands_at str e r t v \<longleftrightarrow> over_values str e r \<and> (\<exists>rest. drop (type_pos r) (type_str r) = sig_of t @ rest) \<and>
     fits e t v (value_pos r) \<and> found_at str (value_pos r) (enc e t v (value_pos r))"

definition stands_list :: "byte list \<Rightarrow> byte \<Rightarrow> DBusTypeReader \<Rightarrow> dtype list \<Rightarrow> val list \<Rightarrow> bool" where
  "stands_list str e r ts vs \<longleftrightarrow> over_values str e r \<and> klass r \<noteq> array_reader_class \<and>
     (\<exists>rest. drop (type_pos r) (type_str r) = sigs_of ts @ rest \<and> ends_list r rest) \<and>
     fits_seq e ts vs (value_pos r) \<and> found_at str (value_pos r) (enc_seq e ts vs (value_pos r))"

definition value_end :: "byte \<Rightarrow> dtype \<Rightarrow> val \<Rightarrow> DBusTypeReader \<Rightarrow> nat" where
  "value_end e t v r = value_pos r + length (enc e t v (value_pos r))"

lemma stands_list_one:
  assumes "stands_list str e r (t # ts) (v # vs)" shows "stands_at str e r t v"
  using assms by (auto simp: stands_list_def stands_at_def Let_def found_append)

lemma stands_list_Cons:
  assumes "stands_list str e r (t # ts) vs"
  obtains w ws where "vs = w # ws"
  using assms fits_seq_Cons unfolding stands_list_def by metis

section \<open>Skipping values\<close>

lemma skip_basic:
  assumes "stands_at str e r (Basic c) v" "known_order e" "length str \<le> INT_MAX" "dbus_type_is_basic c"
  shows "skip_basic_value r c = Inr (value_end e (Basic c) v r)"
    "\<exists>x. v = Val x \<and> dbus_marshal_read_basic str (value_pos r) c e = Some (x, value_end e (Basic c) v r)"
proof -
  let ?p = "value_pos r" and ?a = "dbus_type_get_alignment c"
  obtain x where v: "v = Val x" "basic_ok c x" using assms(1) by (cases v) (auto simp: stands_at_def)
  have a: "0 < ?a" using type_alignment_pos[of 0 0 0 "Basic c"] assms(4) by simp
  have f: "found_at str (ALIGN_VALUE ?p ?a) (raw_basic e c x)"
    using assms(1) v(1) after_padding[OF a, of ?p] by (simp add: stands_at_def encode_basic_def found_append)
  have fin: "value_end e (Basic c) v r = ALIGN_VALUE ?p ?a + length (raw_basic e c x)"
    using v(1) after_padding[OF a, of ?p] by (simp add: value_end_def encode_basic_def)
  have b: "fits_basic c x" using v(2) by (simp add: basic_ok_def)
  show "skip_basic_value r c = Inr (value_end e (Basic c) v r)"
    using skip_basic_found[OF b f assms(3,2)] assms(1) fin by (simp add: skip_basic_value_def stands_at_def over_values_def)
  show "\<exists>x. v = Val x \<and> dbus_marshal_read_basic str ?p c e = Some (x, value_end e (Basic c) v r)"
    using read_basic_found[OF b f assms(3)] v(1) fin by simp
qed

lemma array_found:
  assumes "stands_at str e r t v" "type_code t = DBUS_TYPE_ARRAY" "within sd dd ad t"
  defines "p \<equiv> value_pos r" and "a \<equiv> element_alignment t"
  defines "x \<equiv> array_start a p"
  shows "first_type (type_str r) (type_pos r + 1) = Inr (element_code t)" "dbus_type_get_alignment (element_code t) = a" "0 < a" "a \<le> 8"
    "x \<le> length str" "found_at str (ALIGN_VALUE p 4) (octets_of e 4 (word_of_nat (length (elements e t v x)) :: 32 word))"
    "found_at str x (elements e t v x)" "value_end e t v r = x + length (elements e t v x)"
    "length (elements e t v x) \<le> DBUS_MAXIMUM_ARRAY_LENGTH" "fits_elements e t v x" "ALIGN_VALUE p 4 + 4 \<le> x" "x < ALIGN_VALUE p 4 + 12"
proof -
  obtain rest where d: "drop (type_pos r) (type_str r) = sig_of t @ rest" using assms(1) by (auto simp: stands_at_def)
  note el = element_type_at[OF d assms(2,3)]
  show "first_type (type_str r) (type_pos r + 1) = Inr (element_code t)" "dbus_type_get_alignment (element_code t) = a" "a \<le> 8"
    and a: "0 < a" using el by (simp_all add: a_def)
  have f: "fits e t v p" "found_at str p (enc e t v p)" using assms(1) by (simp_all add: stands_at_def p_def)
  note ok = array_framed[OF assms(2,3), of e v p, folded a_def, folded x_def]
  show "length (elements e t v x) \<le> DBUS_MAXIMUM_ARRAY_LENGTH" "fits_elements e t v x" using f(1) ok(1) by simp_all
  have fr: "enc e t v p = frame e a (elements e t v x) p" by (rule ok(2)[OF f(1)])
  show "value_end e t v r = x + length (elements e t v x)"
    using frame_length[OF a, of p e] fr by (simp add: value_end_def p_def[symmetric] x_def)
  have found: "found_at str p (padding p 4 @ octets_of e 4 (word_of_nat (length (elements e t v x)) :: 32 word))"
    "found_at str x (elements e t v x)"
    using f(2) found_frame[OF a] unfolding fr x_def by simp_all
  then show "found_at str x (elements e t v x)" "x \<le> length str" by (auto simp: found_at_def)
  show "found_at str (ALIGN_VALUE p 4) (octets_of e 4 (word_of_nat (length (elements e t v x)) :: 32 word))"
    using found(1) after_padding[of 4 p] by (simp add: found_append)
  show "ALIGN_VALUE p 4 + 4 \<le> x" "x < ALIGN_VALUE p 4 + 12"
    using align_facts(1,2)[OF a, of "ALIGN_VALUE p 4 + 4"] \<open>a \<le> 8\<close> by (simp_all add: x_def array_start_def)
qed

lemma array_length_word: "n \<le> DBUS_MAXIMUM_ARRAY_LENGTH \<Longrightarrow> unat (word_of_nat n :: 32 word) = n"
  by (simp add: unat_of_nat)

lemma skip_array:
  assumes "stands_at str e r t v" "length str \<le> INT_MAX" "type_code t = DBUS_TYPE_ARRAY" "within sd dd ad t"
  shows "skip_array_value r = Inr (value_end e t v r)"
proof -
  note f = array_found[OF assms(1,3,4)]
  have "dbus_marshal_read_uint32 str (ALIGN_VALUE (value_pos r) 4) e =
      Some (word_of_nat (length (elements e t v (array_start (element_alignment t) (value_pos r)))), ALIGN_VALUE (value_pos r) 4 + 4)"
    using read_uint32_found[of str "ALIGN_VALUE (value_pos r) 4" e] f(6) by simp
  moreover have "value_end e t v r \<le> INT_MAX"
    using f(7,8) assms(2) by (auto simp: found_at_def)
  ultimately show ?thesis using assms(1) f(1-3,8) array_length_word[OF f(9)]
    by (simp add: skip_array_value_def stands_at_def over_values_def dbus_marshal_skip_array_def Let_def int_pos_def array_start_def)
qed

lemma stands_current:
  assumes "stands_at str e r t v" "within sd dd ad t"
  shows "first_type (type_str r) (type_pos r) = Inr (type_code t)" "type_code t \<noteq> 0"
    "klass r \<noteq> array_reader_class \<Longrightarrow> dbus_type_reader_get_current_type r = Inr (type_code t)"
    "skip_one_complete_type (type_str r) (type_pos r) = Inr (type_pos r + length (sig_of t))"
proof -
  obtain rest where d: "drop (type_pos r) (type_str r) = sig_of t @ rest" using assms(1) by (auto simp: stands_at_def)
  note c = first_type_of[OF assms(2) d]
  show "first_type (type_str r) (type_pos r) = Inr (type_code t)" "type_code t \<noteq> 0" using c by simp_all
  show "dbus_type_reader_get_current_type r = Inr (type_code t)" if "klass r \<noteq> array_reader_class"
    using current_type_of[OF that _ assms(2) d] assms(1) by (simp add: stands_at_def over_values_def)
  show "skip_one_complete_type (type_str r) (type_pos r) = Inr (type_pos r + length (sig_of t))"
    by (rule skip_type_of[OF assms(2) d])
qed

text \<open>Descending into structs and variants.\<close>

lemma descend_struct:
  assumes "stands_at str e r (Struct ts) (Str vs)" "ts \<noteq> []"
  obtains sub where "dbus_type_reader_recurse r = Inr sub" "stands_list str e sub ts vs" "value_pos sub = ALIGN_VALUE (value_pos r) 8"
    "type_pos sub = type_pos r + 1" "list_end (klass sub) \<noteq> None"
proof -
  obtain rest where d: "drop (type_pos r) (type_str r) = DBUS_STRUCT_BEGIN_CHAR # sigs_of ts @ DBUS_STRUCT_END_CHAR # rest"
    using assms(1) by (auto simp: stands_at_def)
  have d': "drop (type_pos r + 1) (type_str r) = sigs_of ts @ DBUS_STRUCT_END_CHAR # rest"
    using drop_more[of "type_pos r" "type_str r" "[DBUS_STRUCT_BEGIN_CHAR]"] d by simp
  have f: "found_at str (ALIGN_VALUE (value_pos r) 8) (enc_seq e ts vs (ALIGN_VALUE (value_pos r) 8))"
    using assms(1) after_padding[of 8 "value_pos r"] by (simp add: stands_at_def found_append)
  show ?thesis using assms(1) first_type_at[OF d] get_byte_at[OF d] d' f
    by (intro that) (auto simp: dbus_type_reader_recurse_def stands_at_def over_values_def is_closing_def map_type_char_to_type_def Let_def
        struct_or_dict_entry_types_only_reader_recurse_def struct_or_dict_entry_reader_recurse_def
        base_reader_recurse_def reader_init_def fresh_reader_def stands_list_def ends_list_def)
qed

lemma found_drop: "found_at str p bs \<Longrightarrow> \<exists>rest. drop p str = bs @ rest"
  by (metis append_take_drop_id found_at_def)

text \<open>The reader over the contents of a variant.\<close>

abbreviation contents_reader :: "byte list \<Rightarrow> byte \<Rightarrow> nat \<Rightarrow> dtype \<Rightarrow> DBusTypeReader" where
  "contents_reader str e p t \<equiv> (fresh_reader variant_reader_class)\<lparr>byte_order := e, type_str := str, type_pos := p + 1,
     value_str := Some str, value_pos := ALIGN_VALUE (p + length (variant_header t)) (type_alignment t)\<rparr>"

lemma variant_recurse:
  assumes "stands_at str e r Variant (Var t w)"
  shows "dbus_type_reader_recurse r = Inr (contents_reader str e (value_pos r) t)"
    "\<exists>rest. drop (value_pos r + 1) str = sig_of t @ 0 # rest"
proof -
  let ?p = "value_pos r"
  have f: "within 0 0 0 t" "length (sig_of t) \<le> DBUS_MAXIMUM_SIGNATURE_LENGTH" "found_at str ?p (variant_header t)"
    using assms by (simp_all add: stands_at_def found_append)
  obtain rest where d: "drop ?p str = word_of_nat (length (sig_of t)) # sig_of t @ 0 # rest"
    using found_drop[OF f(3)] by (auto simp: variant_header_def)
  have d1: "drop (?p + 1) str = sig_of t @ 0 # rest" using drop_more[of ?p str "[word_of_nat (length (sig_of t))]"] d by simp
  then show "\<exists>rest. drop (value_pos r + 1) str = sig_of t @ 0 # rest" by simp
  obtain srest where "drop (type_pos r) (type_str r) = DBUS_TYPE_VARIANT # srest" using assms by (auto simp: stands_at_def)
  note ty = first_type_at[OF this]
  have len: "unat (word_of_nat (length (sig_of t)) :: byte) = length (sig_of t)" using f(2) by (simp add: unat_of_nat)
  show "dbus_type_reader_recurse r = Inr (contents_reader str e (value_pos r) t)"
    using ty get_byte_at[OF d] first_type_of(1)[OF f(1) d1] assms len type_alignment_pos[OF f(1)]
    by (simp add: header_length dbus_type_reader_recurse_def variant_reader_recurse_def base_reader_recurse_def reader_init_def fresh_reader_def
        stands_at_def over_values_def Let_def is_closing_def map_type_char_to_type_def get_alignment_def)
qed

lemma descend_variant:
  assumes "stands_at str e r Variant v"
  obtains t w sub where "v = Var t w" "within 0 0 0 t" "dbus_type_reader_recurse r = Inr sub" "stands_list str e sub [t] [w]"
    "value_pos sub + length (enc_seq e [t] [w] (value_pos sub)) = value_end e Variant v r"
    "length (sig_of t) + length (enc e t w (value_pos sub)) \<le> length (enc e Variant v (value_pos r))"
proof -
  let ?p = "value_pos r"
  obtain t w where v: "v = Var t w" using assms by (cases v) (auto simp: stands_at_def)
  let ?q = "?p + length (variant_header t)" and ?a = "type_alignment t"
  have f: "within 0 0 0 t" "length (sig_of t) \<le> DBUS_MAXIMUM_SIGNATURE_LENGTH" "fits e t w ?q"
    "found_at str ?p (variant_header t)" "found_at str ?q (enc e t w ?q)"
    using assms v by (simp_all add: stands_at_def found_append)
  obtain rest where d1: "drop (?p + 1) str = sig_of t @ 0 # rest" using variant_recurse(2) assms v by blast
  have a: "0 < ?a" by (rule type_alignment_pos[OF f(1)])
  note pad = enc_pad[OF f(1) refl, of e w ?q]
  have enc: "enc e t w ?q = padding ?q ?a @ enc e t w (ALIGN_VALUE ?q ?a)" by (rule pad(2)[OF f(3)])
  let ?sub = "contents_reader str e ?p t"
  have rec: "dbus_type_reader_recurse r = Inr ?sub" by (rule variant_recurse(1)[OF assms[unfolded v]])
  have l: "?q + length (padding ?q ?a) = ALIGN_VALUE ?q ?a" by (rule after_padding[OF a])
  have sl: "stands_list str e ?sub [t] [w]"
    using d1 pad(1) f(3,5) l unfolding enc
    by (simp add: stands_list_def over_values_def fresh_reader_def ends_list_def found_append)
  have "value_pos ?sub + length (enc_seq e [t] [w] (value_pos ?sub)) = value_end e Variant v r"
    using l v by (simp add: value_end_def enc add.assoc[symmetric] del: add.assoc)
  moreover have "length (enc e t w (ALIGN_VALUE ?q ?a)) \<le> length (enc e t w ?q)" by (simp add: enc)
  then have "length (sig_of t) + length (enc e t w (value_pos ?sub)) \<le> length (enc e Variant v ?p)"
    using v header_length[of t] by simp
  ultimately show ?thesis using that[OF v f(1) rec sl] by simp
qed

section \<open>Stepping over values\<close>

text \<open>Where a reader goes after its current value.\<close>

definition past :: "byte \<Rightarrow> dtype \<Rightarrow> val \<Rightarrow> DBusTypeReader \<Rightarrow> DBusTypeReader" where
  "past e t v r = step_over (length (sig_of t)) (r\<lparr>value_pos := value_end e t v r\<rparr>)"

lemma class_next_values:
  assumes "\<not> types_only (klass r)" "klass r \<noteq> array_reader_class"
    "base_reader_next skip r t = Inr (r\<lparr>value_pos := q, type_pos := type_pos r + n\<rparr>)" "type_pos r + n \<le> length (type_str r)"
  shows "class_next (klass r) skip r t = Inr (step_over n (r\<lparr>value_pos := q\<rparr>))"
  using assms
  by (cases "klass r") (simp_all add: step_over_def Let_def struct_reader_next_def dict_entry_reader_next_def
      container_reader_next_def dbus_string_get_byte_def)

lemma past_fields:
  "value_pos (past e t v r) = value_end e t v r" "klass (past e t v r) = klass r" "type_str (past e t v r) = type_str r"
  by (simp_all add: past_def step_over_def Let_def)

lemma past_list:
  assumes "stands_list str e r (t # ts) (v # vs)" "withins sd dd (t # ts)"
  shows "dbus_type_reader_get_current_type (past e t v r) = Inr (case ts of [] \<Rightarrow> 0 | u # _ \<Rightarrow> type_code u)"
    "ts \<noteq> [] \<Longrightarrow> stands_list str e (past e t v r) ts vs \<and> type_pos (past e t v r) = type_pos r + length (sig_of t)"
    "ts = [] \<Longrightarrow> type_pos (past e t v r) = type_pos r + length (sig_of t) + (if list_end (klass r) = None then 0 else 1)"
proof -
  let ?r = "r\<lparr>value_pos := value_end e t v r\<rparr>"
  obtain rest where d: "drop (type_pos r) (type_str r) = sig_of t @ sigs_of ts @ rest" "ends_list r rest"
    using assms(1) by (auto simp: stands_list_def)
  have o: "over_values str e r" "klass r \<noteq> array_reader_class" using assms(1) by (simp_all add: stands_list_def)
  show more: "stands_list str e (past e t v r) ts vs \<and> type_pos (past e t v r) = type_pos r + length (sig_of t)" if "ts \<noteq> []"
  proof -
    obtain u us where ts: "ts = u # us" using \<open>ts \<noteq> []\<close> by (cases ts) auto
    have "step_over (length (sig_of t)) ?r = ?r\<lparr>type_pos := type_pos r + length (sig_of t)\<rparr>"
      using step_over_middle[of ?r t u "sigs_of us @ rest" sd dd 0] d(1) assms(2) ts by simp
    then show ?thesis using assms(1) drop_more[OF d(1)] d(2) ts
      by (auto simp: past_def stands_list_def over_values_def ends_list_def value_end_def Let_def found_append)
  qed
  show "dbus_type_reader_get_current_type (past e t v r) = Inr (case ts of [] \<Rightarrow> 0 | u # _ \<Rightarrow> type_code u)"
  proof (cases ts)
    case Nil
    then show ?thesis using list_end_type[of ?r t rest] d o by (simp add: past_def over_values_def ends_list_def)
  next
    case (Cons u us)
    then obtain w ws where "vs = w # ws" using more stands_list_Cons by blast
    then have "stands_at str e (past e t v r) u w" using more Cons by (auto intro: stands_list_one)
    from stands_current(3)[OF this, of sd dd 0] show ?thesis using assms(2) Cons o(2) by (simp add: past_fields)
  qed
  show "type_pos (past e t v r) = type_pos r + length (sig_of t) + (if list_end (klass r) = None then 0 else 1)" if "ts = []"
  proof (cases "list_end (klass r)")
    case None
    then show ?thesis by (simp add: past_def step_over_def Let_def)
  next
    case (Some c)
    then obtain x where "rest = c # x" using d(2) by (auto simp: ends_list_def)
    then show ?thesis using step_over_last[of ?r t c x] d(1) Some that by (simp add: past_def)
  qed
qed

text \<open>The step of a class, as \<open>base_reader_next\<close> makes it.\<close>

abbreviation stepped :: "byte \<Rightarrow> dtype \<Rightarrow> val \<Rightarrow> DBusTypeReader \<Rightarrow> DBusTypeReader" where
  "stepped e t v r \<equiv> r\<lparr>value_pos := value_end e t v r, type_pos := type_pos r + length (sig_of t)\<rparr>"

abbreviation extent :: "byte \<Rightarrow> dtype \<Rightarrow> val \<Rightarrow> nat \<Rightarrow> nat" where
  "extent e t v p \<equiv> length (sig_of t) + length (enc e t v p)"

lemma next_step:
  assumes "stands_list str e r (t # ts) (v # vs)" "withins sd dd (t # ts)"
    and "base_reader_next (skip_all fuel) r (type_code t) = Inr (stepped e t v r)"
  shows "dbus_type_reader_next (Suc fuel) r = Inr (ts \<noteq> [], past e t v r)"
proof -
  have w: "within sd dd 0 t" "withins sd dd ts" using assms(2) by simp_all
  have o: "\<not> types_only (klass r)" "klass r \<noteq> array_reader_class" using assms(1) by (simp_all add: stands_list_def over_values_def)
  note c = stands_current[OF stands_list_one[OF assms(1)] w(1)]
  obtain rest where d: "drop (type_pos r) (type_str r) = sig_of t @ rest" using assms(1) by (auto simp: stands_list_def)
  have "type_pos r + length (sig_of t) \<le> length (type_str r)"
    using arg_cong[OF d, of length] sig_of_not_Nil[of t] by (cases "type_pos r \<le> length (type_str r)") auto
  note n = class_next_values[OF o assms(3) this, folded past_def]
  have "case ts of [] \<Rightarrow> True | u # _ \<Rightarrow> type_code u \<noteq> 0"
    using w(2) first_type_of(2)[of sd dd 0 "hd ts" 0 "sig_of (hd ts)" "[]"] by (cases ts) auto
  then show ?thesis using c(2) c(3)[OF o(2)] n past_list(1)[OF assms(1,2)]
    by (cases ts) (simp_all add: dbus_type_reader_next.simps)
qed

lemma skip_list:
  assumes "\<And>v t r fuel sd dd ad. v \<in> set vs \<Longrightarrow> within sd dd ad t \<Longrightarrow> stands_at str e r t v \<Longrightarrow>
      2 * extent e t v (value_pos r) \<le> fuel + 1 \<Longrightarrow>
      base_reader_next (skip_all fuel) r (type_code t) = Inr (stepped e t v r)"
  shows "stands_list str e r ts vs \<Longrightarrow> withins sd dd ts \<Longrightarrow> ts \<noteq> [] \<Longrightarrow>
    2 * (length (sigs_of ts) + length (enc_seq e ts vs (value_pos r))) + 1 \<le> fuel \<Longrightarrow>
    \<exists>r'. skip_all fuel r = Inr r' \<and> value_pos r' = value_pos r + length (enc_seq e ts vs (value_pos r)) \<and>
      type_pos r' = type_pos r + length (sigs_of ts) + (if list_end (klass r) = None then 0 else 1)"
  using assms
proof (induction vs arbitrary: ts r fuel)
  case Nil
  then show ?case by (cases ts) (auto simp: stands_list_def)
next
  case (Cons v vs)
  obtain t us where ts: "ts = t # us" using Cons.prems(3) by (cases ts) auto
  let ?q = "value_end e t v r"
  have size: "length (enc_seq e ts (v # vs) (value_pos r)) = length (enc e t v (value_pos r)) + length (enc_seq e us vs ?q)"
    using ts by (simp add: Let_def value_end_def)
  have pos: "0 < length (sig_of t)" using sig_of_not_Nil by blast
  have bound: "2 * (length (sig_of t) + length (sigs_of us) + (length (enc e t v (value_pos r)) + length (enc_seq e us vs ?q))) + 1 \<le> fuel"
    using Cons.prems(4) unfolding size using ts by simp
  obtain g where fuel: "fuel = Suc (Suc g)" using bound pos by (cases fuel; cases "fuel - 1") auto
  have g: "2 * extent e t v (value_pos r) \<le> g + 1" using bound unfolding fuel by simp
  have g': "2 * (length (sigs_of us) + length (enc_seq e us vs ?q)) + 1 \<le> Suc g" using bound Suc_leI[OF pos] unfolding fuel by arith
  note l = Cons.prems(1)[unfolded ts] and w = Cons.prems(2)[unfolded ts]
  have wt: "within sd dd 0 t" "withins sd dd us" using w by simp_all
  have n: "dbus_type_reader_next (Suc g) r = Inr (us \<noteq> [], past e t v r)"
    by (rule next_step[OF l w]) (rule Cons.prems(5)[OF _ wt(1) stands_list_one[OF l] g], simp)
  note p = past_list[OF l w]
  show ?case
  proof (cases "us = []")
    case True
    then show ?thesis using n fuel p(3) size ts by (simp add: skip_all.simps past_fields value_end_def)
  next
    case False
    have "\<exists>r'. skip_all (Suc g) (past e t v r) = Inr r' \<and> value_pos r' = ?q + length (enc_seq e us vs ?q) \<and>
        type_pos r' = type_pos (past e t v r) + length (sigs_of us) + (if list_end (klass r) = None then 0 else 1)"
      using Cons.IH[of "past e t v r" us "Suc g"] p(2)[OF False] wt(2) False g' Cons.prems(5)
      by (simp add: past_fields)
    then show ?thesis using n fuel False p(2)[OF False] size ts
      by (auto simp: skip_all.simps(2)[of "Suc g"] value_end_def)
  qed
qed

lemma base_step:
  assumes "known_order e" "length str \<le> INT_MAX"
  shows "within sd dd ad t \<Longrightarrow> stands_at str e r t v \<Longrightarrow> 2 * extent e t v (value_pos r) \<le> fuel + 1 \<Longrightarrow>
    base_reader_next (skip_all fuel) r (type_code t) = Inr (stepped e t v r)"
proof (induction v arbitrary: t r fuel sd dd ad)
  have plain: "base_reader_next (skip_all fuel) r c = Inr (stepped e (Basic c) v r)"
    if "dbus_type_is_basic c" "stands_at str e r (Basic c) v" for c v r fuel
  proof -
    have "plain_code c" using that(1) by (simp add: plain_code_iff)
    moreover have "c \<noteq> DBUS_TYPE_VARIANT" using that(1) by (auto simp: basic_cases)
    ultimately show ?thesis using plain_code_facts[of c] that(2) skip_basic(1)[OF that(2) assms that(1)]
      by (simp add: base_reader_next_def stands_at_def over_values_def)
  qed
  have array: "base_reader_next (skip_all fuel) r DBUS_TYPE_ARRAY = Inr (stepped e t v r)"
    if "type_code t = DBUS_TYPE_ARRAY" "within sd dd ad t" "stands_at str e r t v" for t v r fuel sd dd ad
    using that skip_array[OF that(3) assms(2) that(1,2)] stands_current(4)[OF that(3,2)]
    by (simp add: base_reader_next_def stands_at_def over_values_def)
  {
    case (Val x)
    then obtain c where "t = Basic c" by (cases t) (auto simp: stands_at_def)
    then show ?case using Val plain by simp
  next
    case (Var t' v')
    then have t: "t = Variant" by (cases t) (auto simp: stands_at_def)
    obtain s w sub where d: "Var t' v' = Var s w" "within 0 0 0 s" "dbus_type_reader_recurse r = Inr sub" "stands_list str e sub [s] [w]"
      "value_pos sub + length (enc_seq e [s] [w] (value_pos sub)) = value_end e Variant (Var t' v') r"
      "length (sig_of s) + length (enc e s w (value_pos sub)) \<le> length (enc e Variant (Var t' v') (value_pos r))"
      using descend_variant[OF Var.prems(2)[unfolded t]] .
    have "\<exists>r'. skip_all fuel sub = Inr r' \<and> value_pos r' = value_pos sub + length (enc_seq e [s] [w] (value_pos sub)) \<and>
      type_pos r' = type_pos sub + length (sigs_of [s]) + (if list_end (klass sub) = None then 0 else 1)"
      using d(2,6) Var.prems(3) t
    proof (intro skip_list[OF _ d(4), of 0 0])
      show "base_reader_next (skip_all g) q (type_code u) = Inr (stepped e u x q)"
        if "x \<in> set [w]" "within sd dd ad u" "stands_at str e q u x" "2 * extent e u x (value_pos q) \<le> g + 1" for x u q g sd dd ad
        using Var.IH[of sd dd ad u q g] that d(1) by simp
    qed (simp_all add: Let_def)
    then show ?case using d(3,5) Var.prems(2) t by (auto simp: base_reader_next_def stands_at_def over_values_def)
  next
    case (Arr vs)
    then have "type_code t = DBUS_TYPE_ARRAY" by (cases t) (auto simp: stands_at_def)
    then show ?case using array Arr by simp
  next
    case (Raw bs)
    then have "type_code t = DBUS_TYPE_ARRAY" by (cases t) (auto simp: stands_at_def)
    then show ?case using array Raw by simp
  next
    case (Dic kvs)
    then have "type_code t = DBUS_TYPE_ARRAY" by (cases t) (auto simp: stands_at_def)
    then show ?case using array Dic by simp
  next
    case (Str vs)
    then obtain ts where t: "t = Struct ts" by (cases t) (auto simp: stands_at_def)
    have w: "ts \<noteq> []" "withins (sd + 1) dd ts" using Str.prems(1) t by simp_all
    obtain sub where d: "dbus_type_reader_recurse r = Inr sub" "stands_list str e sub ts vs" "value_pos sub = ALIGN_VALUE (value_pos r) 8"
      "type_pos sub = type_pos r + 1" "list_end (klass sub) \<noteq> None"
      using descend_struct[OF Str.prems(2)[unfolded t] w(1)] .
    have fin: "value_end e t (Str vs) r = value_pos sub + length (enc_seq e ts vs (value_pos sub))"
      using t d(3) after_padding[of 8 "value_pos r"] by (simp add: value_end_def)
    have "\<exists>r'. skip_all fuel sub = Inr r' \<and> value_pos r' = value_pos sub + length (enc_seq e ts vs (value_pos sub)) \<and>
      type_pos r' = type_pos sub + length (sigs_of ts) + (if list_end (klass sub) = None then 0 else 1)"
      using Str.prems(3) t d(3) w(1)
    proof (intro skip_list[OF _ d(2) w(2)])
      show "base_reader_next (skip_all g) q (type_code u) = Inr (stepped e u x q)"
        if "x \<in> set vs" "within sd dd ad u" "stands_at str e q u x" "2 * extent e u x (value_pos q) \<le> g + 1" for x u q g sd dd ad
        using Str.IH[OF that] .
    qed simp_all
    then show ?case using d(1,4,5) fin Str.prems(2) t by (auto simp: base_reader_next_def stands_at_def over_values_def)
  }
qed

section \<open>Array readers\<close>

definition in_array :: "byte list \<Rightarrow> byte \<Rightarrow> nat \<Rightarrow> DBusTypeReader \<Rightarrow> bool" where
  "in_array str e n r \<longleftrightarrow> over_values str e r \<and> klass r = array_reader_class \<and> array_reader_get_array_len r = Inr n \<and>
     start_pos r \<le> value_pos r \<and> value_pos r \<le> start_pos r + n"

lemma array_current:
  "in_array str e n r \<Longrightarrow> dbus_type_reader_get_current_type r =
     (if value_pos r = start_pos r + n then Inr 0 else first_type (type_str r) (type_pos r))"
  by (simp add: in_array_def over_values_def dbus_type_reader_get_current_type_def array_reader_check_finished_def)

lemma array_len_moved [simp]:
  "array_reader_get_array_len (r\<lparr>value_pos := q\<rparr>) = array_reader_get_array_len r"
  "array_reader_get_array_len (r\<lparr>type_pos := p\<rparr>) = array_reader_get_array_len r"
  by (simp_all add: array_reader_get_array_len_def ARRAY_READER_LEN_POS_def)

lemma descend_array:
  assumes "stands_at str e r t v" "type_code t = DBUS_TYPE_ARRAY" "within sd dd ad t"
  defines "x \<equiv> array_start (element_alignment t) (value_pos r)"
  obtains sub where "dbus_type_reader_recurse r = Inr sub" "in_array str e (length (elements e t v x)) sub"
    "start_pos sub = x" "value_pos sub = x" "type_str sub = type_str r" "type_pos sub = type_pos r + 1"
proof -
  let ?p = "value_pos r"
  note f = array_found[OF assms(1-3), folded x_def]
  let ?n = "length (elements e t v x)"
  let ?len_pos = "ALIGN_VALUE ?p 4"
  let ?sub = "(fresh_reader array_reader_class)\<lparr>byte_order := e, type_str := type_str r, type_pos := type_pos r + 1, value_str := Some str,
    value_pos := x, start_pos := x, array_len_offset := x - (?len_pos + 4)\<rparr>"
  note ty = stands_current(1)[OF assms(1,3)]
  have "dbus_type_reader_recurse r = Inr ?sub"
    using ty assms(1,2) f(1-3,11,12)
    by (simp add: dbus_type_reader_recurse_def array_reader_recurse_def array_types_only_reader_recurse_def base_reader_recurse_def
        reader_init_def fresh_reader_def Let_def stands_at_def over_values_def element_type_get_alignment_def get_alignment_def
        x_def array_start_def require_def)
  moreover have "array_reader_get_array_len ?sub = Inr ?n"
  proof -
    have "ARRAY_READER_LEN_POS ?sub = Some ?len_pos" using f(11) by (simp add: ARRAY_READER_LEN_POS_def)
    moreover have "const_data_len str ?len_pos 4 = Some (octets_of e 4 (word_of_nat ?n :: 32 word))"
      using found_const[OF f(6)] by simp
    ultimately show ?thesis using f(9,11,12)
      by (simp add: array_reader_get_array_len_def fresh_reader_def require_def unpack_word word_of_octets unat_of_nat Let_def)
  qed
  ultimately show ?thesis using that[of ?sub] by (simp add: in_array_def over_values_def fresh_reader_def)
qed

text \<open>The step of an array reader moves the value as \<open>base_reader_next\<close> does.\<close>

lemma array_next:
  assumes "in_array str e n r" "value_pos r < start_pos r + n" "first_type (type_str r) (type_pos r) = Inr c"
    and "base_reader_next skip r c = Inr (r\<lparr>value_pos := q, type_pos := tp\<rparr>)" "value_pos r \<le> q" "q \<le> start_pos r + n"
    and "\<exists>z. skip_one_complete_type (type_str r) (type_pos r) = Inr z"
  shows "\<exists>z. array_reader_next skip r c = Inr (r\<lparr>value_pos := q, type_pos := z\<rparr>) \<and> (q < start_pos r + n \<longrightarrow> z = type_pos r)"
proof -
  have o: "\<not> types_only (klass r)" and len: "array_reader_get_array_len r = Inr n" "start_pos r \<le> value_pos r"
    using assms(1) by (simp_all add: in_array_def)
  have moved: "r\<lparr>value_pos := x, type_pos := y\<rparr> = r\<lparr>value_pos := q, type_pos := tp\<rparr> \<Longrightarrow> x = q" for x y
    by (drule arg_cong[of _ _ value_pos]) simp
  have part: "(if c = DBUS_TYPE_DICT_ENTRY \<or> c = DBUS_TYPE_STRUCT \<or> c = DBUS_TYPE_VARIANT then
        and_then (dbus_type_reader_recurse r) (\<lambda>sub. and_then (skip sub) (\<lambda>sub. Inr (value_pos sub)))
      else if c = DBUS_TYPE_ARRAY then skip_array_value r else skip_basic_value r c) = Inr q"
    using assms(4) o by (auto simp: base_reader_next_def split: if_splits dest: moved)
  obtain z where z: "skip_one_complete_type (type_str r) (type_pos r) = Inr z" using assms(7) by blast
  show ?thesis
  proof (cases "q = start_pos r + n")
    case True
    then show ?thesis using len assms(2,3) part z unfolding array_reader_next_def
      by (intro exI[of _ z]) (simp add: Let_def require_def del: and_then_Inr)
  next
    case False
    then show ?thesis using len assms(2,3,6) part unfolding array_reader_next_def
      by (intro exI[of _ "type_pos r"]) (simp add: Let_def require_def del: and_then_Inr)
  qed
qed

lemma descend_entry:
  assumes "over_values str e r" "drop (type_pos r) (type_str r) = DBUS_DICT_ENTRY_BEGIN_CHAR # k # sig_of t @ DBUS_DICT_ENTRY_END_CHAR # rest"
    and "fits_seq e [Basic k, t] vs (ALIGN_VALUE (value_pos r) 8)"
    and "found_at str (ALIGN_VALUE (value_pos r) 8) (enc_seq e [Basic k, t] vs (ALIGN_VALUE (value_pos r) 8))"
  obtains sub where "dbus_type_reader_recurse r = Inr sub" "stands_list str e sub [Basic k, t] vs" "value_pos sub = ALIGN_VALUE (value_pos r) 8"
    "type_pos sub = type_pos r + 1" "list_end (klass sub) \<noteq> None"
proof -
  have d': "drop (type_pos r + 1) (type_str r) = k # sig_of t @ DBUS_DICT_ENTRY_END_CHAR # rest"
    using drop_more[of "type_pos r" "type_str r" "[DBUS_DICT_ENTRY_BEGIN_CHAR]"] assms(2) by simp
  show ?thesis using assms(1,3,4) first_type_at[OF assms(2)] get_byte_at[OF assms(2)] d'
    by (intro that) (auto simp: dbus_type_reader_recurse_def over_values_def is_closing_def map_type_char_to_type_def Let_def
        struct_or_dict_entry_types_only_reader_recurse_def struct_or_dict_entry_reader_recurse_def
        base_reader_recurse_def reader_init_def fresh_reader_def stands_list_def ends_list_def)
qed

section \<open>Reading values back\<close>

text \<open>
  A client that reads the values of a block: it looks at the type, reads a basic value, descends into
  a container and steps with the fuel \<open>F\<close>. A block of fixed-size elements is read at once; the
  assertion of \<open>_dbus_type_reader_read_fixed_multi\<close> fails on a block that ends within an
  element.
\<close>

fun reads_back :: "nat \<Rightarrow> DBusTypeReader \<Rightarrow> dtype \<Rightarrow> val \<Rightarrow> bool"
  and reads_seq :: "nat \<Rightarrow> DBusTypeReader \<Rightarrow> dtype list \<Rightarrow> val list \<Rightarrow> bool"
  and reads_all :: "nat \<Rightarrow> DBusTypeReader \<Rightarrow> dtype \<Rightarrow> val list \<Rightarrow> bool"
  and reads_dict :: "nat \<Rightarrow> DBusTypeReader \<Rightarrow> byte \<Rightarrow> dtype \<Rightarrow> (DBusBasicValue \<times> val) list \<Rightarrow> bool" where
  "reads_back F r t (Val x) \<longleftrightarrow>
     dbus_type_reader_get_current_type r = Inr (type_code t) \<and> dbus_type_reader_read_basic r = Inr x"
| "reads_back F r t (Var u v) \<longleftrightarrow> dbus_type_reader_get_current_type r = Inr DBUS_TYPE_VARIANT \<and>
     (case dbus_type_reader_recurse r of Inl _ \<Rightarrow> False
      | Inr sub \<Rightarrow> reads_back F sub u v \<and> map_sum id fst (dbus_type_reader_next F sub) = Inr False)"
| "reads_back F r t (Str vs) \<longleftrightarrow> dbus_type_reader_get_current_type r = Inr DBUS_TYPE_STRUCT \<and>
     (case dbus_type_reader_recurse r of Inl _ \<Rightarrow> False
      | Inr sub \<Rightarrow> (case t of Struct ts \<Rightarrow> reads_seq F sub ts vs | _ \<Rightarrow> False))"
| "reads_back F r t (Arr vs) \<longleftrightarrow> dbus_type_reader_get_element_type r = Inr (element_code t) \<and>
     (case dbus_type_reader_recurse r of Inl _ \<Rightarrow> False
      | Inr sub \<Rightarrow> (case t of Array u \<Rightarrow> reads_all F sub u vs | _ \<Rightarrow> False))"
| "reads_back F r t (Raw bs) \<longleftrightarrow> dbus_type_reader_get_element_type r = Inr (element_code t) \<and>
     (case dbus_type_reader_recurse r of Inl _ \<Rightarrow> False
      | Inr sub \<Rightarrow> dbus_type_reader_read_fixed_multi sub =
          (if length bs mod element_alignment t = 0 then Inr (bs, length bs div element_alignment t) else Inl Aborted))"
| "reads_back F r t (Dic kvs) \<longleftrightarrow> dbus_type_reader_get_element_type r = Inr DBUS_TYPE_DICT_ENTRY \<and>
     (case dbus_type_reader_recurse r of Inl _ \<Rightarrow> False
      | Inr sub \<Rightarrow> (case t of Dict k u \<Rightarrow> reads_dict F sub k u kvs | _ \<Rightarrow> False))"
| "reads_seq F r ts [] \<longleftrightarrow> ts = [] \<and> dbus_type_reader_get_current_type r = Inr DBUS_TYPE_INVALID"
| "reads_seq F r ts (v # vs) \<longleftrightarrow> ts \<noteq> [] \<and> reads_back F r (hd ts) v \<and>
     (case dbus_type_reader_next F r of Inl _ \<Rightarrow> False | Inr (m, r) \<Rightarrow> m = (vs \<noteq> []) \<and> reads_seq F r (tl ts) vs)"
| "reads_all F r t [] \<longleftrightarrow> dbus_type_reader_get_current_type r = Inr DBUS_TYPE_INVALID"
| "reads_all F r t (v # vs) \<longleftrightarrow> reads_back F r t v \<and>
     (case dbus_type_reader_next F r of Inl _ \<Rightarrow> False | Inr (m, r) \<Rightarrow> m = (vs \<noteq> []) \<and> reads_all F r t vs)"
| "reads_dict F r k t [] \<longleftrightarrow> dbus_type_reader_get_current_type r = Inr DBUS_TYPE_INVALID"
| "reads_dict F r k t ((x, v) # kvs) \<longleftrightarrow> dbus_type_reader_get_current_type r = Inr DBUS_TYPE_DICT_ENTRY \<and>
     (case dbus_type_reader_recurse r of Inl _ \<Rightarrow> False
      | Inr sub \<Rightarrow> dbus_type_reader_get_current_type sub = Inr k \<and> dbus_type_reader_read_basic sub = Inr x \<and>
          (case dbus_type_reader_next F sub of Inl _ \<Rightarrow> False
           | Inr (m, sub) \<Rightarrow> m \<and> reads_back F sub t v \<and> map_sum id fst (dbus_type_reader_next F sub) = Inr False)) \<and>
     (case dbus_type_reader_next F r of Inl _ \<Rightarrow> False | Inr (m, r) \<Rightarrow> m = (kvs \<noteq> []) \<and> reads_dict F r k t kvs)"

lemma entry_skip_one:
  assumes "drop p s = DBUS_DICT_ENTRY_BEGIN_CHAR # k # sig_of t @ DBUS_DICT_ENTRY_END_CHAR # rest" "dbus_type_is_basic k" "within sd dd 0 t"
  shows "\<exists>z. skip_one_complete_type s p = Inr z"
proof -
  have "plain_code k" using assms(2) by (simp add: plain_code_iff)
  then have "dbus_type_signature_next (drop p s) = Some rest" unfolding assms(1) using assms(3)
    by (simp add: dbus_type_signature_next_def is_closing_def skip_container_plain skip_container_types del: skip_container.simps) simp
  then show ?thesis by (simp add: skip_one_complete_type_def)
qed

text \<open>A step of an array reader, from an element that ends before the end of the array or at it.\<close>

lemma array_step:
  assumes "in_array str e n r" "value_pos r < start_pos r + n" "first_type (type_str r) (type_pos r) = Inr c" "c \<noteq> 0"
    and "base_reader_next (skip_all fuel) r c = Inr (r\<lparr>value_pos := q, type_pos := tp\<rparr>)" "value_pos r \<le> q" "q \<le> start_pos r + n"
    and "\<exists>z. skip_one_complete_type (type_str r) (type_pos r) = Inr z"
  obtains r' where "dbus_type_reader_next (Suc fuel) r = Inr (q < start_pos r + n, r')" "in_array str e n r'"
    "value_pos r' = q" "start_pos r' = start_pos r" "type_str r' = type_str r" "q < start_pos r + n \<Longrightarrow> type_pos r' = type_pos r"
proof -
  obtain z where z: "array_reader_next (skip_all fuel) r c = Inr (r\<lparr>value_pos := q, type_pos := z\<rparr>)" "q < start_pos r + n \<longrightarrow> z = type_pos r"
    using array_next[OF assms(1-3,5-8)] by blast
  let ?r = "r\<lparr>value_pos := q, type_pos := z\<rparr>"
  have i: "in_array str e n ?r" using assms(1,6,7) by (simp add: in_array_def over_values_def)
  have k: "klass r = array_reader_class" using assms(1) by (simp add: in_array_def)
  have "dbus_type_reader_next (Suc fuel) r = Inr (q < start_pos r + n, ?r)"
    using array_current[OF assms(1)] array_current[OF i] assms(2-4,7) z k by (simp add: dbus_type_reader_next.simps)
  then show ?thesis using that[of ?r] i z(2) by simp
qed

lemma reads_list_back:
  assumes "known_order e" "length str \<le> INT_MAX"
    and IH: "\<And>v t r sd dd ad. v \<in> set vs \<Longrightarrow> within sd dd ad t \<Longrightarrow> stands_at str e r t v \<Longrightarrow>
      dbus_type_reader_get_current_type r = Inr (type_code t) \<Longrightarrow> 2 * extent e t v (value_pos r) < F \<Longrightarrow> reads_back F r t v"
  shows "if vs = [] then ts = [] \<and> dbus_type_reader_get_current_type r = Inr 0
      else stands_list str e r ts vs \<and> withins sd dd ts \<and> 2 * (length (sigs_of ts) + length (enc_seq e ts vs (value_pos r))) < F \<Longrightarrow>
    reads_seq F r ts vs"
  using IH
proof (induction vs arbitrary: ts r)
  case (Cons v vs)
  have a: "stands_list str e r ts (v # vs)" "withins sd dd ts" "2 * (length (sigs_of ts) + length (enc_seq e ts (v # vs) (value_pos r))) < F"
    using Cons.prems(1) by simp_all
  obtain t us where ts: "ts = t # us" using a(1) by (cases ts) (auto simp: stands_list_def)
  note l = a(1)[unfolded ts] and w = a(2)[unfolded ts]
  have wt: "within sd dd 0 t" "withins sd dd us" using w by simp_all
  note o = stands_list_one[OF l]
  have k: "klass r \<noteq> array_reader_class" using l by (simp add: stands_list_def)
  let ?q = "value_end e t v r"
  have size: "length (enc_seq e ts (v # vs) (value_pos r)) = length (enc e t v (value_pos r)) + length (enc_seq e us vs ?q)"
    using ts by (simp add: Let_def value_end_def)
  have bound: "2 * extent e t v (value_pos r) < F" "2 * (length (sigs_of us) + length (enc_seq e us vs ?q)) < F"
    using a(3)[unfolded size] ts by simp_all
  obtain f where F: "F = Suc f" using bound(1) by (cases F) auto
  have "base_reader_next (skip_all f) r (type_code t) = Inr (stepped e t v r)"
    using bound(1) F by (intro base_step[OF assms(1,2) wt(1) o]) simp
  note n = next_step[OF l w this, folded F]
  note p = past_list[OF l w]
  have "us = [] \<longleftrightarrow> vs = []" using l by (cases us; cases vs) (auto simp: stands_list_def)
  then have "reads_seq F (past e t v r) us vs"
    using p(1,2) bound(2) wt(2) by (intro Cons.IH) (auto simp: past_fields intro!: Cons.prems(2))
  then show ?case using n ts \<open>us = [] \<longleftrightarrow> vs = []\<close> Cons.prems(2)[OF _ wt(1) o stands_current(3)[OF o wt(1) k] bound(1)] by simp
qed simp

lemma reads_all_back:
  assumes "known_order e" "length str \<le> INT_MAX" "within sd dd ad t"
    and IH: "\<And>v t r sd dd ad. v \<in> set vs \<Longrightarrow> within sd dd ad t \<Longrightarrow> stands_at str e r t v \<Longrightarrow>
      dbus_type_reader_get_current_type r = Inr (type_code t) \<Longrightarrow> 2 * extent e t v (value_pos r) < F \<Longrightarrow> reads_back F r t v"
  shows "in_array str e n r \<Longrightarrow> vs \<noteq> [] \<longrightarrow> (\<exists>rest. drop (type_pos r) (type_str r) = sig_of t @ rest) \<Longrightarrow>
    fits_all e t vs (value_pos r) \<Longrightarrow> found_at str (value_pos r) (enc_all e t vs (value_pos r)) \<Longrightarrow>
    value_pos r + length (enc_all e t vs (value_pos r)) = start_pos r + n \<Longrightarrow>
    2 * (length (sig_of t) + length (enc_all e t vs (value_pos r))) < F \<Longrightarrow> reads_all F r t vs"
  using IH
proof (induction vs arbitrary: r)
  case Nil
  then show ?case using array_current by fastforce
next
  case (Cons v vs)
  let ?p = "value_pos r"
  let ?q = "value_end e t v r"
  have o: "stands_at str e r t v"
    using Cons.prems(1-4) by (auto simp: stands_at_def in_array_def Let_def found_append)
  have size: "length (enc_all e t (v # vs) ?p) = length (enc e t v ?p) + length (enc_all e t vs ?q)"
    by (simp add: Let_def value_end_def)
  have pos: "0 < length (enc e t v ?p)" using enc_not_Nil[OF assms(3)] o by (auto simp: stands_at_def)
  have q: "?q + length (enc_all e t vs ?q) = start_pos r + n" "?q = ?p + length (enc e t v ?p)"
    using Cons.prems(5) unfolding size value_end_def by simp_all
  have bound: "2 * extent e t v ?p < F" "2 * (length (sig_of t) + length (enc_all e t vs ?q)) < F"
    using Cons.prems(6)[unfolded size] by simp_all
  obtain f where F: "F = Suc f" using bound(1) by (cases F) auto
  have b: "base_reader_next (skip_all f) r (type_code t) = Inr (stepped e t v r)"
    using bound(1) F by (intro base_step[OF assms(1,2,3) o]) simp
  note c = stands_current[OF o assms(3)]
  have "?p < start_pos r + n" "?p \<le> ?q" "?q \<le> start_pos r + n" using q pos by linarith+
  from array_step[OF Cons.prems(1) this(1) c(1,2) b this(2,3)] c(4)
  obtain r' where r': "dbus_type_reader_next F r = Inr (?q < start_pos r + n, r')" "in_array str e n r'"
    "value_pos r' = ?q" "start_pos r' = start_pos r" "type_str r' = type_str r" "?q < start_pos r + n \<Longrightarrow> type_pos r' = type_pos r"
    using F by blast
  have more: "?q < start_pos r + n \<longleftrightarrow> vs \<noteq> []"
  proof (cases vs)
    case (Cons w ws)
    then have "fits e t w ?q" using Cons.prems(3) by (simp add: value_end_def)
    then have "0 < length (enc e t w ?q)" using enc_not_Nil[OF assms(3)] by auto
    then show ?thesis using q(1) Cons by (simp add: Let_def del: length_greater_0_conv)
  qed (use q(1) in simp)
  have "reads_all F r' t vs"
    using r' more q(1) Cons.prems(2,3,4) bound(2)
    by (intro Cons.IH) (auto simp: value_end_def Let_def found_append intro!: Cons.prems(7))
  moreover have "dbus_type_reader_get_current_type r = Inr (type_code t)"
    using array_current[OF Cons.prems(1)] \<open>?p < start_pos r + n\<close> c(1) by simp
  then have "reads_back F r t v" using Cons.prems(7)[OF _ assms(3) o _ bound(1)] by simp
  ultimately show ?case using r'(1) more by simp
qed

lemma read_basic_back:
  assumes "known_order e" "length str \<le> INT_MAX" "stands_at str e r t (Val x)" "within sd dd ad t"
    and "dbus_type_reader_get_current_type r = Inr (type_code t)"
  shows "reads_back F r t (Val x)"
proof -
  obtain c where t: "t = Basic c" using assms(3) by (cases t) (auto simp: stands_at_def)
  then have "dbus_marshal_read_basic str (value_pos r) c e = Some (x, value_end e t (Val x) r)"
    using skip_basic(2)[of str e r c "Val x"] assms(1-4) by auto
  then show ?thesis using assms(3,5) t by (simp add: dbus_type_reader_read_basic_def stands_at_def over_values_def)
qed

lemma reads_pair:
  assumes "reads_seq F sub [Basic k, t] [Val x, v]"
  shows "dbus_type_reader_get_current_type sub = Inr k" "dbus_type_reader_read_basic sub = Inr x"
    "\<exists>sub' z. dbus_type_reader_next F sub = Inr (True, sub') \<and> reads_back F sub' t v \<and> dbus_type_reader_next F sub' = Inr (False, z)"
proof -
  show "dbus_type_reader_get_current_type sub = Inr k" "dbus_type_reader_read_basic sub = Inr x" using assms by simp_all
  obtain sub' where s: "dbus_type_reader_next F sub = Inr (True, sub')" "reads_seq F sub' [t] [v]"
    using assms by (cases "dbus_type_reader_next F sub") auto
  then obtain z where "dbus_type_reader_next F sub' = Inr (False, z)" by (cases "dbus_type_reader_next F sub'") auto
  then show "\<exists>sub' z. dbus_type_reader_next F sub = Inr (True, sub') \<and> reads_back F sub' t v \<and> dbus_type_reader_next F sub' = Inr (False, z)"
    using s by auto
qed

lemma reads_dict_back:
  assumes "known_order e" "length str \<le> INT_MAX" "dbus_type_is_basic k" "within sd dd 0 t"
    and IH: "\<And>x v u r sd dd ad. (x, v) \<in> set kvs \<Longrightarrow> within sd dd ad u \<Longrightarrow> stands_at str e r u v \<Longrightarrow>
      dbus_type_reader_get_current_type r = Inr (type_code u) \<Longrightarrow> 2 * extent e u v (value_pos r) < F \<Longrightarrow> reads_back F r u v"
  shows "in_array str e n r \<Longrightarrow>
    kvs \<noteq> [] \<longrightarrow> (\<exists>rest. drop (type_pos r) (type_str r) = DBUS_DICT_ENTRY_BEGIN_CHAR # k # sig_of t @ DBUS_DICT_ENTRY_END_CHAR # rest) \<Longrightarrow>
    fits_entries e k t kvs (value_pos r) \<Longrightarrow> found_at str (value_pos r) (enc_entries e k t kvs (value_pos r)) \<Longrightarrow>
    value_pos r + length (enc_entries e k t kvs (value_pos r)) = start_pos r + n \<Longrightarrow>
    2 * (2 + length (sig_of t) + length (enc_entries e k t kvs (value_pos r))) < F \<Longrightarrow> reads_dict F r k t kvs"
  using IH
proof (induction kvs arbitrary: r)
  case Nil
  then show ?case using array_current by fastforce
next
  case (Cons kv kvs)
  obtain x v where kv: "kv = (x, v)" by (cases kv)
  let ?p = "value_pos r" and ?a = "ALIGN_VALUE (value_pos r) 8"
  let ?b = "enc_seq e [Basic k, t] [Val x, v] ?a"
  let ?q = "?a + length ?b"
  have al: "?p + length (padding ?p 8) = ?a" using after_padding by simp
  have size: "length (enc_entries e k t (kv # kvs) ?p) = length (padding ?p 8) + length ?b + length (enc_entries e k t kvs ?q)"
    by (simp add: kv Let_def add.assoc)
  have f: "found_at str ?a ?b" "fits_seq e [Basic k, t] [Val x, v] ?a" "fits_entries e k t kvs ?q" "found_at str ?q (enc_entries e k t kvs ?q)"
    using Cons.prems(3,4) al by (simp_all add: kv Let_def found_append add.assoc)
  have "0 < length (encode_basic e k x ?a)" using pieces_not_Nil(1) by blast
  then have pos: "?a < ?q" "0 < length ?b" by (simp_all add: Let_def del: length_greater_0_conv)
  have q: "?q + length (enc_entries e k t kvs ?q) = start_pos r + n" "?p \<le> ?a"
    using Cons.prems(5) al unfolding size by linarith+
  have o: "over_values str e r" using Cons.prems(1) by (simp add: in_array_def)
  obtain rest where d: "drop (type_pos r) (type_str r) = DBUS_DICT_ENTRY_BEGIN_CHAR # k # sig_of t @ DBUS_DICT_ENTRY_END_CHAR # rest"
    using Cons.prems(2) by blast
  have ft: "first_type (type_str r) (type_pos r) = Inr DBUS_TYPE_DICT_ENTRY"
    using first_type_at[OF d] by (simp add: is_closing_def map_type_char_to_type_def)
  obtain sub where sub: "dbus_type_reader_recurse r = Inr sub" "stands_list str e sub [Basic k, t] [Val x, v]" "value_pos sub = ?a"
    "type_pos sub = type_pos r + 1" "list_end (klass sub) \<noteq> None"
    using descend_entry[OF o d f(2,1)] .
  have w: "withins sd dd [Basic k, t]" using assms(3,4) by simp
  have bound: "2 * (length (sigs_of [Basic k, t]) + length (enc_seq e [Basic k, t] [Val x, v] (value_pos sub))) + 1 < F"
    "2 * (2 + length (sig_of t) + length (enc_entries e k t kvs ?q)) < F"
    using Cons.prems(6)[unfolded size] sub(3) by simp_all
  obtain g where F: "F = Suc g" using bound(2) by (cases F) auto
  have "\<exists>r'. skip_all g sub = Inr r' \<and> value_pos r' = value_pos sub + length (enc_seq e [Basic k, t] [Val x, v] (value_pos sub)) \<and>
      type_pos r' = type_pos sub + length (sigs_of [Basic k, t]) + (if list_end (klass sub) = None then 0 else 1)"
    using bound(1) F by (intro skip_list[OF base_step[OF assms(1,2)] sub(2) w]) simp_all
  then obtain tp where b: "base_reader_next (skip_all g) r DBUS_TYPE_DICT_ENTRY = Inr (r\<lparr>value_pos := ?q, type_pos := tp\<rparr>)"
    using sub(1,3) o by (auto simp: base_reader_next_def over_values_def simp del: enc_seq.simps)
  have lt: "?p < start_pos r + n" "?p \<le> ?q" "?q \<le> start_pos r + n" using q pos by linarith+
  have nz: "(DBUS_TYPE_DICT_ENTRY :: byte) \<noteq> 0" by simp
  from array_step[OF Cons.prems(1) lt(1) ft nz b lt(2,3) entry_skip_one[OF d assms(3,4)]]
  obtain r' where r': "dbus_type_reader_next F r = Inr (?q < start_pos r + n, r')" "in_array str e n r'"
    "value_pos r' = ?q" "start_pos r' = start_pos r" "type_str r' = type_str r" "?q < start_pos r + n \<Longrightarrow> type_pos r' = type_pos r"
    using F by blast
  have more: "?q < start_pos r + n \<longleftrightarrow> kvs \<noteq> []"
  proof (cases kvs)
    case (Cons w ws)
    have "0 < length (encode_basic e k (fst w) (ALIGN_VALUE ?q 8))" using pieces_not_Nil(1) by blast
    then have "0 < length (enc_entries e k t kvs ?q)"
      using Cons by (cases w) (simp add: Let_def del: length_greater_0_conv)
    then have "?q < start_pos r + n" using q(1) by linarith
    then show ?thesis using Cons by simp
  qed (use q(1) in simp)
  have pair: "reads_seq F sub [Basic k, t] [Val x, v]"
  proof (rule reads_list_back[OF assms(1,2), where sd = sd and dd = dd])
    show "reads_back F q u y" if "y \<in> set [Val x, v]" "within sd dd ad u" "stands_at str e q u y"
      "dbus_type_reader_get_current_type q = Inr (type_code u)" "2 * extent e u y (value_pos q) < F" for y u q sd dd ad
    proof -
      have "y = Val x \<or> y = v" using that(1) by auto
      then show ?thesis
      proof
        assume "y = Val x"
        then show ?thesis using read_basic_back[OF assms(1,2) _ that(2,4), of x] that(3) by simp
      next
        assume "y = v"
        then show ?thesis using that kv by (intro Cons.prems(7)[of x]) simp_all
      qed
    qed
  qed (use sub(2) w bound(1) in simp)
  have "reads_dict F r' k t kvs"
    using r' more q(1) Cons.prems(2) f(3,4) bound(2)
    by (intro Cons.IH) (auto intro!: Cons.prems(7))
  then show ?case using r'(1) more sub(1) array_current[OF Cons.prems(1)] lt(1) ft reads_pair[OF pair]
    by (auto simp: kv)
qed

lemma ragged_or_whole:
  assumes "in_array str e n sub" "value_pos sub = start_pos sub" "first_type (type_str sub) (type_pos sub) = Inr c"
    "dbus_type_is_fixed c" "found_at str (value_pos sub) bs" "length bs = n"
  shows "dbus_type_reader_read_fixed_multi sub =
    (if n mod dbus_type_get_alignment c = 0 then Inr (bs, n div dbus_type_get_alignment c) else Inl Aborted)"
proof -
  have c: "dbus_type_is_valid c" "c \<noteq> 0" using assms(4) by (auto simp: dbus_type_is_fixed_def dbus_type_is_valid_def split: if_splits)
  have a: "get_alignment c = Inr (dbus_type_get_alignment c)"
    using alignment_values[OF c(1)] by (auto simp: get_alignment_def Let_def)
  have block: "const_data_len str (start_pos sub) n = Some bs" "n = 0 \<Longrightarrow> bs = []"
    using found_const[OF assms(5)] assms(2,6) by auto
  show ?thesis using assms(1-4) c(2) a block
    by (simp add: dbus_type_reader_read_fixed_multi_def in_array_def over_values_def Let_def require_def)
qed

lemma read_back:
  assumes "known_order e" "length str \<le> INT_MAX"
  shows "within sd dd ad t \<Longrightarrow> stands_at str e r t v \<Longrightarrow> dbus_type_reader_get_current_type r = Inr (type_code t) \<Longrightarrow>
    2 * extent e t v (value_pos r) < F \<Longrightarrow> reads_back F r t v"
proof (induction v arbitrary: t r sd dd ad)
  case (Val x)
  then show ?case by (intro read_basic_back[OF assms])
next
  case (Var t' v')
  then have t: "t = Variant" by (cases t) (auto simp: stands_at_def)
  obtain s w sub where d: "Var t' v' = Var s w" "within 0 0 0 s" "dbus_type_reader_recurse r = Inr sub" "stands_list str e sub [s] [w]"
    "length (sig_of s) + length (enc e s w (value_pos sub)) \<le> length (enc e Variant (Var t' v') (value_pos r))"
    using descend_variant[OF Var.prems(2)[unfolded t]] by metis
  have bound: "2 * extent e s w (value_pos sub) + 2 < F" using d(5) Var.prems(4) t by simp
  obtain g where F: "F = Suc g" using bound by (cases F) auto
  have w: "withins 0 0 [s]" using d(2) by simp
  note o = stands_list_one[OF d(4)]
  have k: "klass sub \<noteq> array_reader_class" using d(4) by (simp add: stands_list_def)
  have "base_reader_next (skip_all g) sub (type_code s) = Inr (stepped e s w sub)"
    using bound F by (intro base_step[OF assms d(2) o]) simp
  note n = next_step[OF d(4) w this, folded F]
  have "reads_back F sub t' v'"
    using Var.IH[of 0 0 0 s sub] d(1,2) o stands_current(3)[OF o d(2) k] bound by simp
  then show ?case using n d(3) Var.prems(3) t by simp
next
  case (Str vs)
  then obtain ts where t: "t = Struct ts" by (cases t) (auto simp: stands_at_def)
  have w: "ts \<noteq> []" "withins (sd + 1) dd ts" using Str.prems(1) t by simp_all
  obtain sub where d: "dbus_type_reader_recurse r = Inr sub" "stands_list str e sub ts vs" "value_pos sub = ALIGN_VALUE (value_pos r) 8"
    using descend_struct[OF Str.prems(2)[unfolded t] w(1)] by metis
  have "vs \<noteq> []" using d(2) w(1) by (cases ts) (auto simp: stands_list_def)
  moreover have "2 * (length (sigs_of ts) + length (enc_seq e ts vs (value_pos sub))) < F" using Str.prems(4) t d(3) by simp
  ultimately have "reads_seq F sub ts vs"
    using d(2) w(2) by (intro reads_list_back[OF assms]) (auto intro: Str.IH)
  then show ?case using d(1) t Str.prems(3) by simp
next
  case (Arr vs)
  then obtain u where t: "t = Array u" by (cases t) (auto simp: stands_at_def)
  have ty: "type_code t = DBUS_TYPE_ARRAY" using t by simp
  let ?x = "array_start (element_alignment t) (value_pos r)"
  note f = array_found[OF Arr.prems(2) ty Arr.prems(1)]
  obtain sub where d: "dbus_type_reader_recurse r = Inr sub" "in_array str e (length (elements e t (Arr vs) ?x)) sub"
    "start_pos sub = ?x" "value_pos sub = ?x" "type_str sub = type_str r" "type_pos sub = type_pos r + 1"
    using descend_array[OF Arr.prems(2) ty Arr.prems(1)] .
  obtain rest where "drop (type_pos r) (type_str r) = DBUS_TYPE_ARRAY # sig_of u @ rest" using Arr.prems(2) t by (auto simp: stands_at_def)
  then have sig: "drop (type_pos sub) (type_str sub) = sig_of u @ rest"
    using drop_more[of "type_pos r" "type_str r" "[DBUS_TYPE_ARRAY]"] d(5,6) by simp
  have "length (enc_all e u vs ?x) \<le> length (enc e t (Arr vs) (value_pos r))"
    using t by (simp add: frame_def)
  then have "2 * (length (sig_of u) + length (enc_all e u vs (value_pos sub))) < F" using Arr.prems(4) t d(4) by simp
  then have "reads_all F sub u vs"
    using d(2-4) sig f(7,10) t Arr.prems(1)
    by (intro reads_all_back[OF assms, of sd dd "ad + 1"]) (auto intro: Arr.IH)
  then show ?case using d(1) f(1) t Arr.prems(3) by (simp add: dbus_type_reader_get_element_type_def)
next
  case (Raw bs)
  then obtain u where t: "t = Array u" by (cases t) (auto simp: stands_at_def)
  have ty: "type_code t = DBUS_TYPE_ARRAY" using t by simp
  let ?x = "array_start (element_alignment t) (value_pos r)"
  note f = array_found[OF Raw.prems(2) ty Raw.prems(1)]
  obtain sub where d: "dbus_type_reader_recurse r = Inr sub" "in_array str e (length (elements e t (Raw bs) ?x)) sub"
    "start_pos sub = ?x" "value_pos sub = ?x" "type_str sub = type_str r" "type_pos sub = type_pos r + 1"
    using descend_array[OF Raw.prems(2) ty Raw.prems(1)] .
  have "dbus_type_reader_read_fixed_multi sub =
      (if length bs mod element_alignment t = 0 then Inr (bs, length bs div element_alignment t) else Inl Aborted)"
    using ragged_or_whole[OF d(2), of "type_code u" bs] d(3-6) f(1,7,10) t by simp
  then show ?case using d(1) f(1) t Raw.prems(3) by (simp add: dbus_type_reader_get_element_type_def)
next
  case (Dic kvs)
  then obtain k u where t: "t = Dict k u" by (cases t) (auto simp: stands_at_def)
  have ty: "type_code t = DBUS_TYPE_ARRAY" using t by simp
  let ?x = "array_start (element_alignment t) (value_pos r)"
  note f = array_found[OF Dic.prems(2) ty Dic.prems(1)]
  obtain sub where d: "dbus_type_reader_recurse r = Inr sub" "in_array str e (length (elements e t (Dic kvs) ?x)) sub"
    "start_pos sub = ?x" "value_pos sub = ?x" "type_str sub = type_str r" "type_pos sub = type_pos r + 1"
    using descend_array[OF Dic.prems(2) ty Dic.prems(1)] .
  obtain rest where "drop (type_pos r) (type_str r) =
      DBUS_TYPE_ARRAY # DBUS_DICT_ENTRY_BEGIN_CHAR # k # sig_of u @ DBUS_DICT_ENTRY_END_CHAR # rest"
    using Dic.prems(2) t by (auto simp: stands_at_def)
  then have sig: "drop (type_pos sub) (type_str sub) = DBUS_DICT_ENTRY_BEGIN_CHAR # k # sig_of u @ DBUS_DICT_ENTRY_END_CHAR # rest"
    using drop_more[of "type_pos r" "type_str r" "[DBUS_TYPE_ARRAY]"] d(5,6) by simp
  have "length (enc_entries e k u kvs ?x) \<le> length (enc e t (Dic kvs) (value_pos r))"
    using t by (simp add: frame_def)
  then have "2 * (2 + length (sig_of u) + length (enc_entries e k u kvs (value_pos sub))) < F" using Dic.prems(4) t d(4) by simp
  then have "reads_dict F sub k u kvs"
    using d(2-4) sig f(7,10) t Dic.prems(1)
    by (intro reads_dict_back[OF assms, of k "sd" "dd + 1"]) (auto intro: Dic.IH)
  then show ?case using d(1) f(1) t Dic.prems(3) by (simp add: dbus_type_reader_get_element_type_def)
qed

section \<open>Validated values can be read\<close>



end
