(* ===== verification/Attempt.thy ===== *)
theory Attempt
  imports Prelude
begin

text \<open>
  Functions of the library that report errors through a \<open>DBusError\<close>: an attempt consumes allocation
  answers and ends in an error or a result. That an attempt computes a result means it does so as
  long as memory lasts, and reports the lack of memory otherwise; the rules follow the program text.
\<close>

section \<open>Attempts\<close>

text \<open>The names of the errors that the modelled functions set (\<open>dbus/dbus-protocol.h\<close>).\<close>

datatype DBusError =
    DBUS_ERROR_NO_MEMORY
  | DBUS_ERROR_BAD_ADDRESS
  | DBUS_ERROR_MATCH_RULE_INVALID
  | DBUS_ERROR_MATCH_RULE_NOT_FOUND

type_synonym 'a attempt = "mem_oracle \<Rightarrow> (DBusError + 'a) \<times> mem_oracle"

definition return :: "'a \<Rightarrow> 'a attempt" where
  "return x mem = (Inr x, mem)"

definition set_error :: "DBusError \<Rightarrow> 'a attempt" where
  "set_error e mem = (Inl e, mem)"

text \<open>A call whose only failure is the lack of memory.\<close>

definition fallible :: "'a \<Rightarrow> 'a attempt" where
  "fallible x mem = (case alloc mem of (ok, mem) \<Rightarrow> (if ok then Inr x else Inl DBUS_ERROR_NO_MEMORY, mem))"

definition andthen :: "'a attempt \<Rightarrow> ('a \<Rightarrow> 'b attempt) \<Rightarrow> 'b attempt" where
  "andthen m f mem = (case m mem of (Inl e, mem) \<Rightarrow> (Inl e, mem) | (Inr x, mem) \<Rightarrow> f x mem)"

section \<open>What an attempt computes\<close>

definition computes :: "'a attempt \<Rightarrow> DBusError + 'a \<Rightarrow> bool" where
  "computes m x \<longleftrightarrow> (\<forall>mem. fst (m mem) \<in> {x, Inl DBUS_ERROR_NO_MEMORY} \<and>
     (never_fails mem \<longrightarrow> fst (m mem) = x \<and> never_fails (snd (m mem))))"

lemma computes_return [intro]: "computes (return x) (Inr x)"
  by (simp add: computes_def return_def)

lemma computes_error [intro]: "computes (set_error e) (Inl e)"
  by (simp add: computes_def set_error_def)

lemma computes_fallible [intro]: "computes (fallible x) (Inr x)"
  using alloc_never_fails by (fastforce simp: computes_def fallible_def split: prod.splits)

lemma computes_andthen:
  assumes "computes m (Inr x)" "computes (f x) y"
  shows "computes (andthen m f) y"
  unfolding computes_def
proof
  fix mem
  obtain r mem' where m: "m mem = (r, mem')" by (cases "m mem")
  then show "fst (andthen m f mem) \<in> {y, Inl DBUS_ERROR_NO_MEMORY} \<and>
      (never_fails mem \<longrightarrow> fst (andthen m f mem) = y \<and> never_fails (snd (andthen m f mem)))"
    using assms[unfolded computes_def, rule_format, of mem] assms(2)[unfolded computes_def, rule_format, of mem']
    by (auto simp: andthen_def split: sum.splits)
qed

lemma computes_andthen_error:
  assumes "computes m (Inl e)"
  shows "computes (andthen m f) (Inl e)"
  unfolding computes_def
proof
  fix mem
  obtain r mem' where m: "m mem = (r, mem')" by (cases "m mem")
  then show "fst (andthen m f mem) \<in> {Inl e, Inl DBUS_ERROR_NO_MEMORY} \<and>
      (never_fails mem \<longrightarrow> fst (andthen m f mem) = Inl e \<and> never_fails (snd (andthen m f mem)))"
    using assms[unfolded computes_def, rule_format, of mem] by (auto simp: andthen_def split: sum.splits)
qed

lemma computes_fallible_andthen: "computes (f x) y \<Longrightarrow> computes (andthen (fallible x) f) y"
  by (rule computes_andthen[OF computes_fallible])

lemma computes_never_fails: "computes m x \<Longrightarrow> never_fails mem \<Longrightarrow> fst (m mem) = x"
  by (simp add: computes_def)

end
