(* ===== verification/AddressProps.thy ===== *)
theory AddressProps
  imports Address
begin

text \<open>
  The address parser is splitting at separators followed by unescaping, and both the escaping of a
  value and the printing of whole addresses are undone by it.
\<close>

section \<open>Searching for a separator\<close>

lemma occurs_char: "occurs_at str e [c] k \<longleftrightarrow> k < e \<and> k < length str \<and> str ! k = c"
  by (cases "drop k str") (auto simp: occurs_at_def nth_via_drop Suc_le_eq dest: arg_cong[where f = length])

lemma substring_nth: "e \<le> length str \<Longrightarrow> i + m < e \<Longrightarrow> substring str i (e - i) ! m = str ! (i + m)"
  by (simp add: substring_def)

lemma substring_length [simp]: "e \<le> length str \<Longrightarrow> length (substring str i (e - i)) = e - i"
  by (simp add: substring_def)

lemma takeWhile_first: "n < length xs \<Longrightarrow> \<not> P (xs ! n) \<Longrightarrow> (\<And>m. m < n \<Longrightarrow> P (xs ! m)) \<Longrightarrow> length (takeWhile P xs) = n"
proof (induction xs arbitrary: n)
  case (Cons x xs)
  show ?case
  proof (cases n)
    case 0
    then show ?thesis using Cons.prems by simp
  next
    case (Suc n')
    have "P x" using Cons.prems(3)[of 0] Suc by simp
    moreover have "length (takeWhile P xs) = n'"
      using Cons.prems Cons.prems(3)[of "Suc m" for m] Suc by (intro Cons.IH) auto
    ultimately show ?thesis using Suc by simp
  qed
qed simp

text \<open>Searching for one character finds the end of the part of the range before it.\<close>

lemma find_to_char:
  assumes "c \<noteq> 0" "i \<le> e" "e \<le> length str"
  shows "dbus_string_find_to str i e [c] =
    (let seg = substring str i (e - i) in
     if c \<in> set seg then (True, i + length (takeWhile (\<lambda>x. x \<noteq> c) seg)) else (False, e))"
proof -
  let ?seg = "substring str i (e - i)"
  have found_in: "c \<in> set ?seg \<longleftrightarrow> (\<exists>k. i \<le> k \<and> k < e \<and> str ! k = c)"
  proof
    assume "c \<in> set ?seg"
    then obtain m where "m < e - i" "?seg ! m = c" using assms(3) by (auto simp: in_set_conv_nth)
    then show "\<exists>k. i \<le> k \<and> k < e \<and> str ! k = c"
      using assms substring_nth[OF assms(3), of i m] by (intro exI[of _ "i + m"]) simp
  next
    assume "\<exists>k. i \<le> k \<and> k < e \<and> str ! k = c"
    then obtain k where "i \<le> k" "k < e" "str ! k = c" by blast
    then show "c \<in> set ?seg"
      using assms substring_nth[OF assms(3), of i "k - i"] nth_mem[of "k - i" ?seg] by simp
  qed
  obtain b k where f: "find_to_loop str e [c] i = (b, k)" by (cases "find_to_loop str e [c] i")
  have d: "dbus_string_find_to str i e [c] = (b, k)" using assms(1) f by (simp add: dbus_string_find_to_def)
  have s: "case (b, k) of (True, k) \<Rightarrow> i \<le> k \<and> occurs_at str e [c] k \<and> (\<forall>m. i \<le> m \<and> m < k \<longrightarrow> \<not> occurs_at str e [c] m)
     | (False, k) \<Rightarrow> k = e \<and> (\<forall>m \<ge> i. \<not> occurs_at str e [c] m)"
    using find_to_loop_spec[of "[c]" e str i] assms f by simp
  show ?thesis
  proof (cases b)
    case True
    then have k: "i \<le> k" "k < e" "str ! k = c" and first: "\<And>m. i \<le> m \<Longrightarrow> m < k \<Longrightarrow> str ! m \<noteq> c"
      using s assms(3) by (auto simp: occurs_char)
    have "length (takeWhile (\<lambda>x. x \<noteq> c) ?seg) = k - i"
      using k first assms(3) by (intro takeWhile_first) (simp_all add: substring_nth)
    then show ?thesis using d True k found_in by auto
  next
    case False
    then have "\<not> (\<exists>k. i \<le> k \<and> k < e \<and> str ! k = c)" using s assms(3) by (auto simp: occurs_char)
    then show ?thesis using d False s found_in by simp
  qed
qed

section \<open>Addresses by splitting\<close>

text \<open>A list cut at a separator; a separator at the end opens no further piece.\<close>

function pieces :: "'a \<Rightarrow> 'a list \<Rightarrow> 'a list list" where
  "pieces s [] = []"
| "pieces s (x # xs) = takeWhile (\<lambda>y. y \<noteq> s) (x # xs) # pieces s (tl (dropWhile (\<lambda>y. y \<noteq> s) (x # xs)))"
  by pat_completeness auto
termination
  by (relation "measure (\<lambda>(s, xs). length xs)") (auto simp: less_Suc_eq_le intro: le_trans[OF diff_le_self length_dropWhile_le])

fun unescaped :: "byte list \<Rightarrow> byte list option" where
  "unescaped [] = Some []"
| "unescaped (c # p) =
     (if ADDRESS_OPTIONALLY_ESCAPED_BYTE c then map_option (Cons c) (unescaped p)
      else if c = 0x25 then
        (case p of
           h # l # p' \<Rightarrow>
             (case (hex_value h, hex_value l) of
                (Some h, Some l) \<Rightarrow> map_option (Cons (push_bit 4 h OR l)) (unescaped p')
              | _ \<Rightarrow> None)
         | _ \<Rightarrow> None)
      else None)"

definition pair_of :: "byte list \<Rightarrow> (byte list \<times> byte list) option" where
  "pair_of seg =
     (let key = takeWhile (\<lambda>c. c \<noteq> 0x3d) seg; rest = dropWhile (\<lambda>c. c \<noteq> 0x3d) seg
      in if rest = [] \<or> key = [] \<or> tl rest = [] then None
         else map_option (Pair key) (unescaped (tl rest)))"

definition entry_of :: "byte list \<Rightarrow> (byte list \<times> (byte list \<times> byte list) list) option" where
  "entry_of seg =
     (let rest = dropWhile (\<lambda>c. c \<noteq> 0x3a) seg
      in if rest = [] then None
         else map_option (Pair (takeWhile (\<lambda>c. c \<noteq> 0x3a) seg)) (those (map pair_of (pieces 0x2c (tl rest)))))"

definition entries_of :: "byte list \<Rightarrow> (byte list \<times> (byte list \<times> byte list) list) list option" where
  "entries_of address = (if address = [] then None else those (map entry_of (pieces 0x3b address)))"

definition as_entry :: "byte list \<times> (byte list \<times> byte list) list \<Rightarrow> DBusAddressEntry" where
  "as_entry e = \<lparr>entry_method = fst e, entry_keys = map fst (snd e), entry_values = map snd (snd e)\<rparr>"

definition or_bad :: "'a option \<Rightarrow> DBusError + 'a" where
  "or_bad r = (case r of None \<Rightarrow> Inl DBUS_ERROR_BAD_ADDRESS | Some x \<Rightarrow> Inr x)"

lemma or_bad_simps [simp]: "or_bad None = Inl DBUS_ERROR_BAD_ADDRESS" "or_bad (Some x) = Inr x"
  by (simp_all add: or_bad_def)

section \<open>The parser splits\<close>

lemma hex_decode_pair: "dbus_string_hex_decode [h, l] =
  (case hex_value h of None \<Rightarrow> ([], 0) | Some a \<Rightarrow>
   (case hex_value l of None \<Rightarrow> ([push_bit 4 a], 1) | Some b \<Rightarrow> ([push_bit 4 a OR b], 2)))"
  by (simp add: dbus_string_hex_decode_def split: option.splits)

lemma unescaped_loop:
  "computes (append_unescaped_loop u p) (or_bad (map_option ((@) u) (unescaped p)))"
proof (induction p arbitrary: u rule: unescaped.induct)
  case (2 c p)
  show ?case
  proof (cases "ADDRESS_OPTIONALLY_ESCAPED_BYTE c")
    case True
    then show ?thesis using "2.IH"(1)[OF True, of "u @ [c]"]
      by (auto intro!: computes_fallible_andthen simp: option.map_comp comp_def)
  next
    case False
    show ?thesis
    proof (cases "c = 0x25")
      case True
      show ?thesis
      proof (cases "\<exists>h l p'. p = h # l # p'")
        case two: True
        then obtain h l p' where p: "p = h # l # p'" by blast
        show ?thesis
        proof (cases "\<exists>a b. hex_value h = Some a \<and> hex_value l = Some b")
          case digits: True
          then obtain a b where d: "hex_value h = Some a" "hex_value l = Some b" by blast
          show ?thesis using False True p d "2.IH"(2)[OF False True p refl refl d, of "u @ [push_bit 4 a OR b]"]
            by (auto simp: hex_decode_pair option.map_comp comp_def intro!: computes_fallible_andthen)
        next
          case no_digits: False
          then show ?thesis using False True p
            by (auto simp: hex_decode_pair intro!: computes_fallible_andthen split: option.splits)
        qed
      next
        case False
        then show ?thesis using True \<open>\<not> ADDRESS_OPTIONALLY_ESCAPED_BYTE c\<close> by (auto split: list.splits)
      qed
    qed (use False in auto)
  qed
qed auto

text \<open>The positions a search gives, as parts of the searched range.\<close>

lemma sep_position:
  assumes "c \<noteq> 0" "pos \<le> e" "e \<le> length str"
  shows "(case dbus_string_find_to str pos e [c] of (found, p) \<Rightarrow> if found then p else e) =
    pos + length (takeWhile (\<lambda>x. x \<noteq> c) (substring str pos (e - pos)))"
proof (cases "c \<in> set (substring str pos (e - pos))")
  case False
  then have all: "takeWhile (\<lambda>x. x \<noteq> c) (substring str pos (e - pos)) = substring str pos (e - pos)"
    by (intro takeWhile_eq_all_conv[THEN iffD2]) auto
  show ?thesis unfolding all using False find_to_char[OF assms] assms by simp
qed (use find_to_char[OF assms] in simp)

lemma takeWhile_part:
  assumes "pos \<le> e" "e \<le> length str" "seg = substring str pos (e - pos)"
  shows "takeWhile P seg = substring str pos (length (takeWhile P seg))"
    and "tl (dropWhile P seg) = substring str (pos + length (takeWhile P seg) + 1) (e - (pos + length (takeWhile P seg) + 1))"
    and "length (takeWhile P seg) \<le> e - pos"
proof -
  show l: "length (takeWhile P seg) \<le> e - pos"
    using length_takeWhile_le[of P seg] assms by simp
  show "takeWhile P seg = substring str pos (length (takeWhile P seg))"
  proof -
    have "takeWhile P seg = take (length (takeWhile P seg)) (take (e - pos) (drop pos str))"
      using takeWhile_eq_take[of P seg] assms(3) by (metis substring_def)
    also have "\<dots> = substring str pos (length (takeWhile P seg))" using l by (simp add: substring_def min_absorb1)
    finally show ?thesis .
  qed
  show "tl (dropWhile P seg) = substring str (pos + length (takeWhile P seg) + 1) (e - (pos + length (takeWhile P seg) + 1))"
  proof -
    have "tl (dropWhile P seg) = drop (Suc (length (takeWhile P seg))) seg"
      by (simp add: dropWhile_eq_drop[of P seg] drop_Suc tl_drop)
    then show ?thesis using assms(3) by (simp add: substring_def drop_take add.commute)
  qed
qed

lemma dropWhile_Nil: "dropWhile (\<lambda>x. x \<noteq> c) xs = [] \<longleftrightarrow> c \<notin> set xs"
  by auto

lemma map_option_append_Nil [simp]: "map_option ((@) []) r = r"
  by (cases r) simp_all

text \<open>One pair.\<close>

lemma pair_position:
  assumes "pos \<le> c" "c \<le> length str" "seg = substring str pos (c - pos)"
    and "dbus_string_find_to str pos c [0x3d] = (found, q)"
  shows "pair_of seg = (if \<not> found \<or> q = pos \<or> q + 1 = c then None
      else map_option (Pair (substring str pos (q - pos))) (unescaped (substring str (q + 1) (c - q - 1))))"
proof (cases "0x3d \<in> set seg")
  case True
  let ?key = "takeWhile (\<lambda>x. x \<noteq> 0x3d) seg"
  have q: "found" "q = pos + length ?key" using assms True find_to_char[of "0x3d" pos c str] by simp_all
  have part: "?key = substring str pos (length ?key)"
    "tl (dropWhile (\<lambda>x. x \<noteq> 0x3d) seg) = substring str (q + 1) (c - (q + 1))"
    using takeWhile_part[OF assms(1-3)] q by simp_all
  have "q < c"
  proof -
    have "dropWhile (\<lambda>x. x \<noteq> 0x3d) seg \<noteq> []" using True by simp
    then have "length ?key < length seg" by (metis dropWhile_eq_drop drop_all not_le)
    then show ?thesis using assms q by simp
  qed
  then have "length (substring str (q + 1) (c - (q + 1))) = c - (q + 1)" using assms(2) by simp
  then have e: "substring str (q + 1) (c - (q + 1)) = [] \<longleftrightarrow> q + 1 = c" using \<open>q < c\<close> by (metis Suc_eq_plus1 Suc_leI diff_is_0_eq' le_antisym length_0_conv order_refl diff_diff_cancel diff_zero)
  show ?thesis using q part e True by (auto simp: pair_of_def Let_def dropWhile_Nil)
next
  case False
  then show ?thesis using assms find_to_char[of "0x3d" pos c str] by (auto simp: pair_of_def Let_def)
qed

lemma those_Cons: "those (x # xs) = (case x of None \<Rightarrow> None | Some y \<Rightarrow> map_option (Cons y) (those xs))"
  by simp

lemma parse_pairs_splits:
  "e \<le> length str \<Longrightarrow>
   computes (parse_pairs str e pos entry)
     (or_bad (map_option (\<lambda>kvs. entry\<lparr>entry_keys := entry_keys entry @ map fst kvs,
        entry_values := entry_values entry @ map snd kvs\<rparr>)
        (those (map pair_of (pieces 0x2c (substring str pos (e - pos)))))))"
proof (induction str e pos entry rule: parse_pairs.induct)
  case (1 str e pos entry)
  show ?case
  proof (cases "pos < e")
    case False
    then show ?thesis by (auto simp: parse_pairs.simps[of str e pos] substring_def)
  next
    case True
    let ?seg = "substring str pos (e - pos)"
    define c where "c = pos + length (takeWhile (\<lambda>x. x \<noteq> 0x2c) ?seg)"
    have comma: "(case dbus_string_find_to str pos e (ascii '','') of (found, p) \<Rightarrow> if found then p else e) = c"
      using sep_position[of "0x2c" pos e str] True "1.prems" by (simp add: c_def)
    have part: "takeWhile (\<lambda>x. x \<noteq> 0x2c) ?seg = substring str pos (c - pos)"
      "tl (dropWhile (\<lambda>x. x \<noteq> 0x2c) ?seg) = substring str (c + 1) (e - (c + 1))" "pos \<le> c" "c \<le> e"
      using takeWhile_part[of pos e str ?seg "\<lambda>x. x \<noteq> 0x2c"] True "1.prems" by (simp_all add: c_def)
    have ne: "?seg \<noteq> []" using True "1.prems" by (metis length_0_conv substring_length zero_less_diff less_irrefl)
    have pieces: "pieces 0x2c ?seg = substring str pos (c - pos) # pieces 0x2c (substring str (c + 1) (e - (c + 1)))"
      using part ne pieces.simps(2) by (metis list.exhaust)
    obtain found q where f: "dbus_string_find_to str pos c (ascii ''='') = (found, q)" by fastforce
    have pair: "pair_of (substring str pos (c - pos)) = (if \<not> found \<or> q = pos \<or> q + 1 = c then None
      else map_option (Pair (substring str pos (q - pos))) (unescaped (substring str (q + 1) (c - q - 1))))"
      using part(3,4) "1.prems" f by (intro pair_position) simp_all
    show ?thesis
    proof (cases "\<not> found \<or> q = pos \<or> q + 1 = c")
      case bad: True
      then show ?thesis using True pair pieces by (auto simp: parse_pairs.simps[of str e pos] comma f simp del: ascii_Cons)
    next
      case good: False
      let ?u = "unescaped (substring str (q + 1) (c - q - 1))"
      have v: "computes (append_unescaped_value [] str (q + 1) (c - q - 1)) (or_bad ?u)"
        using unescaped_loop[of "[]" "substring str (q + 1) (c - q - 1)"]
        by (simp add: append_unescaped_value_def substring_def)
      have IH: "computes (parse_pairs str e (c + 1) entry')
         (or_bad (map_option (\<lambda>kvs. entry'\<lparr>entry_keys := entry_keys entry' @ map fst kvs,
            entry_values := entry_values entry' @ map snd kvs\<rparr>)
            (those (map pair_of (pieces 0x2c (substring str (c + 1) (e - (c + 1))))))))" for entry'
        using "1.IH"[OF True comma[symmetric] f[symmetric] refl good] "1.prems" by simp
      show ?thesis
      proof (cases ?u)
        case None
        then show ?thesis using True good v pair pieces
          by (auto simp: parse_pairs.simps[of str e pos] comma f simp del: ascii_Cons intro!: computes_fallible_andthen computes_andthen_error[OF v[unfolded None or_bad_simps], simplified])
      next
        case (Some w)
        then show ?thesis using True good v pair pieces
            IH[of "entry\<lparr>entry_keys := entry_keys entry @ [substring str pos (q - pos)], entry_values := entry_values entry @ [w]\<rparr>"]
          by (auto simp: parse_pairs.simps[of str e pos] comma f option.map_comp comp_def simp del: ascii_Cons
            intro!: computes_fallible_andthen computes_andthen[OF v[unfolded Some or_bad_simps], simplified])
      qed
    qed
  qed
qed

lemma parse_entries_splits:
  "computes (parse_entries str pos entries)
     (or_bad (map_option (\<lambda>es. entries @ map as_entry es) (those (map entry_of (pieces 0x3b (drop pos str))))))"
proof (induction str pos entries rule: parse_entries.induct)
  case (1 str pos entries)
  show ?case
  proof (cases "pos < length str")
    case False
    then show ?thesis by (auto simp: parse_entries.simps[of str pos])
  next
    case True
    let ?len = "length str"
    let ?seg = "substring str pos (?len - pos)"
    have seg: "?seg = drop pos str" by (simp add: substring_def)
    define e where "e = pos + length (takeWhile (\<lambda>x. x \<noteq> 0x3b) ?seg)"
    have semi: "(case dbus_string_find str pos (ascii '';'') of (found, p) \<Rightarrow> if found then p else ?len) = e"
      using sep_position[of "0x3b" pos ?len str] True by (simp add: e_def dbus_string_find_def)
    have part: "takeWhile (\<lambda>x. x \<noteq> 0x3b) ?seg = substring str pos (e - pos)"
      "tl (dropWhile (\<lambda>x. x \<noteq> 0x3b) ?seg) = substring str (e + 1) (?len - (e + 1))" "pos \<le> e" "e \<le> ?len"
      using takeWhile_part[of pos ?len str ?seg "\<lambda>x. x \<noteq> 0x3b"] True by (simp_all add: e_def)
    have pieces: "pieces 0x3b (drop pos str) = substring str pos (e - pos) # pieces 0x3b (drop (e + 1) str)"
    proof -
      have "drop pos str \<noteq> []" using True by simp
      then obtain x xs where "drop pos str = x # xs" by (cases "drop pos str") simp_all
      then show ?thesis using part(1,2)[unfolded seg] pieces.simps(2)[of "0x3b" x xs] by (simp add: substring_def)
    qed
    let ?s = "substring str pos (e - pos)"
    obtain found q where f: "dbus_string_find_to str pos e (ascii '':'') = (found, q)" by fastforce
    show ?thesis
    proof (cases found)
      case nf: False
      then have "0x3a \<notin> set ?s" using find_to_char[of "0x3a" pos e str] part(3,4) f by (auto simp: Let_def split: if_splits)
      then have "entry_of ?s = None" by (simp add: entry_of_def)
      then show ?thesis using True pieces nf
        by (auto simp: parse_entries.simps[of str pos] semi f create_entry_def simp del: ascii_Cons intro!: computes_fallible_andthen computes_andthen)
    next
      case True
      then have q: "0x3a \<in> set ?s" "q = pos + length (takeWhile (\<lambda>x. x \<noteq> 0x3a) ?s)"
        using find_to_char[of "0x3a" pos e str] part(3,4) f by (auto simp: Let_def split: if_splits)
      have parts: "takeWhile (\<lambda>x. x \<noteq> 0x3a) ?s = substring str pos (q - pos)"
        "tl (dropWhile (\<lambda>x. x \<noteq> 0x3a) ?s) = substring str (q + 1) (e - (q + 1))"
        using takeWhile_part[of pos e str ?s "\<lambda>x. x \<noteq> 0x3a"] part(3,4) q(2) by simp_all
      have entry: "entry_of ?s = map_option (Pair (substring str pos (q - pos)))
          (those (map pair_of (pieces 0x2c (substring str (q + 1) (e - (q + 1))))))"
        using q(1) parts unfolding entry_of_def Let_def dropWhile_Nil by simp
      let ?kvs = "those (map pair_of (pieces 0x2c (substring str (q + 1) (e - (q + 1)))))"
      have p: "computes (parse_pairs str e (q + 1) entry) (or_bad (map_option (\<lambda>kvs. entry\<lparr>entry_keys := entry_keys entry @ map fst kvs,
          entry_values := entry_values entry @ map snd kvs\<rparr>) ?kvs))" for entry
        by (rule parse_pairs_splits[OF part(4)])
      have IH: "computes (parse_entries str (e + 1) (entries @ [entry]))
        (or_bad (map_option (\<lambda>es. (entries @ [entry]) @ map as_entry es) (those (map entry_of (pieces 0x3b (drop (e + 1) str))))))" for entry
        using "1.IH"[OF \<open>pos < ?len\<close> semi[symmetric] f[symmetric]] True by simp
      show ?thesis
      proof (cases ?kvs)
        case None
        then show ?thesis using \<open>pos < ?len\<close> True pieces entry p
          by (auto simp: parse_entries.simps[of str pos] semi f create_entry_def simp del: ascii_Cons
            intro!: computes_fallible_andthen computes_andthen[OF computes_fallible_andthen[OF computes_fallible]]
              computes_andthen_error[OF p[unfolded None option.map or_bad_simps], simplified])
      next
        case (Some kvs)
        have "computes (parse_entries str pos entries) (or_bad (map_option
          (\<lambda>es. (entries @ [as_entry (substring str pos (q - pos), kvs)]) @ map as_entry es) (those (map entry_of (pieces 0x3b (drop (e + 1) str))))))"
          using \<open>pos < ?len\<close> True Some IH[of "as_entry (substring str pos (q - pos), kvs)"]
          by (auto simp: parse_entries.simps[of str pos] semi f create_entry_def as_entry_def simp del: ascii_Cons
            intro!: computes_fallible_andthen computes_andthen[OF computes_fallible_andthen[OF computes_fallible]]
              computes_andthen[OF p[unfolded Some option.map or_bad_simps], simplified])
        then show ?thesis using pieces entry Some by (simp add: option.map_comp comp_def)
      qed
    qed
  qed
qed

text \<open>
  C7. The parser splits an address at its separators: entries at semicolons, the method at the first
  colon, pairs at commas, keys at the first equals sign, and unescapes the values. Whatever allocation
  fails it reports the lack of memory or the same result as with memory.
\<close>

theorem parse_address_splits:
  "computes (dbus_parse_address address) (or_bad (map_option (map as_entry) (entries_of address)))"
  using parse_entries_splits[of address 0 "[]"]
  by (cases "those (map entry_of (pieces 0x3b address))")
    (auto simp: dbus_parse_address_def entries_of_def intro: computes_andthen computes_andthen_error)


section \<open>Round trips\<close>

definition escape_byte :: "byte \<Rightarrow> byte list" where
  "escape_byte c = (if ADDRESS_OPTIONALLY_ESCAPED_BYTE c then [c] else 0x25 # byte_as_hex c)"

definition escaped_form :: "byte list \<Rightarrow> byte list" where
  "escaped_form v = concat (map escape_byte v)"

lemma escaped_form_simps [simp]: "escaped_form [] = []" "escaped_form (c # v) = escape_byte c @ escaped_form v"
  by (simp_all add: escaped_form_def)

lemma unescaped_escaped_form: "unescaped (escaped_form v @ rest) = map_option ((@) v) (unescaped rest)"
proof (induction v)
  case (Cons c v)
  have "\<not> ADDRESS_OPTIONALLY_ESCAPED_BYTE 0x25" by (simp add: ADDRESS_OPTIONALLY_ESCAPED_BYTE_def)
  then show ?case using Cons
    by (auto simp: escape_byte_def byte_as_hex_def nibbles option.map_comp comp_def)
qed (cases "unescaped rest"; simp)

lemma hexdigits_plain: "n < 16 \<Longrightarrow> ADDRESS_OPTIONALLY_ESCAPED_BYTE (hexdigits ! n)"
proof -
  have "list_all (\<lambda>n. ADDRESS_OPTIONALLY_ESCAPED_BYTE (hexdigits ! n)) [0..<16]" by code_simp
  then show "n < 16 \<Longrightarrow> ADDRESS_OPTIONALLY_ESCAPED_BYTE (hexdigits ! n)" by (simp add: list_all_iff)
qed

lemma escaped_form_plain: "x \<in> set (escaped_form v) \<Longrightarrow> ADDRESS_OPTIONALLY_ESCAPED_BYTE x \<or> x = 0x25"
proof (induction v)
  case (Cons c v)
  have "unat (drop_bit 4 c) < 16" "unat (c AND 0x0f) < 16"
    using unat_byte[of c] by (simp only: unat_drop_bit_eq, simp add: drop_bit_eq_div)
      (simp add: unsigned_and_eq nat_masks[simplified])
  then show ?case using Cons by (auto simp: escape_byte_def byte_as_hex_def hexdigits_plain split: if_splits)
qed simp

lemma escaped_form_no_separator:
  "0x3b \<notin> set (escaped_form v)" "0x2c \<notin> set (escaped_form v)"
  using escaped_form_plain[of _ v] by (force simp: ADDRESS_OPTIONALLY_ESCAPED_BYTE_def)+

lemma escaped_form_Nil: "escaped_form v = [] \<longleftrightarrow> v = []"
  by (cases v) (auto simp: escape_byte_def)

lemma append_escaped_loop_result:
  "case append_escaped_loop sg p e mem of
     None \<Rightarrow> sg \<and> (\<exists>c\<in>set p. 0x80 \<le> c)
   | Some ((ok, r), mem') \<Rightarrow>
       (\<exists>t. r = e @ t) \<and> (if ok then r = e @ escaped_form p \<and> (never_fails mem \<longrightarrow> never_fails mem') else \<not> never_fails mem)"
proof (induction sg p e mem rule: append_escaped_loop.induct)
  case (2 sg c p e mem)
  obtain ok mem1 where a: "alloc mem = (ok, mem1)" by fastforce
  obtain ok2 mem2 where b: "alloc mem1 = (ok2, mem2)" by fastforce
  have n: "never_fails mem \<Longrightarrow> ok \<and> never_fails mem1" "never_fails mem1 \<Longrightarrow> ok2 \<and> never_fails mem2"
    using a b alloc_never_fails by blast+
  show ?case
  proof (cases "ADDRESS_OPTIONALLY_ESCAPED_BYTE c")
    case True
    then show ?thesis using "2.IH"(1)[OF True a[symmetric]] a n
      by (auto simp: escape_byte_def split: option.splits if_splits)
  next
    case False
    then show ?thesis
      using "2.IH"(2)[OF False a[symmetric] _ _ b[symmetric]] a b n
      by (auto simp: escape_byte_def split: option.splits if_splits)
  qed
qed simp

lemma append_escaped_result:
  "case dbus_address_append_escaped sg e u mem of
     None \<Rightarrow> sg \<and> (\<exists>c\<in>set u. 0x80 \<le> c)
   | Some ((ok, r), mem') \<Rightarrow>
       if ok then r = e @ escaped_form u \<and> (never_fails mem \<longrightarrow> never_fails mem') else r = e \<and> \<not> never_fails mem"
  using append_escaped_loop_result[of sg u e mem]
  by (auto simp: dbus_address_append_escaped_def split: option.splits prod.splits)

text \<open>
  C9. Escaping a value and unescaping the result gives the value back, where characters are unsigned.
  Where they are signed a byte above the ASCII range can make escaping read in front of its table of
  digits, and nothing else goes wrong; no value is returned only if memory runs out.
\<close>

theorem escape_value_round_trip:
  "case dbus_address_escape_value char_signed v mem of
     None \<Rightarrow> char_signed \<and> (\<exists>c\<in>set v. 0x80 \<le> c)
   | Some None \<Rightarrow> \<not> never_fails mem
   | Some (Some escaped) \<Rightarrow> computes (dbus_address_unescape_value escaped) (Inr v)"
proof -
  obtain ok mem1 where a: "alloc mem = (ok, mem1)" by fastforce
  have n: "never_fails mem \<Longrightarrow> ok \<and> never_fails mem1" using a alloc_never_fails by blast
  have u: "computes (dbus_address_unescape_value (escaped_form v)) (Inr v)"
    using unescaped_loop[of "[]" "escaped_form v"] unescaped_escaped_form[of v "[]"]
    by (auto simp: dbus_address_unescape_value_def append_unescaped_value_def intro!: computes_fallible_andthen computes_andthen)
  show ?thesis
    using append_escaped_result[where sg = char_signed and e = "[]" and u = v and mem = mem1] a n u alloc_never_fails
    by (auto simp: dbus_address_escape_value_def split: option.splits if_splits prod.splits)
qed

text \<open>The escaping of a value with an accented letter, on a host with signed characters.\<close>

theorem signed_escape_aborts: "dbus_address_escape_value True [0x63, 0xe9] [] = None"
  by code_simp

text \<open>The specification does not list the asterisk among the bytes that may stand unescaped.\<close>

theorem asterisk_stands_unescaped:
  "dbus_address_escape_value False (ascii ''a*'') [] = Some (Some (ascii ''a*''))"
  "fst (dbus_address_unescape_value (ascii ''a*'') []) = Inr (ascii ''a*'')"
  by code_simp+

text \<open>Addresses as they are written.\<close>

fun join_with :: "'a \<Rightarrow> 'a list list \<Rightarrow> 'a list" where
  "join_with s [] = []"
| "join_with s [x] = x"
| "join_with s (x # y # zs) = x @ s # join_with s (y # zs)"

definition pair_text :: "byte list \<times> byte list \<Rightarrow> byte list" where
  "pair_text kv = fst kv @ 0x3d # escaped_form (snd kv)"

definition entry_text :: "byte list \<times> (byte list \<times> byte list) list \<Rightarrow> byte list" where
  "entry_text e = fst e @ 0x3a # join_with 0x2c (map pair_text (snd e))"

definition address_text :: "(byte list \<times> (byte list \<times> byte list) list) list \<Rightarrow> byte list" where
  "address_text es = join_with 0x3b (map entry_text es)"

definition plain_pair :: "byte list \<times> byte list \<Rightarrow> bool" where
  "plain_pair kv \<longleftrightarrow> fst kv \<noteq> [] \<and> snd kv \<noteq> [] \<and> {0x3d, 0x2c, 0x3b} \<inter> set (fst kv) = {}"

definition plain_entry :: "byte list \<times> (byte list \<times> byte list) list \<Rightarrow> bool" where
  "plain_entry e \<longleftrightarrow> {0x3a, 0x3b} \<inter> set (fst e) = {} \<and> list_all plain_pair (snd e)"

lemma takeWhile_separator: "c \<notin> set xs \<Longrightarrow> takeWhile (\<lambda>x. x \<noteq> c) (xs @ c # ys) = xs"
  "c \<notin> set xs \<Longrightarrow> dropWhile (\<lambda>x. x \<noteq> c) (xs @ c # ys) = c # ys"
  by (induction xs) auto

lemma pieces_append: "s \<notin> set x \<Longrightarrow> pieces s (x @ s # r) = x # pieces s r"
  using takeWhile_separator[of s x r] by (cases x) simp_all

lemma pieces_single: "s \<notin> set x \<Longrightarrow> x \<noteq> [] \<Longrightarrow> pieces s x = [x]"
proof (cases x)
  case (Cons y ys)
  assume "s \<notin> set x"
  then have "takeWhile (\<lambda>y. y \<noteq> s) x = x" "dropWhile (\<lambda>y. y \<noteq> s) x = []" by auto
  then show ?thesis using Cons pieces.simps(2)[of s y ys] by simp
qed simp

lemma pieces_join:
  "list_all (\<lambda>x. s \<notin> set x) xs \<Longrightarrow> (xs \<noteq> [] \<longrightarrow> last xs \<noteq> []) \<Longrightarrow> pieces s (join_with s xs) = xs"
  by (induction s xs rule: join_with.induct) (simp_all add: pieces_append pieces_single)

lemma set_join: "x \<in> set (join_with s xs) \<Longrightarrow> x = s \<or> (\<exists>y\<in>set xs. x \<in> set y)"
  by (induction s xs rule: join_with.induct) auto

lemma those_map: "list_all (\<lambda>x. f (g x) = Some x) xs \<Longrightarrow> those (map f (map g xs)) = Some xs"
  by (induction xs) simp_all

lemma pair_of_text: "plain_pair kv \<Longrightarrow> pair_of (pair_text kv) = Some kv"
  using unescaped_escaped_form[of "snd kv" "[]"]
  by (cases kv) (auto simp: plain_pair_def pair_of_def pair_text_def escaped_form_Nil takeWhile_separator Let_def)

lemma pairs_of_text:
  assumes "list_all plain_pair kvs"
  shows "those (map pair_of (pieces 0x2c (join_with 0x2c (map pair_text kvs)))) = Some kvs"
proof -
  have p: "pieces 0x2c (join_with 0x2c (map pair_text kvs)) = map pair_text kvs"
    using assms escaped_form_no_separator(2)
    by (intro pieces_join) (auto simp: list_all_iff plain_pair_def pair_text_def last_map)
  show ?thesis unfolding p using assms by (intro those_map) (auto simp: list_all_iff pair_of_text)
qed

lemma entry_of_text: "plain_entry e \<Longrightarrow> entry_of (entry_text e) = Some e"
  using pairs_of_text by (cases e) (auto simp: plain_entry_def entry_of_def entry_text_def takeWhile_separator)

lemma entry_text_no_semicolon: "plain_entry e \<Longrightarrow> 0x3b \<notin> set (entry_text e)"
  using set_join[of "0x3b" "0x2c" "map pair_text (snd e)"] escaped_form_no_separator(1)
  by (auto simp: plain_entry_def entry_text_def list_all_iff plain_pair_def pair_text_def)

lemma get_value_map_of: "get_value_loop (map fst kvs) (map snd kvs) key = Some (map_of kvs key)"
  by (induction kvs) auto

text \<open>
  C8. An address that is written from entries is parsed back to them, and asking an entry for a key
  gives the first value written for it: methods without colon and semicolon, pairs with a key and a
  value that are not empty, keys without the separators, any bytes in the values.
\<close>

theorem parse_address_round_trip:
  assumes "es \<noteq> []" "list_all plain_entry es"
  shows "computes (dbus_parse_address (address_text es)) (Inr (map as_entry es)) \<and>
    list_all (\<lambda>e. dbus_address_entry_get_method (as_entry e) = fst e \<and>
      (\<forall>key. dbus_address_entry_get_value (as_entry e) key = Some (map_of (snd e) key))) es"
proof -
  have p: "pieces 0x3b (address_text es) = map entry_text es"
    unfolding address_text_def using assms entry_text_no_semicolon
    by (intro pieces_join) (auto simp: list_all_iff last_map entry_text_def)
  have "address_text es \<noteq> []" using p assms(1) by auto
  then have "entries_of (address_text es) = Some es"
    unfolding entries_of_def p using assms(2) those_map[of entry_of entry_text es]
    by (simp add: list_all_iff entry_of_text)
  then show ?thesis
    using parse_entries_splits[of "address_text es" 0 "[]"] p \<open>address_text es \<noteq> []\<close>
    by (auto simp: dbus_parse_address_def entries_of_def list_all_iff dbus_address_entry_get_method_def
      dbus_address_entry_get_value_def as_entry_def get_value_map_of intro: computes_andthen)
qed

theorem parse_address_round_trip_witness:
  "fst (dbus_parse_address (ascii ''unix:path=/tmp/a%20b'') []) =
     Inr [\<lparr>entry_method = ascii ''unix'', entry_keys = [ascii ''path''], entry_values = [ascii ''/tmp/a b'']\<rparr>]"
proof -
  have t: "address_text [(ascii ''unix'', [(ascii ''path'', ascii ''/tmp/a b'')])] = ascii ''unix:path=/tmp/a%20b''"
    by code_simp
  have "list_all plain_entry [(ascii ''unix'', [(ascii ''path'', ascii ''/tmp/a b'')])]" by code_simp
  then show ?thesis
    using parse_address_round_trip[of "[(ascii ''unix'', [(ascii ''path'', ascii ''/tmp/a b'')])]", unfolded t]
    by (auto simp: as_entry_def dest: computes_never_fails[of _ _ "[]"])
qed

end
