(* ===== verification/Header.thy ===== *)
theory Header
  imports Body Names
begin

text \<open>
  Message headers: \<open>dbus/dbus-marshal-header.c\<close>. The cache of field positions, looking at a header,
  and the loading of a header from data of a peer. The position of a field is -1 when it is not known
  and -2 when there is no such field. Creating headers and setting fields need the type writers and
  are not modelled.
\<close>

unbundle bit_operations_syntax

section \<open>Constants\<close>

definition dbus_header_signature_str :: "byte list" where
  "dbus_header_signature_str = ascii ''yyyyuua(yv)''"

definition dbus_local_interface_str :: "byte list" where
  "dbus_local_interface_str = ascii ''org.freedesktop.DBus.Local''"

definition dbus_local_path_str :: "byte list" where
  "dbus_local_path_str = ascii ''/org/freedesktop/DBus/Local''"

abbreviation (input) FIELDS_ARRAY_SIGNATURE_OFFSET :: nat where "FIELDS_ARRAY_SIGNATURE_OFFSET \<equiv> 6"
abbreviation (input) BYTE_ORDER_OFFSET :: nat where "BYTE_ORDER_OFFSET \<equiv> 0"
abbreviation (input) TYPE_OFFSET :: nat where "TYPE_OFFSET \<equiv> 1"
abbreviation (input) FLAGS_OFFSET :: nat where "FLAGS_OFFSET \<equiv> 2"
abbreviation (input) VERSION_OFFSET :: nat where "VERSION_OFFSET \<equiv> 3"
abbreviation (input) BODY_LENGTH_OFFSET :: nat where "BODY_LENGTH_OFFSET \<equiv> 4"
abbreviation (input) SERIAL_OFFSET :: nat where "SERIAL_OFFSET \<equiv> 8"
abbreviation (input) FIELDS_ARRAY_LENGTH_OFFSET :: nat where "FIELDS_ARRAY_LENGTH_OFFSET \<equiv> 12"
abbreviation (input) FIRST_FIELD_OFFSET :: nat where "FIRST_FIELD_OFFSET \<equiv> 16"

abbreviation (input) DBUS_MESSAGE_TYPE_INVALID :: byte where "DBUS_MESSAGE_TYPE_INVALID \<equiv> 0"
abbreviation (input) DBUS_MESSAGE_TYPE_METHOD_CALL :: byte where "DBUS_MESSAGE_TYPE_METHOD_CALL \<equiv> 1"
abbreviation (input) DBUS_MESSAGE_TYPE_METHOD_RETURN :: byte where "DBUS_MESSAGE_TYPE_METHOD_RETURN \<equiv> 2"
abbreviation (input) DBUS_MESSAGE_TYPE_ERROR :: byte where "DBUS_MESSAGE_TYPE_ERROR \<equiv> 3"
abbreviation (input) DBUS_MESSAGE_TYPE_SIGNAL :: byte where "DBUS_MESSAGE_TYPE_SIGNAL \<equiv> 4"
abbreviation (input) DBUS_MAJOR_PROTOCOL_VERSION :: byte where "DBUS_MAJOR_PROTOCOL_VERSION \<equiv> 1"

abbreviation (input) DBUS_HEADER_FIELD_INVALID :: nat where "DBUS_HEADER_FIELD_INVALID \<equiv> 0"
abbreviation (input) DBUS_HEADER_FIELD_PATH :: nat where "DBUS_HEADER_FIELD_PATH \<equiv> 1"
abbreviation (input) DBUS_HEADER_FIELD_INTERFACE :: nat where "DBUS_HEADER_FIELD_INTERFACE \<equiv> 2"
abbreviation (input) DBUS_HEADER_FIELD_MEMBER :: nat where "DBUS_HEADER_FIELD_MEMBER \<equiv> 3"
abbreviation (input) DBUS_HEADER_FIELD_ERROR_NAME :: nat where "DBUS_HEADER_FIELD_ERROR_NAME \<equiv> 4"
abbreviation (input) DBUS_HEADER_FIELD_REPLY_SERIAL :: nat where "DBUS_HEADER_FIELD_REPLY_SERIAL \<equiv> 5"
abbreviation (input) DBUS_HEADER_FIELD_DESTINATION :: nat where "DBUS_HEADER_FIELD_DESTINATION \<equiv> 6"
abbreviation (input) DBUS_HEADER_FIELD_SENDER :: nat where "DBUS_HEADER_FIELD_SENDER \<equiv> 7"
abbreviation (input) DBUS_HEADER_FIELD_SIGNATURE :: nat where "DBUS_HEADER_FIELD_SIGNATURE \<equiv> 8"
abbreviation (input) DBUS_HEADER_FIELD_LAST :: nat where "DBUS_HEADER_FIELD_LAST \<equiv> DBUS_HEADER_FIELD_SIGNATURE"

text \<open>The table of the types of the fields: code and type of each.\<close>

definition dbus_header_field_types :: "(nat \<times> byte) list" where
  "dbus_header_field_types =
     [(DBUS_HEADER_FIELD_INVALID, DBUS_TYPE_INVALID),
      (DBUS_HEADER_FIELD_PATH, DBUS_TYPE_OBJECT_PATH),
      (DBUS_HEADER_FIELD_INTERFACE, DBUS_TYPE_STRING),
      (DBUS_HEADER_FIELD_MEMBER, DBUS_TYPE_STRING),
      (DBUS_HEADER_FIELD_ERROR_NAME, DBUS_TYPE_STRING),
      (DBUS_HEADER_FIELD_REPLY_SERIAL, DBUS_TYPE_UINT32),
      (DBUS_HEADER_FIELD_DESTINATION, DBUS_TYPE_STRING),
      (DBUS_HEADER_FIELD_SENDER, DBUS_TYPE_STRING),
      (DBUS_HEADER_FIELD_SIGNATURE, DBUS_TYPE_SIGNATURE)]"

definition EXPECTED_TYPE_OF_FIELD :: "nat \<Rightarrow> byte" where
  "EXPECTED_TYPE_OF_FIELD field = snd (dbus_header_field_types ! field)"

abbreviation (input) FIELD_VALUE_UNKNOWN :: int where "FIELD_VALUE_UNKNOWN \<equiv> - 1"
abbreviation (input) FIELD_VALUE_NONEXISTENT :: int where "FIELD_VALUE_NONEXISTENT \<equiv> - 2"

section \<open>Headers\<close>

record DBusHeader =
  hdr_data :: "byte list"
  hdr_fields :: "int list"
  hdr_padding :: nat
  hdr_byte_order :: byte

definition dbus_header_cache_invalidate_all :: "DBusHeader \<Rightarrow> DBusHeader" where
  "dbus_header_cache_invalidate_all header =
     header\<lparr>hdr_fields := replicate (DBUS_HEADER_FIELD_LAST + 1) FIELD_VALUE_UNKNOWN\<rparr>"

definition dbus_header_reinit :: "DBusHeader \<Rightarrow> byte \<Rightarrow> DBusHeader" where
  "dbus_header_reinit header order =
     dbus_header_cache_invalidate_all (header\<lparr>hdr_data := [], hdr_byte_order := order, hdr_padding := 0\<rparr>)"

text \<open>The fields of the structure are arbitrary before they are initialised.\<close>

definition dbus_header_init :: "DBusHeader \<Rightarrow> byte \<Rightarrow> mem_oracle \<Rightarrow> DBusHeader option \<times> mem_oracle" where
  "dbus_header_init header order mem =
     (case alloc mem of (ok, mem) \<Rightarrow> (if ok then Some (dbus_header_reinit header order) else None, mem))"

definition dbus_header_get_message_type :: "DBusHeader \<Rightarrow> byte result" where
  "dbus_header_get_message_type header =
     and_then (asserted (dbus_string_get_byte (hdr_data header) TYPE_OFFSET)) (\<lambda>type.
       if type = DBUS_MESSAGE_TYPE_INVALID then Inl Aborted else Inr type)"

definition dbus_header_get_serial :: "DBusHeader \<Rightarrow> (32 word) result" where
  "dbus_header_get_serial header =
     and_then (asserted (dbus_marshal_read_uint32 (hdr_data header) SERIAL_OFFSET (hdr_byte_order header))) (\<lambda>(v, _).
       Inr v)"

definition dbus_header_set_serial :: "DBusHeader \<Rightarrow> 32 word \<Rightarrow> DBusHeader result" where
  "dbus_header_set_serial header serial =
     and_then (dbus_header_get_serial header) (\<lambda>old.
     and_then (require (old = 0 \<or> serial = 0)) (\<lambda>_.
     and_then (asserted (set_4_octets (hdr_data header) SERIAL_OFFSET serial (hdr_byte_order header))) (\<lambda>d.
       Inr (header\<lparr>hdr_data := d\<rparr>))))"

text \<open>The copy, without a serial number: None when memory runs out.\<close>

definition dbus_header_copy :: "DBusHeader \<Rightarrow> mem_oracle \<Rightarrow> (DBusHeader option \<times> mem_oracle) result" where
  "dbus_header_copy header mem =
     (case alloc mem of (ok, mem) \<Rightarrow>
        if \<not> ok then Inr (None, mem)
        else case alloc mem of (ok, mem) \<Rightarrow>
          if \<not> ok then Inr (None, mem)
          else and_then (dbus_header_set_serial header 0) (\<lambda>dest. Inr (Some dest, mem)))"

definition dbus_header_update_lengths :: "DBusHeader \<Rightarrow> nat \<Rightarrow> DBusHeader result" where
  "dbus_header_update_lengths header body_len =
     and_then (asserted (set_4_octets (hdr_data header) BODY_LENGTH_OFFSET (word_of_nat body_len) (hdr_byte_order header))) (\<lambda>d.
       Inr (header\<lparr>hdr_data := d\<rparr>))"

definition dbus_header_toggle_flag :: "DBusHeader \<Rightarrow> byte \<Rightarrow> bool \<Rightarrow> DBusHeader result" where
  "dbus_header_toggle_flag header flag v =
     and_then (require (FLAGS_OFFSET < length (hdr_data header))) (\<lambda>_.
       let old = hdr_data header ! FLAGS_OFFSET
       in Inr (header\<lparr>hdr_data := (hdr_data header)[FLAGS_OFFSET := if v then old OR flag else old AND NOT flag]\<rparr>))"

definition dbus_header_get_flag :: "DBusHeader \<Rightarrow> byte \<Rightarrow> bool result" where
  "dbus_header_get_flag header flag =
     and_then (require (FLAGS_OFFSET < length (hdr_data header))) (\<lambda>_.
       Inr (hdr_data header ! FLAGS_OFFSET AND flag \<noteq> 0))"

section \<open>The cache of fields\<close>

definition dbus_header_cache_one :: "DBusHeader \<Rightarrow> nat \<Rightarrow> DBusTypeReader \<Rightarrow> DBusHeader" where
  "dbus_header_cache_one header field_code variant_reader =
     header\<lparr>hdr_fields := (hdr_fields header)[field_code := int (value_pos variant_reader)]\<rparr>"

text \<open>
  One step of the loops over the fields array: the reader of the structure and the code of its field.
\<close>

definition field_code_of :: "DBusTypeReader \<Rightarrow> (DBusTypeReader \<times> nat) result" where
  "field_code_of array =
     and_then (dbus_type_reader_recurse array) (\<lambda>sub.
     and_then (dbus_type_reader_get_current_type sub) (\<lambda>t.
     and_then (require (t = DBUS_TYPE_BYTE)) (\<lambda>_.
     and_then (dbus_type_reader_read_basic sub) (\<lambda>v.
       case v of V_byt b \<Rightarrow> Inr (sub, unat b) | _ \<Rightarrow> Inl Aborted))))"

definition variant_of :: "DBusTypeReader \<Rightarrow> DBusTypeReader result" where
  "variant_of sub =
     and_then (dbus_type_reader_get_current_type sub) (\<lambda>t.
     and_then (require (t = DBUS_TYPE_VARIANT)) (\<lambda>_. dbus_type_reader_recurse sub))"

fun revalidate_loop :: "nat \<Rightarrow> DBusHeader \<Rightarrow> DBusTypeReader \<Rightarrow> DBusHeader result" where
  "revalidate_loop 0 header array = Inl No_fuel"
| "revalidate_loop (Suc fuel) header array =
     and_then (dbus_type_reader_get_current_type array) (\<lambda>t.
       if t = DBUS_TYPE_INVALID then Inr header
       else
         and_then (field_code_of array) (\<lambda>(sub, field_code).
         and_then
           (if field_code > DBUS_HEADER_FIELD_LAST then Inr header
            else and_then (dbus_type_reader_next fuel sub) (\<lambda>(_, sub).
                 and_then (variant_of sub) (\<lambda>variant.
                   Inr (dbus_header_cache_one header field_code variant)))) (\<lambda>header.
         and_then (dbus_type_reader_next fuel array) (\<lambda>(_, array).
           revalidate_loop fuel header array))))"

definition dbus_header_cache_revalidate :: "nat \<Rightarrow> DBusHeader \<Rightarrow> DBusHeader result" where
  "dbus_header_cache_revalidate fuel header =
     (let header = header\<lparr>hdr_fields := replicate (DBUS_HEADER_FIELD_LAST + 1) FIELD_VALUE_NONEXISTENT\<rparr>;
          reader = dbus_type_reader_init (hdr_byte_order header) dbus_header_signature_str FIELDS_ARRAY_SIGNATURE_OFFSET
                     (hdr_data header) FIELDS_ARRAY_LENGTH_OFFSET
      in and_then (dbus_type_reader_recurse reader) (\<lambda>array. revalidate_loop fuel header array))"

definition dbus_header_cache_check :: "nat \<Rightarrow> DBusHeader \<Rightarrow> nat \<Rightarrow> (bool \<times> DBusHeader) result" where
  "dbus_header_cache_check fuel header field =
     and_then (require (field \<le> DBUS_HEADER_FIELD_LAST)) (\<lambda>_.
     and_then
       (if hdr_fields header ! field = FIELD_VALUE_UNKNOWN then dbus_header_cache_revalidate fuel header
        else Inr header) (\<lambda>header.
       Inr (hdr_fields header ! field \<noteq> FIELD_VALUE_NONEXISTENT, header)))"

definition dbus_header_cache_known_nonexistent :: "DBusHeader \<Rightarrow> nat \<Rightarrow> bool result" where
  "dbus_header_cache_known_nonexistent header field =
     and_then (require (field \<le> DBUS_HEADER_FIELD_LAST)) (\<lambda>_.
       Inr (hdr_fields header ! field = FIELD_VALUE_NONEXISTENT))"

text \<open>The value, None for no such field, and the header with its cache.\<close>

definition dbus_header_get_field_basic ::
  "nat \<Rightarrow> DBusHeader \<Rightarrow> nat \<Rightarrow> byte \<Rightarrow> (DBusBasicValue option \<times> DBusHeader) result" where
  "dbus_header_get_field_basic fuel header field type =
     and_then (require (field \<noteq> DBUS_HEADER_FIELD_INVALID \<and> field \<le> DBUS_HEADER_FIELD_LAST \<and>
                 fst (dbus_header_field_types ! field) = field \<and> type = EXPECTED_TYPE_OF_FIELD field)) (\<lambda>_.
     and_then (dbus_header_cache_check fuel header field) (\<lambda>(found, header).
       if \<not> found then Inr (None, header)
       else
         and_then (require (hdr_fields header ! field \<ge> 0)) (\<lambda>_.
         and_then (asserted (dbus_marshal_read_basic (hdr_data header) (nat (hdr_fields header ! field)) type
                     (hdr_byte_order header))) (\<lambda>(v, _).
           Inr (Some v, header)))))"

text \<open>The position of the value in the data of the header.\<close>

definition dbus_header_get_field_raw :: "nat \<Rightarrow> DBusHeader \<Rightarrow> nat \<Rightarrow> (int option \<times> DBusHeader) result" where
  "dbus_header_get_field_raw fuel header field =
     and_then (dbus_header_cache_check fuel header field) (\<lambda>(found, header).
       Inr (if found then Some (hdr_fields header ! field) else None, header))"


section \<open>Is there a whole message?\<close>

definition align_value_32 :: "32 word \<Rightarrow> 32 word \<Rightarrow> 32 word" where
  "align_value_32 this boundary = (this + (boundary - 1)) AND NOT (boundary - 1)"

record claimed =
  claimed_byte_order :: byte
  claimed_fields_array_len :: nat
  claimed_header_len :: nat
  claimed_body_len :: nat

text \<open>
  Whether the data suffices, and the claimed lengths. \<open>Invalid v\<close> stands for the answer
  \<open>FALSE\<close> with the validity \<open>v\<close>.
\<close>

definition dbus_header_have_message_untrusted :: "nat \<Rightarrow> byte list \<Rightarrow> nat \<Rightarrow> nat \<Rightarrow> (bool \<times> claimed) result" where
  "dbus_header_have_message_untrusted max_message_length str start len =
     and_then (require (start < INT_MAX div 2 \<and> start = ALIGN_VALUE start 8)) (\<lambda>_.
     and_then (asserted (dbus_string_get_byte str (start + BYTE_ORDER_OFFSET))) (\<lambda>order.
       if order \<noteq> DBUS_LITTLE_ENDIAN \<and> order \<noteq> DBUS_BIG_ENDIAN then Inl (Invalid DBUS_INVALID_BAD_BYTE_ORDER)
       else
         and_then (require (FIELDS_ARRAY_LENGTH_OFFSET + 4 \<le> len)) (\<lambda>_.
         and_then (asserted (dbus_marshal_read_uint32 str (start + FIELDS_ARRAY_LENGTH_OFFSET) order)) (\<lambda>(fields_array_len_unsigned, _).
           if unat fields_array_len_unsigned > max_message_length then Inl (Invalid DBUS_INVALID_INSANE_FIELDS_ARRAY_LENGTH)
           else
             and_then (require (BODY_LENGTH_OFFSET + 4 < len)) (\<lambda>_.
             and_then (asserted (dbus_marshal_read_uint32 str (start + BODY_LENGTH_OFFSET) order)) (\<lambda>(body_len_unsigned, _).
               if unat body_len_unsigned > max_message_length then Inl (Invalid DBUS_INVALID_INSANE_BODY_LENGTH)
               else
                 let header_len_unsigned = align_value_32 (word_of_nat FIRST_FIELD_OFFSET + fields_array_len_unsigned) 8
                 in and_then (require (max_message_length < INT_MAX div 2)) (\<lambda>_.
                    if unat (body_len_unsigned + header_len_unsigned) > max_message_length
                    then Inl (Invalid DBUS_INVALID_MESSAGE_TOO_LONG)
                    else
                      and_then (require (unat body_len_unsigned < INT_MAX \<and> unat fields_array_len_unsigned < INT_MAX \<and>
                                  unat header_len_unsigned < INT_MAX)) (\<lambda>_.
                        Inr (unat (body_len_unsigned + header_len_unsigned) \<le> len,
                             \<lparr>claimed_byte_order = order, claimed_fields_array_len = unat fields_array_len_unsigned,
                              claimed_header_len = unat header_len_unsigned, claimed_body_len = unat body_len_unsigned\<rparr>)))))))))"

section \<open>Loading a header\<close>

text \<open>\<open>REQUIRE_FIELD\<close> and the switch over the message types, whose first case falls through.\<close>

definition require_field :: "DBusHeader \<Rightarrow> nat \<Rightarrow> DBusValidity \<Rightarrow> unit result" where
  "require_field header field missing =
     (if hdr_fields header ! field < 0 then Inl (Invalid missing) else Inr ())"

definition check_mandatory_fields :: "DBusHeader \<Rightarrow> unit result" where
  "check_mandatory_fields header =
     and_then (dbus_header_get_message_type header) (\<lambda>type.
       if type = DBUS_MESSAGE_TYPE_SIGNAL \<or> type = DBUS_MESSAGE_TYPE_METHOD_CALL then
         and_then (if type = DBUS_MESSAGE_TYPE_SIGNAL
                   then require_field header DBUS_HEADER_FIELD_INTERFACE DBUS_INVALID_MISSING_INTERFACE
                   else Inr ()) (\<lambda>_.
         and_then (require_field header DBUS_HEADER_FIELD_PATH DBUS_INVALID_MISSING_PATH) (\<lambda>_.
         require_field header DBUS_HEADER_FIELD_MEMBER DBUS_INVALID_MISSING_MEMBER))
       else if type = DBUS_MESSAGE_TYPE_ERROR then
         and_then (require_field header DBUS_HEADER_FIELD_ERROR_NAME DBUS_INVALID_MISSING_ERROR_NAME) (\<lambda>_.
         require_field header DBUS_HEADER_FIELD_REPLY_SERIAL DBUS_INVALID_MISSING_REPLY_SERIAL)
       else if type = DBUS_MESSAGE_TYPE_METHOD_RETURN then
         require_field header DBUS_HEADER_FIELD_REPLY_SERIAL DBUS_INVALID_MISSING_REPLY_SERIAL
       else Inr ())"

text \<open>\<open>_dbus_string_equal_substring\<close>: the second range needs only start inside its string.\<close>

definition dbus_string_equal_substring :: "byte list \<Rightarrow> nat \<Rightarrow> nat \<Rightarrow> byte list \<Rightarrow> nat \<Rightarrow> bool option" where
  "dbus_string_equal_substring a a_start a_len b b_start =
     (if a_start \<le> length a \<and> a_len \<le> length a - a_start \<and> b_start \<le> length b
      then Some (a_len \<le> length b - b_start \<and> take a_len (drop a_start a) = take a_len (drop b_start b))
      else None)"

definition dbus_string_validate_nul :: "byte list \<Rightarrow> nat \<Rightarrow> nat \<Rightarrow> bool option" where
  "dbus_string_validate_nul str start len =
     (if start \<le> length str
      then Some (len \<le> length str - start \<and> list_all (\<lambda>b. b = 0) (take len (drop start str)))
      else None)"

definition is_local :: "byte list \<Rightarrow> byte list \<Rightarrow> nat \<Rightarrow> bool result" where
  "is_local name str str_data_pos =
     asserted (dbus_string_equal_substring name 0 (length name) str str_data_pos)"

text \<open>
  The call of the \<open>string_validation_func\<close> of a field: its verdict and the code when it is False.
\<close>

definition validate_name ::
  "(byte list \<Rightarrow> nat \<Rightarrow> nat \<Rightarrow> bool) \<Rightarrow> DBusValidity \<Rightarrow> DBusHeader \<Rightarrow> nat \<Rightarrow> nat \<Rightarrow> unit result" where
  "validate_name string_validation_func bad_string_code header pos str_data_pos =
     and_then (asserted (dbus_marshal_read_uint32 (hdr_data header) pos (hdr_byte_order header))) (\<lambda>(len, _).
     and_then (require (str_data_pos \<le> length (hdr_data header))) (\<lambda>_.
       if string_validation_func (hdr_data header) str_data_pos (unat len) then Inr ()
       else Inl (Invalid bad_string_code)))"

text \<open>The switch over the fields and the call that follows it.\<close>

definition validate_field :: "DBusHeader \<Rightarrow> nat \<Rightarrow> 32 word \<Rightarrow> nat \<Rightarrow> nat \<Rightarrow> unit result" where
  "validate_field header field v_UINT32 pos str_data_pos =
     (if field = DBUS_HEADER_FIELD_DESTINATION then
        validate_name dbus_validate_bus_name DBUS_INVALID_BAD_DESTINATION header pos str_data_pos
      else if field = DBUS_HEADER_FIELD_INTERFACE then
        and_then (is_local dbus_local_interface_str (hdr_data header) str_data_pos) (\<lambda>loc.
          if loc then Inl (Invalid DBUS_INVALID_USES_LOCAL_INTERFACE)
          else validate_name dbus_validate_interface DBUS_INVALID_BAD_INTERFACE header pos str_data_pos)
      else if field = DBUS_HEADER_FIELD_MEMBER then
        validate_name dbus_validate_member DBUS_INVALID_BAD_MEMBER header pos str_data_pos
      else if field = DBUS_HEADER_FIELD_ERROR_NAME then
        validate_name dbus_validate_error_name DBUS_INVALID_BAD_ERROR_NAME header pos str_data_pos
      else if field = DBUS_HEADER_FIELD_SENDER then
        validate_name dbus_validate_bus_name DBUS_INVALID_BAD_SENDER header pos str_data_pos
      else if field = DBUS_HEADER_FIELD_PATH then
        and_then (is_local dbus_local_path_str (hdr_data header) str_data_pos) (\<lambda>loc.
          if loc then Inl (Invalid DBUS_INVALID_USES_LOCAL_PATH) else Inr ())
      else if field = DBUS_HEADER_FIELD_REPLY_SERIAL then
        if v_UINT32 = 0 then Inl (Invalid DBUS_INVALID_BAD_SERIAL) else Inr ()
      else if field = DBUS_HEADER_FIELD_SIGNATURE then Inr ()
      else Inl Aborted)"

definition load_and_validate_field :: "nat \<Rightarrow> DBusHeader \<Rightarrow> nat \<Rightarrow> DBusTypeReader \<Rightarrow> DBusHeader result" where
  "load_and_validate_field fuel header field variant_reader =
     and_then (require (field \<le> DBUS_HEADER_FIELD_LAST \<and> field \<noteq> DBUS_HEADER_FIELD_INVALID)) (\<lambda>_.
     and_then (dbus_type_reader_get_current_type variant_reader) (\<lambda>type.
     and_then (require (fst (dbus_header_field_types ! field) = field)) (\<lambda>_.
     let expected_type = EXPECTED_TYPE_OF_FIELD field
     in if type \<noteq> expected_type then Inl (Invalid DBUS_INVALID_HEADER_FIELD_HAS_WRONG_TYPE)
        else if hdr_fields header ! field \<ge> 0 then Inl (Invalid DBUS_INVALID_HEADER_FIELD_APPEARS_TWICE)
        else
          let header = dbus_header_cache_one header field variant_reader
          in if expected_type = DBUS_TYPE_UINT32 then
               and_then (dbus_header_get_field_basic fuel header field expected_type) (\<lambda>(v, header).
                 case v of
                   Some (V_u32 v_UINT32) \<Rightarrow> and_then (validate_field header field v_UINT32 0 0) (\<lambda>_. Inr header)
                 | _ \<Rightarrow> Inl Aborted)
             else if expected_type = DBUS_TYPE_STRING \<or> expected_type = DBUS_TYPE_OBJECT_PATH \<or>
                     expected_type = DBUS_TYPE_SIGNATURE then
               and_then (dbus_header_get_field_raw fuel header field) (\<lambda>(pos, header).
                 case pos of
                   Some pos \<Rightarrow>
                     and_then (validate_field header field 0 (nat pos) (ALIGN_VALUE (nat pos) 4 + 4)) (\<lambda>_. Inr header)
                 | None \<Rightarrow> Inl Aborted)
             else Inl Aborted)))"

text \<open>Reading one of the fixed values at the start of a header: its type and place are asserted.\<close>

definition header_value :: "nat \<Rightarrow> byte \<Rightarrow> nat \<Rightarrow> DBusTypeReader \<Rightarrow> (DBusBasicValue \<times> DBusTypeReader) result" where
  "header_value fuel type offset reader =
     and_then (dbus_type_reader_get_current_type reader) (\<lambda>t.
     and_then (require (t = type \<and> value_pos reader = offset)) (\<lambda>_.
     and_then (dbus_type_reader_read_basic reader) (\<lambda>v.
     and_then (dbus_type_reader_next fuel reader) (\<lambda>(_, reader). Inr (v, reader)))))"

definition byte_of :: "DBusBasicValue \<Rightarrow> byte result" where
  "byte_of v = (case v of V_byt b \<Rightarrow> Inr b | _ \<Rightarrow> Inl Aborted)"

definition uint32_of :: "DBusBasicValue \<Rightarrow> (32 word) result" where
  "uint32_of v = (case v of V_u32 w \<Rightarrow> Inr w | _ \<Rightarrow> Inl Aborted)"

text \<open>From the byte order to the serial number; the reader of the fields array is what follows.\<close>

definition load_fixed_values :: "nat \<Rightarrow> byte \<Rightarrow> nat \<Rightarrow> DBusTypeReader \<Rightarrow> DBusTypeReader result" where
  "load_fixed_values fuel order body_len reader =
     and_then (header_value fuel DBUS_TYPE_BYTE BYTE_ORDER_OFFSET reader) (\<lambda>(v, reader).
     and_then (byte_of v) (\<lambda>v_byte.
     and_then (require (v_byte = order)) (\<lambda>_.
     and_then (header_value fuel DBUS_TYPE_BYTE TYPE_OFFSET reader) (\<lambda>(v, reader).
     and_then (byte_of v) (\<lambda>v_byte.
     if v_byte = DBUS_MESSAGE_TYPE_INVALID then Inl (Invalid DBUS_INVALID_BAD_MESSAGE_TYPE)
     else
     and_then (header_value fuel DBUS_TYPE_BYTE FLAGS_OFFSET reader) (\<lambda>(v, reader).
     and_then (header_value fuel DBUS_TYPE_BYTE VERSION_OFFSET reader) (\<lambda>(v, reader).
     and_then (byte_of v) (\<lambda>v_byte.
     if v_byte \<noteq> DBUS_MAJOR_PROTOCOL_VERSION then Inl (Invalid DBUS_INVALID_BAD_PROTOCOL_VERSION)
     else
     and_then (header_value fuel DBUS_TYPE_UINT32 BODY_LENGTH_OFFSET reader) (\<lambda>(v, reader).
     and_then (uint32_of v) (\<lambda>v_uint32.
     and_then (require (body_len = unat v_uint32)) (\<lambda>_.
     and_then (header_value fuel DBUS_TYPE_UINT32 SERIAL_OFFSET reader) (\<lambda>(v, reader).
     and_then (uint32_of v) (\<lambda>serial.
     if serial = 0 then Inl (Invalid DBUS_INVALID_BAD_SERIAL)
     else
     and_then (dbus_type_reader_get_current_type reader) (\<lambda>t.
     and_then (require (t = DBUS_TYPE_ARRAY \<and> value_pos reader = FIELDS_ARRAY_LENGTH_OFFSET)) (\<lambda>_.
       dbus_type_reader_recurse reader)))))))))))))))"

fun load_fields_loop :: "nat \<Rightarrow> DBusHeader \<Rightarrow> DBusTypeReader \<Rightarrow> DBusHeader result" where
  "load_fields_loop 0 header array_reader = Inl No_fuel"
| "load_fields_loop (Suc fuel) header array_reader =
     and_then (dbus_type_reader_get_current_type array_reader) (\<lambda>t.
       if t = DBUS_TYPE_INVALID then Inr header
       else
         and_then (require (t = DBUS_TYPE_STRUCT)) (\<lambda>_.
         and_then (field_code_of array_reader) (\<lambda>(struct_reader, field_code).
         and_then (dbus_type_reader_next fuel struct_reader) (\<lambda>(_, struct_reader).
           if field_code = DBUS_HEADER_FIELD_INVALID then Inl (Invalid DBUS_INVALID_HEADER_FIELD_CODE)
           else
             and_then
               (if field_code > DBUS_HEADER_FIELD_LAST then Inr header
                else and_then (variant_of struct_reader) (\<lambda>variant_reader.
                       load_and_validate_field fuel header field_code variant_reader)) (\<lambda>header.
             and_then (dbus_type_reader_next fuel array_reader) (\<lambda>(_, array_reader).
               load_fields_loop fuel header array_reader))))))"

text \<open>Anything that was not filled in is now known not to exist.\<close>

definition mark_nonexistent :: "DBusHeader \<Rightarrow> DBusHeader" where
  "mark_nonexistent header =
     header\<lparr>hdr_fields := map (\<lambda>pos. if pos = FIELD_VALUE_UNKNOWN then FIELD_VALUE_NONEXISTENT else pos) (hdr_fields header)\<rparr>"

text \<open>
  \<open>trusted\<close> is the mode that does no validation, \<open>copy_ok\<close> whether the data can be copied and
  \<open>mem\<close> the allocations of the validation. A failure leaves a header without data, which is not
  returned.
\<close>

definition dbus_header_load ::
  "nat \<Rightarrow> DBusHeader \<Rightarrow> bool \<Rightarrow> claimed \<Rightarrow> byte list \<Rightarrow> nat \<Rightarrow> nat \<Rightarrow> bool \<Rightarrow> (nat \<Rightarrow> mem_oracle) \<Rightarrow> DBusHeader result" where
  "dbus_header_load fuel header trusted c str start len copy_ok mem =
     (let order = claimed_byte_order c; fields_array_len = claimed_fields_array_len c;
          header_len = claimed_header_len c; body_len = claimed_body_len c
      in and_then (require (start = ALIGN_VALUE start 8 \<and> header_len \<le> len \<and> hdr_data header = [])) (\<lambda>_.
         and_then (asserted (const_data_len str start header_len)) (\<lambda>d.
         if \<not> copy_ok then Inl (Invalid DBUS_VALIDITY_UNKNOWN_OOM_ERROR)
         else
         let header = header\<lparr>hdr_data := d\<rparr>
         in and_then
              (if trusted then Inr (int len - int header_len - int body_len - int start)
               else and_then (dbus_validate_body_with_reason fuel dbus_header_signature_str 0 order True str start len mem)
                      (\<lambda>leftover. Inr (int leftover))) (\<lambda>leftover.
            and_then (require (leftover < int len)) (\<lambda>_.
            let padding_start = start + FIRST_FIELD_OFFSET + fields_array_len;
                padding_len = header_len - (FIRST_FIELD_OFFSET + fields_array_len)
            in and_then (require (start + header_len = ALIGN_VALUE padding_start 8 \<and>
                           start + header_len = padding_start + padding_len)) (\<lambda>_.
               and_then (if trusted then Inr True else asserted (dbus_string_validate_nul str padding_start padding_len)) (\<lambda>nul.
                 if \<not> nul then Inl (Invalid DBUS_INVALID_ALIGNMENT_PADDING_NOT_NUL)
                 else
                 let header = header\<lparr>hdr_padding := padding_len\<rparr>
                 in if trusted then Inr header
                    else
                      let reader = dbus_type_reader_init order dbus_header_signature_str 0 str start;
                          header = header\<lparr>hdr_byte_order := order\<rparr>
                      in and_then (load_fixed_values fuel order body_len reader) (\<lambda>array_reader.
                         and_then (load_fields_loop fuel header array_reader) (\<lambda>header.
                         let header = mark_nonexistent header
                         in and_then (check_mandatory_fields header) (\<lambda>_. Inr header))))))))))"

end
