(* ===== verification/BodyEmbed.thy ===== *)
theory BodyEmbed
  imports BodyTypes
begin

text \<open>
  The signature of a body lies inside the header: a types-only reader over a signature in the middle
  of a string, where a nul follows it, does what the reader over the signature alone does.
\<close>

section \<open>The reader in the middle of a string\<close>

definition moved :: "byte list \<Rightarrow> byte list \<Rightarrow> DBusTypeReader \<Rightarrow> DBusTypeReader" where
  "moved before after r = r\<lparr>type_str := before @ type_str r @ 0 # after, type_pos := length before + type_pos r\<rparr>"

text \<open>The second result is the image of the first, unless the first is a failed assertion.\<close>

definition follows :: "('a \<Rightarrow> 'b) \<Rightarrow> 'a result \<Rightarrow> 'b result \<Rightarrow> bool" where
  "follows F x y \<longleftrightarrow> x = Inl Aborted \<or> y = map_sum id F x"

lemma follows_Inr [simp]: "follows F (Inr x) y \<longleftrightarrow> y = Inr (F x)"
  by (simp add: follows_def)

lemma follows_Aborted [simp]: "follows F (Inl Aborted) y"
  by (simp add: follows_def)

abbreviation same :: "'a result \<Rightarrow> 'a result \<Rightarrow> bool" where
  "same x y \<equiv> agrees_on Aborted x y"

lemma same_Inr [simp]: "same (Inr x) y \<longleftrightarrow> y = Inr x" "same (Inl Aborted) z" "same w w"
  by (auto simp: agrees_on_def)

text \<open>Sequences: the first step and the rest yield readers or plain results.\<close>

lemma follows_then:
  "follows G x x' \<Longrightarrow> (\<And>y. x = Inr y \<Longrightarrow> follows F (f y) (f' (G y))) \<Longrightarrow> follows F (and_then x f) (and_then x' f')"
  "same z z' \<Longrightarrow> (\<And>y. z = Inr y \<Longrightarrow> follows F (g y) (g' y)) \<Longrightarrow> follows F (and_then z g) (and_then z' g')"
  by (cases x, auto simp: follows_def) (cases z, auto simp: follows_def agrees_on_def)

lemma same_then:
  "follows G x x' \<Longrightarrow> (\<And>y. x = Inr y \<Longrightarrow> same (f y) (f' (G y))) \<Longrightarrow> same (and_then x f) (and_then x' f')"
  "same z z' \<Longrightarrow> (\<And>y. z = Inr y \<Longrightarrow> same (g y) (g' y)) \<Longrightarrow> same (and_then z g) (and_then z' g')"
  by (cases x, auto simp: follows_def agrees_on_def) (cases z, auto simp: agrees_on_def)

lemma branch:
  "(b \<Longrightarrow> follows F x x') \<Longrightarrow> (\<not> b \<Longrightarrow> follows F y y') \<Longrightarrow> follows F (if b then x else y) (if b then x' else y')"
  "(b \<Longrightarrow> same z z') \<Longrightarrow> (\<not> b \<Longrightarrow> same w w') \<Longrightarrow> same (if b then z else w) (if b then z' else w')"
  by simp_all

lemma moved_fields [simp]:
  "klass (moved b a r) = klass r" "finished (moved b a r) = finished r" "value_pos (moved b a r) = value_pos r"
  "type_str (moved b a r) = b @ type_str r @ 0 # a" "type_pos (moved b a r) = length b + type_pos r"
  by (simp_all add: moved_def)

lemma byte_moved: "same (asserted (dbus_string_get_byte s p)) (asserted (dbus_string_get_byte (b @ s @ 0 # a) (length b + p)))"
  by (auto simp: dbus_string_get_byte_def str_byte_def nth_append)

lemma first_moved: "same (first_type s p) (first_type (b @ s @ 0 # a) (length b + p))"
  unfolding first_type_def by (rule same_then(2)[OF byte_moved]) simp

lemma current_moved:
  "types_only (klass r) \<Longrightarrow> same (dbus_type_reader_get_current_type r) (dbus_type_reader_get_current_type (moved b a r))"
  using first_moved[of "type_str r" "type_pos r" b a] by (auto simp: dbus_type_reader_get_current_type_def)

lemma skip_arrays_append: "skip_arrays s = p # s' \<Longrightarrow> skip_arrays (s @ t) = p # s' @ t"
  by (induction s) (auto split: if_splits)

lemma skip_container_append: "skip_container c d n s = Some s' \<Longrightarrow> skip_container c d n (s @ t) = Some (s' @ t)"
  by (induction c d n s rule: skip_container.induct) (auto split: if_splits)

lemma signature_next_append:
  assumes "dbus_type_signature_next s = Some s'" shows "dbus_type_signature_next (s @ t) = Some (s' @ t)"
proof -
  obtain p x where x: "skip_arrays s = p # x" using assms by (auto simp: dbus_type_signature_next_def split: if_splits list.splits)
  then have "s \<noteq> []" by auto
  then have "str_byte (s @ t) 0 = str_byte s 0" by (cases s) (simp_all add: str_byte_def)
  then show ?thesis using assms x skip_arrays_append[OF x]
    by (auto simp: dbus_type_signature_next_def skip_container_append split: if_splits)
qed

lemma skip_one_moved: "follows ((+) (length b)) (skip_one_complete_type s p) (skip_one_complete_type (b @ s @ 0 # a) (length b + p))"
proof (cases "dbus_type_signature_next (drop p s)")
  case (Some r)
  have "drop p s \<noteq> []" using Some by (auto simp: dbus_type_signature_next_def split: if_splits)
  then have "drop (length b + p) (b @ s @ 0 # a) = drop p s @ 0 # a" "length r \<le> length s"
    using signature_next_length[OF Some] by simp_all
  then show ?thesis using Some signature_next_append[OF Some, of "0 # a"] by (simp add: skip_one_complete_type_def)
qed (simp add: skip_one_complete_type_def)

lemma moved_update:
  "moved b a (r\<lparr>value_pos := q, type_pos := p\<rparr>) = (moved b a r)\<lparr>value_pos := q, type_pos := length b + p\<rparr>"
  "moved b a (r\<lparr>type_pos := p\<rparr>) = (moved b a r)\<lparr>type_pos := length b + p\<rparr>"
  "moved b a (r\<lparr>finished := f\<rparr>) = (moved b a r)\<lparr>finished := f\<rparr>"
  by (simp_all add: moved_def)

lemma recurse_moved:
  assumes "types_only (klass r)"
  shows "follows (moved b a) (dbus_type_reader_recurse r) (dbus_type_reader_recurse (moved b a r))"
    "dbus_type_reader_recurse r = Inr sub \<Longrightarrow> types_only (klass sub)"
proof -
  have c: "follows (moved b a) (struct_or_dict_entry_types_only_reader_recurse (fresh_reader k) r)
      (struct_or_dict_entry_types_only_reader_recurse (fresh_reader k) (moved b a r))" for k
    unfolding struct_or_dict_entry_types_only_reader_recurse_def Let_def base_reader_recurse_def reader_init_def
    by simp (rule follows_then(2)[OF byte_moved], simp add: moved_def fresh_reader_def)
  show "follows (moved b a) (dbus_type_reader_recurse r) (dbus_type_reader_recurse (moved b a r))"
    unfolding dbus_type_reader_recurse_def moved_fields using assms c
    by (intro follows_then(2)[OF first_moved])
      (simp add: array_types_only_reader_recurse_def base_reader_recurse_def reader_init_def fresh_reader_def moved_def Let_def)
  show "types_only (klass sub)" if "dbus_type_reader_recurse r = Inr sub"
    using that assms
    by (auto simp: dbus_type_reader_recurse_def struct_or_dict_entry_types_only_reader_recurse_def base_reader_recurse_def
        reader_init_def fresh_reader_def array_types_only_reader_recurse_def Let_def split: if_splits)
qed


section \<open>Stepping\<close>

abbreviation moves_along :: "byte list \<Rightarrow> byte list \<Rightarrow> (DBusTypeReader \<Rightarrow> DBusTypeReader result) \<Rightarrow> bool" where
  "moves_along b a skip \<equiv> (\<forall>sub. types_only (klass sub) \<longrightarrow> follows (moved b a) (skip sub) (skip (moved b a sub)))"

lemma base_moved:
  assumes "types_only (klass r)" "moves_along b a skip"
  shows "follows (moved b a) (base_reader_next skip r t) (base_reader_next skip (moved b a r) t)"
proof -
  have c: "follows (moved b a)
      (and_then (dbus_type_reader_recurse r) (\<lambda>sub. and_then (skip sub) (\<lambda>sub. Inr (r\<lparr>value_pos := value_pos r, type_pos := type_pos sub\<rparr>))))
      (and_then (dbus_type_reader_recurse (moved b a r)) (\<lambda>sub. and_then (skip sub) (\<lambda>sub.
         Inr ((moved b a r)\<lparr>value_pos := value_pos r, type_pos := type_pos sub\<rparr>))))"
    using assms(2) recurse_moved(2)[OF assms(1)]
    by (intro follows_then(1)[OF recurse_moved(1)[OF assms(1)]] follows_then(1)[where G = "moved b a"]) (auto simp: moved_def)
  have ar: "follows (moved b a)
      (and_then (skip_one_complete_type (type_str r) (type_pos r)) (\<lambda>tpos. Inr (r\<lparr>value_pos := value_pos r, type_pos := tpos\<rparr>)))
      (and_then (skip_one_complete_type (type_str (moved b a r)) (type_pos (moved b a r))) (\<lambda>tpos.
         Inr ((moved b a r)\<lparr>value_pos := value_pos r, type_pos := tpos\<rparr>)))"
    unfolding moved_fields by (intro follows_then(1)[OF skip_one_moved]) (simp add: moved_def)
  show ?thesis using assms(1) c ar by (simp add: base_reader_next_def) (simp add: moved_def)
qed

lemma class_moved:
  assumes "types_only (klass r)" "moves_along b a skip"
  shows "follows (moved b a) (class_next (klass r) skip r t) (class_next (klass r) skip (moved b a r) t)"
proof -
  note base = base_moved[OF assms]
  have c: "follows (moved b a) (container_reader_next c skip r t) (container_reader_next c skip (moved b a r) t)" for c
    unfolding container_reader_next_def
    by (intro follows_then(1)[OF base], unfold moved_fields, intro follows_then(2)[OF byte_moved]) (simp add: moved_def)
  show ?thesis using assms(1) base c
    by (cases "klass r") (simp_all add: struct_reader_next_def dict_entry_reader_next_def array_types_only_reader_next_def moved_def)
qed

lemma class_next_class: "types_only (klass r) \<Longrightarrow> class_next (klass r) skip r t = Inr r' \<Longrightarrow> klass r' = klass r"
  by (cases "klass r")
    (auto simp: struct_reader_next_def dict_entry_reader_next_def container_reader_next_def array_types_only_reader_next_def
      base_reader_next_def split: if_splits)

lemma next_moved:
  "(\<forall>r. types_only (klass r) \<longrightarrow> follows (map_prod id (moved b a)) (dbus_type_reader_next fuel r) (dbus_type_reader_next fuel (moved b a r)) \<and>
      (\<forall>m r'. dbus_type_reader_next fuel r = Inr (m, r') \<longrightarrow> types_only (klass r'))) \<and>
   moves_along b a (skip_all fuel)"
proof (induction fuel)
  case 0
  then show ?case by (simp add: dbus_type_reader_next.simps skip_all.simps follows_def)
next
  case (Suc fuel)
  show ?case
  proof (intro conjI allI impI)
    fix r :: DBusTypeReader assume o: "types_only (klass r)"
    show "follows (map_prod id (moved b a)) (dbus_type_reader_next (Suc fuel) r) (dbus_type_reader_next (Suc fuel) (moved b a r))"
      unfolding dbus_type_reader_next.simps moved_fields(1) using o class_next_class[OF o] Suc.IH
      by (intro follows_then(2)[OF current_moved[OF o]] branch follows_then(1)[OF class_moved[OF o]]
          follows_then(2)[OF current_moved]) auto
    fix m r' assume "dbus_type_reader_next (Suc fuel) r = Inr (m, r')"
    then show "types_only (klass r')" using o class_next_class[OF o]
      by (auto simp: dbus_type_reader_next.simps split: if_splits)
  next
    fix r :: DBusTypeReader assume o: "types_only (klass r)"
    then have n: "follows (map_prod id (moved b a)) (dbus_type_reader_next fuel r) (dbus_type_reader_next fuel (moved b a r))"
      "dbus_type_reader_next fuel r = Inr (m, r') \<Longrightarrow> types_only (klass r')" for m r'
      using Suc.IH by blast+
    show "follows (moved b a) (skip_all (Suc fuel) r) (skip_all (Suc fuel) (moved b a r))"
      unfolding skip_all.simps using Suc.IH n(2)
      by (intro follows_then(1)[OF n(1)]) (auto split: prod.splits)
  qed
qed


section \<open>The validator\<close>

abbreviation validates_along :: "byte list \<Rightarrow> byte list \<Rightarrow> validator \<Rightarrow> bool" where
  "validates_along b a rec \<equiv> (\<forall>r w p. types_only (klass r) \<longrightarrow> same (rec r w p) (rec (moved b a r) w p))"

lemma element_loop_moved:
  assumes "validates_along b a rec" "types_only (klass r)"
  shows "same (element_loop fuel rec r p q) (element_loop fuel rec (moved b a r) p q)"
proof (induction fuel arbitrary: p)
  case (Suc fuel)
  have f: "same (rec r False p) (rec (moved b a r) False p)" using assms by blast
  show ?case by (auto intro!: same_then(2)[OF f] Suc.IH)
qed (simp add: agrees_on_def)

lemma array_moved:
  assumes "validates_along b a rec" "types_only (klass r)"
  shows "same (validate_array str end e fuel rec r p) (validate_array str end e fuel rec (moved b a r) p)"
proof -
  have t: "same (first_type (type_str r) (type_pos r + 1)) (first_type (b @ type_str r @ 0 # a) (length b + type_pos r + 1))"
    using first_moved[of "type_str r" "type_pos r + 1" b a] by (simp add: add.assoc)
  have el: "same (array_element r) (array_element (moved b a r))"
    unfolding array_element_def dbus_type_reader_get_element_type_def moved_fields
    by (intro same_then(2)[OF same_then(2)[OF current_moved[OF assms(2)] same_then(2)]] t) simp_all
  have els: "same (array_elements str e fuel rec r c x n) (array_elements str e fuel rec (moved b a r) c x n)" for c x n
    unfolding array_elements_def Let_def
    by (intro branch same_then(1)[OF recurse_moved(1)[OF assms(2)]] same_then(2))
      (auto intro!: element_loop_moved[OF assms(1)] recurse_moved(2)[OF assms(2)])
  show ?thesis unfolding validate_array_def
    by (intro same_then(2)) (auto intro!: same_then(2)[OF el] same_then(2) els)
qed

lemma struct_moved:
  assumes "validates_along b a rec" "types_only (klass r)"
  shows "same (validate_struct str end rec r p) (validate_struct str end rec (moved b a r) p)"
proof -
  have "same (and_then (dbus_type_reader_recurse r) (\<lambda>sub. rec sub True p)) (and_then (dbus_type_reader_recurse (moved b a r)) (\<lambda>sub. rec sub True p))"
    for p using assms(1) recurse_moved(2)[OF assms(2)] by (intro same_then(1)[OF recurse_moved(1)[OF assms(2)]]) blast
  then show ?thesis unfolding validate_struct_def by (intro same_then(2)[OF same_Inr(3)])
qed

lemma value_moved:
  assumes "validates_along b a rec" "types_only (klass r)"
  shows "same (validate_value str end e mem fuel rec r t p) (validate_value str end e mem fuel rec (moved b a r) t p)"
  unfolding validate_value_def by (intro branch same_Inr(3) array_moved[OF assms] struct_moved[OF assms])

lemma helper_moved: "validates_along b a (validate_body_helper str end e mem fuel)"
proof (induction fuel)
  case (Suc fuel)
  let ?rec = "validate_body_helper str end e mem fuel"
  show ?case
  proof (intro allI impI)
    fix r :: DBusTypeReader and w p assume o: "types_only (klass r)"
    have n: "follows (map_prod id (moved b a)) (dbus_type_reader_next fuel r) (dbus_type_reader_next fuel (moved b a r))"
      "dbus_type_reader_next fuel r = Inr (m, r') \<Longrightarrow> types_only (klass r')" for m r'
      using next_moved[of b a fuel] o by blast+
    show "same (validate_body_helper str end e mem (Suc fuel) r w p) (validate_body_helper str end e mem (Suc fuel) (moved b a r) w p)"
      unfolding validate_body_helper.simps validate_step_def
      using Suc.IH n(2)
      by (intro same_then(2)[OF current_moved[OF o]] branch same_Inr(3) same_then(2)[OF value_moved[OF Suc.IH o]] same_then(1)[OF n(1)])
        (auto split: prod.splits)
  qed
qed (simp add: agrees_on_def validate_body_helper.simps)

text \<open>
  Validation against a signature in the middle of a string, where a nul follows it, is validation
  against the signature, unless that fails an assertion.
\<close>

lemma validate_moved:
  "same (dbus_validate_body_with_reason fuel sig 0 e want_remaining vals start len mem)
     (dbus_validate_body_with_reason fuel (b @ sig @ 0 # a) (length b) e want_remaining vals start len mem)"
proof -
  let ?r = "dbus_type_reader_init_types_only sig 0"
  have m: "moved b a ?r = dbus_type_reader_init_types_only (b @ sig @ 0 # a) (length b)" and o: "types_only (klass ?r)"
    by (simp_all add: moved_def dbus_type_reader_init_types_only_def reader_init_def fresh_reader_def)
  have "same (validate_body_helper vals stop e mem fuel ?r w p)
      (validate_body_helper vals stop e mem fuel (dbus_type_reader_init_types_only (b @ sig @ 0 # a) (length b)) w p)" for stop w p
    using helper_moved o unfolding m[symmetric] by blast
  then show ?thesis unfolding dbus_validate_body_with_reason_def Let_def
    by (intro same_then(2)) simp_all
qed

lemma body_complete_inside:
  assumes "withins 0 0 ts" "length (sigs_of ts) \<le> DBUS_MAXIMUM_SIGNATURE_LENGTH"
    and "fits_seq e ts vs (length pre)" "body = enc_seq e ts vs (length pre)" "drop p str = sigs_of ts @ 0 # a" "p \<le> length str"
    and "length (pre @ body @ rest) \<le> STRING_MAX_MAX_LENGTH" "513 * (length body + 1) \<le> fuel"
  shows "dbus_validate_body_with_reason fuel str p e False (pre @ body @ rest) (length pre) (length body) (\<lambda>_. []) = Inr 0"
proof -
  have str: "str = take p str @ sigs_of ts @ 0 # a" "length (take p str) = p" using assms(5,6) append_take_drop_id[of p str] by simp_all
  have "dbus_validate_body_with_reason fuel (sigs_of ts) 0 e False (pre @ body @ rest) (length pre) (length body) (\<lambda>_. []) = Inr 0"
    using body_complete[OF assms(1-4,7), of 0 fuel False] assms(8) by simp
  then show ?thesis using validate_moved[of fuel "sigs_of ts" e False "pre @ body @ rest" "length pre" "length body" "\<lambda>_. []" "take p str" a]
    unfolding str(1)[symmetric] str(2) by simp
qed

end
