(* ===== verification/Loader.thy ===== *)
theory Loader
  imports Header
begin

text \<open>
  The message loader of \<open>dbus/dbus-message.c\<close>: it buffers the stream of a connection and cuts it into
  messages, each validated before it is queued. The data of a connection arrives through the
  buffer, which is lent out and returned.
\<close>

section \<open>Messages and loaders\<close>

text \<open>Of a message, what the loader fills in.\<close>

record DBusMessage =
  msg_header :: DBusHeader
  msg_body :: "byte list"
  msg_byte_order :: byte

record DBusMessageLoader =
  ldr_data :: "byte list"
  ldr_messages :: "DBusMessage list"
  max_message_size :: nat
  buffer_outstanding :: bool
  corrupted :: bool
  corruption_reason :: DBusValidity

abbreviation (input) DBUS_MAXIMUM_MESSAGE_LENGTH :: nat where
  "DBUS_MAXIMUM_MESSAGE_LENGTH \<equiv> DBUS_MAXIMUM_ARRAY_LENGTH * 2"

abbreviation (input) DBUS_MINIMUM_HEADER_SIZE :: nat where "DBUS_MINIMUM_HEADER_SIZE \<equiv> 16"

text \<open>The loader of a new connection, None when memory runs out.\<close>

definition dbus_message_loader_new :: "mem_oracle \<Rightarrow> DBusMessageLoader option \<times> mem_oracle" where
  "dbus_message_loader_new mem =
     (case alloc mem of (ok, mem) \<Rightarrow>
        if \<not> ok then (None, mem)
        else case alloc mem of (ok, mem) \<Rightarrow>
          (if ok then Some \<lparr>ldr_data = [], ldr_messages = [], max_message_size = DBUS_MAXIMUM_MESSAGE_LENGTH,
             buffer_outstanding = False, corrupted = False, corruption_reason = DBUS_VALID\<rparr> else None, mem))"

section \<open>The buffer\<close>

definition dbus_message_loader_get_buffer :: "DBusMessageLoader \<Rightarrow> (byte list \<times> DBusMessageLoader) result" where
  "dbus_message_loader_get_buffer loader =
     and_then (require (\<not> buffer_outstanding loader)) (\<lambda>_.
       Inr (ldr_data loader, loader\<lparr>buffer_outstanding := True\<rparr>))"

text \<open>The buffer comes back with what was read appended to it.\<close>

definition dbus_message_loader_return_buffer :: "DBusMessageLoader \<Rightarrow> byte list \<Rightarrow> DBusMessageLoader result" where
  "dbus_message_loader_return_buffer loader buffer =
     and_then (require (buffer_outstanding loader)) (\<lambda>_.
       Inr (loader\<lparr>ldr_data := buffer, buffer_outstanding := False\<rparr>))"

section \<open>Taking a message\<close>

text \<open>
  The allocations of one round: the empty message, the copy of the header, those of the validation of
  the header, of the validation of the body, the link in the queue and the copy of the body. When the
  list of rounds is used up, every allocation succeeds.
\<close>

record round_memory =
  new_ok :: bool
  header_copy_ok :: bool
  header_mem :: "nat \<Rightarrow> mem_oracle"
  body_mem :: "nat \<Rightarrow> mem_oracle"
  append_ok :: bool
  body_copy_ok :: bool

definition plenty :: round_memory where
  "plenty = \<lparr>new_ok = True, header_copy_ok = True, header_mem = (\<lambda>_. []), body_mem = (\<lambda>_. []), append_ok = True,
     body_copy_ok = True\<rparr>"

fun next_round :: "round_memory list \<Rightarrow> round_memory \<times> round_memory list" where
  "next_round [] = (plenty, [])"
| "next_round (m # ms) = (m, ms)"

text \<open>A new message from the cache or from fresh memory is the same but for what nobody reads.\<close>

definition dbus_message_new_empty_header :: DBusMessage where
  "dbus_message_new_empty_header =
     \<lparr>msg_header = dbus_header_reinit \<lparr>hdr_data = [], hdr_fields = [], hdr_padding = 0, hdr_byte_order = 0\<rparr> DBUS_COMPILER_BYTE_ORDER,
      msg_body = [], msg_byte_order = DBUS_COMPILER_BYTE_ORDER\<rparr>"

text \<open>The signature of the body: the string that holds it and the position of its first character.\<close>

definition get_const_signature :: "nat \<Rightarrow> DBusHeader \<Rightarrow> (byte list \<times> nat \<times> DBusHeader) result" where
  "get_const_signature fuel header =
     and_then (dbus_header_get_field_raw fuel header DBUS_HEADER_FIELD_SIGNATURE) (\<lambda>(pos, header).
       case pos of None \<Rightarrow> Inr ([], 0, header) | Some pos \<Rightarrow> Inr (hdr_data header, nat pos + 1, header))"

text \<open>
  \<open>load_message\<close>: whether a message was queued. False means that memory ran out, the loader being
  as before, or that the loader is corrupted.
\<close>

definition load_message ::
  "nat \<Rightarrow> DBusMessageLoader \<Rightarrow> DBusMessage \<Rightarrow> claimed \<Rightarrow> round_memory \<Rightarrow> (bool \<times> DBusMessageLoader) result" where
  "load_message fuel loader message c m =
     (let header_len = claimed_header_len c; body_len = claimed_body_len c; d = ldr_data loader
      in and_then (require (hdr_data (msg_header message) = [] \<and> header_len + body_len \<le> length d)) (\<lambda>_.
         case dbus_header_load fuel (msg_header message) False c d 0 (length d) (header_copy_ok m) (header_mem m) of
           Inl (Invalid validity) \<Rightarrow>
             and_then (require (validity \<noteq> DBUS_VALID)) (\<lambda>_.
               if validity = DBUS_VALIDITY_UNKNOWN_OOM_ERROR then Inr (False, loader)
               else Inr (False, loader\<lparr>corrupted := True, corruption_reason := validity\<rparr>))
         | Inl e \<Rightarrow> Inl e
         | Inr header \<Rightarrow>
             and_then (get_const_signature fuel header) (\<lambda>(type_str, type_pos, header).
               case dbus_validate_body_with_reason fuel type_str type_pos (claimed_byte_order c) False d header_len body_len
                      (body_mem m) of
                 Inl (Invalid validity) \<Rightarrow> Inr (False, loader\<lparr>corrupted := True, corruption_reason := validity\<rparr>)
               | Inl e \<Rightarrow> Inl e
               | Inr _ \<Rightarrow>
                   if \<not> append_ok m \<or> \<not> body_copy_ok m then Inr (False, loader)
                   else
                     and_then (asserted (const_data_len d header_len body_len)) (\<lambda>body.
                     and_then (require (length (hdr_data header) = header_len \<and> \<not> corrupted loader)) (\<lambda>_.
                     let message = message\<lparr>msg_header := header, msg_body := body, msg_byte_order := claimed_byte_order c\<rparr>
                     in Inr (True, loader\<lparr>ldr_messages := ldr_messages loader @ [message],
                              ldr_data := drop (header_len + body_len) d\<rparr>))))))"

text \<open>
  \<open>_dbus_message_loader_queue_messages\<close>: the answer is whether memory sufficed. Each round of the loop
  that goes on takes at least the fixed part of a header off the buffer.
\<close>

fun queue_messages_loop ::
  "nat \<Rightarrow> nat \<Rightarrow> DBusMessageLoader \<Rightarrow> round_memory list \<Rightarrow> (bool \<times> DBusMessageLoader) result" where
  "queue_messages_loop 0 fuel loader ms = Inl No_fuel"
| "queue_messages_loop (Suc n) fuel loader ms =
     (if \<not> corrupted loader \<and> length (ldr_data loader) \<ge> DBUS_MINIMUM_HEADER_SIZE then
        case dbus_header_have_message_untrusted (max_message_size loader) (ldr_data loader) 0 (length (ldr_data loader)) of
          Inr (True, c) \<Rightarrow>
            (case next_round ms of (m, ms) \<Rightarrow>
               if \<not> new_ok m then Inr (False, loader)
               else and_then (load_message fuel loader dbus_message_new_empty_header c m) (\<lambda>(loaded, loader).
                 if \<not> loaded then Inr (corrupted loader, loader)
                 else queue_messages_loop n fuel loader ms))
        | Inr (False, c) \<Rightarrow> Inr (True, loader)
        | Inl (Invalid validity) \<Rightarrow> Inr (True, loader\<lparr>corrupted := True, corruption_reason := validity\<rparr>)
        | Inl e \<Rightarrow> Inl e
      else Inr (True, loader))"

definition dbus_message_loader_queue_messages ::
  "nat \<Rightarrow> DBusMessageLoader \<Rightarrow> round_memory list \<Rightarrow> (bool \<times> DBusMessageLoader) result" where
  "dbus_message_loader_queue_messages fuel loader ms =
     queue_messages_loop (Suc (length (ldr_data loader))) fuel loader ms"

section \<open>Handing messages out\<close>

definition dbus_message_loader_peek_message :: "DBusMessageLoader \<Rightarrow> DBusMessage option" where
  "dbus_message_loader_peek_message loader = (case ldr_messages loader of [] \<Rightarrow> None | m # _ \<Rightarrow> Some m)"

definition dbus_message_loader_pop_message :: "DBusMessageLoader \<Rightarrow> DBusMessage option \<times> DBusMessageLoader" where
  "dbus_message_loader_pop_message loader =
     (case ldr_messages loader of [] \<Rightarrow> (None, loader) | m # ms \<Rightarrow> (Some m, loader\<lparr>ldr_messages := ms\<rparr>))"

text \<open>A link that was popped goes back to the front.\<close>

definition dbus_message_loader_putback_message_link :: "DBusMessageLoader \<Rightarrow> DBusMessage \<Rightarrow> DBusMessageLoader" where
  "dbus_message_loader_putback_message_link loader link = loader\<lparr>ldr_messages := link # ldr_messages loader\<rparr>"

definition dbus_message_loader_get_is_corrupted :: "DBusMessageLoader \<Rightarrow> bool result" where
  "dbus_message_loader_get_is_corrupted loader =
     and_then (require (corrupted loader \<longleftrightarrow> corruption_reason loader \<noteq> DBUS_VALID)) (\<lambda>_. Inr (corrupted loader))"

definition dbus_message_loader_set_max_message_size :: "DBusMessageLoader \<Rightarrow> nat \<Rightarrow> DBusMessageLoader" where
  "dbus_message_loader_set_max_message_size loader n =
     loader\<lparr>max_message_size := if n > DBUS_MAXIMUM_MESSAGE_LENGTH then DBUS_MAXIMUM_MESSAGE_LENGTH else n\<rparr>"

definition dbus_message_loader_get_max_message_size :: "DBusMessageLoader \<Rightarrow> nat" where
  "dbus_message_loader_get_max_message_size loader = max_message_size loader"

end
