(* ===== verification/LoaderSteps.thy ===== *)
theory LoaderSteps
  imports Loader BodyTerm
begin

text \<open>
  What a round of the message loader does: the claims of a header as numbers, rules for what results
  satisfy, and that queueing moves whole messages from the front of the buffer to the queue.
\<close>

unbundle bit_operations_syntax

section \<open>The claims of a header\<close>

definition u32_at :: "byte list \<Rightarrow> nat \<Rightarrow> byte \<Rightarrow> nat" where
  "u32_at str p e = unat (dbus_unpack_uint32 e (take 4 (drop p str)))"

lemma align_32:
  assumes "unat f + 24 \<le> 2 ^ 32"
  shows "unat (align_value_32 (word_of_nat 16 + f) 8) = ALIGN_VALUE (16 + unat f) 8"
proof -
  have s: "unat (word_of_nat 16 + f :: 32 word) = 16 + unat f"
    using assms by (subst unat_add_lem[THEN iffD1]) simp_all
  have "align_value_32 (word_of_nat 16 + f) 8 = (word_of_nat (ALIGN_VALUE (16 + unat f) 8) :: 32 word)"
    using align_is_masked[where 'a = 32, of 8 3 "16 + unat f"] assms s
    by (simp add: align_value_32_def)
  moreover have "ALIGN_VALUE (16 + unat f) 8 < 2 ^ 32"
    using align_facts(2)[of 8 "16 + unat f"] assms by simp
  ultimately show ?thesis by (simp add: unat_of_nat)
qed

lemma read_at:
  assumes "4 dvd p" "p + 4 \<le> length str"
  shows "dbus_marshal_read_uint32 str p e = Some (dbus_unpack_uint32 e (take 4 (drop p str)), p + 4)"
  using assms by (simp add: dbus_marshal_read_uint32_def Let_def align_self)

text \<open>The lengths a header claims.\<close>

definition claims :: "byte list \<Rightarrow> claimed" where
  "claims str =
     \<lparr>claimed_byte_order = hd str, claimed_fields_array_len = u32_at str 12 (hd str),
      claimed_header_len = ALIGN_VALUE (16 + u32_at str 12 (hd str)) 8, claimed_body_len = u32_at str 4 (hd str)\<rparr>"

text \<open>
  The assertions of the peek hold and its 32-bit sums do not wrap: what it answers is stated over the
  claimed lengths as numbers.
\<close>

lemma peek_exact:
  assumes "limit < INT_MAX div 2" "16 \<le> len" "len \<le> length str"
  shows "dbus_header_have_message_untrusted limit str 0 len =
    (let c = claims str; f = claimed_fields_array_len c; h = claimed_header_len c; b = claimed_body_len c
     in if \<not> known_order (claimed_byte_order c) then Inl (Invalid DBUS_INVALID_BAD_BYTE_ORDER)
        else if f > limit then Inl (Invalid DBUS_INVALID_INSANE_FIELDS_ARRAY_LENGTH)
        else if b > limit then Inl (Invalid DBUS_INVALID_INSANE_BODY_LENGTH)
        else if b + h > limit then Inl (Invalid DBUS_INVALID_MESSAGE_TOO_LONG)
        else Inr (b + h \<le> len, c))"
proof -
  let ?e = "hd str"
  let ?f = "dbus_unpack_uint32 ?e (take 4 (drop 12 str))" and ?b = "dbus_unpack_uint32 ?e (take 4 (drop 4 str))"
  have e: "dbus_string_get_byte str 0 = Some ?e"
    using assms(2,3) by (cases str) (simp_all add: dbus_string_get_byte_def)
  have r: "dbus_marshal_read_uint32 str 12 ?e = Some (?f, 16)" "dbus_marshal_read_uint32 str 4 ?e = Some (?b, 8)"
    using assms by (simp_all add: read_at)
  have sum: "unat (align_value_32 (word_of_nat 16 + ?f) 8) = ALIGN_VALUE (16 + unat ?f) 8 \<and>
      unat (?b + align_value_32 (word_of_nat 16 + ?f) 8) = unat ?b + ALIGN_VALUE (16 + unat ?f) 8 \<and>
      ALIGN_VALUE (16 + unat ?f) 8 < INT_MAX"
    if "unat ?f \<le> limit" "unat ?b \<le> limit"
  proof -
    have "unat (align_value_32 (word_of_nat 16 + ?f) 8) = ALIGN_VALUE (16 + unat ?f) 8"
      using assms(1) that by (intro align_32) simp
    moreover have "ALIGN_VALUE (16 + unat ?f) 8 < 24 + unat ?f" using align_facts(2)[of 8 "16 + unat ?f"] by simp
    ultimately show ?thesis using assms(1) that by (simp add: unat_add_lem[THEN iffD1])
  qed
  have z: "ALIGN_VALUE 0 8 = 0" by (simp add: ALIGN_VALUE_def)
  have c: "claims str = \<lparr>claimed_byte_order = ?e, claimed_fields_array_len = unat ?f,
      claimed_header_len = ALIGN_VALUE (16 + unat ?f) 8, claimed_body_len = unat ?b\<rparr>"
    by (simp add: claims_def u32_at_def)
  note d = dbus_header_have_message_untrusted_def Let_def z c add_0 e r asserted_Some and_then.simps prod.case claimed.simps
  consider "\<not> known_order ?e" | "known_order ?e" "unat ?f > limit" | "known_order ?e" "unat ?f \<le> limit" "unat ?b > limit"
    | "known_order ?e" "unat ?f \<le> limit" "unat ?b \<le> limit" by linarith
  then show ?thesis
  proof cases
    case 4
    note s = sum[OF 4(2,3), THEN conjunct1] sum[OF 4(2,3), THEN conjunct2, THEN conjunct1] sum[OF 4(2,3), THEN conjunct2, THEN conjunct2]
    have "unat ?b < INT_MAX" "unat ?f < INT_MAX" using 4 assms(1) by simp_all
    then have "require (unat ?b < INT_MAX \<and> unat ?f < INT_MAX \<and> ALIGN_VALUE (16 + unat ?f) 8 < INT_MAX) = Inr ()"
      using s(3) by (simp only: simp_thms require_True)
    then show ?thesis unfolding d using 4 assms unfolding s by (simp add: known_order_def)
  qed (use assms in \<open>simp_all add: d known_order_def\<close>)
qed


section \<open>What a result satisfies\<close>

definition gives :: "'a result \<Rightarrow> ('a \<Rightarrow> bool) \<Rightarrow> bool" where
  "gives r P \<longleftrightarrow> (\<forall>x. r = Inr x \<longrightarrow> P x)"

lemma givesD: "gives r P \<Longrightarrow> r = Inr x \<Longrightarrow> P x"
  by (simp add: gives_def)

lemma gives_Inr [simp]: "gives (Inr x) P \<longleftrightarrow> P x" "gives (Inl e) P"
  by (simp_all add: gives_def)

lemma gives_then: "(\<And>x. r = Inr x \<Longrightarrow> gives (f x) P) \<Longrightarrow> gives (and_then r f) P"
  by (auto simp: gives_def)

lemma gives_if: "(b \<Longrightarrow> gives r P) \<Longrightarrow> (\<not> b \<Longrightarrow> gives r' P) \<Longrightarrow> gives (if b then r else r') P"
  by simp

lemma gives_pair: "(\<And>x y. p = (x, y) \<Longrightarrow> gives (f x y) P) \<Longrightarrow> gives (case p of (x, y) \<Rightarrow> f x y) P"
  by (cases p) simp

lemma gives_option:
  "(p = None \<Longrightarrow> gives r P) \<Longrightarrow> (\<And>x. p = Some x \<Longrightarrow> gives (f x) P) \<Longrightarrow> gives (case p of None \<Rightarrow> r | Some x \<Rightarrow> f x) P"
  by (cases p) simp_all

lemma gives_weaken: "gives r P \<Longrightarrow> (\<And>x. P x \<Longrightarrow> Q x) \<Longrightarrow> gives r Q"
  by (simp add: gives_def)

lemma gives_u32: "(\<And>w. v = V_u32 w \<Longrightarrow> gives (f w) P) \<Longrightarrow> gives (case v of V_u32 w \<Rightarrow> f w | _ \<Rightarrow> Inl e) P"
  by (cases v) simp_all

lemma gives_sum:
  "(\<And>e. r = Inl e \<Longrightarrow> gives (f e) P) \<Longrightarrow> (\<And>x. r = Inr x \<Longrightarrow> gives (g x) P) \<Longrightarrow>
   gives (case r of Inl e \<Rightarrow> f e | Inr x \<Rightarrow> g x) P"
  by (cases r) simp_all

lemma gives_halt:
  "(\<And>v. e = Invalid v \<Longrightarrow> gives (f v) P) \<Longrightarrow>
   gives (case e of Invalid v \<Rightarrow> f v | Aborted \<Rightarrow> Inl Aborted | No_fuel \<Rightarrow> Inl No_fuel) P"
  by (cases e) simp_all

lemmas gives_intros = gives_sum gives_halt gives_then gives_if gives_pair gives_option gives_u32

section \<open>What the cache leaves alone\<close>

text \<open>Two headers that differ at most in the cache of positions.\<close>

definition same_data :: "DBusHeader \<Rightarrow> DBusHeader \<Rightarrow> bool" where
  "same_data h h' \<longleftrightarrow> hdr_data h' = hdr_data h \<and> hdr_byte_order h' = hdr_byte_order h \<and> hdr_padding h' = hdr_padding h"

lemma same_data_refl [simp]: "same_data h h"
  by (simp add: same_data_def)

lemma same_data_trans: "same_data h h' \<Longrightarrow> same_data h' h'' \<Longrightarrow> same_data h h''"
  by (simp add: same_data_def)

lemma cache_one_same [simp]: "same_data h (dbus_header_cache_one h f r)"
  by (simp add: same_data_def dbus_header_cache_one_def)

lemma gives_same: "gives r (same_data h') \<Longrightarrow> same_data h h' \<Longrightarrow> gives r (same_data h)"
  unfolding gives_def using same_data_trans by blast

lemma revalidate_same: "gives (revalidate_loop fuel h r) (same_data h)"
proof (induction fuel arbitrary: h r)
  case (Suc fuel)
  show ?case
    by (auto intro!: gives_intros gives_same[OF Suc.IH] split: if_splits)
qed simp

lemma cache_check_same: "dbus_header_cache_check fuel h f = Inr (b, h') \<Longrightarrow> same_data h h'"
  by (auto simp: dbus_header_cache_check_def dbus_header_cache_revalidate_def Let_def same_data_def
      dest!: givesD[OF revalidate_same] split: if_splits)

lemma get_field_same:
  "dbus_header_get_field_basic fuel h f t = Inr (v, h') \<Longrightarrow> same_data h h'"
  "dbus_header_get_field_raw fuel h f = Inr (p, h') \<Longrightarrow> same_data h h'"
  by (auto simp: dbus_header_get_field_basic_def dbus_header_get_field_raw_def dest: cache_check_same split: if_splits)

lemma get_cached_same:
  "dbus_header_get_field_basic fuel (dbus_header_cache_one h f r) f t = Inr (v, h') \<Longrightarrow> same_data h h'"
  "dbus_header_get_field_raw fuel (dbus_header_cache_one h f r) f = Inr (p, h') \<Longrightarrow> same_data h h'"
  by (auto dest!: get_field_same intro: same_data_trans[OF cache_one_same])

lemma load_field_same: "gives (load_and_validate_field fuel h f r) (same_data h)"
  unfolding load_and_validate_field_def Let_def
  by (intro gives_intros) (auto dest: get_cached_same)

lemma load_fields_same: "gives (load_fields_loop fuel h r) (same_data h)"
proof (induction fuel arbitrary: h r)
  case (Suc fuel)
  show ?case
    by (auto intro!: gives_intros gives_same[OF Suc.IH] split: if_splits dest: givesD[OF load_field_same])
qed simp

lemma header_load_same:
  "gives (dbus_header_load fuel h trusted c str start len ok mem)
     (\<lambda>h'. const_data_len str start (claimed_header_len c) = Some (hdr_data h') \<and> claimed_header_len c \<le> len)"
  unfolding dbus_header_load_def Let_def
  by (intro gives_intros) (auto simp: mark_nonexistent_def same_data_def dest!: givesD[OF load_fields_same])


section \<open>One round of the loader\<close>

text \<open>The bytes a message came as, and that its parts have the lengths its header claims.\<close>

definition wire :: "DBusMessage \<Rightarrow> byte list" where
  "wire m = hdr_data (msg_header m) @ msg_body m"

definition framed :: "nat \<Rightarrow> DBusMessage \<Rightarrow> bool" where
  "framed limit m \<longleftrightarrow> length (hdr_data (msg_header m)) = claimed_header_len (claims (wire m)) \<and>
     length (msg_body m) = claimed_body_len (claims (wire m)) \<and> known_order (claimed_byte_order (claims (wire m))) \<and>
     length (wire m) \<le> limit"

text \<open>What the loader may do to its queue: move whole messages from the front of the buffer to its end.\<close>

definition advances :: "DBusMessageLoader \<Rightarrow> DBusMessageLoader \<Rightarrow> bool" where
  "advances l l' \<longleftrightarrow> (\<exists>ms. ldr_messages l' = ldr_messages l @ ms \<and> concat (map wire ms) @ ldr_data l' = ldr_data l \<and>
       list_all (framed (max_message_size l)) ms) \<and>
     max_message_size l' = max_message_size l \<and> buffer_outstanding l' = buffer_outstanding l \<and>
     (corrupted l \<longrightarrow> l' = l)"

lemma advances_refl [simp]: "advances l l"
  by (simp add: advances_def)

lemma advances_corrupted: "\<not> corrupted l \<Longrightarrow> advances l (l\<lparr>corrupted := b, corruption_reason := v\<rparr>)"
  by (simp add: advances_def)

lemma advances_trans:
  assumes "advances l l1" "advances l1 l2"
  shows "advances l l2"
proof -
  obtain ms ms' where ms: "ldr_messages l1 = ldr_messages l @ ms" "concat (map wire ms) @ ldr_data l1 = ldr_data l"
      "list_all (framed (max_message_size l)) ms" and
    ms': "ldr_messages l2 = ldr_messages l1 @ ms'" "concat (map wire ms') @ ldr_data l2 = ldr_data l1"
      "list_all (framed (max_message_size l1)) ms'" and e: "max_message_size l1 = max_message_size l"
    using assms by (auto simp: advances_def)
  have "ldr_messages l2 = ldr_messages l @ ms @ ms'" "concat (map wire (ms @ ms')) @ ldr_data l2 = ldr_data l"
    "list_all (framed (max_message_size l)) (ms @ ms')"
    using ms(1,3) ms'(1,3) e by (simp_all add: ms(2)[symmetric] ms'(2)[symmetric])
  then show ?thesis using assms unfolding advances_def by metis
qed

lemma u32_at_append: "p + 4 \<le> length a \<Longrightarrow> u32_at (a @ b) p e = u32_at a p e"
  by (simp add: u32_at_def)

lemma claims_append: "16 \<le> length a \<Longrightarrow> claims (a @ b) = claims a"
proof -
  assume l: "16 \<le> length a"
  then have "hd (a @ b) = hd a" by (cases a) simp_all
  then show ?thesis using l by (simp add: claims_def u32_at_append)
qed

lemma claimed_header_at_least: "16 \<le> claimed_header_len (claims d)"
  using align_facts(1)[of 8 "16 + u32_at d 12 (hd d)"] by (simp add: claims_def)

lemma have_message_True:
  assumes "dbus_header_have_message_untrusted limit d 0 (length d) = Inr (True, c)" "limit < INT_MAX div 2" "16 \<le> length d"
  shows "c = claims d" "known_order (claimed_byte_order c)" "claimed_header_len c + claimed_body_len c \<le> limit"
    "claimed_header_len c + claimed_body_len c \<le> length d"
  using assms(1) unfolding peek_exact[OF assms(2,3) order_refl] Let_def by (auto split: if_splits)

lemma const_signature_same: "get_const_signature fuel h = Inr (ts, tp, h') \<Longrightarrow> same_data h h'"
  by (auto simp: get_const_signature_def dest!: get_field_same(2) split: option.splits)

lemma load_message_advances:
  assumes "dbus_header_have_message_untrusted (max_message_size l) (ldr_data l) 0 (length (ldr_data l)) = Inr (True, c)"
    and "max_message_size l < INT_MAX div 2" "16 \<le> length (ldr_data l)" "\<not> corrupted l"
  shows "gives (load_message fuel l m c rm) (\<lambda>(loaded, l'). advances l l' \<and>
    (loaded \<longrightarrow> corrupted l' = corrupted l \<and> length (ldr_data l') < length (ldr_data l)))"
proof -
  let ?d = "ldr_data l" and ?h = "claimed_header_len c" and ?b = "claimed_body_len c"
  note f = have_message_True[OF assms(1-3)]
  have loaded: "advances l l' \<and> corrupted l' = corrupted l \<and> length (ldr_data l') < length ?d"
    if h: "hdr_data header = take ?h ?d" and b: "const_data_len ?d ?h ?b = Some body"
      and l': "l' = l\<lparr>ldr_messages := ldr_messages l @ [m\<lparr>msg_header := header, msg_body := body, msg_byte_order := e\<rparr>],
        ldr_data := drop (?h + ?b) ?d\<rparr>" for header body e l'
  proof -
    let ?m = "m\<lparr>msg_header := header, msg_body := body, msg_byte_order := e\<rparr>"
    have body: "body = take ?b (drop ?h ?d)" using b by (simp add: const_data_len_def split: if_splits)
    have w: "wire ?m = take (?h + ?b) ?d" by (simp add: wire_def h body take_add)
    have h16: "16 \<le> ?h" using claimed_header_at_least f(1) by simp
    have "claims (wire ?m) = c"
      using claims_append[of "wire ?m" "drop (?h + ?b) ?d"] h16 f(1,4) by (simp add: w)
    moreover have "length (wire ?m) = ?h + ?b" using f(4) by (simp add: w)
    moreover have "length (hdr_data header) = ?h" "length body = ?b" using f(4) h body by simp_all
    ultimately have "framed (max_message_size l) ?m" using f(2,3) by (simp add: framed_def)
    then have "advances l l'" unfolding advances_def using l' assms(4) by (intro conjI exI[of _ "[?m]"]) (simp_all add: w)
    then show ?thesis using l' h16 f(4) by simp
  qed
  have queued: "advances l (l\<lparr>ldr_messages := ldr_messages l @ [m\<lparr>msg_header := h2, msg_body := body, msg_byte_order := e\<rparr>],
        ldr_data := drop (?h + ?b) ?d\<rparr>) \<and> length ?d - (?h + ?b) < length ?d"
    if "dbus_header_load fuel h0 False c ?d 0 n ok mem = Inr h1" "get_const_signature fuel h1 = Inr (ts, tp, h2)"
      "const_data_len ?d ?h ?b = Some body" for h0 n ok mem h1 h2 ts tp body e
  proof -
    have "hdr_data h2 = take ?h ?d"
      using givesD[OF header_load_same that(1)] const_signature_same[OF that(2)]
      by (simp add: same_data_def const_data_len_def split: if_splits)
    from loaded[OF this that(3) refl] show ?thesis by simp
  qed
  show ?thesis
    unfolding load_message_def Let_def
    by (intro gives_intros) (simp_all add: assms(4) advances_corrupted queued)
qed

lemma queue_loop_advances:
  assumes "max_message_size l < INT_MAX div 2"
  shows "gives (queue_messages_loop n fuel l rms) (\<lambda>(ok, l'). advances l l')"
  using assms
proof (induction n arbitrary: l rms)
  case (Suc n)
  have rest: "gives (queue_messages_loop n fuel l1 rms) (\<lambda>(ok, l'). advances l l')" if "advances l l1" for l1 rms
  proof -
    have "max_message_size l1 < INT_MAX div 2" using that Suc.prems by (simp add: advances_def)
    from Suc.IH[OF this] show ?thesis using advances_trans[OF that] unfolding gives_def by auto
  qed
  show ?case
  proof (cases "\<not> corrupted l \<and> length (ldr_data l) \<ge> 16")
    case True
    let ?have = "dbus_header_have_message_untrusted (max_message_size l) (ldr_data l) 0 (length (ldr_data l))"
    have step: "advances l l1" if "?have = Inr (True, c)" "load_message fuel l m c rm = Inr (b, l1)" for m c rm b l1
      using givesD[OF load_message_advances[OF that(1) Suc.prems] that(2)] True by simp
    show ?thesis using True
      by (auto intro!: gives_intros advances_corrupted rest split: bool.splits sum.splits prod.splits dest: step simp del: and_then_Inr)
  qed auto
qed simp

end
