(* ===== verification/LoaderProps.thy ===== *)
theory LoaderProps
  imports LoaderSteps "HOL-Library.Sublist"
begin

section \<open>A loader and its stream\<close>

text \<open>
  What happens to a loader: bytes arrive, messages are queued with the memory there is, the first
  message is taken, the maximum size is set. The history keeps what arrived and what was taken, and
  the last answer of queueing.
\<close>

datatype loader_event = Arrive "byte list" | Queue "round_memory list" | Take | Limit nat

record stream =
  loader :: DBusMessageLoader
  arrived :: "byte list"
  taken :: "DBusMessage list"
  memory_sufficed :: bool

fun stream_step :: "nat \<Rightarrow> stream result \<Rightarrow> loader_event \<Rightarrow> stream result" where
  "stream_step fuel (Inl e) _ = Inl e"
| "stream_step fuel (Inr s) (Arrive bs) =
     and_then (dbus_message_loader_get_buffer (loader s)) (\<lambda>(buffer, l).
     and_then (dbus_message_loader_return_buffer l (buffer @ bs)) (\<lambda>l.
       Inr (s\<lparr>loader := l, arrived := arrived s @ bs, memory_sufficed := False\<rparr>)))"
| "stream_step fuel (Inr s) (Queue ms) =
     and_then (dbus_message_loader_queue_messages fuel (loader s) ms) (\<lambda>(ok, l).
       Inr (s\<lparr>loader := l, memory_sufficed := ok\<rparr>))"
| "stream_step fuel (Inr s) Take =
     (case dbus_message_loader_pop_message (loader s) of
        (None, l) \<Rightarrow> Inr s
      | (Some m, l) \<Rightarrow> Inr (s\<lparr>loader := l, taken := taken s @ [m]\<rparr>))"
| "stream_step fuel (Inr s) (Limit n) =
     Inr (s\<lparr>loader := dbus_message_loader_set_max_message_size (loader s) n, memory_sufficed := False\<rparr>)"

definition fresh_loader :: DBusMessageLoader where
  "fresh_loader = the (fst (dbus_message_loader_new []))"

definition fresh_stream :: stream where
  "fresh_stream = \<lparr>loader = fresh_loader, arrived = [], taken = [], memory_sufficed = False\<rparr>"

abbreviation run_stream :: "nat \<Rightarrow> loader_event list \<Rightarrow> stream result" where
  "run_stream fuel es \<equiv> run (stream_step fuel) (Inr fresh_stream) es"

definition delivered :: "stream \<Rightarrow> DBusMessage list" where
  "delivered s = taken s @ ldr_messages (loader s)"

section \<open>The invariant\<close>

text \<open>
  When the last thing that happened was queueing for which memory sufficed, and the loader is not
  corrupted, the buffer holds no whole message.
\<close>

definition drained :: "DBusMessageLoader \<Rightarrow> bool" where
  "drained l \<longleftrightarrow> length (ldr_data l) < 16 \<or>
     (\<exists>c. dbus_header_have_message_untrusted (max_message_size l) (ldr_data l) 0 (length (ldr_data l)) = Inr (False, c))"

definition stream_ok :: "stream \<Rightarrow> bool" where
  "stream_ok s \<longleftrightarrow> max_message_size (loader s) \<le> DBUS_MAXIMUM_MESSAGE_LENGTH \<and> \<not> buffer_outstanding (loader s) \<and>
     concat (map wire (delivered s)) @ ldr_data (loader s) = arrived s \<and>
     list_all (framed DBUS_MAXIMUM_MESSAGE_LENGTH) (delivered s) \<and>
     (memory_sufficed s \<and> \<not> corrupted (loader s) \<longrightarrow> drained (loader s))"

lemma framed_mono: "framed n m \<Longrightarrow> n \<le> n' \<Longrightarrow> framed n' m"
  by (simp add: framed_def)

lemma queue_loop_drains: "gives (queue_messages_loop n fuel l rms) (\<lambda>(ok, l'). ok \<and> \<not> corrupted l' \<longrightarrow> drained l')"
proof (induction n arbitrary: l rms)
  case (Suc n)
  show ?case
    by (auto intro!: gives_intros Suc.IH[unfolded drained_def] split: bool.splits sum.splits prod.splits simp: drained_def simp del: and_then_Inr)
qed simp

lemma queue_keeps:
  assumes "stream_ok s" "dbus_message_loader_queue_messages fuel (loader s) ms = Inr (ok, l)"
  shows "stream_ok (s\<lparr>loader := l, memory_sufficed := ok\<rparr>)"
proof -
  let ?l = "loader s"
  have limit: "max_message_size ?l < INT_MAX div 2" "max_message_size ?l \<le> DBUS_MAXIMUM_MESSAGE_LENGTH"
    using assms(1) by (simp_all add: stream_ok_def)
  have a: "advances ?l l"
    using givesD[OF queue_loop_advances[OF limit(1)] assms(2)[unfolded dbus_message_loader_queue_messages_def]] by simp
  have d: "ok \<and> \<not> corrupted l \<longrightarrow> drained l"
    using givesD[OF queue_loop_drains assms(2)[unfolded dbus_message_loader_queue_messages_def]] by simp
  obtain ms where ms: "ldr_messages l = ldr_messages ?l @ ms" "concat (map wire ms) @ ldr_data l = ldr_data ?l"
    "list_all (framed (max_message_size ?l)) ms" and same: "max_message_size l = max_message_size ?l" "buffer_outstanding l = buffer_outstanding ?l"
    using a by (auto simp: advances_def)
  have "list_all (framed DBUS_MAXIMUM_MESSAGE_LENGTH) ms" using ms(3) framed_mono[OF _ limit(2)] by (auto simp: list_all_iff)
  then show ?thesis using assms(1) ms(1) same d by (simp add: stream_ok_def delivered_def ms(2)[symmetric])
qed

lemma fresh_ok: "stream_ok fresh_stream"
  by (simp add: stream_ok_def fresh_stream_def fresh_loader_def dbus_message_loader_new_def delivered_def)

lemma event_keeps: "gives x stream_ok \<Longrightarrow> gives (stream_step fuel x e) stream_ok"
proof (cases x)
  case (Inr s)
  assume "gives x stream_ok"
  then have s: "stream_ok s" using Inr by simp
  show ?thesis
  proof (cases e)
    case (Arrive bs)
    then show ?thesis using s Inr
      by (auto simp: dbus_message_loader_get_buffer_def dbus_message_loader_return_buffer_def stream_ok_def delivered_def
        intro!: gives_intros simp del: and_then_Inr)
  next
    case (Queue ms)
    then show ?thesis using s Inr by (auto intro!: gives_intros queue_keeps simp del: and_then_Inr)
  next
    case Take
    then show ?thesis using s Inr
      by (cases "ldr_messages (loader s)")
        (auto simp: dbus_message_loader_pop_message_def stream_ok_def delivered_def drained_def)
  next
    case (Limit n)
    then show ?thesis using s Inr
      by (auto simp: dbus_message_loader_set_max_message_size_def stream_ok_def delivered_def)
  qed
qed simp

interpretation message_stream: machine "Inr fresh_stream" "stream_step fuel" "\<lambda>x. gives x stream_ok"
  by unfold_locales (simp_all add: fresh_ok event_keeps)

text \<open>What arrived is what the events brought.\<close>

fun brought :: "loader_event list \<Rightarrow> byte list" where
  "brought [] = []"
| "brought (Arrive bs # es) = bs @ brought es"
| "brought (_ # es) = brought es"

lemma arrived_brought: "run (stream_step fuel) (Inr s0) es = Inr s \<Longrightarrow> arrived s = arrived s0 @ brought es"
proof (induction es arbitrary: s0)
  case (Cons e es)
  have stuck: "run (stream_step fuel) (Inl x) es \<noteq> Inr s" for x es by (induction es) simp_all
  obtain s1 where s1: "stream_step fuel (Inr s0) e = Inr s1"
    using Cons.prems stuck by (cases "stream_step fuel (Inr s0) e") auto
  have "arrived s1 = arrived s0 @ brought [e]"
    using s1 by (cases e) (auto split: option.splits prod.splits)
  moreover have "brought (e # es) = brought [e] @ brought es" by (cases e) simp_all
  ultimately show ?case using Cons.IH[of s1] Cons.prems s1 by simp
qed simp

lemma reached: "run_stream fuel es = Inr s \<Longrightarrow> stream_ok s \<and> arrived s = brought es"
  using message_stream.reachable_inv[of fuel es] arrived_brought[of fuel fresh_stream es s]
  by (auto simp: fresh_stream_def dest: givesD)

text \<open>
  C4. Nothing of the stream is lost, repeated or reordered: at any time the messages handed out and
  queued, byte by byte, followed by the buffer, are what arrived; each message has the lengths its own
  header claims and is within the maximum size. It holds however the stream is cut into pieces, and
  whatever allocations fail.
\<close>

theorem stream_preserved:
  assumes "run_stream fuel es = Inr s"
  shows "concat (map wire (delivered s)) @ ldr_data (loader s) = brought es \<and>
    list_all (framed DBUS_MAXIMUM_MESSAGE_LENGTH) (delivered s)"
  using reached[OF assms] by (simp add: stream_ok_def)


section \<open>Cutting does not matter\<close>

lemma framed_length: "framed n m \<Longrightarrow> length (wire m) = claimed_header_len (claims (wire m)) + claimed_body_len (claims (wire m))"
  by (simp add: framed_def wire_def)

lemma framed_16: "framed n m \<Longrightarrow> 16 \<le> length (wire m)"
  using framed_length[of n m] claimed_header_at_least[of "wire m"] by linarith

text \<open>The first message of a stream is determined by the stream.\<close>

lemma first_unique:
  assumes "framed n m" "framed n' m'" "wire m @ r = wire m' @ r'"
  shows "wire m = wire m'"
proof -
  have "claims (wire m) = claims (wire m @ r)" "claims (wire m') = claims (wire m' @ r')"
    using claims_append framed_16 assms(1,2) by metis+
  then have "length (wire m) = length (wire m')" using framed_length assms by metis
  then show ?thesis using assms(3) by simp
qed

lemma messages_comparable:
  "list_all (framed n) ms \<Longrightarrow> list_all (framed n') ms' \<Longrightarrow> concat (map wire ms) @ r = concat (map wire ms') @ r' \<Longrightarrow>
   prefix (map wire ms) (map wire ms') \<or> prefix (map wire ms') (map wire ms)"
proof (induction ms arbitrary: ms')
  case (Cons m ms)
  show ?case
  proof (cases ms')
    case (Cons m' ms1)
    then have "wire m = wire m'" using Cons.prems first_unique[of n m n' m' "concat (map wire ms) @ r" "concat (map wire ms1) @ r'"] by simp
    then show ?thesis using Cons Cons.prems Cons.IH[of ms1] by simp
  qed simp
qed simp

lemma drained_short:
  assumes "drained l" "ldr_data l = wire m @ r" "framed DBUS_MAXIMUM_MESSAGE_LENGTH m" "max_message_size l \<le> DBUS_MAXIMUM_MESSAGE_LENGTH"
  shows False
proof -
  have l: "16 \<le> length (ldr_data l)" using framed_16[OF assms(3)] assms(2) by simp
  have c: "claims (ldr_data l) = claims (wire m)" using claims_append[OF framed_16[OF assms(3)]] assms(2) by simp
  obtain c' where h: "dbus_header_have_message_untrusted (max_message_size l) (ldr_data l) 0 (length (ldr_data l)) = Inr (False, c')"
    using assms(1) l by (auto simp: drained_def)
  have "claimed_body_len (claims (wire m)) + claimed_header_len (claims (wire m)) \<le> length (ldr_data l)"
    using framed_length[OF assms(3)] assms(2) by simp
  then show False
    using h peek_exact[of "max_message_size l" "length (ldr_data l)" "ldr_data l"] l assms(4) c
    by (auto simp: Let_def split: if_splits)
qed

text \<open>
  C5. How the stream is cut into pieces, when messages are taken and which allocations fail does not
  matter: of two loaders fed with the same bytes one has delivered a beginning of what the other has.
  If both have queued with enough memory and neither is corrupted, both have delivered the same.
\<close>

theorem cutting_is_irrelevant:
  assumes "run_stream fuel es = Inr s" "run_stream fuel' es' = Inr s'" "brought es = brought es'"
  shows "(prefix (map wire (delivered s)) (map wire (delivered s')) \<or> prefix (map wire (delivered s')) (map wire (delivered s))) \<and>
    (memory_sufficed s \<and> memory_sufficed s' \<and> \<not> corrupted (loader s) \<and> \<not> corrupted (loader s') \<longrightarrow>
       map wire (delivered s) = map wire (delivered s') \<and> ldr_data (loader s) = ldr_data (loader s'))"
proof -
  note ok = reached[OF assms(1)] reached[OF assms(2)]
  have w: "concat (map wire (delivered s)) @ ldr_data (loader s) = concat (map wire (delivered s')) @ ldr_data (loader s')"
    using ok assms(3) by (simp add: stream_ok_def)
  have p: "prefix (map wire (delivered s)) (map wire (delivered s')) \<or> prefix (map wire (delivered s')) (map wire (delivered s))"
    using ok by (intro messages_comparable[OF _ _ w]) (auto simp: stream_ok_def)
  have done_with: "map wire (delivered t) = map wire (delivered u)"
    if t: "stream_ok t" "stream_ok u" "prefix (map wire (delivered t)) (map wire (delivered u))" "drained (loader t)"
      "concat (map wire (delivered t)) @ ldr_data (loader t) = concat (map wire (delivered u)) @ ldr_data (loader u)" for t u
  proof -
    obtain ws where ws: "map wire (delivered u) = map wire (delivered t) @ ws" using t(3) by (auto elim: prefixE)
    show ?thesis
    proof (cases ws)
      case (Cons w ws')
      have "w \<in> set (map wire (delivered u))" unfolding ws Cons by simp
      then obtain m where m: "m \<in> set (delivered u)" "w = wire m" by auto
      have "concat (map wire (delivered t)) @ ldr_data (loader t) =
          concat (map wire (delivered t)) @ wire m @ concat ws' @ ldr_data (loader u)"
        unfolding t(5) ws Cons m(2) by simp
      then have d: "ldr_data (loader t) = wire m @ concat ws' @ ldr_data (loader u)" by simp
      have "framed DBUS_MAXIMUM_MESSAGE_LENGTH m" "max_message_size (loader t) \<le> DBUS_MAXIMUM_MESSAGE_LENGTH"
        using t(1,2) m(1) by (simp_all add: stream_ok_def list_all_iff)
      from drained_short[OF t(4) d this] show ?thesis ..
    qed (use ws in simp)
  qed
  have "map wire (delivered s) = map wire (delivered s')"
    if "memory_sufficed s" "memory_sufficed s'" "\<not> corrupted (loader s)" "\<not> corrupted (loader s')"
  proof -
    have k: "stream_ok s" "stream_ok s'" using ok by simp_all
    then have dr: "drained (loader s)" "drained (loader s')" using that by (simp_all add: stream_ok_def)
    from p show ?thesis
    proof
      assume "prefix (map wire (delivered s)) (map wire (delivered s'))"
      then show ?thesis by (rule done_with[OF k _ dr(1) w])
    next
      assume "prefix (map wire (delivered s')) (map wire (delivered s))"
      then show ?thesis by (rule done_with[OF k(2,1) _ dr(2) w[symmetric], symmetric])
    qed
  qed
  then show ?thesis using p w by (metis same_append_eq)
qed

end
