(* ===== verification/HeaderLoad.thy ===== *)
theory HeaderLoad
  imports LoaderProps ReaderWalk
begin

text \<open>
  What loading a header does, on every header whose bytes encode values of its signature: the
  reference is a function of the values, and \<open>dbus_header_load\<close> computes it.
\<close>

section \<open>Headers as values\<close>

text \<open>A field: its code, the type and the value in its variant.\<close>

type_synonym field = "byte \<times> dtype \<times> val"

definition field_type :: dtype where
  "field_type = Struct [Basic DBUS_TYPE_BYTE, Variant]"

definition header_types :: "dtype list" where
  "header_types = [Basic DBUS_TYPE_BYTE, Basic DBUS_TYPE_BYTE, Basic DBUS_TYPE_BYTE, Basic DBUS_TYPE_BYTE,
     Basic DBUS_TYPE_UINT32, Basic DBUS_TYPE_UINT32, Array field_type]"

fun field_value :: "field \<Rightarrow> val" where
  "field_value (c, t, v) = Str [Val (V_byt c), Var t v]"

record header_content =
  hc_order :: byte
  hc_type :: byte
  hc_flags :: byte
  hc_version :: byte
  hc_body_len :: "32 word"
  hc_serial :: "32 word"
  hc_fields :: "field list"

definition header_vals :: "header_content \<Rightarrow> val list" where
  "header_vals h = [Val (V_byt (hc_order h)), Val (V_byt (hc_type h)), Val (V_byt (hc_flags h)), Val (V_byt (hc_version h)),
     Val (V_u32 (hc_body_len h)), Val (V_u32 (hc_serial h)), Arr (map field_value (hc_fields h))]"

text \<open>The header without its padding, and that its contents have the types they claim.\<close>

definition header_bytes :: "header_content \<Rightarrow> byte list" where
  "header_bytes h = enc_seq (hc_order h) header_types (header_vals h) 0"

definition header_fits :: "header_content \<Rightarrow> bool" where
  "header_fits h \<longleftrightarrow> known_order (hc_order h) \<and> fits_seq (hc_order h) header_types (header_vals h) 0"

text \<open>Where the values of the fields are, for fields encoded from \<open>p\<close> on.\<close>

fun places :: "byte \<Rightarrow> field list \<Rightarrow> nat \<Rightarrow> nat list" where
  "places e [] p = []"
| "places e ((c, t, v) # fs) p =
     ALIGN_VALUE (ALIGN_VALUE p 8 + 1 + length (variant_header t)) (type_alignment t) #
     places e fs (p + length (enc e field_type (field_value (c, t, v)) p))"

section \<open>The reference\<close>

text \<open>What is wrong with the value of a known field.\<close>

fun string_in :: "val \<Rightarrow> byte list" where
  "string_in (Val (V_str s)) = s"
| "string_in _ = []"

definition name_verdict :: "(byte list \<Rightarrow> nat \<Rightarrow> nat \<Rightarrow> bool) \<Rightarrow> DBusValidity \<Rightarrow> byte list \<Rightarrow> DBusValidity option" where
  "name_verdict valid bad s = (if valid s 0 (length s) then None else Some bad)"

definition field_verdict :: "nat \<Rightarrow> val \<Rightarrow> DBusValidity option" where
  "field_verdict f v =
     (let s = string_in v in
      if f = DBUS_HEADER_FIELD_DESTINATION then name_verdict dbus_validate_bus_name DBUS_INVALID_BAD_DESTINATION s
      else if f = DBUS_HEADER_FIELD_SENDER then name_verdict dbus_validate_bus_name DBUS_INVALID_BAD_SENDER s
      else if f = DBUS_HEADER_FIELD_MEMBER then name_verdict dbus_validate_member DBUS_INVALID_BAD_MEMBER s
      else if f = DBUS_HEADER_FIELD_ERROR_NAME then name_verdict dbus_validate_error_name DBUS_INVALID_BAD_ERROR_NAME s
      else if f = DBUS_HEADER_FIELD_INTERFACE then
        (if prefix dbus_local_interface_str s then Some DBUS_INVALID_USES_LOCAL_INTERFACE
         else name_verdict dbus_validate_interface DBUS_INVALID_BAD_INTERFACE s)
      else if f = DBUS_HEADER_FIELD_PATH \<and> prefix dbus_local_path_str s then Some DBUS_INVALID_USES_LOCAL_PATH
      else if f = DBUS_HEADER_FIELD_REPLY_SERIAL \<and> v = Val (V_u32 0) then Some DBUS_INVALID_BAD_SERIAL
      else None)"

text \<open>The fields in their order, each with its place; the table of places is what is filled in.\<close>

fun take_fields :: "(field \<times> nat) list \<Rightarrow> int list \<Rightarrow> DBusValidity + int list" where
  "take_fields [] table = Inr table"
| "take_fields (((c, t, v), q) # fs) table =
     (let f = unat c in
      if f = DBUS_HEADER_FIELD_INVALID then Inl DBUS_INVALID_HEADER_FIELD_CODE
      else if f > DBUS_HEADER_FIELD_LAST then take_fields fs table
      else if t \<noteq> Basic (EXPECTED_TYPE_OF_FIELD f) then Inl DBUS_INVALID_HEADER_FIELD_HAS_WRONG_TYPE
      else if table ! f \<ge> 0 then Inl DBUS_INVALID_HEADER_FIELD_APPEARS_TWICE
      else case field_verdict f v of Some r \<Rightarrow> Inl r | None \<Rightarrow> take_fields fs (table[f := int q]))"

text \<open>The fields a message of a type must have, and the codes for their lack.\<close>

definition mandatory :: "byte \<Rightarrow> (nat \<times> DBusValidity) list" where
  "mandatory type =
     (if type = DBUS_MESSAGE_TYPE_SIGNAL then
        [(DBUS_HEADER_FIELD_INTERFACE, DBUS_INVALID_MISSING_INTERFACE), (DBUS_HEADER_FIELD_PATH, DBUS_INVALID_MISSING_PATH),
         (DBUS_HEADER_FIELD_MEMBER, DBUS_INVALID_MISSING_MEMBER)]
      else if type = DBUS_MESSAGE_TYPE_METHOD_CALL then
        [(DBUS_HEADER_FIELD_PATH, DBUS_INVALID_MISSING_PATH), (DBUS_HEADER_FIELD_MEMBER, DBUS_INVALID_MISSING_MEMBER)]
      else if type = DBUS_MESSAGE_TYPE_ERROR then
        [(DBUS_HEADER_FIELD_ERROR_NAME, DBUS_INVALID_MISSING_ERROR_NAME),
         (DBUS_HEADER_FIELD_REPLY_SERIAL, DBUS_INVALID_MISSING_REPLY_SERIAL)]
      else if type = DBUS_MESSAGE_TYPE_METHOD_RETURN then
        [(DBUS_HEADER_FIELD_REPLY_SERIAL, DBUS_INVALID_MISSING_REPLY_SERIAL)]
      else [])"

definition missing :: "byte \<Rightarrow> int list \<Rightarrow> DBusValidity option" where
  "missing type table = map_option snd (find (\<lambda>(f, _). table ! f < 0) (mandatory type))"

definition no_fields :: "int list" where
  "no_fields = replicate 9 FIELD_VALUE_UNKNOWN"

definition settled :: "int list \<Rightarrow> int list" where
  "settled table = map (\<lambda>pos. if pos = FIELD_VALUE_UNKNOWN then FIELD_VALUE_NONEXISTENT else pos) table"

text \<open>The verdict on a header and the padding that follows it, or the table of the places of its fields.\<close>

definition header_verdict :: "header_content \<Rightarrow> byte list \<Rightarrow> DBusValidity + int list" where
  "header_verdict h pad =
     (if \<not> list_all (\<lambda>b. b = 0) pad then Inl DBUS_INVALID_ALIGNMENT_PADDING_NOT_NUL
      else if hc_type h = DBUS_MESSAGE_TYPE_INVALID then Inl DBUS_INVALID_BAD_MESSAGE_TYPE
      else if hc_version h \<noteq> DBUS_MAJOR_PROTOCOL_VERSION then Inl DBUS_INVALID_BAD_PROTOCOL_VERSION
      else if hc_serial h = 0 then Inl DBUS_INVALID_BAD_SERIAL
      else case take_fields (zip (hc_fields h) (places (hc_order h) (hc_fields h) 16)) no_fields of
          Inl r \<Rightarrow> Inl r
        | Inr table \<Rightarrow> (case missing (hc_type h) (settled table) of Some r \<Rightarrow> Inl r | None \<Rightarrow> Inr (settled table)))"

section \<open>Reading the fixed values\<close>

lemma header_signature: "sigs_of header_types = dbus_header_signature_str"
  by (simp add: header_types_def field_type_def dbus_header_signature_str_def ascii_def)

lemma header_types_within: "withins 0 0 header_types"
  by (simp add: header_types_def field_type_def basic_cases)

lemma header_value_reads:
  assumes "stands_list str e r (Basic c # ts) (Val x # vs)" "withins sd dd (Basic c # ts)" "known_order e" "length str \<le> INT_MAX"
    and "2 * (1 + length (encode_basic e c x (value_pos r))) < fuel" "value_pos r = offset"
  shows "header_value fuel c offset r = Inr (x, past e (Basic c) (Val x) r)"
proof -
  note o = stands_list_one[OF assms(1)]
  have w: "within sd dd 0 (Basic c)" and b: "dbus_type_is_basic c" using assms(2) by simp_all
  have k: "klass r \<noteq> array_reader_class" "\<not> types_only (klass r)" "value_str r = Some str" "byte_order r = e"
    using assms(1) by (simp_all add: stands_list_def over_values_def)
  obtain f where f: "fuel = Suc f" using assms(5) by (cases fuel) auto
  have "base_reader_next (skip_all f) r (type_code (Basic c)) = Inr (stepped e (Basic c) (Val x) r)"
    using assms(5) f by (intro base_step[OF assms(3,4) w o]) simp
  note n = next_step[OF assms(1,2) this, folded f]
  have t: "dbus_type_reader_get_current_type r = Inr c" using stands_current(3)[OF o w k(1)] by simp
  have "dbus_type_reader_read_basic r = Inr x"
    using skip_basic(2)[OF o assms(3,4) b] t k by (simp add: dbus_type_reader_read_basic_def)
  then show ?thesis using t n assms(6) by (simp add: header_value_def)
qed

lemma header_value_step:
  assumes "stands_list str e r (Basic c # t # ts) (Val x # vs)" "withins 0 0 (Basic c # t # ts)" "known_order e" "length str \<le> INT_MAX"
    and "2 * (1 + length (encode_basic e c x (value_pos r))) < fuel" "value_pos r = offset"
  obtains r' where "header_value fuel c offset r = Inr (x, r')" "stands_list str e r' (t # ts) vs"
    "value_pos r' = offset + length (encode_basic e c x offset)" "type_str r' = type_str r"
  using header_value_reads[OF assms] past_list(2)[OF assms(1,2)] assms(6)
  by (simp add: past_fields value_end_def)

lemma fixed_sizes:
  "length (encode_basic e DBUS_TYPE_BYTE (V_byt b) n) = 1"
  "n mod 4 = 0 \<Longrightarrow> length (encode_basic e DBUS_TYPE_UINT32 (V_u32 w) n) = 4"
proof -
  show "length (encode_basic e DBUS_TYPE_BYTE (V_byt b) n) = 1"
    by (simp add: encode_basic_def raw_basic_def padding_def ALIGN_VALUE_def dbus_type_get_alignment_def)
  assume "n mod 4 = 0"
  then have "ALIGN_VALUE n 4 = n" by (auto intro: align_self)
  then show "length (encode_basic e DBUS_TYPE_UINT32 (V_u32 w) n) = 4"
    by (simp add: encode_basic_def raw_basic_def padding_def dbus_type_get_alignment_def)
qed

text \<open>The two kinds of values there are, at the positions they have.\<close>

lemma value_steps:
  assumes "known_order e" "length str \<le> INT_MAX" "10 < fuel" "withins 0 0 (t # ts)"
  shows "stands_list str e r (Basic DBUS_TYPE_BYTE # t # ts) (Val (V_byt b) # vs) \<Longrightarrow> value_pos r = p \<Longrightarrow>
      \<exists>r'. header_value fuel DBUS_TYPE_BYTE p r = Inr (V_byt b, r') \<and> stands_list str e r' (t # ts) vs \<and> value_pos r' = p + 1"
    "stands_list str e r (Basic DBUS_TYPE_UINT32 # t # ts) (Val (V_u32 w) # vs) \<Longrightarrow> value_pos r = p \<Longrightarrow> p mod 4 = 0 \<Longrightarrow>
      \<exists>r'. header_value fuel DBUS_TYPE_UINT32 p r = Inr (V_u32 w, r') \<and> stands_list str e r' (t # ts) vs \<and> value_pos r' = p + 4"
proof -
  have w: "withins 0 0 (Basic DBUS_TYPE_BYTE # t # ts)" "withins 0 0 (Basic DBUS_TYPE_UINT32 # t # ts)"
    using assms(4) by (simp_all add: basic_cases)
  {
    assume r: "stands_list str e r (Basic DBUS_TYPE_BYTE # t # ts) (Val (V_byt b) # vs)" "value_pos r = p"
    have "2 * (1 + length (encode_basic e DBUS_TYPE_BYTE (V_byt b) (value_pos r))) < fuel" using assms(3) by (simp add: fixed_sizes)
    from header_value_step[OF r(1) w(1) assms(1,2) this r(2)]
    show "\<exists>r'. header_value fuel DBUS_TYPE_BYTE p r = Inr (V_byt b, r') \<and> stands_list str e r' (t # ts) vs \<and> value_pos r' = p + 1"
      unfolding fixed_sizes(1) by metis
  }
  assume r: "stands_list str e r (Basic DBUS_TYPE_UINT32 # t # ts) (Val (V_u32 w) # vs)" "value_pos r = p" and p: "p mod 4 = 0"
  have "2 * (1 + length (encode_basic e DBUS_TYPE_UINT32 (V_u32 w) (value_pos r))) < fuel" using assms(3) r(2) p by (simp add: fixed_sizes)
  from header_value_step[OF r(1) w(2) assms(1,2) this r(2)]
  show "\<exists>r'. header_value fuel DBUS_TYPE_UINT32 p r = Inr (V_u32 w, r') \<and> stands_list str e r' (t # ts) vs \<and> value_pos r' = p + 4"
    unfolding fixed_sizes(2)[OF p] by metis
qed

lemma fixed_values_read:
  assumes "header_fits h" "found_at str 0 (header_bytes h)" "length str \<le> INT_MAX" "10 < fuel"
  obtains r where
    "load_fixed_values fuel (hc_order h) (unat (hc_body_len h)) (dbus_type_reader_init (hc_order h) dbus_header_signature_str 0 str 0) =
      (if hc_type h = DBUS_MESSAGE_TYPE_INVALID then Inl (Invalid DBUS_INVALID_BAD_MESSAGE_TYPE)
       else if hc_version h \<noteq> DBUS_MAJOR_PROTOCOL_VERSION then Inl (Invalid DBUS_INVALID_BAD_PROTOCOL_VERSION)
       else if hc_serial h = 0 then Inl (Invalid DBUS_INVALID_BAD_SERIAL)
       else dbus_type_reader_recurse r)"
    "stands_list str (hc_order h) r [Array field_type] [Arr (map field_value (hc_fields h))]" "value_pos r = 12"
proof -
  let ?e = "hc_order h" and ?y = "Basic DBUS_TYPE_BYTE" and ?u = "Basic DBUS_TYPE_UINT32"
  let ?r0 = "dbus_type_reader_init ?e dbus_header_signature_str 0 str 0"
  have e: "known_order ?e" using assms(1) by (simp add: header_fits_def)
  have p0: "value_pos ?r0 = 0" by (simp add: dbus_type_reader_init_def reader_init_def)
  have s0: "stands_list str ?e ?r0 header_types (header_vals h)"
    using assms(1,2) header_signature
    by (simp add: stands_list_def over_values_def dbus_type_reader_init_def reader_init_def fresh_reader_def ends_list_def header_fits_def
        header_bytes_def)
  have w: "withins 0 0 [?y, ?y, ?y, ?y, ?u, ?u, Array field_type]" using header_types_within by (simp add: header_types_def)
  have ws: "withins 0 0 [?y, ?y, ?y, ?u, ?u, Array field_type]" "withins 0 0 [?y, ?y, ?u, ?u, Array field_type]"
    "withins 0 0 [?y, ?u, ?u, Array field_type]" "withins 0 0 [?u, ?u, Array field_type]" "withins 0 0 [?u, Array field_type]"
    "withins 0 0 [Array field_type]"
    using w by simp_all
  note step = value_steps[OF e assms(3,4)]
  note s0' = s0[unfolded header_types_def header_vals_def]
  obtain r1 where r1: "header_value fuel DBUS_TYPE_BYTE 0 ?r0 = Inr (V_byt ?e, r1)"
    "stands_list str ?e r1 [?y, ?y, ?y, ?u, ?u, Array field_type]
      [Val (V_byt (hc_type h)), Val (V_byt (hc_flags h)), Val (V_byt (hc_version h)), Val (V_u32 (hc_body_len h)), Val (V_u32 (hc_serial h)), Arr (map field_value (hc_fields h))]" "value_pos r1 = 1"
    using step(1)[OF ws(1) s0' p0] by auto
  obtain r2 where r2: "header_value fuel DBUS_TYPE_BYTE 1 r1 = Inr (V_byt (hc_type h), r2)"
    "stands_list str ?e r2 [?y, ?y, ?u, ?u, Array field_type]
      [Val (V_byt (hc_flags h)), Val (V_byt (hc_version h)), Val (V_u32 (hc_body_len h)), Val (V_u32 (hc_serial h)), Arr (map field_value (hc_fields h))]" "value_pos r2 = 2"
    using step(1)[OF ws(2) r1(2,3)] by auto
  obtain r3 where r3: "header_value fuel DBUS_TYPE_BYTE 2 r2 = Inr (V_byt (hc_flags h), r3)"
    "stands_list str ?e r3 [?y, ?u, ?u, Array field_type]
      [Val (V_byt (hc_version h)), Val (V_u32 (hc_body_len h)), Val (V_u32 (hc_serial h)), Arr (map field_value (hc_fields h))]" "value_pos r3 = 3"
    using step(1)[OF ws(3) r2(2,3)] by auto
  obtain r4 where r4: "header_value fuel DBUS_TYPE_BYTE 3 r3 = Inr (V_byt (hc_version h), r4)"
    "stands_list str ?e r4 [?u, ?u, Array field_type]
      [Val (V_u32 (hc_body_len h)), Val (V_u32 (hc_serial h)), Arr (map field_value (hc_fields h))]" "value_pos r4 = 4"
    using step(1)[OF ws(4) r3(2,3)] by auto
  obtain r5 where r5: "header_value fuel DBUS_TYPE_UINT32 4 r4 = Inr (V_u32 (hc_body_len h), r5)"
    "stands_list str ?e r5 [?u, Array field_type]
      [Val (V_u32 (hc_serial h)), Arr (map field_value (hc_fields h))]" "value_pos r5 = 8"
    using step(2)[OF ws(5) r4(2,3)] by auto
  obtain r6 where r6: "header_value fuel DBUS_TYPE_UINT32 8 r5 = Inr (V_u32 (hc_serial h), r6)"
    "stands_list str ?e r6 [Array field_type]
      [Arr (map field_value (hc_fields h))]" "value_pos r6 = 12"
    using step(2)[OF ws(6) r5(2,3)] by auto
  have k: "klass r6 \<noteq> array_reader_class" using r6(2) by (simp add: stands_list_def)
  have t: "dbus_type_reader_get_current_type r6 = Inr DBUS_TYPE_ARRAY"
    using stands_current(3)[OF stands_list_one[OF r6(2)] _ k, of 0 0 0] w by simp
  show ?thesis
    using r1(1) r2(1) r3(1) r4(1) r5(1) r6(1) r6(2,3) t
    by (intro that[of r6]) (simp_all add: load_fixed_values_def byte_of_def uint32_of_def)
qed

end
