(* ===== verification/HeaderFields.thy ===== *)
theory HeaderFields
  imports HeaderLoad
begin

text \<open>
  The fields of a header: each call on a field computes what the reference says, and so does the loop
  over them.
\<close>

section \<open>Contents in place\<close>

lemma names_at:
  assumes "p + n \<le> length str" "s = take n (drop p str)"
  shows "dbus_validate_bus_name str p n = dbus_validate_bus_name s 0 n" "dbus_validate_interface str p n = dbus_validate_interface s 0 n"
    "dbus_validate_member str p n = dbus_validate_member s 0 n" "dbus_validate_error_name str p n = dbus_validate_error_name s 0 n"
proof -
  have l: "take n (drop p str) = s" "length s = n" "take n s = s" using assms by simp_all
  have n: "\<not> n > length str - p" "\<not> n > n - 0" using assms(1) by simp_all
  show "dbus_validate_bus_name str p n = dbus_validate_bus_name s 0 n" "dbus_validate_interface str p n = dbus_validate_interface s 0 n"
    "dbus_validate_member str p n = dbus_validate_member s 0 n" "dbus_validate_error_name str p n = dbus_validate_error_name s 0 n"
    unfolding dbus_validate_bus_name_def dbus_validate_interface_def dbus_validate_member_def dbus_validate_error_name_def
      drop_0 l if_not_P[OF n(1)] if_not_P[OF n(2)] by (rule refl)+
qed

lemma prefix_nul: "0 \<notin> set n \<Longrightarrow> prefix n (s @ 0 # rest) \<longleftrightarrow> prefix n s"
proof (induction n arbitrary: s)
  case (Cons a n)
  then show ?case by (cases s) auto
qed simp

lemma prefix_by_take: "prefix n xs \<longleftrightarrow> length n \<le> length xs \<and> n = take (length n) xs"
proof
  assume "length n \<le> length xs \<and> n = take (length n) xs"
  then show "prefix n xs" using take_is_prefix by metis
qed (auto simp: prefix_def)

lemma local_no_nul: "0 \<notin> set dbus_local_interface_str" "0 \<notin> set dbus_local_path_str"
  by (simp_all add: dbus_local_interface_str_def dbus_local_path_str_def ascii_def)

text \<open>A string as it stands in the data of a header.\<close>

definition string_at :: "byte list \<Rightarrow> byte \<Rightarrow> nat \<Rightarrow> byte list \<Rightarrow> bool" where
  "string_at d e q s \<longleftrightarrow> 4 dvd q \<and> length s < 2 ^ 32 \<and>
     found_at d q (octets_of e 4 (word_of_nat (length s) :: 32 word) @ s @ [0])"

lemma string_atD:
  assumes "string_at d e q s"
  shows "dbus_marshal_read_uint32 d q e = Some (word_of_nat (length s), q + 4)" "unat (word_of_nat (length s) :: 32 word) = length s"
    "q + 4 + length s \<le> length d" "take (length s) (drop (q + 4) d) = s" "\<exists>rest. drop (q + 4) d = s @ 0 # rest" "ALIGN_VALUE q 4 = q"
proof -
  have f: "found_at d q (octets_of e 4 (word_of_nat (length s) :: 32 word))" "found_at d (q + 4) (s @ [0])" "4 dvd q" "length s < 2 ^ 32"
    using assms by (simp_all add: string_at_def found_append)
  show q: "ALIGN_VALUE q 4 = q" using f(3) by (simp add: align_self)
  show "dbus_marshal_read_uint32 d q e = Some (word_of_nat (length s), q + 4)"
    using read_uint32_found[of d q e "word_of_nat (length s)"] f(1) q by simp
  show "unat (word_of_nat (length s) :: 32 word) = length s" using f(4) by (rule length_raw_string)
  obtain rest where d: "drop (q + 4) d = (s @ [0]) @ rest" using found_drop[OF f(2)] by blast
  then show "\<exists>rest. drop (q + 4) d = s @ 0 # rest" "take (length s) (drop (q + 4) d) = s" by simp_all
  show "q + 4 + length s \<le> length d" using f(2) by (simp add: found_at_def)
qed

lemma is_local_at:
  assumes "string_at d e q s" "0 \<notin> set n"
  shows "is_local n d (q + 4) = Inr (prefix n s)"
proof -
  note a = string_atD[OF assms(1)]
  obtain rest where d: "drop (q + 4) d = s @ 0 # rest" using a(5) by blast
  have "length n \<le> length d - (q + 4) \<and> n = take (length n) (drop (q + 4) d) \<longleftrightarrow> prefix n (drop (q + 4) d)"
    by (simp add: prefix_by_take)
  also have "\<dots> \<longleftrightarrow> prefix n s" unfolding d by (rule prefix_nul[OF assms(2)])
  finally show ?thesis using a(3) by (simp add: is_local_def dbus_string_equal_substring_def)
qed

definition as_result :: "DBusValidity option \<Rightarrow> unit result" where
  "as_result r = (case r of None \<Rightarrow> Inr () | Some v \<Rightarrow> Inl (Invalid v))"

lemma validate_name_at:
  assumes "string_at (hdr_data h) (hdr_byte_order h) q s" "valid (hdr_data h) (q + 4) (length s) = valid s 0 (length s)"
  shows "validate_name valid bad h q (q + 4) = as_result (name_verdict valid bad s)"
  using string_atD[OF assms(1)] assms(2) by (simp add: validate_name_def name_verdict_def as_result_def)

text \<open>The known fields and their types.\<close>

lemma field_table:
  assumes "f \<le> 8"
  shows "fst (dbus_header_field_types ! f) = f"
    "EXPECTED_TYPE_OF_FIELD f = (if f = 0 then 0 else if f = 1 then DBUS_TYPE_OBJECT_PATH else if f = 5 then DBUS_TYPE_UINT32
      else if f = 8 then DBUS_TYPE_SIGNATURE else DBUS_TYPE_STRING)"
proof -
  have "f = 0 \<or> f = 1 \<or> f = 2 \<or> f = 3 \<or> f = 4 \<or> f = 5 \<or> f = 6 \<or> f = 7 \<or> f = 8" using assms by linarith
  then show "fst (dbus_header_field_types ! f) = f"
    "EXPECTED_TYPE_OF_FIELD f = (if f = 0 then 0 else if f = 1 then DBUS_TYPE_OBJECT_PATH else if f = 5 then DBUS_TYPE_UINT32
      else if f = 8 then DBUS_TYPE_SIGNATURE else DBUS_TYPE_STRING)"
    by (auto simp: EXPECTED_TYPE_OF_FIELD_def dbus_header_field_types_def)
qed

lemma validate_string_field:
  assumes "f \<noteq> 0" "f \<le> 8" "f \<noteq> 5" "f \<noteq> 8 \<Longrightarrow> string_at (hdr_data h) (hdr_byte_order h) q s"
  shows "validate_field h f 0 q (ALIGN_VALUE q 4 + 4) = as_result (field_verdict f (Val (V_str s)))"
proof (cases "f = 8")
  case False
  note a = assms(4)[OF False]
  note names = names_at[OF string_atD(3)[OF a] string_atD(4)[OF a, symmetric]]
  note v = validate_name_at[OF a, of dbus_validate_bus_name, OF names(1)] validate_name_at[OF a, of dbus_validate_interface, OF names(2)]
    validate_name_at[OF a, of dbus_validate_member, OF names(3)] validate_name_at[OF a, of dbus_validate_error_name, OF names(4)]
  note l = is_local_at[OF a local_no_nul(1)] is_local_at[OF a local_no_nul(2)]
  show ?thesis unfolding string_atD(6)[OF a]
    using assms(1-3) v l False by (simp add: validate_field_def field_verdict_def Let_def) (auto simp: as_result_def)
qed (simp add: validate_field_def field_verdict_def as_result_def)

section \<open>One field\<close>

text \<open>
  The header that is being loaded: its data is the beginning of the buffer that is read, its table has
  an entry for every field.
\<close>

definition loading :: "byte list \<Rightarrow> byte \<Rightarrow> nat \<Rightarrow> DBusHeader \<Rightarrow> bool" where
  "loading str e n h \<longleftrightarrow> hdr_data h = take n str \<and> hdr_byte_order h = e \<and> length (hdr_fields h) = 9 \<and> length str \<le> INT_MAX"

lemma found_in_take: "found_at str p bs \<Longrightarrow> p + length bs \<le> n \<Longrightarrow> found_at (take n str) p bs"
  by (auto simp: found_at_def min_def drop_take)

lemma cached_found:
  assumes "f \<le> DBUS_HEADER_FIELD_LAST" "length (hdr_fields h) = 9"
  shows "dbus_header_cache_check fuel (h\<lparr>hdr_fields := (hdr_fields h)[f := int q]\<rparr>) f = Inr (True, h\<lparr>hdr_fields := (hdr_fields h)[f := int q]\<rparr>)"
  using assms by (simp add: dbus_header_cache_check_def)

definition known_field_verdict :: "nat \<Rightarrow> dtype \<Rightarrow> val \<Rightarrow> int list \<Rightarrow> DBusValidity option" where
  "known_field_verdict f t v table =
     (if t \<noteq> Basic (EXPECTED_TYPE_OF_FIELD f) then Some DBUS_INVALID_HEADER_FIELD_HAS_WRONG_TYPE
      else if table ! f \<ge> 0 then Some DBUS_INVALID_HEADER_FIELD_APPEARS_TWICE
      else field_verdict f v)"

lemma field_loaded:
  assumes "loading str e n h" "f \<noteq> 0" "f \<le> DBUS_HEADER_FIELD_LAST" "known_order e"
    and "stands_list str e r [t] [v]" "within 0 0 0 t" "value_pos r = q" "4 dvd q \<or> type_alignment t \<noteq> 4"
    and "q + length (enc e t v q) \<le> n"
  shows "load_and_validate_field fuel h f r =
    (case known_field_verdict f t v (hdr_fields h) of
       Some x \<Rightarrow> Inl (Invalid x) | None \<Rightarrow> Inr (h\<lparr>hdr_fields := (hdr_fields h)[f := int q]\<rparr>))"
proof -
  let ?c = "EXPECTED_TYPE_OF_FIELD f"
  let ?h = "h\<lparr>hdr_fields := (hdr_fields h)[f := int q]\<rparr>"
  note o = stands_list_one[OF assms(5)]
  have k: "klass r \<noteq> array_reader_class" using assms(5) by (simp add: stands_list_def)
  have ty: "dbus_type_reader_get_current_type r = Inr (type_code t)" by (rule stands_current(3)[OF o assms(6) k])
  have f8: "f \<le> 8" using assms(3) by simp
  note tab = field_table[OF f8]
  have c: "?c = DBUS_TYPE_OBJECT_PATH \<or> ?c = DBUS_TYPE_UINT32 \<or> ?c = DBUS_TYPE_SIGNATURE \<or> ?c = DBUS_TYPE_STRING"
    and c5: "?c = DBUS_TYPE_UINT32 \<longleftrightarrow> f = 5" and c8: "?c = DBUS_TYPE_SIGNATURE \<longleftrightarrow> f = 8"
    using tab(2) assms(2) by auto
  have tc: "type_code t = ?c \<longleftrightarrow> t = Basic ?c" using c by (cases t) auto
  have one: "dbus_header_cache_one h f r = ?h" using assms(7) by (simp add: dbus_header_cache_one_def)
  have nth: "(hdr_fields h)[f := int q] ! f = int q" using assms(1) f8 by (simp add: loading_def)
  have chk: "dbus_header_cache_check fuel ?h f = Inr (True, ?h)" using cached_found assms(1,3) by (simp add: loading_def)
  note start = load_and_validate_field_def Let_def tab(1) ty one known_field_verdict_def
  consider "t \<noteq> Basic ?c" | "t = Basic ?c" "hdr_fields h ! f \<ge> 0" | "t = Basic ?c" "hdr_fields h ! f < 0" by linarith
  then show ?thesis
  proof cases
    case 3
    obtain x where v: "v = Val x" "basic_ok ?c x" using o 3(1) by (cases v) (auto simp: stands_at_def)
    have fit: "fits_basic ?c x" using v(2) by (simp add: basic_ok_def)
    have al: "ALIGN_VALUE q (dbus_type_get_alignment ?c) = q"
      using assms(8) 3(1) c by (auto simp: dbus_type_get_alignment_def align_self)
    have enc: "enc e t v q = raw_basic e ?c x" using 3(1) v(1) al by (simp add: encode_basic_def padding_def)
    have found: "found_at (hdr_data h) q (raw_basic e ?c x)"
      using found_in_take[of str q "raw_basic e ?c x" n] o assms(1,7,9) enc by (auto simp: stands_at_def loading_def)
    have small: "length (hdr_data h) \<le> INT_MAX" using assms(1) unfolding loading_def by (metis length_take min.coboundedI1)
    show ?thesis
    proof (cases "f = 5")
      case True
      then obtain w where x: "x = V_u32 w" using fit c5 by (cases x) (auto simp: fits_basic_def member_of_def)
      have "dbus_marshal_read_basic (hdr_data h) q ?c e = Some (x, q + length (raw_basic e ?c x))"
        using read_basic_found[OF fit _ small, of q e] found al by simp
      then have "dbus_header_get_field_basic fuel ?h f ?c = Inr (Some (V_u32 w), ?h)"
        using chk nth tab(1) assms(1,2,3) x by (simp add: dbus_header_get_field_basic_def loading_def)
      then show ?thesis unfolding start using 3 True assms(2,3) c5 tc v(1) x
        by (simp add: validate_field_def field_verdict_def)
    next
      case False
      then obtain s where x: "x = V_str s" using fit c c5 by (cases x) (auto simp: fits_basic_def member_of_def)
      have "string_at (hdr_data ?h) (hdr_byte_order ?h) q s" if "f \<noteq> 8"
      proof -
        have "?c \<noteq> DBUS_TYPE_SIGNATURE" using c8 that by simp
        moreover have "4 dvd q" using assms(8) 3(1) c c8 c5 that False by (auto simp: dbus_type_get_alignment_def)
        ultimately show ?thesis using found fit x assms(1) by (simp add: string_at_def loading_def raw_basic_def fits_basic_def)
      qed
      from validate_string_field[OF assms(2) f8 False this]
      have val: "validate_field ?h f 0 q (ALIGN_VALUE q 4 + 4) = as_result (field_verdict f (Val (V_str s)))" by simp
      have raw: "dbus_header_get_field_raw fuel ?h f = Inr (Some (int q), ?h)"
        using chk nth by (simp add: dbus_header_get_field_raw_def)
      have "?c = DBUS_TYPE_STRING \<or> ?c = DBUS_TYPE_OBJECT_PATH \<or> ?c = DBUS_TYPE_SIGNATURE" "?c \<noteq> DBUS_TYPE_UINT32"
        using c c5 False by auto
      then show ?thesis unfolding start using 3 assms(2,3) tc v(1) x val raw
        by (simp add: as_result_def split: option.split)
    qed
  qed (use assms(2,3) tc in \<open>simp_all add: start\<close>)
qed

section \<open>The loop over the fields\<close>

lemma header_valueD:
  assumes "header_value fuel t p r = Inr (x, r')"
  shows "dbus_type_reader_get_current_type r = Inr t" "dbus_type_reader_read_basic r = Inr x"
    "\<exists>b. dbus_type_reader_next fuel r = Inr (b, r')"
  using assms by (auto simp: header_value_def require_def split: if_splits)

definition field_step :: "nat \<Rightarrow> DBusHeader \<Rightarrow> field \<Rightarrow> nat \<Rightarrow> DBusHeader result" where
  "field_step fuel h fld q = (case fld of (c, t, v) \<Rightarrow>
     if unat c = DBUS_HEADER_FIELD_INVALID then Inl (Invalid DBUS_INVALID_HEADER_FIELD_CODE)
     else if unat c > DBUS_HEADER_FIELD_LAST then Inr h
     else case known_field_verdict (unat c) t v (hdr_fields h) of
         Some x \<Rightarrow> Inl (Invalid x) | None \<Rightarrow> Inr (h\<lparr>hdr_fields := (hdr_fields h)[unat c := int q]\<rparr>))"

lemma take_fields_step:
  "take_fields ((fld, q) # fs) (hdr_fields h) =
     (case field_step fuel h fld q of Inl (Invalid v) \<Rightarrow> Inl v | Inr h' \<Rightarrow> take_fields fs (hdr_fields h') | Inl _ \<Rightarrow> undefined)"
  by (cases fld) (auto simp: field_step_def known_field_verdict_def Let_def split: option.split)

lemma field_read:
  assumes "stands_at str e r field_type (field_value fld)" "known_order e" "loading str e n h"
    and "value_end e field_type (field_value fld) r \<le> n" "10 < fuel" "[q] = places e [fld] (value_pos r)"
  obtains sub sub' b where "field_code_of r = Inr (sub, unat (fst fld))" "dbus_type_reader_next fuel sub = Inr (b, sub')"
    "(if unat (fst fld) = DBUS_HEADER_FIELD_INVALID then Inl (Invalid DBUS_INVALID_HEADER_FIELD_CODE)
      else if unat (fst fld) > DBUS_HEADER_FIELD_LAST then Inr h
      else and_then (variant_of sub') (load_and_validate_field fuel h (unat (fst fld)))) = field_step fuel h fld q"
proof -
  obtain c t v where fld: "fld = (c, t, v)" by (cases fld)
  let ?p = "ALIGN_VALUE (value_pos r) 8"
  have i: "length str \<le> INT_MAX" using assms(3) by (simp add: loading_def)
  have w: "withins 0 0 [Variant]" by simp
  obtain sub where sub: "dbus_type_reader_recurse r = Inr sub"
    "stands_list str e sub [Basic DBUS_TYPE_BYTE, Variant] [Val (V_byt c), Var t v]" "value_pos sub = ?p"
    using descend_struct[of str e r "[Basic DBUS_TYPE_BYTE, Variant]" "[Val (V_byt c), Var t v]"] assms(1)[unfolded fld field_type_def]
    by auto
  obtain sub' where sub': "header_value fuel DBUS_TYPE_BYTE ?p sub = Inr (V_byt c, sub')"
    "stands_list str e sub' [Variant] [Var t v]" "value_pos sub' = ?p + 1"
    using value_steps(1)[OF assms(2) i assms(5) w sub(2,3)] by blast
  note b = header_valueD[OF sub'(1)]
  have code: "field_code_of r = Inr (sub, unat c)" using sub(1) b(1,2) by (simp add: field_code_of_def)
  note o = stands_list_one[OF sub'(2)]
  have k: "klass sub' \<noteq> array_reader_class" using sub'(2) by (simp add: stands_list_def)
  let ?vr = "contents_reader str e (value_pos sub') t"
  have vof: "variant_of sub' = Inr ?vr"
    using stands_current(3)[OF o _ k, of 0 0 0] variant_recurse(1)[OF o] by (simp add: variant_of_def)
  obtain t' v' x where d: "Var t v = Var t' v'" "within 0 0 0 t'" "dbus_type_reader_recurse sub' = Inr x" "stands_list str e x [t'] [v']"
    "value_pos x + length (enc_seq e [t'] [v'] (value_pos x)) = value_end e Variant (Var t v) sub'"
    using descend_variant[OF o] by metis
  then have s: "stands_list str e ?vr [t] [v]" and wt: "within 0 0 0 t"
    and fin: "value_pos ?vr + length (enc e t v (value_pos ?vr)) = value_end e Variant (Var t v) sub'"
    using variant_recurse(1)[OF o] by simp_all
  have q: "value_pos ?vr = q" using assms(6) fld sub'(3) by simp
  have "value_end e Variant (Var t v) sub' = value_end e field_type (field_value fld) r"
    using sub'(3) after_padding[of 8 "value_pos r"] fixed_sizes(1)[of e c ?p]
    by (simp add: value_end_def fld field_type_def Let_def)
  then have room: "q + length (enc e t v q) \<le> n" using fin assms(4) q by simp
  have dvd: "4 dvd q \<or> type_alignment t \<noteq> 4" using q align_facts(3)[of 4] by auto
  have "and_then (variant_of sub') (load_and_validate_field fuel h (unat c)) = field_step fuel h fld q"
    if "unat c \<noteq> 0" "\<not> unat c > DBUS_HEADER_FIELD_LAST"
    unfolding vof using field_loaded[OF assms(3) that(1) _ assms(2) s wt q dvd room, of fuel] that
    by (simp add: field_step_def fld)
  then show ?thesis using that code b(3) by (auto simp: fld field_step_def)
qed


lemma field_step_loading:
  "field_step fuel h fld q = Inr h' \<Longrightarrow> loading str e n h \<Longrightarrow>
     loading str e n h' \<and> (\<exists>table. h' = h\<lparr>hdr_fields := table\<rparr>)"
  by (auto simp: field_step_def loading_def split: prod.splits if_splits option.splits intro: exI[of _ "hdr_fields h"])

lemma field_step_halts: "field_step fuel h fld q = Inl x \<Longrightarrow> \<exists>v. x = Invalid v"
  by (auto simp: field_step_def split: prod.splits if_splits option.splits)

definition as_header :: "DBusHeader \<Rightarrow> DBusValidity + int list \<Rightarrow> DBusHeader result" where
  "as_header h x = (case x of Inl v \<Rightarrow> Inl (Invalid v) | Inr table \<Rightarrow> Inr (h\<lparr>hdr_fields := table\<rparr>))"

lemma fields_loaded:
  assumes "known_order e"
  shows "in_array str e m r \<Longrightarrow> fs \<noteq> [] \<longrightarrow> (\<exists>rest. drop (type_pos r) (type_str r) = sig_of field_type @ rest) \<Longrightarrow>
    fits_all e field_type (map field_value fs) (value_pos r) \<Longrightarrow>
    found_at str (value_pos r) (enc_all e field_type (map field_value fs) (value_pos r)) \<Longrightarrow>
    value_pos r + length (enc_all e field_type (map field_value fs) (value_pos r)) = start_pos r + m \<Longrightarrow>
    start_pos r + m \<le> n \<Longrightarrow> loading str e n h \<Longrightarrow>
    2 * (length (sig_of field_type) + length (enc_all e field_type (map field_value fs) (value_pos r))) + 12 < fuel \<Longrightarrow>
    load_fields_loop fuel h r = as_header h (take_fields (zip fs (places e fs (value_pos r))) (hdr_fields h))"
proof (induction fs arbitrary: r h fuel)
  case Nil
  obtain f where f: "fuel = Suc f" using Nil.prems(8) by (cases fuel) auto
  have "value_pos r = start_pos r + m" using Nil.prems(5) by simp
  then have "dbus_type_reader_get_current_type r = Inr 0" using array_current[OF Nil.prems(1)] by simp
  then show ?case by (simp add: f as_header_def)
next
  case (Cons fld fs)
  let ?t = field_type and ?v = "field_value fld"
  let ?p = "value_pos r"
  let ?q = "value_end e ?t ?v r"
  have w: "within 0 0 0 ?t" by (simp add: field_type_def basic_cases)
  have o: "stands_at str e r ?t ?v"
    using Cons.prems(1-4) by (auto simp: stands_at_def in_array_def Let_def found_append)
  have size: "length (enc_all e ?t (map field_value (fld # fs)) ?p) = length (enc e ?t ?v ?p) + length (enc_all e ?t (map field_value fs) ?q)"
    by (simp add: Let_def value_end_def)
  have pos: "0 < length (enc e ?t ?v ?p)" using enc_not_Nil[OF w] o by (auto simp: stands_at_def)
  have q: "?q + length (enc_all e ?t (map field_value fs) ?q) = start_pos r + m" "?q = ?p + length (enc e ?t ?v ?p)"
    using Cons.prems(5) unfolding size value_end_def by simp_all
  obtain g where F: "fuel = Suc (Suc g)" and g: "2 * (extent e ?t ?v ?p + length (enc_all e ?t (map field_value fs) ?q)) + 10 < g"
    using Cons.prems(8) unfolding size by (cases fuel; cases "fuel - 1") auto
  have g': "2 * (length (sig_of ?t) + length (enc_all e ?t (map field_value fs) ?q)) + 11 < g" using g Suc_leI[OF pos] by arith
  have i: "length str \<le> INT_MAX" using Cons.prems(7) by (simp add: loading_def)
  have b: "base_reader_next (skip_all g) r (type_code ?t) = Inr (stepped e ?t ?v r)"
    using g by (intro base_step[OF assms i w o]) simp
  note c = stands_current[OF o w]
  have lt: "?p < start_pos r + m" "?p \<le> ?q" "?q \<le> start_pos r + m" using q pos by linarith+
  from array_step[OF Cons.prems(1) lt(1) c(1,2) b lt(2,3)] c(4)
  obtain r' where r': "dbus_type_reader_next (Suc g) r = Inr (?q < start_pos r + m, r')" "in_array str e m r'"
    "value_pos r' = ?q" "start_pos r' = start_pos r" "type_str r' = type_str r" "?q < start_pos r + m \<Longrightarrow> type_pos r' = type_pos r"
    by blast
  have more: "?q < start_pos r + m \<longleftrightarrow> fs \<noteq> []"
  proof (cases fs)
    case (Cons u us)
    then have "fits e ?t (field_value u) ?q" using Cons.prems(3) by (simp add: value_end_def)
    then have "0 < length (enc e ?t (field_value u) ?q)" using enc_not_Nil[OF w] by auto
    then show ?thesis using q(1) Cons by (simp add: Let_def del: length_greater_0_conv)
  qed (use q(1) in simp)
  have cur: "dbus_type_reader_get_current_type r = Inr DBUS_TYPE_STRUCT"
    using array_current[OF Cons.prems(1)] lt(1) c(1) by (simp add: field_type_def)
  obtain pl where pl: "[pl] = places e [fld] ?p" "places e (fld # fs) ?p = pl # places e fs ?q"
    by (cases fld) (auto simp: value_end_def)
  have "?q \<le> n" "10 < Suc g" using lt(3) Cons.prems(6) g by simp_all
  then obtain sub sub' bb where s: "field_code_of r = Inr (sub, unat (fst fld))" "dbus_type_reader_next (Suc g) sub = Inr (bb, sub')"
    "(if unat (fst fld) = DBUS_HEADER_FIELD_INVALID then Inl (Invalid DBUS_INVALID_HEADER_FIELD_CODE)
      else if unat (fst fld) > DBUS_HEADER_FIELD_LAST then Inr h
      else and_then (variant_of sub') (load_and_validate_field (Suc g) h (unat (fst fld)))) = field_step (Suc g) h fld pl"
    using field_read[OF o assms Cons.prems(7) _ _ pl(1)] by metis
  have loop: "load_fields_loop fuel h r = and_then (field_step (Suc g) h fld pl) (\<lambda>h. load_fields_loop (Suc g) h r')"
    unfolding F using cur s(1,2) r'(1) by (simp add: s(3)[symmetric] if_distrib[of "\<lambda>x. and_then x _"])
  show ?case
  proof (cases "field_step (Suc g) h fld pl")
    case (Inl x)
    then show ?thesis unfolding loop pl(2) zip_Cons_Cons take_fields_step[of fld pl _ h "Suc g"]
      using field_step_halts by (fastforce simp: as_header_def)
  next
    case (Inr h')
    then obtain table where h': "loading str e n h'" "h' = h\<lparr>hdr_fields := table\<rparr>"
      using field_step_loading Cons.prems(7) by blast
    have "load_fields_loop (Suc g) h' r' = as_header h' (take_fields (zip fs (places e fs (value_pos r'))) (hdr_fields h'))"
      using r' more q(1) Cons.prems(2,3,4,6) g' h'(1)
      by (intro Cons.IH) (auto simp: value_end_def Let_def found_append)
    then show ?thesis unfolding loop pl(2) zip_Cons_Cons take_fields_step[of fld pl _ h "Suc g"]
      using Inr r'(3) h'(2) by (simp add: as_header_def del: load_fields_loop.simps split: sum.split)
  qed
qed

end
