(* ===== verification/HeaderExact.thy ===== *)
theory HeaderExact
  imports HeaderFields BodyEmbed
begin

text \<open>
  Loading a header is the reference: the verdict, and for a good header the positions of its fields.
  What the getters return afterwards, and that memory does not change a verdict.
\<close>

section \<open>The layout of a header\<close>

definition fields_bytes :: "header_content \<Rightarrow> byte list" where
  "fields_bytes h = enc_all (hc_order h) field_type (map field_value (hc_fields h)) 16"

definition header_size :: "header_content \<Rightarrow> nat" where
  "header_size h = ALIGN_VALUE (16 + length (fields_bytes h)) 8"

lemma header_layout:
  "header_bytes h = [hc_order h, hc_type h, hc_flags h, hc_version h] @ octets_of (hc_order h) 4 (hc_body_len h) @
     octets_of (hc_order h) 4 (hc_serial h) @ octets_of (hc_order h) 4 (word_of_nat (length (fields_bytes h)) :: 32 word) @ fields_bytes h"
  by (simp add: header_bytes_def header_types_def header_vals_def fields_bytes_def Let_def encode_basic_def raw_basic_def padding_def
      ALIGN_VALUE_def dbus_type_get_alignment_def frame_def array_start_def field_type_def)

lemma header_bytes_length: "length (header_bytes h) = 16 + length (fields_bytes h)"
  by (simp add: header_layout)

lemma fields_small: "header_fits h \<Longrightarrow> length (fields_bytes h) \<le> DBUS_MAXIMUM_ARRAY_LENGTH"
  by (simp add: header_fits_def header_types_def header_vals_def fields_bytes_def Let_def encode_basic_def raw_basic_def padding_def
      ALIGN_VALUE_def dbus_type_get_alignment_def array_start_def field_type_def)

lemma header_claims:
  assumes "header_fits h"
  shows "claims (header_bytes h @ rest) =
    \<lparr>claimed_byte_order = hc_order h, claimed_fields_array_len = length (fields_bytes h), claimed_header_len = header_size h,
     claimed_body_len = unat (hc_body_len h)\<rparr>"
proof -
  have f: "unat (word_of_nat (length (fields_bytes h)) :: 32 word) = length (fields_bytes h)"
    using fields_small[OF assms] by (rule array_length_word)
  have "u32_at (header_bytes h @ rest) 12 (hc_order h) = length (fields_bytes h)"
    "u32_at (header_bytes h @ rest) 4 (hc_order h) = unat (hc_body_len h)"
    by (simp_all add: u32_at_def header_layout unpack_word word_of_octets f)
  moreover have "hd (header_bytes h @ rest) = hc_order h" by (simp add: header_layout)
  ultimately show ?thesis by (simp add: claims_def header_size_def)
qed

section \<open>The mandatory fields\<close>

lemma mandatory_checked:
  assumes "dbus_string_get_byte (hdr_data h) TYPE_OFFSET = Some type" "type \<noteq> DBUS_MESSAGE_TYPE_INVALID"
  shows "check_mandatory_fields h = as_result (missing type (hdr_fields h))"
  using assms
  by (auto simp: check_mandatory_fields_def dbus_header_get_message_type_def missing_def mandatory_def require_field_def as_result_def)

section \<open>The verdict\<close>

lemma table_kept: "take_fields fs table = Inr table' \<Longrightarrow> length table' = length table"
  by (induction fs table rule: take_fields.induct) (auto simp: Let_def split: if_splits option.splits)

lemma loaded_header:
  assumes "header_fits h" "length pad = header_size h - (16 + length (fields_bytes h))" "d = header_bytes h @ pad @ rest"
    and "length d \<le> STRING_MAX_MAX_LENGTH" "513 * (length d + 1) \<le> fuel" "hdr_data hdr = []" "hdr_fields hdr = no_fields"
  shows "dbus_header_load fuel hdr False (claims d) d 0 (length d) True (\<lambda>_. []) =
    as_header (hdr\<lparr>hdr_data := header_bytes h @ pad, hdr_padding := length pad, hdr_byte_order := hc_order h\<rparr>) (header_verdict h pad)"
proof -
  let ?e = "hc_order h" and ?els = "fields_bytes h"
  let ?n = "header_size h"
  let ?fixed = "16 + length ?els"
  let ?h = "hdr\<lparr>hdr_data := header_bytes h @ pad, hdr_padding := length pad, hdr_byte_order := ?e\<rparr>"
  have e: "known_order ?e" and fits: "fits_seq ?e header_types (header_vals h) 0" using assms(1) by (simp_all add: header_fits_def)
  note c = header_claims[OF assms(1), of "pad @ rest", folded assms(3)]
  have n: "?fixed \<le> ?n" using align_facts(1)[of 8 ?fixed] by (simp add: header_size_def)
  have sz: "?n = ?fixed + length pad" using n assms(2) by simp
  have len: "length d = ?n + length rest" "length (header_bytes h @ pad) = ?n" using n assms(2,3) by (simp_all add: header_bytes_length)
  have i: "length d \<le> INT_MAX" using assms(4) by simp
  have data: "const_data_len d 0 ?n = Some (header_bytes h @ pad)"
    using found_const[of d 0 "header_bytes h @ pad"] len(2) by (simp add: assms(3) found_at_def)
  have body: "dbus_validate_body_with_reason fuel dbus_header_signature_str 0 ?e True d 0 (length d) (\<lambda>_. []) = Inr (length pad + length rest)"
    using body_complete[of header_types ?e "header_vals h" "[]" "header_bytes h" "pad @ rest" "length pad + length rest" fuel True]
      fits assms(3-5) header_types_within
    by (simp add: header_signature header_bytes_def[symmetric] dbus_header_signature_str_def ascii_def)
  have pad: "dbus_string_validate_nul d ?fixed (?n - ?fixed) = Some (list_all (\<lambda>b. b = 0) pad)"
    using len(1) by (simp add: dbus_string_validate_nul_def assms(3) header_bytes_length sz)
  have found: "found_at d 0 (header_bytes h)" by (simp add: assms(3) found_at_def)
  have fuel: "10 < fuel" "2 * (length (sig_of field_type) + length ?els) + 12 < fuel"
    using assms(5) by (simp_all add: assms(3) header_bytes_length field_type_def)
  obtain r where r: "load_fixed_values fuel ?e (unat (hc_body_len h)) (dbus_type_reader_init ?e dbus_header_signature_str 0 d 0) =
      (if hc_type h = DBUS_MESSAGE_TYPE_INVALID then Inl (Invalid DBUS_INVALID_BAD_MESSAGE_TYPE)
       else if hc_version h \<noteq> DBUS_MAJOR_PROTOCOL_VERSION then Inl (Invalid DBUS_INVALID_BAD_PROTOCOL_VERSION)
       else if hc_serial h = 0 then Inl (Invalid DBUS_INVALID_BAD_SERIAL)
       else dbus_type_reader_recurse r)"
    "stands_list d ?e r [Array field_type] [Arr (map field_value (hc_fields h))]" "value_pos r = 12"
    using fixed_values_read[OF assms(1) found i fuel(1)] .
  have w: "within 0 0 0 (Array field_type)" using header_types_within by (simp add: header_types_def)
  note o = stands_list_one[OF r(2)]
  have x: "array_start (element_alignment (Array field_type)) (value_pos r) = 16"
    by (simp add: r(3) array_start_def ALIGN_VALUE_def field_type_def dbus_type_get_alignment_def)
  have els: "elements ?e (Array field_type) (Arr (map field_value (hc_fields h))) 16 = ?els" by (simp add: fields_bytes_def)
  obtain sub where sub: "dbus_type_reader_recurse r = Inr sub" "in_array d ?e (length ?els) sub" "start_pos sub = 16" "value_pos sub = 16"
    "type_str sub = type_str r" "type_pos sub = type_pos r + 1"
    using descend_array[OF o _ w] unfolding x els by auto
  note found_els = array_found(7,10)[OF o _ w, unfolded x els]
  obtain srest where "drop (type_pos r) (type_str r) = DBUS_TYPE_ARRAY # sig_of field_type @ srest" using o by (auto simp: stands_at_def)
  then have sig: "drop (type_pos sub) (type_str sub) = sig_of field_type @ srest"
    using drop_more[of "type_pos r" "type_str r" "[DBUS_TYPE_ARRAY]"] sub(5,6) by simp
  have l: "loading d ?e ?n ?h" using assms(7) i len(1) n by (simp add: loading_def no_fields_def assms(3) header_bytes_length)
  have loop: "load_fields_loop fuel ?h sub = as_header ?h (take_fields (zip (hc_fields h) (places ?e (hc_fields h) 16)) no_fields)"
    using fields_loaded[OF e sub(2), of "hc_fields h" ?n ?h fuel] sig found_els fuel(2) l sub(3,4) assms(7) n
    by (simp add: fields_bytes_def[symmetric])
  have type: "dbus_string_get_byte (header_bytes h @ pad) TYPE_OFFSET = Some (hc_type h)"
    by (simp add: dbus_string_get_byte_def str_byte_def header_layout)
  have mark: "mark_nonexistent (?h\<lparr>hdr_fields := table\<rparr>) = ?h\<lparr>hdr_fields := settled table\<rparr>" for table
    by (simp add: mark_nonexistent_def settled_def)
  have check: "check_mandatory_fields (?h\<lparr>hdr_fields := settled table\<rparr>) = as_result (missing (hc_type h) (settled table))"
    if "hc_type h \<noteq> 0" for table
    using that type by (subst mandatory_checked) simp_all
  have al: "ALIGN_VALUE ?fixed 8 = ?n" by (simp add: header_size_def)
  have step: "dbus_header_load fuel hdr False (claims d) d 0 (length d) True (\<lambda>_. []) =
     (if \<not> list_all (\<lambda>b. b = 0) pad then Inl (Invalid DBUS_INVALID_ALIGNMENT_PADDING_NOT_NUL)
      else and_then (load_fixed_values fuel ?e (unat (hc_body_len h)) (dbus_type_reader_init ?e dbus_header_signature_str 0 d 0)) (\<lambda>r.
        and_then (load_fields_loop fuel ?h r) (\<lambda>header.
        and_then (check_mandatory_fields (mark_nonexistent header)) (\<lambda>_. Inr (mark_nonexistent header)))))"
    using data body pad al sz len(1) assms(6) by (simp add: dbus_header_load_def c Let_def ALIGN_VALUE_def[of 0])
  show ?thesis unfolding step r(1) header_verdict_def
    using check by (auto simp: sub(1) loop as_header_def mark as_result_def split: sum.split option.split)
qed

section \<open>The fields can be got\<close>

text \<open>The value of a field, as the getters return it.\<close>

fun field_in :: "nat \<Rightarrow> field list \<Rightarrow> DBusBasicValue option" where
  "field_in f [] = None"
| "field_in f ((c, t, v) # fs) = (if unat c = f then (case v of Val x \<Rightarrow> Some x | _ \<Rightarrow> None) else field_in f fs)"

text \<open>What the table says of a field: its value is where the table says, or it is as it was.\<close>

definition placed :: "byte list \<Rightarrow> byte \<Rightarrow> int list \<Rightarrow> int list \<Rightarrow> nat \<Rightarrow> DBusBasicValue option \<Rightarrow> bool" where
  "placed d e table table' f x =
     (case x of None \<Rightarrow> table' ! f = table ! f
      | Some x \<Rightarrow> table ! f < 0 \<and> (\<exists>q. table' ! f = int q \<and> ALIGN_VALUE q (dbus_type_get_alignment (EXPECTED_TYPE_OF_FIELD f)) = q \<and>
          basic_ok (EXPECTED_TYPE_OF_FIELD f) x \<and> found_at d q (raw_basic e (EXPECTED_TYPE_OF_FIELD f) x)))"

lemma place_found:
  assumes "found_at d p (enc e field_type (field_value (c, t, v)) p)" "fits e field_type (field_value (c, t, v)) p" "[q] = places e [(c, t, v)] p"
  shows "found_at d q (enc e t v q)" "fits e t v q" "ALIGN_VALUE q (type_alignment t) = q"
proof -
  let ?h = "variant_header t"
  let ?n = "ALIGN_VALUE p 8 + 1 + length ?h"
  have q: "q = ALIGN_VALUE ?n (type_alignment t)" using assms(3) by simp
  have f: "within 0 0 0 t" "fits e t v ?n" using assms(2) by (simp_all add: field_type_def fixed_sizes)
  have a: "0 < type_alignment t" by (rule type_alignment_pos[OF f(1)])
  have "found_at d ?n (enc e t v ?n)"
    using assms(1) after_padding[of 8 p] by (simp add: field_type_def Let_def found_append fixed_sizes)
  then show "found_at d q (enc e t v q)"
    using enc_pad(2)[OF f(1) refl f(2)] after_padding[OF a, of ?n] by (simp add: found_append q)
  show "fits e t v q" using enc_pad(1)[OF f(1) refl, of e v ?n] f(2) q by simp
  show "ALIGN_VALUE q (type_alignment t) = q" using align_facts(3)[OF a, of ?n] a by (simp add: q align_self)
qed

lemma basic_found:
  assumes "found_at d q (enc e (Basic c) v q)" "fits e (Basic c) v q" "ALIGN_VALUE q (dbus_type_get_alignment c) = q"
  shows "\<exists>x. v = Val x \<and> basic_ok c x \<and> found_at d q (raw_basic e c x)"
  using assms by (cases v) (auto simp: encode_basic_def padding_def)

lemma fields_placed:
  "take_fields (zip fs (places e fs p)) table = Inr table' \<Longrightarrow> fits_all e field_type (map field_value fs) p \<Longrightarrow>
   found_at d p (enc_all e field_type (map field_value fs) p) \<Longrightarrow> length table = 9 \<Longrightarrow> f \<noteq> 0 \<Longrightarrow> f \<le> 8 \<Longrightarrow>
   placed d e table table' f (field_in f fs)"
proof (induction fs arbitrary: p table)
  case (Cons fld fs)
  obtain c t v where fld: "fld = (c, t, v)" by (cases fld)
  let ?q = "p + length (enc e field_type (field_value fld) p)"
  obtain q where q: "[q] = places e [fld] p" "places e (fld # fs) p = q # places e fs ?q" by (simp add: fld)
  have here: "found_at d p (enc e field_type (field_value fld) p)" "fits e field_type (field_value fld) p"
    and rest: "fits_all e field_type (map field_value fs) ?q" "found_at d ?q (enc_all e field_type (map field_value fs) ?q)"
    using Cons.prems(2,3) by (simp_all add: Let_def found_append)
  note there = place_found[OF here[unfolded fld] q(1)[unfolded fld]]
  show ?case
  proof (cases "unat c > DBUS_HEADER_FIELD_LAST")
    case True
    then have "placed d e table table' f (field_in f fs)"
      using Cons.prems(1) by (intro Cons.IH[OF _ rest Cons.prems(4-6)]) (simp add: q(2) fld Let_def)
    moreover have "unat c \<noteq> f" using True Cons.prems(6) by simp
    ultimately show ?thesis by (simp add: fld)
  next
    case False
    have c: "t = Basic (EXPECTED_TYPE_OF_FIELD (unat c))" "table ! unat c < 0" "unat c \<noteq> 0"
      "take_fields (zip fs (places e fs ?q)) (table[unat c := int q]) = Inr table'"
      using Cons.prems(1)[unfolded q(2) zip_Cons_Cons, unfolded fld take_fields.simps Let_def] False
      by (simp_all add: fld split: if_splits option.splits)
    note IH = Cons.IH[OF c(4) rest]
    obtain x where x: "v = Val x" "basic_ok (EXPECTED_TYPE_OF_FIELD (unat c)) x" "found_at d q (raw_basic e (EXPECTED_TYPE_OF_FIELD (unat c)) x)"
      using basic_found there c(1) by (metis type_code.simps(1))
    show ?thesis
    proof (cases "unat c = f")
      case True
      have n: "field_in f fs = None \<and> table' ! f = int q"
        using IH Cons.prems(4-6) True by (auto simp: placed_def split: option.splits)
      then show ?thesis using x c(1,2) there(3) True by (auto simp: fld placed_def)
    next
      case False
      then show ?thesis using IH Cons.prems(4-6) by (auto simp: fld placed_def split: option.splits)
    qed
  qed
qed (simp add: placed_def)

lemma field_got:
  assumes "placed (hdr_data h) (hdr_byte_order h) table table' f x" "f \<noteq> 0" "f \<le> 8" "table ! f = - 1" "length table' = 9"
    and "hdr_fields h = settled table'" "length (hdr_data h) \<le> INT_MAX"
  shows "dbus_header_get_field_basic fuel h f (EXPECTED_TYPE_OF_FIELD f) = Inr (x, h)"
    "dbus_header_get_field_raw fuel h f = Inr (map_option (\<lambda>_. table' ! f) x, h)"
proof -
  have n: "settled table' ! f = (if table' ! f = - 1 then - 2 else table' ! f)" using assms(3,5) by (simp add: settled_def)
  have chk: "dbus_header_cache_check fuel h f = Inr (x \<noteq> None, h)"
    using assms(1,3,4) n by (cases x) (auto simp: dbus_header_cache_check_def assms(6) placed_def)
  then show "dbus_header_get_field_raw fuel h f = Inr (map_option (\<lambda>_. table' ! f) x, h)"
    using assms(1,6) n by (cases x) (auto simp: dbus_header_get_field_raw_def placed_def)
  have req: "require (f \<noteq> DBUS_HEADER_FIELD_INVALID \<and> f \<le> DBUS_HEADER_FIELD_LAST \<and> fst (dbus_header_field_types ! f) = f \<and>
      EXPECTED_TYPE_OF_FIELD f = EXPECTED_TYPE_OF_FIELD f) = Inr ()"
    using assms(2,3) field_table(1)[OF assms(3)] by simp
  show "dbus_header_get_field_basic fuel h f (EXPECTED_TYPE_OF_FIELD f) = Inr (x, h)"
  proof (cases x)
    case (Some y)
    then obtain q where q: "table' ! f = int q" "ALIGN_VALUE q (dbus_type_get_alignment (EXPECTED_TYPE_OF_FIELD f)) = q"
      "basic_ok (EXPECTED_TYPE_OF_FIELD f) y" "found_at (hdr_data h) q (raw_basic (hdr_byte_order h) (EXPECTED_TYPE_OF_FIELD f) y)"
      using assms(1) by (auto simp: placed_def)
    have "fits_basic (EXPECTED_TYPE_OF_FIELD f) y" using q(3) by (simp add: basic_ok_def)
    from read_basic_found[OF this, of "hdr_data h" q "hdr_byte_order h"]
    have "\<exists>z. dbus_marshal_read_basic (hdr_data h) q (EXPECTED_TYPE_OF_FIELD f) (hdr_byte_order h) = Some (y, z)"
      using q(2,4) assms(7) by simp
    then show ?thesis unfolding dbus_header_get_field_basic_def req using chk Some q(1) n by (auto simp: assms(6))
  qed (use req chk in \<open>simp add: dbus_header_get_field_basic_def\<close>)
qed

text \<open>A header that was loaded: its data and the positions of its fields.\<close>

definition loaded_as :: "DBusHeader \<Rightarrow> header_content \<Rightarrow> byte list \<Rightarrow> int list \<Rightarrow> DBusHeader" where
  "loaded_as hdr h pad table =
     hdr\<lparr>hdr_data := header_bytes h @ pad, hdr_fields := table, hdr_padding := length pad, hdr_byte_order := hc_order h\<rparr>"

lemma loaded_as_fields [simp]:
  "hdr_data (loaded_as hdr h pad table) = header_bytes h @ pad" "hdr_fields (loaded_as hdr h pad table) = table"
  "hdr_byte_order (loaded_as hdr h pad table) = hc_order h" "hdr_padding (loaded_as hdr h pad table) = length pad"
  by (simp_all add: loaded_as_def)

lemma verdict_table:
  assumes "header_verdict h pad = Inr table"
  obtains table' where "take_fields (zip (hc_fields h) (places (hc_order h) (hc_fields h) 16)) no_fields = Inr table'"
    "table = settled table'" "missing (hc_type h) table = None" "length table' = 9"
  using assms table_kept by (fastforce simp: header_verdict_def no_fields_def split: if_splits sum.splits option.splits)

lemma loaded_fields:
  assumes "header_fits h" "header_verdict h pad = Inr table" "length (header_bytes h @ pad) \<le> INT_MAX" "f \<noteq> 0" "f \<le> 8"
  shows "dbus_header_get_field_basic fuel (loaded_as hdr h pad table) f (EXPECTED_TYPE_OF_FIELD f) =
      Inr (field_in f (hc_fields h), loaded_as hdr h pad table)"
    "\<exists>table'. placed (header_bytes h @ pad) (hc_order h) no_fields table' f (field_in f (hc_fields h)) \<and>
       dbus_header_get_field_raw fuel (loaded_as hdr h pad table) f =
         Inr (map_option (\<lambda>_. table' ! f) (field_in f (hc_fields h)), loaded_as hdr h pad table)"
proof -
  let ?d = "header_bytes h @ pad" and ?e = "hc_order h" and ?h = "loaded_as hdr h pad table"
  obtain table' where t: "take_fields (zip (hc_fields h) (places ?e (hc_fields h) 16)) no_fields = Inr table'"
    "table = settled table'" "length table' = 9"
    by (rule verdict_table[OF assms(2)])
  have fits: "fits_all ?e field_type (map field_value (hc_fields h)) 16"
    using assms(1) by (simp add: header_fits_def header_types_def header_vals_def Let_def encode_basic_def raw_basic_def padding_def
      ALIGN_VALUE_def dbus_type_get_alignment_def array_start_def field_type_def)
  have found: "found_at ?d 16 (enc_all ?e field_type (map field_value (hc_fields h)) 16)"
    by (simp add: found_at_def header_layout fields_bytes_def)
  have "length no_fields = 9" "no_fields ! f = - 1" using assms(5) by (simp_all add: no_fields_def)
  note pl = fields_placed[OF t(1) fits found this(1) assms(4,5)] and unset = this(2)
  have h: "placed (hdr_data ?h) (hdr_byte_order ?h) no_fields table' f (field_in f (hc_fields h))" "hdr_fields ?h = settled table'"
    "length (hdr_data ?h) \<le> INT_MAX"
    using pl t(2) assms(3) by simp_all
  note got = field_got[OF h(1) assms(4,5) unset t(3) h(2,3)]
  show "dbus_header_get_field_basic fuel ?h f (EXPECTED_TYPE_OF_FIELD f) = Inr (field_in f (hc_fields h), ?h)" by (rule got(1))
  show "\<exists>table'. placed ?d ?e no_fields table' f (field_in f (hc_fields h)) \<and>
       dbus_header_get_field_raw fuel ?h f = Inr (map_option (\<lambda>_. table' ! f) (field_in f (hc_fields h)), ?h)"
    using pl got(2) by blast
qed

end
