(* ===== verification/HeaderProps.thy ===== *)
theory HeaderProps
  imports HeaderExact "HOL-Library.Code_Target_Numeral"
begin

text \<open>
  What a loaded header promises: the verdict of the loader is the one the reference gives, memory does
  not change it, and what the getters return has been validated.
\<close>

section \<open>Memory\<close>

lemma agrees_copy: "agrees_on e x x' \<Longrightarrow> agrees_on e (if \<not> b then Inl e else x) (if \<not> True then y else x')"
  by (simp add: agrees_on_def)

lemma header_memory:
  "agrees_on oom (dbus_header_load fuel hdr trusted c str start len copy_ok mem)
     (dbus_header_load fuel hdr trusted c str start len True (\<lambda>_. []))"
  unfolding dbus_header_load_def Let_def
  by (intro agrees_then[OF agrees_refl] agrees_copy agrees_then[OF agrees_if[OF agrees_refl agrees_then[OF body_memory agrees_refl]]] agrees_refl)

section \<open>The verdict on a header\<close>

lemma as_header_loaded: "as_header (hdr\<lparr>hdr_data := header_bytes h @ pad, hdr_padding := length pad, hdr_byte_order := hc_order h\<rparr>) x =
    map_sum Invalid (loaded_as hdr h pad) x"
  by (cases x) (simp_all add: as_header_def loaded_as_def)

lemma load_verdict:
  assumes "header_fits h" "length pad = header_size h - (16 + length (fields_bytes h))" "d = header_bytes h @ pad @ rest"
    and "length d \<le> STRING_MAX_MAX_LENGTH" "513 * (length d + 1) \<le> fuel" "hdr_data hdr = []" "hdr_fields hdr = no_fields"
  shows "dbus_header_load fuel hdr False (claims d) d 0 (length d) True (\<lambda>_. []) =
      map_sum Invalid (loaded_as hdr h pad) (header_verdict h pad)"
    "dbus_header_load fuel hdr False (claims d) d 0 (length d) copy_ok mem = map_sum Invalid (loaded_as hdr h pad) (header_verdict h pad) \<or>
      dbus_header_load fuel hdr False (claims d) d 0 (length d) copy_ok mem = Inl oom"
  using loaded_header[OF assms] header_memory[of fuel hdr False "claims d" d 0 "length d" copy_ok mem]
  unfolding as_header_loaded agrees_on_def by auto

text \<open>
  C2. The verdict on a header: on every header whose bytes encode values of the header signature,
  whatever the values, the padding and the data that follows, \<open>_dbus_header_load\<close> gives exactly
  the verdict of the reference - the first fault in the order of the protocol, or the table of the
  positions of the fields - and never fails an assertion. When memory runs out the answer may be the
  out-of-memory code instead, and nothing else.
\<close>

theorem header_load_exact:
  assumes "header_fits h" "length pad = header_size h - (16 + length (fields_bytes h))" "d = header_bytes h @ pad @ rest"
    and "length d \<le> STRING_MAX_MAX_LENGTH" "513 * (length d + 1) \<le> fuel" "hdr_data hdr = []" "hdr_fields hdr = no_fields"
  shows "dbus_header_load fuel hdr False (claims d) d 0 (length d) True (\<lambda>_. []) =
      map_sum Invalid (loaded_as hdr h pad) (header_verdict h pad) \<and>
    (dbus_header_load fuel hdr False (claims d) d 0 (length d) copy_ok mem = map_sum Invalid (loaded_as hdr h pad) (header_verdict h pad) \<or>
     dbus_header_load fuel hdr False (claims d) d 0 (length d) copy_ok mem = Inl (Invalid DBUS_VALIDITY_UNKNOWN_OOM_ERROR))"
  using load_verdict[OF assms] by blast

text \<open>The reply and the call that serve as examples.\<close>

definition sample_reply :: header_content where
  "sample_reply = \<lparr>hc_order = DBUS_LITTLE_ENDIAN, hc_type = DBUS_MESSAGE_TYPE_METHOD_RETURN, hc_flags = 0, hc_version = 1,
     hc_body_len = 0, hc_serial = 1, hc_fields = [(5, Basic DBUS_TYPE_UINT32, Val (V_u32 7))]\<rparr>"

definition sample_call :: header_content where
  "sample_call = \<lparr>hc_order = DBUS_BIG_ENDIAN, hc_type = DBUS_MESSAGE_TYPE_METHOD_CALL, hc_flags = 0, hc_version = 1,
     hc_body_len = 4, hc_serial = 9,
     hc_fields = [(1, Basic DBUS_TYPE_OBJECT_PATH, Val (V_str (ascii ''/a''))), (3, Basic DBUS_TYPE_STRING, Val (V_str (ascii ''Go''))),
       (8, Basic DBUS_TYPE_SIGNATURE, Val (V_str [DBUS_TYPE_UINT32]))]\<rparr>"

theorem header_load_exact_witness:
  "dbus_header_load 32000 (msg_header dbus_message_new_empty_header) False (claims (header_bytes sample_call @ [0] @ [0, 0, 0, 7]))
      (header_bytes sample_call @ [0] @ [0, 0, 0, 7]) 0 60 True (\<lambda>_. []) =
    Inr (loaded_as (msg_header dbus_message_new_empty_header) sample_call [0] [-2, 20, -2, 36, -2, -2, -2, -2, 52])"
proof -
  let ?d = "header_bytes sample_call @ [0] @ [0, 0, 0, 7]" and ?h = "msg_header dbus_message_new_empty_header"
  have v: "header_verdict sample_call [0] = Inr [-2, 20, -2, 36, -2, -2, -2, -2, 52]" by code_simp
  have "header_fits sample_call" "length [0 :: byte] = header_size sample_call - (16 + length (fields_bytes sample_call))"
    "length ?d = 60" "hdr_data ?h = []" "hdr_fields ?h = no_fields" by code_simp+
  from header_load_exact[OF this(1,2) refl, where fuel = 32000 and hdr = ?h and rest = "[0, 0, 0, 7]"] this(3-5)
  show ?thesis by (simp add: v)
qed


section \<open>What the getters return\<close>

lemma field_in_Some: "field_in f fs = Some x \<Longrightarrow> \<exists>c t. unat c = f \<and> (c, t, Val x) \<in> set fs"
  by (induction f fs rule: field_in.induct) (auto split: if_splits val.splits)

lemma taken_verdicts:
  "take_fields (zip fs ps) table = Inr table' \<Longrightarrow> length ps = length fs \<Longrightarrow> (c, t, v) \<in> set fs \<Longrightarrow> unat c \<le> DBUS_HEADER_FIELD_LAST \<Longrightarrow>
   field_verdict (unat c) v = None"
proof (induction fs arbitrary: ps table)
  case (Cons fld fs)
  obtain q qs where ps: "ps = q # qs" using Cons.prems(2) by (cases ps) auto
  obtain c' t' v' where fld: "fld = (c', t', v')" by (cases fld)
  show ?case
  proof (cases "(c, t, v) \<in> set fs")
    case True
    then show ?thesis using Cons.prems Cons.IH by (auto simp: ps fld Let_def split: if_splits option.splits)
  next
    case False
    then show ?thesis using Cons.prems by (auto simp: ps fld Let_def split: if_splits option.splits)
  qed
qed simp

lemma length_places: "length (places e fs p) = length fs"
  by (induction e fs p rule: places.induct) simp_all

lemma present_fields:
  assumes "header_fits h" "header_verdict h pad = Inr table" "length (header_bytes h @ pad) \<le> INT_MAX" "(f, r) \<in> set (mandatory (hc_type h))"
  shows "field_in f (hc_fields h) \<noteq> None"
proof -
  have f: "f \<noteq> 0" "f \<le> 8" using assms(4) by (auto simp: mandatory_def split: if_splits)
  obtain table' where t: "table = settled table'" "missing (hc_type h) table = None" "length table' = 9" by (rule verdict_table[OF assms(2)])
  have "\<not> table ! f < 0" using t(2) assms(4) by (auto simp: missing_def find_None_iff)
  moreover have "table ! f = - 2" if "field_in f (hc_fields h) = None"
    using loaded_fields(1)[OF assms(1-3) f, of 0 "msg_header dbus_message_new_empty_header"] that f t
    by (auto simp: dbus_header_get_field_basic_def dbus_header_cache_check_def settled_def field_table require_def split: if_splits)
  ultimately show ?thesis by fastforce
qed

text \<open>
  C3. After a header has been loaded the getters return what it says: for each field the value in the
  header, or that there is none; every field the message type must have is there; and every value was
  validated - names by the rules for names, no local interface or path, no zero reply serial.
\<close>

theorem loaded_header_reads_back:
  assumes "header_fits h" "length pad = header_size h - (16 + length (fields_bytes h))" "d = header_bytes h @ pad @ rest"
    and "length d \<le> STRING_MAX_MAX_LENGTH" "513 * (length d + 1) \<le> fuel" "hdr_data hdr = []" "hdr_fields hdr = no_fields"
    and "dbus_header_load fuel hdr False (claims d) d 0 (length d) copy_ok mem = Inr hdr'"
  shows "(\<forall>f \<in> {1..8}. dbus_header_get_field_basic n hdr' f (EXPECTED_TYPE_OF_FIELD f) = Inr (field_in f (hc_fields h), hdr')) \<and>
    (\<forall>(f, r) \<in> set (mandatory (hc_type h)). field_in f (hc_fields h) \<noteq> None) \<and>
    (\<forall>f \<in> {1..8}. \<forall>x. field_in f (hc_fields h) = Some x \<longrightarrow> field_verdict f (Val x) = None)"
proof -
  obtain table where t: "header_verdict h pad = Inr table" "hdr' = loaded_as hdr h pad table"
    using load_verdict(2)[OF assms(1-7), of copy_ok mem] assms(8) by (cases "header_verdict h pad") auto
  have l: "length (header_bytes h @ pad) \<le> INT_MAX" using assms(3,4) by simp
  obtain table' where t': "take_fields (zip (hc_fields h) (places (hc_order h) (hc_fields h) 16)) no_fields = Inr table'"
    by (rule verdict_table[OF t(1)])
  have "field_verdict f (Val x) = None" if "f \<in> {1..8}" "field_in f (hc_fields h) = Some x" for f x
    using field_in_Some[OF that(2)] taken_verdicts[OF t' length_places] that(1) by auto
  then show ?thesis using loaded_fields(1)[OF assms(1) t(1) l, of _ n hdr] present_fields[OF assms(1) t(1) l] t(2) by auto
qed


theorem loaded_header_reads_back_witness:
  "dbus_header_get_field_basic 1 (loaded_as (msg_header dbus_message_new_empty_header) sample_call [0] [-2, 20, -2, 36, -2, -2, -2, -2, 52])
      DBUS_HEADER_FIELD_MEMBER DBUS_TYPE_STRING =
    Inr (Some (V_str (ascii ''Go'')),
      loaded_as (msg_header dbus_message_new_empty_header) sample_call [0] [-2, 20, -2, 36, -2, -2, -2, -2, 52])"
proof -
  let ?d = "header_bytes sample_call @ [0] @ [0, 0, 0, 7]" and ?h = "msg_header dbus_message_new_empty_header"
  let ?l = "loaded_as ?h sample_call [0] [-2, 20, -2, 36, -2, -2, -2, -2, 52]"
  have v: "header_verdict sample_call [0] = Inr [-2, 20, -2, 36, -2, -2, -2, -2, 52]" by code_simp
  have c: "header_fits sample_call" "length [0 :: byte] = header_size sample_call - (16 + length (fields_bytes sample_call))"
    "length ?d = 60" "hdr_data ?h = []" "hdr_fields ?h = no_fields" by code_simp+
  have small: "length ?d \<le> STRING_MAX_MAX_LENGTH" "513 * (length ?d + 1) \<le> 32000" unfolding c(3) by simp_all
  have "dbus_header_load 32000 ?h False (claims ?d) ?d 0 (length ?d) True (\<lambda>_. []) = Inr ?l"
    using load_verdict(1)[OF c(1,2) refl small c(4,5)] by (simp add: v)
  from loaded_header_reads_back[OF c(1,2) refl small c(4,5) this, of 1, THEN conjunct1, THEN bspec, of 3]
  have "dbus_header_get_field_basic 1 ?l 3 (EXPECTED_TYPE_OF_FIELD 3) = Inr (field_in 3 (hc_fields sample_call), ?l)" by simp
  moreover have "EXPECTED_TYPE_OF_FIELD 3 = DBUS_TYPE_STRING" "field_in 3 (hc_fields sample_call) = Some (V_str (ascii ''Go''))" by code_simp+
  ultimately show ?thesis by simp
qed

section \<open>The local names\<close>

text \<open>
  The interface and the path of the local side are looked for as prefixes: names that only begin like
  them, which no part of the library treats as local, are refused too.
\<close>

lemma local_prefix_refused:
  "field_verdict DBUS_HEADER_FIELD_INTERFACE (Val (V_str (ascii ''org.freedesktop.DBus.Localhost''))) =
     Some DBUS_INVALID_USES_LOCAL_INTERFACE"
  "field_verdict DBUS_HEADER_FIELD_PATH (Val (V_str (ascii ''/org/freedesktop/DBus/Local2''))) = Some DBUS_INVALID_USES_LOCAL_PATH"
  "dbus_validate_interface (ascii ''org.freedesktop.DBus.Localhost'') 0 30"
  by code_simp+

end
