(* ===== verification/LoaderState.thy ===== *)
theory LoaderState
  imports LoaderProps "HOL-Library.Code_Target_Numeral"
begin

text \<open>
  The flag and the reason of corruption belong together, whatever a stream holds: no verdict of the
  validators is the code for valid.
\<close>

section \<open>A verdict is a fault\<close>

definition faulty :: "'a result \<Rightarrow> bool" where
  "faulty r \<longleftrightarrow> r \<noteq> Inl (Invalid DBUS_VALID)"

lemma faulty_ends [simp]:
  "faulty (Inr x)" "faulty (Inl Aborted)" "faulty (Inl No_fuel)" "faulty (Inl (Invalid v)) \<longleftrightarrow> v \<noteq> DBUS_VALID"
  by (simp_all add: faulty_def)

lemma faulty_then: "faulty r \<Longrightarrow> (\<And>x. r = Inr x \<Longrightarrow> faulty (f x)) \<Longrightarrow> faulty (and_then r f)"
  by (cases r) (simp_all add: faulty_def)

lemma faulty_if: "(b \<Longrightarrow> faulty r) \<Longrightarrow> (\<not> b \<Longrightarrow> faulty r') \<Longrightarrow> faulty (if b then r else r')"
  by simp

lemma faulty_pair: "(\<And>x y. p = (x, y) \<Longrightarrow> faulty (f x y)) \<Longrightarrow> faulty (case p of (x, y) \<Rightarrow> f x y)"
  by (cases p) simp

lemma faulty_option:
  "(p = None \<Longrightarrow> faulty r) \<Longrightarrow> (\<And>x. p = Some x \<Longrightarrow> faulty (f x)) \<Longrightarrow> faulty (case p of None \<Rightarrow> r | Some x \<Rightarrow> f x)"
  by (cases p) simp_all

lemma faulty_value:
  "(\<And>b. v = V_byt b \<Longrightarrow> faulty (f b)) \<Longrightarrow> faulty (case v of V_byt b \<Rightarrow> f b | _ \<Rightarrow> Inl Aborted)"
  "(\<And>w. v = V_u32 w \<Longrightarrow> faulty (g w)) \<Longrightarrow> faulty (case v of V_u32 w \<Rightarrow> g w | _ \<Rightarrow> Inl Aborted)"
  by (cases v; simp)+

text \<open>Operations without a verdict.\<close>

lemma faulty_plain [simp]:
  "faulty (asserted x)" "faulty (require b)" "faulty (first_type s p)" "faulty (get_alignment t)" "faulty (peek s p)"
  by (auto simp: asserted_def require_def first_type_def get_alignment_def peek_def Let_def intro!: faulty_then split: option.split)

lemma skip_one_faulty [simp]: "faulty (skip_one_complete_type s p)"
  unfolding skip_one_complete_type_def by (intro faulty_then) simp_all

lemmas faulty_intros = faulty_then faulty_if faulty_pair faulty_option faulty_value faulty_plain faulty_ends(1-3) skip_one_faulty
  faulty_ends(4)[THEN iffD2]

lemma reader_faulty:
  "faulty (array_reader_get_array_len r)" "faulty (dbus_type_reader_get_current_type r)" "faulty (dbus_type_reader_recurse r)"
  "faulty (dbus_type_reader_read_basic r)" "faulty (dbus_type_reader_get_element_type r)"
proof -
  show l: "faulty (array_reader_get_array_len r)" unfolding array_reader_get_array_len_def Let_def by (intro faulty_intros)
  show c: "faulty (dbus_type_reader_get_current_type r)"
    unfolding dbus_type_reader_get_current_type_def array_reader_check_finished_def Let_def by (intro faulty_intros l)
  show "faulty (dbus_type_reader_recurse r)"
    unfolding dbus_type_reader_recurse_def struct_or_dict_entry_types_only_reader_recurse_def struct_or_dict_entry_reader_recurse_def
      array_reader_recurse_def variant_reader_recurse_def element_type_get_alignment_def Let_def
    by (intro faulty_intros)
  show "faulty (dbus_type_reader_read_basic r)" "faulty (dbus_type_reader_get_element_type r)"
    unfolding dbus_type_reader_read_basic_def dbus_type_reader_get_element_type_def by (intro faulty_intros c)+
qed

lemma class_faulty:
  assumes "\<And>r. faulty (skip r)" shows "faulty (class_next k skip r t)"
proof -
  have v: "faulty (skip_array_value r)" "faulty (skip_basic_value r t)" for r t
    unfolding skip_array_value_def skip_basic_value_def by (intro faulty_intros)+
  have b: "faulty (base_reader_next skip r t)"
    unfolding base_reader_next_def by (intro faulty_intros reader_faulty v assms)
  then show ?thesis
    by (cases k) (simp_all add: struct_reader_next_def dict_entry_reader_next_def container_reader_next_def array_reader_next_def Let_def
        del: and_then_Inr, (intro faulty_intros reader_faulty v assms b)+)
qed

lemma next_faulty: "faulty (dbus_type_reader_next fuel r) \<and> faulty (skip_all fuel r)"
proof (induction fuel arbitrary: r)
  case (Suc fuel)
  then show ?case unfolding dbus_type_reader_next.simps skip_all.simps
    by (intro conjI faulty_intros reader_faulty class_faulty) simp_all
qed (simp add: dbus_type_reader_next.simps skip_all.simps)

section \<open>The body\<close>

lemma padding_faulty: "faulty (skip_padding s p n)"
  by (induction n arbitrary: p) (auto intro!: faulty_intros)

lemma single_faulty:
  "faulty (pad_to s end p a)" "faulty (unpack_at s e p)" "faulty (check_boolean s e p)" "faulty (validate_fixed s end e t p)"
  "faulty (claimed_length s end e p)" "faulty (string_contents s t p n)" "faulty (validate_string s end e t p)"
proof -
  note d = pad_to_def unpack_at_def check_boolean_def validate_fixed_def claimed_length_def string_contents_def validate_string_def Let_def
  show "faulty (pad_to s end p a)" unfolding d by (intro faulty_intros padding_faulty) simp_all
  show u: "faulty (unpack_at s e p)" for p unfolding d by (intro faulty_intros padding_faulty)
  show c: "faulty (check_boolean s e p)" for p unfolding check_boolean_def by (intro faulty_intros u) simp_all
  show "faulty (validate_fixed s end e t p)" unfolding validate_fixed_def Let_def by (intro faulty_intros padding_faulty c) simp_all
  show l: "faulty (claimed_length s end e p)" unfolding claimed_length_def Let_def by (intro faulty_intros padding_faulty u) simp_all
  show t: "faulty (string_contents s t p n)" for p n unfolding string_contents_def by (intro faulty_intros) simp_all
  show "faulty (validate_string s end e t p)" unfolding validate_string_def by (intro faulty_intros l t) simp_all
qed

lemma boolean_faulty: "faulty (boolean_loop s e p q)"
proof (induction s e p q rule: boolean_loop.induct)
  case (1 s e p q)
  then show ?case by (subst boolean_loop.simps) (intro faulty_intros single_faulty)
qed

lemma element_faulty: "(\<And>r w p. faulty (rec r w p)) \<Longrightarrow> faulty (element_loop fuel rec r p q)"
  by (induction fuel arbitrary: p) (auto intro!: faulty_intros)

lemma value_faulty:
  assumes "\<And>r w p. faulty (rec r w p)"
  shows "faulty (validate_value str end e mem fuel rec r t p)"
proof -
  have s: "faulty (signature_verdict str p n m)" "faulty (variant_verdict str p n m)" for p n m
    unfolding signature_verdict_def variant_verdict_def Let_def by (intro faulty_intros, simp_all)+
  have vs: "faulty (variant_signature str end mem p)" "faulty (validate_signature_value str end mem p)" for p
    unfolding variant_signature_def validate_signature_value_def Let_def by (intro faulty_intros s, simp_all)+
  have ca: "faulty (contained_alignment sig)" for sig
    unfolding contained_alignment_def by (intro faulty_intros) simp_all
  have vc: "faulty (variant_contents fuel rec sub p)" for sub p
    unfolding variant_contents_def by (intro faulty_intros reader_faulty next_faulty[THEN conjunct1] assms) simp_all
  have ar: "faulty (validate_array str end e fuel rec r p)"
    unfolding validate_array_def array_element_def array_elements_def Let_def
    by (intro faulty_intros single_faulty reader_faulty element_faulty boolean_faulty assms) simp_all
  show ?thesis
    unfolding validate_value_def validate_variant_def validate_struct_def
    by (intro faulty_intros single_faulty reader_faulty vs ca vc ar assms)
qed

lemma body_faulty: "faulty (dbus_validate_body_with_reason fuel sig pos e w s start len mem)"
proof -
  have "faulty (validate_body_helper s stop e mem fuel r w p)" for stop r w p
  proof (induction fuel arbitrary: r w p)
    case (Suc fuel)
    then show ?case unfolding validate_body_helper.simps validate_step_def
      by (intro faulty_intros reader_faulty value_faulty next_faulty[THEN conjunct1]) simp_all
  qed (simp add: validate_body_helper.simps)
  then show ?thesis unfolding dbus_validate_body_with_reason_def Let_def by (intro faulty_intros) simp_all
qed

section \<open>The loader\<close>

text \<open>The flag and the reason agree; a corrupted loader stays as it is but for what is taken and arrives.\<close>

definition reasoned :: "DBusMessageLoader \<Rightarrow> bool" where
  "reasoned l \<longleftrightarrow> (corrupted l \<longleftrightarrow> corruption_reason l \<noteq> DBUS_VALID)"

lemma peek_faulty: "faulty (dbus_header_have_message_untrusted n s p len)"
  unfolding dbus_header_have_message_untrusted_def Let_def by (intro faulty_intros) simp_all

lemma load_reasoned:
  assumes "reasoned l" "\<not> corrupted l"
  shows "gives (load_message fuel l m c rm) (\<lambda>(loaded, l'). reasoned l')"
proof -
  have r: "reasoned (l\<lparr>corrupted := True, corruption_reason := v\<rparr>)" if "v \<noteq> DBUS_VALID" for v
    using that by (simp add: reasoned_def)
  have b: "v \<noteq> DBUS_VALID" if "dbus_validate_body_with_reason fuel sig pos e w s start len mem = Inl (Invalid v)" for sig pos e w s start len mem v
    using body_faulty[of fuel sig pos e w s start len mem] that by (auto simp: faulty_def)
  have "corruption_reason l = DBUS_VALID" using assms by (simp add: reasoned_def)
  then show ?thesis unfolding load_message_def Let_def
    by (intro gives_intros) (auto simp: assms r require_def reasoned_def dest: b split: if_splits)
qed

lemma loop_reasoned:
  "reasoned l \<Longrightarrow> gives (queue_messages_loop n fuel l rms) (\<lambda>(ok, l'). reasoned l')"
proof (induction n arbitrary: l rms)
  case (Suc n)
  have p: "v \<noteq> DBUS_VALID" if "dbus_header_have_message_untrusted k s p len = Inl (Invalid v)" for k s p len v
    using peek_faulty[of k s p len] that by (auto simp: faulty_def)
  show ?case
  proof (cases "\<not> corrupted l \<and> length (ldr_data l) \<ge> 16")
    case True
    have step: "reasoned l1" if "load_message fuel l m c rm = Inr (b, l1)" for m c rm b l1
      using givesD[OF load_reasoned that] True Suc.prems by simp
    show ?thesis using True Suc.prems
      by (auto intro!: gives_intros Suc.IH split: bool.splits sum.splits prod.splits dest: step p simp: reasoned_def[of "_\<lparr>corrupted := _, corruption_reason := _\<rparr>"] simp del: and_then_Inr)
  qed (use Suc.prems in auto)
qed simp

lemma step_reasoned:
  assumes "gives x (\<lambda>s. reasoned (loader s))" shows "gives (stream_step fuel x e) (\<lambda>s. reasoned (loader s))"
proof (cases x)
  case (Inr s)
  then have r: "reasoned (loader s)" using assms by simp
  show ?thesis
  proof (cases e)
    case (Queue rms)
    then show ?thesis using Inr givesD[OF loop_reasoned[OF r]]
      by (auto intro!: gives_intros simp: dbus_message_loader_queue_messages_def simp del: and_then_Inr queue_messages_loop.simps)
  next
    case (Arrive bs)
    then show ?thesis using Inr r
      by (simp add: gives_def dbus_message_loader_get_buffer_def dbus_message_loader_return_buffer_def reasoned_def)
  qed (use Inr r in \<open>auto simp: reasoned_def dbus_message_loader_pop_message_def dbus_message_loader_set_max_message_size_def
      split: list.split\<close>)
qed simp

lemma fresh_reasoned: "reasoned (loader fresh_stream)"
  by (simp add: fresh_stream_def fresh_loader_def dbus_message_loader_new_def reasoned_def)

interpretation loader_reason: machine "Inr fresh_stream" "stream_step fuel" "\<lambda>x. gives x (\<lambda>s. reasoned (loader s))"
  by unfold_locales (simp_all add: step_reasoned fresh_reasoned)

text \<open>What a corrupted loader still does.\<close>

lemma corrupted_step:
  assumes "corrupted (loader s)" "stream_step fuel (Inr s) e = Inr s'"
  shows "corrupted (loader s') \<and> corruption_reason (loader s') = corruption_reason (loader s) \<and> delivered s' = delivered s"
  using assms
  by (cases e) (auto simp: dbus_message_loader_get_buffer_def dbus_message_loader_return_buffer_def dbus_message_loader_queue_messages_def
      dbus_message_loader_pop_message_def dbus_message_loader_set_max_message_size_def delivered_def split: list.splits)

lemma stopped_stream: "run (stream_step fuel) (Inl x) es = Inl x"
  by (induction es) simp_all

lemma corrupted_run:
  "corrupted (loader s) \<Longrightarrow> run (stream_step fuel) (Inr s) es = Inr s' \<Longrightarrow>
   corrupted (loader s') \<and> corruption_reason (loader s') = corruption_reason (loader s) \<and> delivered s' = delivered s"
proof (induction es arbitrary: s)
  case (Cons e es)
  then obtain s1 where s1: "stream_step fuel (Inr s) e = Inr s1"
    using stopped_stream by (cases "stream_step fuel (Inr s) e") (auto simp del: stream_step.simps)
  show ?case using corrupted_step[OF Cons.prems(1) s1] Cons.IH[of s1] Cons.prems(2) s1 by (simp del: stream_step.simps)
qed simp

text \<open>
  C6. Corruption is noticed and final: at any time the loader can be asked whether it is corrupted
  without a failed assertion, since the reason is never the code for valid; and once it is corrupted no
  further message is ever queued from the stream, whatever arrives, and the reason stays.
\<close>

theorem corruption_is_final:
  assumes "run_stream fuel es = Inr s"
  shows "dbus_message_loader_get_is_corrupted (loader s) = Inr (corrupted (loader s)) \<and>
    (corrupted (loader s) \<and> run_stream fuel (es @ es') = Inr s' \<longrightarrow>
       corrupted (loader s') \<and> corruption_reason (loader s') = corruption_reason (loader s) \<and> delivered s' = delivered s)"
proof -
  have "reasoned (loader s)" using loader_reason.reachable_inv[of fuel es] assms by simp
  moreover have "run (stream_step fuel) (Inr s) es' = Inr s'" if "run_stream fuel (es @ es') = Inr s'"
    using that assms by (simp add: run_append)
  ultimately show ?thesis using corrupted_run
    by (auto simp: dbus_message_loader_get_is_corrupted_def reasoned_def)
qed

text \<open>A stream that starts with an unknown byte order.\<close>

definition noise :: "byte list" where
  "noise = replicate 16 7"

definition after_noise :: stream where
  "after_noise = \<lparr>loader = fresh_loader\<lparr>ldr_data := noise, corrupted := True, corruption_reason := DBUS_INVALID_BAD_BYTE_ORDER\<rparr>,
     arrived = noise, taken = [], memory_sufficed = True\<rparr>"

lemma noise_run: "run_stream 1 [Arrive noise, Queue []] = Inr after_noise"
  by code_simp

definition after_more_noise :: stream where
  "after_more_noise = after_noise\<lparr>loader := (loader after_noise)\<lparr>ldr_data := noise @ [1]\<rparr>, arrived := noise @ [1]\<rparr>"

lemma noise_run_on: "run_stream 1 ([Arrive noise, Queue []] @ [Arrive [1], Queue [], Take]) = Inr after_more_noise"
  by code_simp

theorem corruption_is_final_witness:
  "dbus_message_loader_get_is_corrupted (loader after_noise) = Inr True \<and> delivered after_more_noise = delivered after_noise \<and>
   corruption_reason (loader after_more_noise) = DBUS_INVALID_BAD_BYTE_ORDER"
proof -
  have "corrupted (loader after_noise)" "corruption_reason (loader after_noise) = DBUS_INVALID_BAD_BYTE_ORDER"
    by (simp_all add: after_noise_def)
  then show ?thesis using corruption_is_final[OF noise_run, of "[Arrive [1], Queue [], Take]" after_more_noise] noise_run_on by simp
qed

end
