(* ===== verification/Delivery.thy ===== *)
theory Delivery
  imports HeaderProps
begin

text \<open>
  Well-formed messages get through: a loader that is fed the bytes of a sequence of well-formed
  messages, in whatever pieces, hands out exactly these messages.
\<close>

section \<open>Well-formed messages\<close>

record message_content =
  mc_header :: header_content
  mc_types :: "dtype list"
  mc_vals :: "val list"

definition header_padding :: "header_content \<Rightarrow> byte list" where
  "header_padding h = replicate (header_size h - (16 + length (fields_bytes h))) 0"

definition body_bytes :: "message_content \<Rightarrow> byte list" where
  "body_bytes m = enc_seq (hc_order (mc_header m)) (mc_types m) (mc_vals m) (header_size (mc_header m))"

definition message_bytes :: "message_content \<Rightarrow> byte list" where
  "message_bytes m = header_bytes (mc_header m) @ header_padding (mc_header m) @ body_bytes m"

text \<open>
  The header is good and says what the body is: its length and, in the signature field, its types. No
  signature field stands for no body.
\<close>

definition well_formed :: "message_content \<Rightarrow> bool" where
  "well_formed m \<longleftrightarrow>
     (let h = mc_header m; ts = mc_types m
      in header_fits h \<and> \<not> isl (header_verdict h (header_padding h)) \<and>
         unat (hc_body_len h) = length (body_bytes m) \<and> withins 0 0 ts \<and> length (sigs_of ts) \<le> DBUS_MAXIMUM_SIGNATURE_LENGTH \<and>
         fits_seq (hc_order h) ts (mc_vals m) (header_size h) \<and>
         (case field_in DBUS_HEADER_FIELD_SIGNATURE (hc_fields h) of None \<Rightarrow> ts = [] | Some x \<Rightarrow> x = V_str (sigs_of ts)) \<and>
         length (message_bytes m) \<le> DBUS_MAXIMUM_MESSAGE_LENGTH)"

text \<open>The message as the loader makes it.\<close>

definition message_of :: "message_content \<Rightarrow> DBusMessage" where
  "message_of m =
     (let h = mc_header m; pad = header_padding h
      in dbus_message_new_empty_header\<lparr>
           msg_header := loaded_as (msg_header dbus_message_new_empty_header) h pad (projr (header_verdict h pad)),
           msg_body := body_bytes m, msg_byte_order := hc_order h\<rparr>)"

section \<open>One message\<close>

lemma header_padded: "length (header_bytes h @ header_padding h) = header_size h"
  using align_facts(1)[of 8 "16 + length (fields_bytes h)"]
  by (simp add: header_bytes_length header_padding_def header_size_def)

lemma message_length: "length (message_bytes m) = header_size (mc_header m) + length (body_bytes m)"
  using header_padded[of "mc_header m"] by (simp add: message_bytes_def)

lemma well_formed_claims:
  assumes "well_formed m"
  shows "claims (message_bytes m @ rest) = \<lparr>claimed_byte_order = hc_order (mc_header m),
    claimed_fields_array_len = length (fields_bytes (mc_header m)), claimed_header_len = header_size (mc_header m),
    claimed_body_len = length (body_bytes m)\<rparr>"
  using header_claims[of "mc_header m"] assms by (simp add: message_bytes_def well_formed_def Let_def)

text \<open>The signature the loader finds is the one of the body.\<close>

lemma signature_found:
  assumes "well_formed m" "h = mc_header m" "pad = header_padding h" "header_verdict h pad = Inr table"
    "length (header_bytes h @ pad) \<le> INT_MAX" "hd0 = loaded_as hdr h pad table"
  obtains (absent) "get_const_signature fuel hd0 = Inr ([], 0, hd0)" "mc_types m = []"
    | (there) p a where "get_const_signature fuel hd0 = Inr (header_bytes h @ pad, p, hd0)"
      "drop p (header_bytes h @ pad) = sigs_of (mc_types m) @ 0 # a" "p \<le> length (header_bytes h @ pad)"
proof -
  let ?d = "header_bytes h @ pad"
  have fits: "header_fits h" using assms(1,2) by (simp add: well_formed_def Let_def)
  have s: "case field_in 8 (hc_fields h) of None \<Rightarrow> mc_types m = [] | Some x \<Rightarrow> x = V_str (sigs_of (mc_types m))"
    using assms(1,2) by (simp add: well_formed_def Let_def)
  obtain table' where t: "placed ?d (hc_order h) no_fields table' 8 (field_in 8 (hc_fields h))"
    "dbus_header_get_field_raw fuel hd0 8 = Inr (map_option (\<lambda>_. table' ! 8) (field_in 8 (hc_fields h)), hd0)"
    using loaded_fields(2)[OF fits assms(4,5), of 8 fuel hdr] assms(6) by auto
  show ?thesis
  proof (cases "field_in 8 (hc_fields h)")
    case None
    then show ?thesis using t(2) s by (intro absent) (simp_all add: get_const_signature_def)
  next
    case (Some x)
    have "EXPECTED_TYPE_OF_FIELD 8 = DBUS_TYPE_SIGNATURE" by (simp add: field_table)
    then obtain q where q: "table' ! 8 = int q"
      "found_at ?d q (word_of_nat (length (sigs_of (mc_types m))) # sigs_of (mc_types m) @ [0])"
      using t(1) Some s by (auto simp: placed_def raw_basic_def)
    obtain a where a: "drop q ?d = (word_of_nat (length (sigs_of (mc_types m))) # sigs_of (mc_types m) @ [0]) @ a"
      using found_drop[OF q(2)] by blast
    then have "drop (q + 1) ?d = sigs_of (mc_types m) @ 0 # a"
      using drop_more[of q ?d "[word_of_nat (length (sigs_of (mc_types m)))]"] by simp
    moreover have "q + 1 \<le> length ?d" using q(2) by (simp add: found_at_def)
    ultimately show ?thesis using t(2) Some q(1) assms(6)
      by (intro there[of "q + 1" a]) (simp_all add: get_const_signature_def nat_add_distrib)
  qed
qed

lemma body_accepted:
  assumes "well_formed m" "h = mc_header m" "pad = header_padding h" "header_verdict h pad = Inr table"
    "hd0 = loaded_as hdr h pad table" "d = message_bytes m @ rest" "length d \<le> STRING_MAX_MAX_LENGTH" "513 * (length d + 1) \<le> fuel"
  shows "\<exists>ts tp. get_const_signature fuel hd0 = Inr (ts, tp, hd0) \<and>
    dbus_validate_body_with_reason fuel ts tp (hc_order h) False d (header_size h) (length (body_bytes m)) (\<lambda>_. []) = Inr 0"
proof -
  let ?pre = "header_bytes h @ pad"
  have d: "d = ?pre @ body_bytes m @ rest" and len: "length ?pre = header_size h"
    using assms(2,3,6) header_padded[of h] by (simp_all add: message_bytes_def)
  have small: "length ?pre \<le> INT_MAX" "513 * (length (body_bytes m) + 1) \<le> fuel" using assms(7,8) unfolding d by simp_all
  have w: "withins 0 0 (mc_types m)" "length (sigs_of (mc_types m)) \<le> DBUS_MAXIMUM_SIGNATURE_LENGTH"
    "fits_seq (hc_order h) (mc_types m) (mc_vals m) (length ?pre)"
    "body_bytes m = enc_seq (hc_order h) (mc_types m) (mc_vals m) (length ?pre)"
    using assms(1,2) unfolding len by (simp_all add: well_formed_def Let_def body_bytes_def)
  show ?thesis
  proof (rule signature_found[OF assms(1-4) small(1) assms(5), of fuel])
    assume a: "get_const_signature fuel hd0 = Inr ([], 0, hd0)" "mc_types m = []"
    have "dbus_validate_body_with_reason fuel (sigs_of (mc_types m)) 0 (hc_order h) False d (length ?pre) (length (body_bytes m)) (\<lambda>_. []) = Inr 0"
      using body_complete[OF w, of rest 0 fuel False] assms(7) small(2) unfolding d by simp
    then show ?thesis using a len by simp
  next
    fix p a assume a: "get_const_signature fuel hd0 = Inr (?pre, p, hd0)" "drop p ?pre = sigs_of (mc_types m) @ 0 # a" "p \<le> length ?pre"
    have "dbus_validate_body_with_reason fuel ?pre p (hc_order h) False d (length ?pre) (length (body_bytes m)) (\<lambda>_. []) = Inr 0"
      using body_complete_inside[OF w a(2,3), of rest fuel] assms(7) small(2) unfolding d by simp
    then show ?thesis using a len by simp
  qed
qed

text \<open>
  The memory of a round that the validation of the body needs is there. Any other allocation may fail.
\<close>

definition body_memory_there :: "round_memory \<Rightarrow> bool" where
  "body_memory_there rm \<longleftrightarrow> body_mem rm = (\<lambda>_. [])"

lemma message_loaded:
  assumes "well_formed m" "ldr_data l = message_bytes m @ rest" "\<not> corrupted l" "body_memory_there rm"
    and "length (ldr_data l) \<le> STRING_MAX_MAX_LENGTH" "513 * (length (ldr_data l) + 1) \<le> fuel"
  shows "load_message fuel l dbus_message_new_empty_header (claims (ldr_data l)) rm \<in>
      {Inr (False, l), Inr (True, l\<lparr>ldr_messages := ldr_messages l @ [message_of m], ldr_data := rest\<rparr>)}"
    "rm = plenty \<Longrightarrow> load_message fuel l dbus_message_new_empty_header (claims (ldr_data l)) rm =
      Inr (True, l\<lparr>ldr_messages := ldr_messages l @ [message_of m], ldr_data := rest\<rparr>)"
proof -
  let ?h = "mc_header m" and ?d = "ldr_data l" and ?msg = "dbus_message_new_empty_header"
  let ?pad = "header_padding ?h"
  obtain table where t: "header_verdict ?h ?pad = Inr table"
    using assms(1) by (auto simp: well_formed_def Let_def isl_def) (meson sum.exhaust)
  let ?hd = "loaded_as (msg_header ?msg) ?h ?pad table"
  have fits: "header_fits ?h" using assms(1) by (simp add: well_formed_def Let_def)
  have empty: "hdr_data (msg_header ?msg) = []" "hdr_fields (msg_header ?msg) = no_fields"
    by (simp_all add: dbus_message_new_empty_header_def dbus_header_reinit_def dbus_header_cache_invalidate_all_def no_fields_def)
  have d: "?d = header_bytes ?h @ ?pad @ body_bytes m @ rest" using assms(2) by (simp add: message_bytes_def)
  have pad: "length ?pad = header_size ?h - (16 + length (fields_bytes ?h))" by (simp add: header_padding_def)
  note v = load_verdict[OF fits pad d assms(5,6) empty]
  note c = well_formed_claims[OF assms(1), of rest, folded assms(2)]
  obtain ts tp where s: "get_const_signature fuel ?hd = Inr (ts, tp, ?hd)"
    "dbus_validate_body_with_reason fuel ts tp (hc_order ?h) False ?d (header_size ?h) (length (body_bytes m)) (\<lambda>_. []) = Inr 0"
    using body_accepted[OF assms(1) refl refl t refl assms(2,5,6)] by blast
  have len: "header_size ?h + length (body_bytes m) \<le> length ?d" "length (header_bytes ?h @ ?pad) = header_size ?h"
    using message_length[of m] header_padded[of ?h] assms(2) by simp_all
  have after: "drop (header_size ?h) ?d = body_bytes m @ rest" using len(2) d by (metis append.assoc append_eq_conv_conj)
  have body: "const_data_len ?d (header_size ?h) (length (body_bytes m)) = Some (body_bytes m)"
    "drop (header_size ?h + length (body_bytes m)) ?d = rest"
    using found_const[of ?d "header_size ?h" "body_bytes m"] len(1) after drop_more[OF after] by (simp_all add: found_at_def)
  have msg: "?msg\<lparr>msg_header := ?hd, msg_body := body_bytes m, msg_byte_order := hc_order ?h\<rparr> = message_of m"
    by (simp add: message_of_def Let_def t)
  note load = load_message_def Let_def c claimed.simps
  show "load_message fuel l ?msg (claims ?d) rm \<in>
      {Inr (False, l), Inr (True, l\<lparr>ldr_messages := ldr_messages l @ [message_of m], ldr_data := rest\<rparr>)}"
    using v(2)[of "header_copy_ok rm" "header_mem rm"] s len body assms(3,4) empty(1) msg
    unfolding load by (auto simp: t c body_memory_there_def)
  show "load_message fuel l ?msg (claims ?d) rm = Inr (True, l\<lparr>ldr_messages := ldr_messages l @ [message_of m], ldr_data := rest\<rparr>)"
    if "rm = plenty"
    using v(1) s len body assms(3) empty(1) msg that unfolding load by (auto simp: t c plenty_def)
qed

section \<open>Queueing\<close>

text \<open>The buffer holds the beginning of messages: all of them but a last piece that has not arrived.\<close>

definition short_of :: "message_content list \<Rightarrow> byte list \<Rightarrow> bool" where
  "short_of ms d \<longleftrightarrow> (case ms of [] \<Rightarrow> True | m # _ \<Rightarrow> length d < length (message_bytes m))"

lemma message_at_least: "16 \<le> length (message_bytes m)"
  using message_length[of m] align_facts(1)[of 8 "16 + length (fields_bytes (mc_header m))"] by (simp add: header_size_def)

lemma message_peeked:
  assumes "well_formed m" "d @ later = message_bytes m @ rest" "16 \<le> length d"
  shows "dbus_header_have_message_untrusted DBUS_MAXIMUM_MESSAGE_LENGTH d 0 (length d) = Inr (length (message_bytes m) \<le> length d, claims d)"
proof -
  let ?h = "mc_header m"
  have c: "claims d = \<lparr>claimed_byte_order = hc_order ?h, claimed_fields_array_len = length (fields_bytes ?h),
      claimed_header_len = header_size ?h, claimed_body_len = length (body_bytes m)\<rparr>"
    using claims_append[OF assms(3), of later] well_formed_claims[OF assms(1), of rest] assms(2) by simp
  have "header_fits ?h" and small: "length (message_bytes m) \<le> DBUS_MAXIMUM_MESSAGE_LENGTH"
    using assms(1) by (simp_all add: well_formed_def Let_def)
  then have "known_order (hc_order ?h)" "length (fields_bytes ?h) \<le> DBUS_MAXIMUM_MESSAGE_LENGTH"
    using fields_small[of ?h] by (simp_all add: header_fits_def)
  moreover have "DBUS_MAXIMUM_MESSAGE_LENGTH < INT_MAX div 2" by simp
  note p = peek_exact[OF this assms(3) order_refl]
  ultimately show ?thesis using small message_length[of m] unfolding p c Let_def
    by (simp add: add.commute[of "length (body_bytes m)"])
qed

lemma plenty_there: "body_memory_there plenty"
  by (simp add: body_memory_there_def plenty_def)

lemma loop_delivers:
  "list_all well_formed ms \<Longrightarrow> ldr_data l @ later = concat (map message_bytes ms) \<Longrightarrow> \<not> corrupted l \<Longrightarrow>
   max_message_size l = DBUS_MAXIMUM_MESSAGE_LENGTH \<Longrightarrow> list_all body_memory_there rms \<Longrightarrow>
   length (ldr_data l) \<le> STRING_MAX_MAX_LENGTH \<Longrightarrow> 513 * (length (ldr_data l) + 1) \<le> fuel \<Longrightarrow> length (ldr_data l) < n \<Longrightarrow>
   \<exists>ok l' k. queue_messages_loop n fuel l rms = Inr (ok, l') \<and> k \<le> length ms \<and>
     ldr_messages l' = ldr_messages l @ map message_of (take k ms) \<and>
     concat (map message_bytes (take k ms)) @ ldr_data l' = ldr_data l \<and>
     \<not> corrupted l' \<and> max_message_size l' = max_message_size l \<and> buffer_outstanding l' = buffer_outstanding l \<and>
     (ok \<longrightarrow> short_of (drop k ms) (ldr_data l')) \<and> (rms = [] \<longrightarrow> ok)"
proof (induction n arbitrary: l ms rms)
  case (Suc n)
  have stay: ?case if "queue_messages_loop (Suc n) fuel l rms = Inr (ok, l)" "ok \<longrightarrow> short_of ms (ldr_data l)" "rms = [] \<longrightarrow> ok" for ok
    using that Suc.prems(3) by (intro exI[of _ ok] exI[of _ l] exI[of _ 0]) (simp del: queue_messages_loop.simps)
  show ?case
  proof (cases "16 \<le> length (ldr_data l)")
    case False
    then have "short_of ms (ldr_data l)" using message_at_least by (auto simp: short_of_def split: list.split) (meson le_trans not_le)
    then show ?thesis using False by (intro stay[of True]) simp_all
  next
    case long: True
    then obtain m ms' where ms: "ms = m # ms'" using Suc.prems(2) by (cases ms) auto
    have wf: "well_formed m" "list_all well_formed ms'" using Suc.prems(1) ms by simp_all
    have cut: "ldr_data l @ later = message_bytes m @ concat (map message_bytes ms')" using Suc.prems(2) ms by simp
    note peek = message_peeked[OF wf(1) cut long]
    obtain rm rms' where r: "next_round rms = (rm, rms')" by (cases "next_round rms")
    have rm: "body_memory_there rm" "list_all body_memory_there rms'" "rms = [] \<longrightarrow> rm = plenty \<and> rms' = []"
      using r Suc.prems(5) plenty_there by (cases rms; simp)+
    have loop: "queue_messages_loop (Suc n) fuel l rms =
        (if length (message_bytes m) \<le> length (ldr_data l) then
           if \<not> new_ok rm then Inr (False, l)
           else and_then (load_message fuel l dbus_message_new_empty_header (claims (ldr_data l)) rm) (\<lambda>(loaded, l).
             if \<not> loaded then Inr (corrupted l, l) else queue_messages_loop n fuel l rms')
         else Inr (True, l))"
      using peek long Suc.prems(3,4) r by (simp split: bool.split)
    show ?thesis
    proof (cases "length (message_bytes m) \<le> length (ldr_data l)")
      case False
      then show ?thesis using loop ms by (intro stay[of True]) (simp_all add: short_of_def del: queue_messages_loop.simps)
    next
      case True
      let ?rest = "drop (length (message_bytes m)) (ldr_data l)"
      have "take (length (message_bytes m)) (ldr_data l) = message_bytes m"
        using arg_cong[OF cut, of "take (length (message_bytes m))"] True by simp
      then have d: "ldr_data l = message_bytes m @ ?rest" by (metis append_take_drop_id)
      have "message_bytes m @ ?rest @ later = message_bytes m @ concat (map message_bytes ms')"
        using cut by (subst (asm) d) simp
      then obtain rest where rest: "ldr_data l = message_bytes m @ rest" "rest @ later = concat (map message_bytes ms')"
        using d by simp
      note load = message_loaded[OF wf(1) rest(1) Suc.prems(3) rm(1) Suc.prems(6,7)]
      let ?l = "l\<lparr>ldr_messages := ldr_messages l @ [message_of m], ldr_data := rest\<rparr>"
      consider "\<not> new_ok rm" | "new_ok rm" "load_message fuel l dbus_message_new_empty_header (claims (ldr_data l)) rm = Inr (False, l)" "rms \<noteq> []"
        | "new_ok rm" "load_message fuel l dbus_message_new_empty_header (claims (ldr_data l)) rm = Inr (True, ?l)"
        using load rm(3) by auto
      then show ?thesis
      proof cases
        case 1
        then show ?thesis using loop True rm(3) by (intro stay[of False]) (auto simp: plenty_def simp del: queue_messages_loop.simps)
      next
        case 2
        then show ?thesis using loop True Suc.prems(3) by (intro stay[of False]) (auto simp del: queue_messages_loop.simps)
      next
        case 3
        have len: "length rest + 16 \<le> length (ldr_data l)" using message_at_least[of m] rest(1) by simp
        have "\<exists>ok l' k. queue_messages_loop n fuel ?l rms' = Inr (ok, l') \<and> k \<le> length ms' \<and>
             ldr_messages l' = ldr_messages ?l @ map message_of (take k ms') \<and>
             concat (map message_bytes (take k ms')) @ ldr_data l' = ldr_data ?l \<and>
             \<not> corrupted l' \<and> max_message_size l' = max_message_size ?l \<and> buffer_outstanding l' = buffer_outstanding ?l \<and>
             (ok \<longrightarrow> short_of (drop k ms') (ldr_data l')) \<and> (rms' = [] \<longrightarrow> ok)"
          using wf(2) rest(2) Suc.prems(3,4,6,7,8) rm(2) len by (intro Suc.IH) simp_all
        then obtain ok l' k where IH: "queue_messages_loop n fuel ?l rms' = Inr (ok, l')" "k \<le> length ms'"
          "ldr_messages l' = ldr_messages ?l @ map message_of (take k ms')" "concat (map message_bytes (take k ms')) @ ldr_data l' = rest"
          "\<not> corrupted l'" "max_message_size l' = max_message_size l" "buffer_outstanding l' = buffer_outstanding l"
          "ok \<longrightarrow> short_of (drop k ms') (ldr_data l')" "rms' = [] \<longrightarrow> ok" by auto
        have "queue_messages_loop (Suc n) fuel l rms = Inr (ok, l')" unfolding loop using True 3 IH(1) by simp
        then show ?thesis using IH(2-9) rest(1) rm(3) ms
          by (intro exI[of _ ok] exI[of _ l'] exI[of _ "Suc k"]) (simp del: queue_messages_loop.simps)
      qed
    qed
  qed
qed simp

section \<open>A stream of well-formed messages\<close>

text \<open>
  Events that may happen: the maximum size stays as it is, and the validation of bodies has its
  memory. All other allocations may fail.
\<close>

fun ordinary :: "loader_event \<Rightarrow> bool" where
  "ordinary (Queue rms) \<longleftrightarrow> list_all body_memory_there rms"
| "ordinary (Limit n) \<longleftrightarrow> False"
| "ordinary _ \<longleftrightarrow> True"

abbreviation all_bytes :: "message_content list \<Rightarrow> byte list" where
  "all_bytes ms \<equiv> concat (map message_bytes ms)"

text \<open>After the bytes \<open>bs\<close> some of the messages are delivered and the buffer holds the rest.\<close>

definition on_course :: "message_content list \<Rightarrow> stream \<Rightarrow> byte list \<Rightarrow> bool" where
  "on_course ms s bs \<longleftrightarrow>
     (let l = loader s in \<not> corrupted l \<and> max_message_size l = DBUS_MAXIMUM_MESSAGE_LENGTH \<and> \<not> buffer_outstanding l \<and>
      (\<exists>k \<le> length ms. delivered s = map message_of (take k ms) \<and> all_bytes (take k ms) @ ldr_data l = bs \<and>
         (memory_sufficed s \<longrightarrow> short_of (drop k ms) (ldr_data l))))"

lemma course_start: "on_course ms fresh_stream []"
  by (auto simp: on_course_def fresh_stream_def fresh_loader_def dbus_message_loader_new_def delivered_def)

lemma all_bytes_split: "all_bytes (take k ms) @ d = bs \<Longrightarrow> bs @ later = all_bytes ms \<Longrightarrow> d @ later = all_bytes (drop k ms)"
proof -
  assume "all_bytes (take k ms) @ d = bs" "bs @ later = all_bytes ms"
  moreover have "all_bytes ms = all_bytes (take k ms) @ all_bytes (drop k ms)"
    by (metis append_take_drop_id concat_append map_append)
  ultimately show ?thesis by (metis append.assoc same_append_eq)
qed

lemma course_queue:
  assumes "on_course ms s bs" "list_all well_formed ms" "bs @ later = all_bytes ms" "length (all_bytes ms) \<le> STRING_MAX_MAX_LENGTH"
    and "513 * (length (all_bytes ms) + 1) \<le> fuel" "list_all body_memory_there rms"
  shows "\<exists>s'. stream_step fuel (Inr s) (Queue rms) = Inr s' \<and> on_course ms s' bs \<and> (rms = [] \<longrightarrow> memory_sufficed s')"
proof -
  let ?l = "loader s"
  obtain k where k: "k \<le> length ms" "delivered s = map message_of (take k ms)" "all_bytes (take k ms) @ ldr_data ?l = bs"
    using assms(1) by (auto simp: on_course_def Let_def)
  have l: "\<not> corrupted ?l" "max_message_size ?l = DBUS_MAXIMUM_MESSAGE_LENGTH" "\<not> buffer_outstanding ?l"
    using assms(1) by (simp_all add: on_course_def Let_def)
  note rest = all_bytes_split[OF k(3) assms(3)]
  have wf: "list_all well_formed (drop k ms)" using assms(2) by (auto simp: list_all_iff dest: in_set_dropD)
  have len: "length (ldr_data ?l) \<le> length (all_bytes ms)" 
    unfolding assms(3)[symmetric] k(3)[symmetric] by simp
  have "length (ldr_data ?l) \<le> STRING_MAX_MAX_LENGTH" "513 * (length (ldr_data ?l) + 1) \<le> fuel"
    using le_trans[OF len assms(4)] le_trans[OF mult_le_mono2[OF add_le_mono1[OF len]] assms(5)] by blast+
  from loop_delivers[OF wf rest l(1,2) assms(6) this lessI]
  obtain ok l' j where q: "queue_messages_loop (Suc (length (ldr_data ?l))) fuel ?l rms = Inr (ok, l')" "j \<le> length (drop k ms)"
    "ldr_messages l' = ldr_messages ?l @ map message_of (take j (drop k ms))" "all_bytes (take j (drop k ms)) @ ldr_data l' = ldr_data ?l"
    "\<not> corrupted l'" "max_message_size l' = max_message_size ?l" "buffer_outstanding l' = buffer_outstanding ?l"
    "ok \<longrightarrow> short_of (drop j (drop k ms)) (ldr_data l')" "rms = [] \<longrightarrow> ok" by blast
  let ?s = "s\<lparr>loader := l', memory_sufficed := ok\<rparr>"
  have t: "take (k + j) ms = take k ms @ take j (drop k ms)" by (rule take_add)
  have "delivered ?s = delivered s @ map message_of (take j (drop k ms))" using q(3) by (simp add: delivered_def)
  then have d: "delivered ?s = map message_of (take (k + j) ms)" unfolding t using k(2) by simp
  have b: "all_bytes (take (k + j) ms) @ ldr_data l' = bs" unfolding t using q(4) k(3) by simp
  have "k + j \<le> length ms" "ok \<longrightarrow> short_of (drop (k + j) ms) (ldr_data l')" using q(2,8) k(1) by (simp_all add: add.commute)
  then have "on_course ms ?s bs" unfolding on_course_def Let_def
    using q(5-7) l d b by (intro conjI exI[of _ "k + j"]) simp_all
  moreover have "stream_step fuel (Inr s) (Queue rms) = Inr ?s"
    using q(1) by (simp add: dbus_message_loader_queue_messages_def del: queue_messages_loop.simps)
  ultimately show ?thesis using q(9) by (intro exI[of _ ?s]) (simp del: stream_step.simps)
qed

lemma course_step:
  assumes "on_course ms s bs" "list_all well_formed ms" "(bs @ brought [e]) @ later = all_bytes ms"
    "length (all_bytes ms) \<le> STRING_MAX_MAX_LENGTH" "513 * (length (all_bytes ms) + 1) \<le> fuel" "ordinary e"
  shows "\<exists>s'. stream_step fuel (Inr s) e = Inr s' \<and> on_course ms s' (bs @ brought [e])"
proof (cases e)
  case (Arrive b)
  then show ?thesis using assms(1)
    by (fastforce simp: on_course_def Let_def dbus_message_loader_get_buffer_def dbus_message_loader_return_buffer_def delivered_def)
next
  case (Queue rms)
  then show ?thesis using course_queue[OF assms(1,2) _ assms(4,5), of later rms] assms(3,6) by auto
next
  case Take
  then show ?thesis using assms(1)
    by (cases "ldr_messages (loader s)")
      (fastforce simp: on_course_def Let_def dbus_message_loader_pop_message_def delivered_def)+
next
  case (Limit n)
  then show ?thesis using assms(6) by simp
qed

lemma course_run:
  assumes "list_all well_formed ms" "length (all_bytes ms) \<le> STRING_MAX_MAX_LENGTH" "513 * (length (all_bytes ms) + 1) \<le> fuel"
  shows "on_course ms s bs \<Longrightarrow> list_all ordinary es \<Longrightarrow> (bs @ brought es) @ later = all_bytes ms \<Longrightarrow>
    \<exists>s'. run (stream_step fuel) (Inr s) es = Inr s' \<and> on_course ms s' (bs @ brought es)"
proof (induction es arbitrary: s bs)
  case (Cons e es)
  have b: "brought (e # es) = brought [e] @ brought es" by (cases e) simp_all
  have "(bs @ brought [e]) @ brought es @ later = all_bytes ms" using Cons.prems(3) b by simp
  then obtain s1 where s1: "stream_step fuel (Inr s) e = Inr s1" "on_course ms s1 (bs @ brought [e])"
    using course_step[OF Cons.prems(1) assms(1) _ assms(2,3)] Cons.prems(2) by auto
  then obtain s2 where "run (stream_step fuel) (Inr s1) es = Inr s2" "on_course ms s2 ((bs @ brought [e]) @ brought es)"
    using Cons.IH[OF s1(2)] Cons.prems(2,3) b by auto
  then show ?case using s1(1) by (intro exI[of _ s2]) (simp add: b del: stream_step.simps)
qed simp

lemma take_prefix_map: "prefix (map f (take k xs)) (map f xs)"
  by (metis append_take_drop_id map_append prefixI)

lemma arrived_delivered:
  assumes "on_course ms s bs" "memory_sufficed s" "j \<le> length ms" "length (all_bytes (take j ms)) \<le> length bs"
  shows "j \<le> length (delivered s)"
proof -
  obtain k where k: "k \<le> length ms" "delivered s = map message_of (take k ms)" "all_bytes (take k ms) @ ldr_data (loader s) = bs"
    "short_of (drop k ms) (ldr_data (loader s))"
    using assms(1,2) by (auto simp: on_course_def Let_def)
  have "j \<le> k"
  proof (rule ccontr)
    assume j: "\<not> j \<le> k"
    then obtain m ms' where m: "drop k ms = m # ms'" using assms(3) by (cases "drop k ms") auto
    have "take j ms = take k ms @ take (j - k) (drop k ms)" using j take_add[of k "j - k" ms] by simp
    moreover have "take (j - k) (drop k ms) = m # take (j - k - 1) ms'" using j m by (cases "j - k") simp_all
    ultimately have "length (all_bytes (take k ms)) + length (message_bytes m) \<le> length bs" using assms(4) by simp
    then show False using k(4) m arg_cong[OF k(3), of length] by (simp add: short_of_def)
  qed
  then show ?thesis using k(1,2) by simp
qed

text \<open>
  C1. Well-formed messages are delivered: when the bytes of well-formed messages arrive, cut into any
  pieces and with queueing and taking at any time, the loader never fails an assertion and is never
  corrupted, what it has delivered is a beginning of the messages, in their order and unchanged, and
  after a queueing that has its memory every message whose last byte has arrived is delivered. Any
  allocation may fail but those of the validation of bodies.
\<close>

theorem messages_delivered:
  assumes "list_all well_formed ms" "list_all ordinary es" "brought es @ later = all_bytes ms"
    and "length (all_bytes ms) \<le> STRING_MAX_MAX_LENGTH" "513 * (length (all_bytes ms) + 1) \<le> fuel"
  shows "(\<exists>s. run_stream fuel es = Inr s \<and> \<not> corrupted (loader s) \<and> prefix (delivered s) (map message_of ms)) \<and>
    (\<exists>s. run_stream fuel (es @ [Queue []]) = Inr s \<and> \<not> corrupted (loader s) \<and> prefix (delivered s) (map message_of ms) \<and>
       (\<forall>j \<le> length ms. length (all_bytes (take j ms)) \<le> length (brought es) \<longrightarrow> j \<le> length (delivered s)))"
proof -
  obtain s where s: "run_stream fuel es = Inr s" "on_course ms s (brought es)"
    using course_run[OF assms(1,4,5) course_start assms(2)] assms(3) by auto
  obtain s' where s': "stream_step fuel (Inr s) (Queue []) = Inr s'" "on_course ms s' (brought es)" "memory_sufficed s'"
    using course_queue[OF s(2) assms(1,3,4,5), of "[]"] by auto
  have r: "run_stream fuel (es @ [Queue []]) = Inr s'" using s(1) s'(1) by (simp add: run_append del: stream_step.simps)
  have p: "\<not> corrupted (loader t) \<and> prefix (delivered t) (map message_of ms)" if "on_course ms t (brought es)" for t
    using that take_prefix_map by (fastforce simp: on_course_def Let_def)
  show ?thesis using s(1) r p[OF s(2)] p[OF s'(2)] arrived_delivered[OF s'(2,3)] by blast
qed

section \<open>Two messages as an example\<close>

definition sample_message :: message_content where
  "sample_message = \<lparr>mc_header = sample_call, mc_types = [Basic DBUS_TYPE_UINT32], mc_vals = [Val (V_u32 5)]\<rparr>"

definition sample_answer :: message_content where
  "sample_answer = \<lparr>mc_header = sample_reply, mc_types = [], mc_vals = []\<rparr>"

lemma samples_well_formed: "list_all well_formed [sample_message, sample_answer]"
  by code_simp

lemma samples_length: "length (all_bytes [sample_message, sample_answer]) = 84"
  by code_simp

abbreviation (input) sample_bytes :: "byte list" where
  "sample_bytes \<equiv> all_bytes [sample_message, sample_answer]"

text \<open>The messages in two ways: at once, and in three pieces with allocations that fail.\<close>

definition at_once :: "loader_event list" where
  "at_once = [Arrive sample_bytes, Queue [], Take]"

definition in_pieces :: "loader_event list" where
  "in_pieces = [Arrive (take 10 sample_bytes), Queue [], Arrive (take 50 (drop 10 sample_bytes)),
     Queue [plenty\<lparr>append_ok := False\<rparr>], Take, Arrive (drop 60 sample_bytes), Queue [plenty\<lparr>header_copy_ok := False\<rparr>], Queue []]"

lemma samples_fed: "list_all ordinary at_once" "list_all ordinary in_pieces" "brought at_once = sample_bytes" "brought in_pieces = sample_bytes"
proof -
  have "drop 60 b = drop 50 (drop 10 b)" for b :: "byte list" by simp
  then have "take 10 b @ take 50 (drop 10 b) @ drop 60 b = b" for b :: "byte list" by (simp only: append_take_drop_id)
  then show "brought in_pieces = sample_bytes" unfolding in_pieces_def by (simp del: list.map)
qed (simp_all add: at_once_def in_pieces_def body_memory_there_def plenty_def)

lemma samples_run:
  assumes "list_all ordinary es" "brought es = sample_bytes"
  shows "\<exists>s. run_stream 44000 es = Inr s"
  using course_run[OF samples_well_formed _ _ course_start assms(1), of 44000 "[]"] assms(2) samples_length
  by auto

theorem messages_delivered_witness:
  "\<exists>s. run_stream 44000 (in_pieces @ [Queue []]) = Inr s \<and> delivered s = [message_of sample_message, message_of sample_answer]"
proof -
  let ?ms = "[sample_message, sample_answer]"
  have small: "length (all_bytes ?ms) \<le> STRING_MAX_MAX_LENGTH" "513 * (length (all_bytes ?ms) + 1) \<le> 44000"
    unfolding samples_length by simp_all
  have b: "brought in_pieces @ [] = all_bytes ?ms" using samples_fed(4) by simp
  obtain s where s: "run_stream 44000 (in_pieces @ [Queue []]) = Inr s" "prefix (delivered s) (map message_of ?ms)"
    "\<forall>j \<le> length ?ms. length (all_bytes (take j ?ms)) \<le> length (brought in_pieces) \<longrightarrow> j \<le> length (delivered s)"
    using messages_delivered[OF samples_well_formed samples_fed(2) b small] by blast
  have "2 \<le> length (delivered s)" using s(3)[rule_format, of 2] samples_fed(4) by simp
  then have "delivered s = map message_of ?ms" using s(2) by (cases "delivered s"; cases "tl (delivered s)") (auto simp: prefix_def)
  then show ?thesis using s(1) by auto
qed

theorem stream_preserved_witness:
  "\<exists>s. run_stream 44000 in_pieces = Inr s \<and> concat (map wire (delivered s)) @ ldr_data (loader s) = sample_bytes"
  using samples_run[OF samples_fed(2,4)] stream_preserved samples_fed(4) by metis

theorem cutting_is_irrelevant_witness:
  "\<exists>s s'. run_stream 44000 at_once = Inr s \<and> run_stream 44000 in_pieces = Inr s' \<and>
    (prefix (map wire (delivered s)) (map wire (delivered s')) \<or> prefix (map wire (delivered s')) (map wire (delivered s)))"
proof -
  obtain s s' where "run_stream 44000 at_once = Inr s" "run_stream 44000 in_pieces = Inr s'"
    using samples_run samples_fed by metis
  then show ?thesis using cutting_is_irrelevant[of 44000 at_once s 44000 in_pieces s'] samples_fed(3,4) by auto
qed

section \<open>The one allocation that matters\<close>

text \<open>A good message with a signature in its body, and a round in which validating that signature lacks memory.\<close>

definition signature_message :: message_content where
  "signature_message = \<lparr>mc_header = sample_reply\<lparr>hc_body_len := 3, hc_fields :=
       [(5, Basic DBUS_TYPE_UINT32, Val (V_u32 7)), (8, Basic DBUS_TYPE_SIGNATURE, Val (V_str [DBUS_TYPE_SIGNATURE]))]\<rparr>,
     mc_types = [Basic DBUS_TYPE_SIGNATURE], mc_vals = [Val (V_str [DBUS_TYPE_INT32])]\<rparr>"

definition signature_loader :: DBusMessageLoader where
  "signature_loader = fresh_loader\<lparr>ldr_data := message_bytes signature_message\<rparr>"

lemma body_oom_corrupts:
  "well_formed signature_message"
  "load_message 19000 signature_loader dbus_message_new_empty_header (claims (message_bytes signature_message)) (plenty\<lparr>body_mem := (\<lambda>_. [False])\<rparr>) =
     Inr (False, signature_loader\<lparr>corrupted := True, corruption_reason := DBUS_VALIDITY_UNKNOWN_OOM_ERROR\<rparr>)"
proof -
  let ?h = "mc_header signature_message" and ?d = "message_bytes signature_message" and ?msg = "dbus_message_new_empty_header"
  let ?pad = "header_padding ?h"
  show wf: "well_formed signature_message" by code_simp
  have len: "length ?d = 35" by code_simp
  have v: "header_verdict ?h ?pad = Inr [-2, -2, -2, -2, -2, 20, -2, -2, 28]" by code_simp
  let ?hd = "loaded_as (msg_header ?msg) ?h ?pad [-2, -2, -2, -2, -2, 20, -2, -2, 28]"
  have h: "header_fits ?h" "length ?pad = header_size ?h - (16 + length (fields_bytes ?h))" "hdr_data (msg_header ?msg) = []"
    "hdr_fields (msg_header ?msg) = no_fields" by code_simp+
  have d: "?d = header_bytes ?h @ ?pad @ body_bytes signature_message" by (simp add: message_bytes_def)
  have small: "length ?d \<le> STRING_MAX_MAX_LENGTH" "513 * (length ?d + 1) \<le> 19000" unfolding len by simp_all
  have load: "dbus_header_load 19000 (msg_header ?msg) False (claims ?d) ?d 0 (length ?d) True (\<lambda>_. []) = Inr ?hd"
    using load_verdict(1)[OF h(1,2) d small h(3,4)] by (simp add: v)
  have sig: "get_const_signature 19000 ?hd = Inr (header_bytes ?h @ ?pad, 29, ?hd)" by code_simp
  have body: "dbus_validate_body_with_reason 19000 (header_bytes ?h @ ?pad) 29 DBUS_LITTLE_ENDIAN False ?d 32 3 (\<lambda>_. [False]) =
      Inl (Invalid DBUS_VALIDITY_UNKNOWN_OOM_ERROR)" by code_simp
  have c: "claims ?d = \<lparr>claimed_byte_order = DBUS_LITTLE_ENDIAN, claimed_fields_array_len = 15, claimed_header_len = 32, claimed_body_len = 3\<rparr>"
    by code_simp
  show "load_message 19000 signature_loader ?msg (claims ?d) (plenty\<lparr>body_mem := (\<lambda>_. [False])\<rparr>) =
     Inr (False, signature_loader\<lparr>corrupted := True, corruption_reason := DBUS_VALIDITY_UNKNOWN_OOM_ERROR\<rparr>)"
    using load sig body h(3) len unfolding c
    by (simp add: load_message_def Let_def signature_loader_def plenty_def)
qed

end
