(* ===== verification/Spec2Isabelle.thy ===== *)
theory Spec2Isabelle
  imports Prelude Protocol Signature SigIter Names Registry Policy Services RegistrySteps NameQueue NameService NameCancel NameProps LinkedList DString ByteOrder Sha
    Credentials Auth AuthInv AuthRuns AuthServer AuthClient AuthLogin
    Marshal MarshalBasic TypeReader Values Body BodyTerm BodyBasic BodyTypes BodySound ReaderWalk
    Attempt Address AddressProps Header BodyEmbed HeaderLoad HeaderFields HeaderExact HeaderProps
    Loader LoaderSteps LoaderProps LoaderState Delivery
begin

text \<open>
  \<^bold>\<open>A verification library for D-Bus 1.2.12.\<close>

  The repository is the open-source release of a set-top device: a Linux kernel, a boot loader, BusyBox
  and a dozen further packages, each as its authors published it, besides D-Bus, the message bus its
  processes talk over. This library is about D-Bus (\<open>src/dbus-1.2.12\<close>, directories \<open>dbus\<close> and
  \<open>bus\<close>), the part in which untrusted peers meet a protocol, a type system and an access policy.

  \<^bold>\<open>The program and its parts.\<close> A peer connects to the daemon over a socket. First both run the
  authentication conversation, a line protocol (\<open>dbus-auth.c\<close>), which decides which user the peer is
  (\<open>dbus-credentials.c\<close>) with the help of SHA-1 (\<open>dbus-sha.c\<close>) and of the string operations
  (\<open>dbus-string.c\<close>). After that the socket carries messages. The body of a message is a block of
  marshalled values (\<open>dbus-marshal-basic.c\<close>) described by a signature, a word over type codes
  (\<open>dbus-protocol.h\<close>, \<open>dbus-signature.c\<close>). Signature, names in the header and body are validated
  once on arrival (\<open>dbus-marshal-validate.c\<close>), everything after that iterates over the body with type
  readers that rely on the validation (\<open>dbus-marshal-recursive.c\<close>). The daemon keeps the registry of
  bus names with the queues of their owners (\<open>bus/services.c\<close>), changed in transactions that can be
  cancelled (\<open>bus/connection.c\<close>), and asks the security policy of a client (\<open>bus/policy.c\<close>) before
  it gives it a name or passes a message on. Lists (\<open>dbus-list.c\<close>) are used everywhere.

  \<^bold>\<open>Conventions.\<close>
  \<^item> A \<open>DBusString\<close> is the list of its bytes (\<open>8 word\<close>); a literal of the source is
    \<open>ascii ''...''\<close>. Buffers are aligned to 8 bytes, as \<open>fixup_alignment\<close> makes them, so that the
    alignment of an address is that of a position. Positions and lengths are natural numbers; where the
    code computes them in an \<open>int\<close> and the excess can occur, a position above its range is an abort.
    Values on the wire are words of their width, and arithmetic that wraps in C wraps here.
  \<^item> \<open>malloc\<close> is an oracle, the list of the answers of the allocations to come (\<open>mem_oracle\<close>; the
    empty list stands for memory without end). Every allocation whose failure the code handles consumes
    an answer, in the order of the code, and theorems quantify over all oracles.
  \<^item> A failed assertion, a read outside a string and a step the C standard leaves undefined are one
    outcome, \<open>None\<close> or \<open>Aborted\<close>; the model is the build with assertions. That an operation does not
    end so is part of every theorem about it.
  \<^item> Errors are values: the validators' verdicts (\<open>dbus_validity\<close>), the request codes of the driver,
    the outcomes of authentication commands, the error of an operation that ran out of memory.
  \<^item> The host is little-endian, the branch of \<open>WORDS_BIGENDIAN\<close> that the device's processor takes.
  \<^item> Leading underscores of names are dropped, otherwise names are those of the source.
  \<^item> Loops and recursions that are not structural run on fuel, and an outcome of its own marks that it did
    not suffice. Theorems about termination give the fuel that does.

  \<^bold>\<open>Theories.\<close>

  \<^emph>\<open>Ground.\<close> \<open>Prelude\<close> holds bytes, the oracle, facts on lists, and two locales: \<open>machine\<close>, runs
  of a deterministic partial step function with the lemma that an invariant of a step is one of every
  reachable state, and \<open>incremental\<close>, a context that is fed pieces and finished. \<open>Protocol\<close> has the
  type codes, their classification and alignment.

  \<^emph>\<open>Signatures and names.\<close> \<open>Signature\<close>: the loop of \<open>_dbus_validate_signature_with_reason\<close> with
  its depth counters and the stack of element counts, the grammar of types as a datatype with printer
  and limits; the validator accepts every printed list of types within the limits, accepts without dict
  entries nothing else, and is transparent for failed allocations. \<open>SigIter\<close>: the public iterator over
  signatures and \<open>_dbus_type_signature_next\<close>, which moves past exactly one type. \<open>Names\<close>: the five
  validators of object paths, interfaces, members, error names and bus names, each with the set of
  strings it accepts.

  \<^emph>\<open>Registry and policy.\<close> \<open>Registry\<close> is the data of \<open>bus/services.c\<close> as an explicit store of
  service and owner objects with reference counts, and the transaction being built with its cancel
  hooks and messages; \<open>Services\<close> the operations from \<open>bus_registry_ensure\<close> and
  \<open>bus_service_add_owner\<close> up to \<open>bus_registry_acquire_service\<close>, the release, the driver's signals and
  the disconnection of a client. \<open>RegistrySteps\<close> computes each operation when memory is available;
  \<open>NameQueue\<close> is the abstract specification, for every name the queue of its owners with their flags,
  and the refinement of the elementary updates; \<open>NameService\<close> lifts it to the requests of clients;
  \<open>NameCancel\<close> follows the cancelled transactions; \<open>NameProps\<close> states the theorems: both requests
  refine the specification with exactly the signals sent, every reachable state is well formed and
  within the limit, a failed request restores the queues where it does. \<open>Policy\<close>: rules,
  \<open>bus_client_policy_check_can_own\<close>, \<open>_send\<close>, \<open>_receive\<close>, \<open>list_allows_user\<close> and the optimiser;
  the four scans are instances of one locale, in which the last applicable rule is shown to decide.

  \<^emph>\<open>Containers and strings.\<close> \<open>LinkedList\<close>: rings of links in an explicit store, every surgery
  refining the operation on sequences and leaving the rest of the store alone. \<open>DString\<close>: searching,
  blanks, hexadecimal coding, ASCII and UTF-8 validation; the validator accepts exactly the encodings
  of allowed characters. \<open>ByteOrder\<close>: the swap macros. \<open>Sha\<close>: the unrolled transformation and the
  streaming interface, equal to the digest of the standard on everything fed.

  \<^emph>\<open>Authentication.\<close> \<open>Credentials\<close>; \<open>Auth\<close>: \<open>DBusAuth\<close> as a record, every state function and
  mechanism of client and server, buffers, \<open>process_command\<close> and \<open>_dbus_auth_do_work\<close>. The operating
  system is the parameter \<open>auth_env\<close>: user database, process credentials, random bytes, cookies by
  context and number; theorems hold for every one, or name what they ask of it. \<open>AuthInv\<close>: rules for
  postconditions and what every handler keeps; \<open>AuthRuns\<close>: the locale of a side of a conversation, in
  which taking a line, the work loop and a run keep the invariant; \<open>AuthServer\<close>, \<open>AuthClient\<close>: its
  two interpretations and their theorems; \<open>AuthLogin\<close>: the two sides composed.

  \<^emph>\<open>Messages.\<close> \<open>Marshal\<close>: reading, writing, replacing and skipping of basic values and of blocks of
  fixed-size values, with the string insertions they use; \<open>MarshalBasic\<close>: their refinement of a
  reference encoding. \<open>TypeReader\<close>: the reader with its nine classes, the virtual tables resolved by
  cases. \<open>Values\<close>: values, their types and the encoding of the specification. \<open>Body\<close>: the body
  validator; \<open>BodyTerm\<close>: it returns, and more fuel or less memory change nothing; \<open>BodyBasic\<close>,
  \<open>BodyTypes\<close>: it accepts the encoding of all well-typed values; \<open>BodySound\<close>: it accepts nothing
  else on bodies that cannot hold a crossed signature, up to the ragged arrays that are a finding;
  \<open>ReaderWalk\<close>: readers step over and read back every encoding, hence whatever was validated.


  \<^emph>\<open>Headers and the loader.\<close> \<open>Header\<close> models \<open>dbus-marshal-header.c\<close>: the header is its bytes, the
  cache of the positions of its fields, padding and byte order; \<open>_dbus_header_have_message_untrusted\<close>
  reads the claimed lengths, \<open>_dbus_header_load\<close> validates and fills the cache, the getters read
  through it. \<open>BodyEmbed\<close> moves the completeness of the body validator to a signature that stands inside
  a header. \<open>HeaderLoad\<close> has the reference, a header as the values of its fixed part and its fields
  (\<open>header_content\<close>) with the verdict on them (\<open>header_verdict\<close>); \<open>HeaderFields\<close> follows the loop over
  the fields, \<open>HeaderExact\<close> the whole function and \<open>HeaderProps\<close> states that the verdict is the
  reference's and what the getters of an accepted header return. \<open>Loader\<close> models the loader of
  \<open>dbus-message.c\<close>; \<open>LoaderSteps\<close> computes one round of its loop, \<open>LoaderProps\<close> models the stream of
  a connection as runs over events (bytes arrive, messages are queued, one is taken, the limit is set)
  with the invariant that nothing is lost, \<open>LoaderState\<close> adds what corruption means, and \<open>Delivery\<close>
  composes all of it with the encoding of values: well-formed messages, cut in any way, are handed out.
  Its streams are no longer than a string may be.

  \<^emph>\<open>Addresses.\<close> \<open>Attempt\<close>: functions that report through a \<open>DBusError\<close>, and when an attempt
  computes a result. \<open>Address\<close> models \<open>dbus-address.c\<close>, \<open>AddressProps\<close> relates its loops to splitting
  at the separators and states the round trips.

  \<^bold>\<open>Fuel.\<close> The work loop of a conversation needs an iteration per buffered byte and one more; the
  disconnection loop one per owned name; stepping of a types-only reader twice the length of the type,
  reading a value twice the length of signature and encoding; the body validator 513 steps for every
  byte of the body and one round more, 513 being above the nesting the signature limits allow on one
  byte; a header and a message need 513 steps for every byte of the buffer and one round more. Each bound is a theorem about all inputs, so no property depends on the number chosen.

  \<^bold>\<open>What the proofs showed.\<close> Most of the code does what it means to. Where it does not, the difference
  is a theorem on a concrete input: arrays of ragged length pass the body validator; crossed brackets
  pass the signature validator and make the body validator itself fail an assertion; a boolean may be
  read past the end of the body; cancelled swaps duplicate an owner and cancelled removals leave a freed
  one; the optimiser drops a receive rule too many; an authentication line with a line feed aborts a
  server built with assertions, and a retry after an allocation failure rejects a valid client; a message
  whose body cannot be validated for lack of memory kills its connection; names that begin like the
  local ones are refused; escaping reads in front of a table where characters are signed.

  \<^bold>\<open>Not modelled.\<close> System calls and what only moves data between them: sockets, transports, the main
  loop, threads, configuration files, activation and the cookie files; their results are parameters
  where a modelled part uses them. The type writers, and with them building messages and changing the
  fields of a header. Memory management below the oracle: reallocation sizes, reference
  counts of connections and messages, memory pools. Verbose output, the test programs inside the
  sources, and the Windows and big-endian branches. The other packages of the repository are third-party
  programs the device only runs.
\<close>

end
